(* ===== verification/Prelude.thy ===== *)
theory Prelude
  imports Main "HOL-Library.Word" "HOL-Library.List_Lexorder" "HOL-Library.Multiset"
begin

text \<open>
  Shared vocabulary of the development: byte strings and machine words, Go errors as values,
  \<^verbatim>\<open>encoding/binary.LittleEndian\<close>, \<^verbatim>\<open>bytes.Compare\<close>, and the generic lemmas on lists, options
  and words that the component theories use. Three fact collections carry the automation:
  \<open>cmp_simps\<close> turns \<^verbatim>\<open>bytes.Compare\<close> conditions into the linear order on byte strings,
  \<open>codec_simps\<close> evaluates encodings and their lengths, \<open>inv_rules\<close> collects the preservation
  facts of the component invariants.
\<close>

unbundle bit_operations_syntax

named_theorems cmp_simps \<open>conditions on bytes.Compare as order facts\<close>
named_theorems codec_simps \<open>round trips and lengths of fixed width encodings\<close>
named_theorems inv_rules \<open>preservation facts of component invariants\<close>

section \<open>Types\<close>

type_synonym byte = "8 word"
type_synonym bytes = "byte list"
type_synonym u32 = "32 word"
type_synonym u64 = "64 word"

text \<open>
  Go errors. \<open>EWrap m e\<close> is \<^verbatim>\<open>fmt.Errorf("m: %w", e)\<close>, \<open>EMsg m\<close> an error with no wrapped
  cause; the remaining constructors are the sentinel values the code compares against.
  \<open>EPanic\<close> stands for a run-time panic (an index out of range, a division by zero).
\<close>

datatype error =
    EPanic
  | ENotExist
  | EIO
  | EEOF
  | EUnexpectedEOF
  | ErrEmptyMerge
  | ErrClosed
  | ErrNotFound
  | ErrEmptyKey
  | EMsg string
  | EWrap string error

text \<open>\<^verbatim>\<open>errors.Is(err, target)\<close>: the target occurs in the chain of wrapped errors.\<close>

fun errors_Is :: "error \<Rightarrow> error \<Rightarrow> bool" where
  "errors_Is (EWrap m e) t = (EWrap m e = t \<or> errors_Is e t)"
| "errors_Is e t = (e = t)"

section \<open>encoding/binary.LittleEndian\<close>

fun le_put :: "nat \<Rightarrow> 'a::len word \<Rightarrow> bytes" where
  "le_put 0 v = []"
| "le_put (Suc n) v = ucast v # le_put n (drop_bit 8 v)"

fun le_get :: "bytes \<Rightarrow> 'a::len word" where
  "le_get [] = 0"
| "le_get (b # bs) = ucast b OR push_bit 8 (le_get bs)"

definition PutUint32 :: "u32 \<Rightarrow> bytes" where
  "PutUint32 v = le_put 4 v"

definition PutUint64 :: "u64 \<Rightarrow> bytes" where
  "PutUint64 v = le_put 8 v"

definition Uint32 :: "bytes \<Rightarrow> u32" where
  "Uint32 bs = le_get (take 4 bs)"

definition Uint64 :: "bytes \<Rightarrow> u64" where
  "Uint64 bs = le_get (take 8 bs)"

text \<open>\<^verbatim>\<open>b[i:j]\<close>\<close>

definition slice :: "nat \<Rightarrow> nat \<Rightarrow> 'a list \<Rightarrow> 'a list" where
  "slice i j bs = take (j - i) (drop i bs)"

section \<open>bytes.Compare\<close>

fun bytes_Compare :: "bytes \<Rightarrow> bytes \<Rightarrow> int" where
  "bytes_Compare [] [] = 0"
| "bytes_Compare [] (y # ys) = - 1"
| "bytes_Compare (x # xs) [] = 1"
| "bytes_Compare (x # xs) (y # ys) =
     (if x < y then - 1 else if y < x then 1 else bytes_Compare xs ys)"

section \<open>Lemmas\<close>

subsection \<open>Lists and options\<close>

lemma length_slice [simp]: "length (slice i j bs) = min (j - i) (length bs - i)"
  by (simp add: slice_def)

lemma slice_append_left: "j \<le> length xs \<Longrightarrow> slice i j (xs @ ys) = slice i j xs"
  by (simp add: slice_def)

lemma slice_append_right: "length xs \<le> i \<Longrightarrow> slice i j (xs @ ys) = slice (i - length xs) (j - length xs) ys"
  by (simp add: slice_def)

lemma slice_full [simp]: "slice 0 (length xs) xs = xs"
  by (simp add: slice_def)

lemma slice_middle: "slice (length xs) (length xs + length ys) (xs @ ys @ zs) = ys"
  by (simp add: slice_def)

lemma find_append: "find P (xs @ ys) = (case find P xs of None \<Rightarrow> find P ys | Some x \<Rightarrow> Some x)"
  by (induction xs) auto

subsection \<open>Little endian encodings\<close>

lemma length_le_put [codec_simps, simp]: "length (le_put n v) = n"
  by (induction n arbitrary: v) auto

lemma le_get_le_put: "le_get (le_put n v) = take_bit (8 * n) (v :: 'a::len word)"
proof (induction n arbitrary: v)
  case 0
  then show ?case by simp
next
  case (Suc n)
  show ?case
    by (rule bit_word_eqI) (auto simp: Suc bit_simps)
qed

lemma le_put_le_get: "8 * length bs \<le> LENGTH('a) \<Longrightarrow> le_put (length bs) (le_get bs :: 'a::len word) = bs"
proof (induction bs)
  case Nil
  then show ?case by simp
next
  case (Cons b bs)
  have hd: "ucast (ucast b OR push_bit 8 (le_get bs :: 'a word)) = b"
    using Cons.prems by (intro bit_word_eqI) (auto simp: bit_simps)
  have "drop_bit 8 (ucast b OR push_bit 8 (le_get bs :: 'a word)) = take_bit (LENGTH('a) - 8) (le_get bs)"
    by (rule bit_word_eqI) (auto simp: bit_simps dest: bit_imp_le_length)
  moreover have "take_bit (LENGTH('a) - 8) (le_get bs :: 'a word) = le_get bs"
  proof -
    have "8 * length bs \<le> LENGTH('a) - 8"
      using Cons.prems by simp
    moreover have "le_get bs = take_bit (8 * length bs) (le_get bs :: 'a word)"
      using Cons le_get_le_put [of "length bs" "le_get bs :: 'a word"] by simp
    ultimately show ?thesis
      by (metis min.absorb2 take_bit_take_bit)
  qed
  ultimately show ?case
    using Cons hd by simp
qed

lemma Uint32_PutUint32 [codec_simps, simp]: "Uint32 (PutUint32 v) = v"
  by (simp add: Uint32_def PutUint32_def le_get_le_put take_bit_word_eq_self)

lemma Uint64_PutUint64 [codec_simps, simp]: "Uint64 (PutUint64 v) = v"
  by (simp add: Uint64_def PutUint64_def le_get_le_put take_bit_word_eq_self)

lemma Uint32_PutUint32_append [codec_simps, simp]: "Uint32 (PutUint32 v @ bs) = v"
  using Uint32_PutUint32 [of v] by (simp add: Uint32_def PutUint32_def)

lemma Uint64_PutUint64_append [codec_simps, simp]: "Uint64 (PutUint64 v @ bs) = v"
  using Uint64_PutUint64 [of v] by (simp add: Uint64_def PutUint64_def)

lemma length_PutUint32 [codec_simps, simp]: "length (PutUint32 v) = 4"
  by (simp add: PutUint32_def)

lemma length_PutUint64 [codec_simps, simp]: "length (PutUint64 v) = 8"
  by (simp add: PutUint64_def)

lemma PutUint32_Uint32 [codec_simps]: "length bs = 4 \<Longrightarrow> PutUint32 (Uint32 bs) = bs"
  using le_put_le_get [of bs, where 'a = 32] by (simp add: PutUint32_def Uint32_def)

lemma PutUint64_Uint64 [codec_simps]: "length bs = 8 \<Longrightarrow> PutUint64 (Uint64 bs) = bs"
  using le_put_le_get [of bs, where 'a = 64] by (simp add: PutUint64_def Uint64_def)

subsection \<open>Words\<close>

lemma sint_of_nat_u64: "n < 2 ^ 63 \<Longrightarrow> sint (of_nat n :: u64) = int n"
proof -
  assume n: "n < 2 ^ 63"
  then have "int n < 2 ^ 63" by (metis of_nat_less_iff of_nat_numeral of_nat_power)
  then have "signed_take_bit 63 (int n) = int n" by (intro signed_take_bit_int_eq_self) auto
  then show ?thesis by (simp add: signed_of_nat)
qed

subsection \<open>bytes.Compare is the lexicographic order\<close>

lemma bytes_Compare_less: "bytes_Compare a b < 0 \<longleftrightarrow> a < b"
  by (induction a b rule: bytes_Compare.induct) auto

lemma bytes_Compare_eq: "bytes_Compare a b = 0 \<longleftrightarrow> a = b"
  by (induction a b rule: bytes_Compare.induct) auto

lemma bytes_Compare_values: "bytes_Compare a b \<in> {- 1, 0, 1}"
  by (induction a b rule: bytes_Compare.induct) auto

lemma bytes_Compare_less_iff [cmp_simps, simp]: "bytes_Compare a b < 0 \<longleftrightarrow> a < b"
  by (rule bytes_Compare_less)

lemma bytes_Compare_eq_iff [cmp_simps, simp]: "bytes_Compare a b = 0 \<longleftrightarrow> a = b"
  by (rule bytes_Compare_eq)

lemma bytes_Compare_ge_iff [cmp_simps, simp]: "0 \<le> bytes_Compare a b \<longleftrightarrow> b \<le> a"
  using bytes_Compare_less [of a b] by (simp add: not_less flip: not_le)

lemma bytes_Compare_gt_iff [cmp_simps, simp]: "0 < bytes_Compare a b \<longleftrightarrow> b < a"
  using bytes_Compare_ge_iff [of a b] bytes_Compare_eq [of a b] by (simp add: less_le) fastforce

lemma bytes_Compare_le_iff [cmp_simps, simp]: "bytes_Compare a b \<le> 0 \<longleftrightarrow> a \<le> b"
  using bytes_Compare_gt_iff [of a b] by (simp flip: not_less)

end
