(* ===== verification/GoFS.thy ===== *)
theory GoFS
  imports Prelude "HOL-Library.AList"
begin

text \<open>
  The parts of \<^verbatim>\<open>os\<close>, \<^verbatim>\<open>io\<close> and \<^verbatim>\<open>bufio\<close> the store uses, over a small file system with faults. A
  file is its content and the length of the prefix that is durable (fsynced). A schedule decides
  for each mutating call whether it is done, fails after some bytes, or is cut off by a crash
  (after a crash nothing changes any more); theorems quantify over the schedule. Reading a file
  goes through a handle that captures the content, which the code never changes while it reads,
  and a set of unreadable offsets.
\<close>

section \<open>Definitions\<close>

subsection \<open>Files and faults\<close>

datatype outcome = Done | Fail nat | Crash nat

record inode =
  content :: bytes
  durable :: nat

record fs =
  files :: "(string \<times> inode) list"
  sched :: "nat \<Rightarrow> outcome"
  clock :: nat
  down :: bool
  unreadable :: "string \<Rightarrow> nat \<Rightarrow> bool"

definition fs_get :: "fs \<Rightarrow> string \<Rightarrow> inode option" where
  "fs_get d p = map_of (files d) p"

definition fs_set :: "string \<Rightarrow> inode \<Rightarrow> fs \<Rightarrow> fs" where
  "fs_set p f d = d\<lparr>files := AList.update p f (files d)\<rparr>"

definition fs_del :: "string \<Rightarrow> fs \<Rightarrow> fs" where
  "fs_del p d = d\<lparr>files := AList.delete p (files d)\<rparr>"

definition tick :: "fs \<Rightarrow> outcome \<times> fs" where
  "tick d =
     (if down d then (Fail 0, d)
      else case sched d (clock d) of
             Crash n \<Rightarrow> (Crash n, d\<lparr>clock := clock d + 1, down := True\<rparr>)
           | r \<Rightarrow> (r, d\<lparr>clock := clock d + 1\<rparr>))"

text \<open>A crash may hit a metadata operation before or after it took effect.\<close>

fun takes_effect :: "outcome \<Rightarrow> bool" where
  "takes_effect Done = True"
| "takes_effect (Fail n) = False"
| "takes_effect (Crash n) = (0 < n)"

fun reported :: "outcome \<Rightarrow> error option" where
  "reported Done = None"
| "reported r = Some EIO"

subsection \<open>os\<close>

definition os_Create :: "string \<Rightarrow> fs \<Rightarrow> error option \<times> fs" where
  "os_Create p d =
     (let (r, d1) = tick d
      in (reported r, if takes_effect r then fs_set p \<lparr>content = [], durable = 0\<rparr> d1 else d1))"

text \<open>\<^verbatim>\<open>os.OpenFile\<close> with \<^verbatim>\<open>O_CREATE|O_APPEND\<close>: an existing file keeps its content.\<close>

definition os_OpenAppend :: "string \<Rightarrow> fs \<Rightarrow> error option \<times> fs" where
  "os_OpenAppend p d =
     (let (r, d1) = tick d
      in (reported r,
          if takes_effect r \<and> fs_get d1 p = None then fs_set p \<lparr>content = [], durable = 0\<rparr> d1 else d1))"

definition file_Write :: "string \<Rightarrow> bytes \<Rightarrow> fs \<Rightarrow> (nat \<times> error option) \<times> fs" where
  "file_Write p b d =
     (let (r, d1) = tick d;
          n = (case r of Done \<Rightarrow> length b | Fail k \<Rightarrow> min k (length b) | Crash k \<Rightarrow> min k (length b));
          d2 = (case fs_get d1 p of
                  None \<Rightarrow> d1
                | Some f \<Rightarrow> if n = 0 then d1 else fs_set p (f\<lparr>content := content f @ take n b\<rparr>) d1)
      in ((n, reported r), d2))"

definition file_Sync :: "string \<Rightarrow> fs \<Rightarrow> error option \<times> fs" where
  "file_Sync p d =
     (let (r, d1) = tick d
      in (reported r,
          case fs_get d1 p of
            None \<Rightarrow> d1
          | Some f \<Rightarrow> if takes_effect r then fs_set p (f\<lparr>durable := length (content f)\<rparr>) d1 else d1))"

definition file_Close :: "fs \<Rightarrow> error option \<times> fs" where
  "file_Close d = (let (r, d1) = tick d in (reported r, d1))"

definition os_Rename :: "string \<Rightarrow> string \<Rightarrow> fs \<Rightarrow> error option \<times> fs" where
  "os_Rename p q d =
     (case fs_get d p of
        None \<Rightarrow> (Some ENotExist, d)
      | Some f \<Rightarrow>
          let (r, d1) = tick d
          in (reported r, if takes_effect r then fs_set q f (fs_del p d1) else d1))"

definition os_Remove :: "string \<Rightarrow> fs \<Rightarrow> error option \<times> fs" where
  "os_Remove p d =
     (case fs_get d p of
        None \<Rightarrow> (Some ENotExist, d)
      | Some f \<Rightarrow>
          let (r, d1) = tick d in (reported r, if takes_effect r then fs_del p d1 else d1))"

record handle =
  hdata :: bytes
  hbad :: "nat \<Rightarrow> bool"

definition os_Open :: "string \<Rightarrow> fs \<Rightarrow> (error + handle) \<times> fs" where
  "os_Open p d =
     (case fs_get d p of
        None \<Rightarrow> (Inl ENotExist, d)
      | Some f \<Rightarrow>
          let (r, d1) = tick d
          in (case reported r of
                None \<Rightarrow> Inr \<lparr>hdata = content f, hbad = unreadable d p\<rparr>
              | Some e \<Rightarrow> Inl e, d1))"

text \<open>\<^verbatim>\<open>f.ReadAt\<close> of \<open>n\<close> bytes at an offset: all of them or an error.\<close>

definition ReadAt :: "handle \<Rightarrow> nat \<Rightarrow> nat \<Rightarrow> error + bytes" where
  "ReadAt h n off =
     (if off + n > length (hdata h) then Inl EEOF
      else if list_ex (hbad h) [off..<off + n] then Inl EIO
      else Inr (slice off (off + n) (hdata h)))"

text \<open>
  \<^verbatim>\<open>io.ReadFull\<close> on a buffered reader over the handle, at position \<open>pos\<close>: \<^verbatim>\<open>io.EOF\<close> when nothing is
  left, \<^verbatim>\<open>io.ErrUnexpectedEOF\<close> when the file ends inside the request, the read error otherwise.
\<close>

definition ReadFull :: "handle \<Rightarrow> nat \<Rightarrow> nat \<Rightarrow> error + bytes" where
  "ReadFull h n pos =
     (if n = 0 then Inr []
      else let avail = min n (length (hdata h) - pos)
           in if list_ex (hbad h) [pos..<pos + avail] then Inl EIO
              else if avail = 0 then Inl EEOF
              else if avail < n then Inl EUnexpectedEOF
              else Inr (slice pos (pos + n) (hdata h)))"

subsection \<open>bufio.Writer with a 64 KiB buffer\<close>

record bufw =
  bw_buf :: bytes
  bw_err :: "error option"

definition bufio_size :: nat where
  "bufio_size = 65536"

definition bufio_NewWriter :: bufw where
  "bufio_NewWriter = \<lparr>bw_buf = [], bw_err = None\<rparr>"

definition bufio_Flush :: "string \<Rightarrow> bufw \<Rightarrow> fs \<Rightarrow> error option \<times> bufw \<times> fs" where
  "bufio_Flush p w d =
     (if bw_err w \<noteq> None then (bw_err w, w, d)
      else if bw_buf w = [] then (None, w, d)
      else let ((n, e), d1) = file_Write p (bw_buf w) d
           in case e of
                None \<Rightarrow> (None, w\<lparr>bw_buf := []\<rparr>, d1)
              | Some x \<Rightarrow> (Some x, w\<lparr>bw_buf := drop n (bw_buf w), bw_err := Some x\<rparr>, d1))"

function bufio_Write_loop ::
  "string \<Rightarrow> bytes \<Rightarrow> nat \<Rightarrow> bufw \<Rightarrow> fs \<Rightarrow> (nat \<times> error option) \<times> bufw \<times> fs" where
  "bufio_Write_loop p b nn w d =
     (let avail = bufio_size - length (bw_buf w)
      in if length b > avail \<and> bw_err w = None
         then if bw_buf w = []
              then let ((n, e), d1) = file_Write p b d
                   in bufio_Write_loop p (drop n b) (nn + n) (w\<lparr>bw_err := e\<rparr>) d1
              else let (e, w1, d1) = bufio_Flush p (w\<lparr>bw_buf := bw_buf w @ take avail b\<rparr>) d
                   in bufio_Write_loop p (drop avail b) (nn + avail) w1 d1
         else if bw_err w \<noteq> None then ((nn, bw_err w), w, d)
         else ((nn + length b, None), w\<lparr>bw_buf := bw_buf w @ b\<rparr>, d))"
  by pat_completeness auto
termination
proof (relation "measures [\<lambda>(p, b, nn, w, d). if bw_err w = None then 1 else 0,
    \<lambda>(p, b, nn, w, d). length b, \<lambda>(p, b, nn, w, d). length (bw_buf w)]", goal_cases)
  case 1
  then show ?case by simp
next
  case 2
  then show ?case
    by (auto simp: file_Write_def Let_def split: prod.splits outcome.splits)
next
  case 3
  then show ?case
    by (auto simp: bufio_Flush_def Let_def split: prod.splits if_splits option.splits)
qed

definition bufio_Write :: "string \<Rightarrow> bytes \<Rightarrow> bufw \<Rightarrow> fs \<Rightarrow> (nat \<times> error option) \<times> bufw \<times> fs" where
  "bufio_Write p b w d = bufio_Write_loop p b 0 w d"

declare bufio_Write_loop.simps [simp del]

text \<open>No call fails and the machine does not crash.\<close>

definition no_faults :: "fs \<Rightarrow> bool" where
  "no_faults d \<longleftrightarrow> \<not> down d \<and> (\<forall>n. sched d n = Done)"

text \<open>The one effect of a writer: the bytes \<open>s\<close> were appended to the file \<open>p\<close>.\<close>

definition wrote :: "string \<Rightarrow> bytes \<Rightarrow> fs \<Rightarrow> fs \<Rightarrow> bool" where
  "wrote p s d d' \<longleftrightarrow>
     (\<forall>q. q \<noteq> p \<longrightarrow> fs_get d' q = fs_get d q) \<and>
     fs_get d' p = map_option (\<lambda>f. f\<lparr>content := content f @ s\<rparr>) (fs_get d p) \<and>
     unreadable d' = unreadable d"

text \<open>
  The files after a restart: of every file at least the durable prefix is left, and \<open>keep\<close> says
  how much of the rest the machine had written back.
\<close>

definition reboot :: "(string \<Rightarrow> nat) \<Rightarrow> (nat \<Rightarrow> outcome) \<Rightarrow> fs \<Rightarrow> fs" where
  "reboot keep sch d =
     d\<lparr>files := map (\<lambda>(p, f). (p, let c = take (max (durable f) (keep p)) (content f)
                                    in f\<lparr>content := c, durable := length c\<rparr>)) (files d),
       sched := sch, clock := 0, down := False\<rparr>"

text \<open>
  A power cut. \<^verbatim>\<open>Sync\<close> makes the bytes of a file durable and not its name: a name that was created
  or renamed to is in the directory after a restart only once the directory itself was synced, and
  until then a name that was removed may come back. The program never syncs a directory. \<open>lost\<close>
  are the names the directory loses, \<open>stale\<close> the files that come back, \<open>keep\<close> is as for \<open>reboot\<close>.
\<close>

definition power_cut :: "(string \<Rightarrow> bool) \<Rightarrow> (string \<times> inode) list \<Rightarrow> (string \<Rightarrow> nat) \<Rightarrow> (nat \<Rightarrow> outcome) \<Rightarrow> fs \<Rightarrow> fs" where
  "power_cut lost stale keep sch d = reboot keep sch (d\<lparr>files := filter (\<lambda>(p, f). \<not> lost p) (files d) @ stale\<rparr>)"

text \<open>
  What the properties of the store after a power cut ask of the file system: it writes the names of
  a directory in the order of the calls and before they return, so that no name is lost and none
  comes back.
\<close>

definition names_kept :: "(string \<Rightarrow> bool) \<Rightarrow> (string \<times> inode) list \<Rightarrow> fs \<Rightarrow> bool" where
  "names_kept lost stale d \<longleftrightarrow> (\<forall>p. fs_get d p \<noteq> None \<longrightarrow> \<not> lost p) \<and> stale = []"

section \<open>Lemmas\<close>

lemma fs_get_set [simp]: "fs_get (fs_set p f d) q = (if q = p then Some f else fs_get d q)"
  by (simp add: fs_get_def fs_set_def update_conv')

lemma fs_get_del [simp]: "fs_get (fs_del p d) q = (if q = p then None else fs_get d q)"
  by (simp add: fs_get_def fs_del_def delete_conv')

lemma fs_set_frame [simp]:
  "sched (fs_set p f d) = sched d" "clock (fs_set p f d) = clock d" "down (fs_set p f d) = down d"
  "unreadable (fs_set p f d) = unreadable d"
  "sched (fs_del p d) = sched d" "clock (fs_del p d) = clock d" "down (fs_del p d) = down d"
  "unreadable (fs_del p d) = unreadable d"
  by (simp_all add: fs_set_def fs_del_def)

lemma fs_get_reboot:
  "fs_get (reboot keep sch d) p =
     map_option (\<lambda>f. let c = take (max (durable f) (keep p)) (content f)
                     in f\<lparr>content := c, durable := length c\<rparr>) (fs_get d p)"
proof -
  have "map_of (map (\<lambda>(p, f). (p, g p f)) xs) p = map_option (g p) (map_of xs p)"
    for g :: "string \<Rightarrow> inode \<Rightarrow> inode" and xs
    by (induction xs) auto
  then show ?thesis by (simp add: fs_get_def reboot_def)
qed

lemma power_cut_names_kept:
  assumes "names_kept lost stale d"
  shows "power_cut lost stale keep sch d = reboot keep sch d"
proof -
  have "\<not> lost p" if "(p, f) \<in> set (files d)" for p f
    using assms weak_map_of_SomeI [OF that] by (auto simp: names_kept_def fs_get_def)
  then have "filter (\<lambda>(p, f). \<not> lost p) (files d) @ stale = files d" using assms by (auto simp: names_kept_def intro!: filter_True)
  then show ?thesis by (simp add: power_cut_def)
qed

lemma fs_get_power_cut_lost: "stale = [] \<Longrightarrow> lost p \<Longrightarrow> fs_get (power_cut lost stale keep sch d) p = None"
  unfolding power_cut_def fs_get_reboot by (auto simp: fs_get_def map_of_eq_None_iff)

lemma power_cut_up [simp]:
  "sched (power_cut lost stale keep sch d) = sch" "\<not> down (power_cut lost stale keep sch d)"
  "unreadable (power_cut lost stale keep sch d) = unreadable d"
  by (simp_all add: power_cut_def reboot_def)

lemma tick_frame:
  assumes "tick d = (r, d')"
  shows "fs_get d' q = fs_get d q" and "unreadable d' = unreadable d" and "sched d' = sched d"
  using assms by (auto simp: tick_def fs_get_def split: if_splits outcome.splits)

lemma tick_no_faults: "no_faults d \<Longrightarrow> tick d = (Done, d\<lparr>clock := clock d + 1\<rparr>)"
  by (simp add: tick_def no_faults_def)

lemma no_faults_clock [simp]: "no_faults (d\<lparr>clock := c\<rparr>) = no_faults d"
  by (simp add: no_faults_def)

lemma fs_get_clock [simp]: "fs_get (d\<lparr>clock := c\<rparr>) p = fs_get d p"
  by (simp add: fs_get_def)

lemma no_faults_set [simp]:
  "no_faults (fs_set p f d) = no_faults d" "no_faults (fs_del p d) = no_faults d"
  by (simp_all add: no_faults_def)

lemma reported_None [simp]: "reported r = None \<longleftrightarrow> r = Done"
  by (cases r) auto

lemma wrote_Nil: "wrote p [] d d"
  by (auto simp: wrote_def option.map_id0 intro: option.map_ident [symmetric])

lemma wrote_trans: "wrote p s d d' \<Longrightarrow> wrote p t d' d'' \<Longrightarrow> wrote p (s @ t) d d''"
  by (auto simp: wrote_def option.map_comp comp_def)

lemma file_Write_wrote:
  assumes "file_Write p b d = ((n, e), d')"
  shows "wrote p (take n b) d d'" and "n \<le> length b" and "e = None \<Longrightarrow> n = length b"
proof -
  obtain r d1 where r: "tick d = (r, d1)" by fastforce
  have n: "n = (case r of Done \<Rightarrow> length b | Fail k \<Rightarrow> min k (length b) | Crash k \<Rightarrow> min k (length b))"
    and e: "e = reported r"
    and d': "d' = (case fs_get d1 p of None \<Rightarrow> d1
       | Some f \<Rightarrow> if n = 0 then d1 else fs_set p (f\<lparr>content := content f @ take n b\<rparr>) d1)"
    using assms r by (auto simp: file_Write_def Let_def)
  show "wrote p (take n b) d d'"
    using tick_frame [OF r] by (auto simp: wrote_def d' split: option.split)
  show "n \<le> length b" by (auto simp: n split: outcome.split)
  show "e = None \<Longrightarrow> n = length b" using e by (simp add: n)
qed

lemma bufio_Flush_wrote:
  assumes "bufio_Flush p w d = (e, w', d')"
  obtains s where "wrote p s d d'" and "bw_err w' = e" and "s @ bw_buf w' = bw_buf w"
    and "e = None \<Longrightarrow> bw_buf w' = [] \<and> bw_err w = None"
proof (cases "bw_err w \<noteq> None \<or> bw_buf w = []")
  case True
  with assms have "wrote p [] d d'" "bw_err w' = e" "[] @ bw_buf w' = bw_buf w"
      "e = None \<Longrightarrow> bw_buf w' = [] \<and> bw_err w = None"
    by (auto simp: bufio_Flush_def wrote_Nil split: if_splits)
  then show thesis by (rule that)
next
  case False
  obtain n x d1 where w: "file_Write p (bw_buf w) d = ((n, x), d1)" by (metis prod.exhaust)
  note fw = file_Write_wrote [OF w]
  have "wrote p (take n (bw_buf w)) d d'" "bw_err w' = e" "take n (bw_buf w) @ bw_buf w' = bw_buf w"
      "e = None \<Longrightarrow> bw_buf w' = [] \<and> bw_err w = None"
    using assms False w fw by (auto simp: bufio_Flush_def split: option.splits)
  then show thesis by (rule that)
qed

lemma bufio_Write_loop_wrote:
  "bufio_Write_loop p b nn w d = ((m, e), w', d') \<Longrightarrow>
   \<exists>s. wrote p s d d' \<and> bw_err w' = e \<and> (\<exists>t. s @ t = bw_buf w @ b) \<and>
     (e = None \<longrightarrow> s @ bw_buf w' = bw_buf w @ b \<and> m = nn + length b \<and> bw_err w = None)"
proof (induction p b nn w d rule: bufio_Write_loop.induct)
  case (1 p b nn w d)
  let ?a = "bufio_size - length (bw_buf w)"
  consider (fits) "\<not> (?a < length b \<and> bw_err w = None)"
    | (direct) "?a < length b" "bw_err w = None" "bw_buf w = []"
    | (full) "?a < length b" "bw_err w = None" "bw_buf w \<noteq> []" by blast
  then show ?case
  proof cases
    case fits
    with "1.prems" show ?thesis
      by (intro exI [of _ "[]"]) (auto simp: bufio_Write_loop.simps [of p b] wrote_Nil split: if_splits)
  next
    case direct
    obtain n x d1 where w: "file_Write p b d = ((n, x), d1)" by (metis prod.exhaust)
    note fw = file_Write_wrote [OF w]
    have rec: "bufio_Write_loop p (drop n b) (nn + n) (w\<lparr>bw_err := x\<rparr>) d1 = ((m, e), w', d')"
      using "1.prems" direct w by (simp add: bufio_Write_loop.simps [of p b] Let_def)
    from "1.IH"(1) [OF refl _ direct(3) w [symmetric] refl refl rec] direct
    obtain s t where s: "wrote p s d1 d'" "bw_err w' = e" "s @ t = drop n b"
      "e = None \<longrightarrow> s @ bw_buf w' = drop n b \<and> m = nn + n + length (drop n b)" by auto
    have "\<exists>t. take n b @ s @ t = b" using s(3) by (metis append_take_drop_id)
    with s fw wrote_trans [OF fw(1) s(1)] direct show ?thesis
      by (intro exI [of _ "take n b @ s"]) auto
  next
    case full
    obtain x w1 d1 where w: "bufio_Flush p (w\<lparr>bw_buf := bw_buf w @ take ?a b\<rparr>) d = (x, w1, d1)"
      by (metis prod.exhaust)
    obtain s0 where s0: "wrote p s0 d d1" "s0 @ bw_buf w1 = bw_buf w @ take ?a b"
      using bufio_Flush_wrote [OF w] by (metis bufw.select_convs(1) bufw.surjective bufw.update_convs(1))
    have rec: "bufio_Write_loop p (drop ?a b) (nn + ?a) w1 d1 = ((m, e), w', d')"
      using "1.prems" full w by (simp add: bufio_Write_loop.simps [of p b] Let_def)
    from "1.IH"(2) [OF refl _ full(3) w [symmetric] refl refl rec] full
    obtain s t where s: "wrote p s d1 d'" "bw_err w' = e" "s @ t = bw_buf w1 @ drop ?a b"
      "e = None \<longrightarrow> s @ bw_buf w' = bw_buf w1 @ drop ?a b \<and> m = nn + ?a + length (drop ?a b)" by auto
    have *: "(s0 @ s) @ t = bw_buf w @ b" if "s @ t = bw_buf w1 @ drop ?a b" for s t
      using s0(2) that by (metis append.assoc append_take_drop_id)
    have "\<exists>t. (s0 @ s) @ t = bw_buf w @ b" using * [OF s(3)] by blast
    with wrote_trans [OF s0(1) s(1)] s * [of s "bw_buf w'"] full show ?thesis
      by (intro exI [of _ "s0 @ s"]) auto
  qed
qed

lemma bufio_Write_wrote:
  assumes "bufio_Write p b w d = ((m, e), w', d')"
  obtains s t where "wrote p s d d'" and "bw_err w' = e" and "s @ t = bw_buf w @ b"
    and "e = None \<Longrightarrow> s @ bw_buf w' = bw_buf w @ b \<and> m = length b \<and> bw_err w = None"
  using bufio_Write_loop_wrote [of p b 0 w d m e w' d'] assms that by (auto simp: bufio_Write_def)

subsection \<open>Calls without faults\<close>

lemma file_Write_no_faults:
  assumes "no_faults d"
  obtains d' where "file_Write p b d = ((length b, None), d')" and "wrote p b d d'" and "no_faults d'"
proof -
  obtain n e d' where w: "file_Write p b d = ((n, e), d')" by (metis prod.exhaust)
  then have "n = length b" "e = None" "no_faults d'"
    using assms by (auto simp: file_Write_def tick_no_faults Let_def split: option.splits if_splits)
  with file_Write_wrote(1) [OF w] w show thesis by (intro that) auto
qed

lemma bufio_Flush_no_faults:
  assumes "no_faults d" and "bw_err w = None"
  obtains d' where "bufio_Flush p w d = (None, w\<lparr>bw_buf := []\<rparr>, d')"
    and "wrote p (bw_buf w) d d'" and "no_faults d'"
proof (cases "bw_buf w = []")
  case True
  then have "bufio_Flush p w d = (None, w\<lparr>bw_buf := []\<rparr>, d)"
    using assms(2) by (simp add: bufio_Flush_def)
  with True assms(1) show thesis using wrote_Nil by (intro that) auto
next
  case False
  obtain d' where "file_Write p (bw_buf w) d = ((length (bw_buf w), None), d')"
    and "wrote p (bw_buf w) d d'" and "no_faults d'"
    by (rule file_Write_no_faults [OF assms(1)])
  with False assms(2) show thesis by (intro that) (auto simp: bufio_Flush_def)
qed

lemma bufio_Write_loop_no_faults:
  "no_faults d \<Longrightarrow> bw_err w = None \<Longrightarrow>
   \<exists>m w' d'. bufio_Write_loop p b nn w d = ((m, None), w', d') \<and> no_faults d'"
proof (induction p b nn w d rule: bufio_Write_loop.induct)
  case (1 p b nn w d)
  let ?a = "bufio_size - length (bw_buf w)"
  show ?case
  proof (cases "?a < length b")
    case True
    show ?thesis
    proof (cases "bw_buf w = []")
      case nil: True
      obtain d1 where f: "file_Write p b d = ((length b, None), d1)" "no_faults d1"
        by (rule file_Write_no_faults [OF "1.prems"(1)])
      with "1.IH"(1) [OF refl _ nil f(1) [symmetric] refl refl] True "1.prems" nil show ?thesis
        by (simp add: bufio_Write_loop.simps [of p b] Let_def)
    next
      case False
      let ?w = "w\<lparr>bw_buf := bw_buf w @ take ?a b\<rparr>"
      obtain d1 where f: "bufio_Flush p ?w d = (None, ?w\<lparr>bw_buf := []\<rparr>, d1)" "no_faults d1"
        using bufio_Flush_no_faults [OF "1.prems"(1), of ?w p] "1.prems"(2) by auto
      with "1.IH"(2) [OF refl _ False f(1) [symmetric] refl refl] True "1.prems" False show ?thesis
        by (simp add: bufio_Write_loop.simps [of p b] Let_def)
    qed
  next
    case False
    with "1.prems" show ?thesis by (simp add: bufio_Write_loop.simps [of p b] Let_def)
  qed
qed

lemma bufio_Write_no_faults:
  assumes "no_faults d" and "bw_err w = None"
  obtains w' d' s where "bufio_Write p b w d = ((length b, None), w', d')"
    and "wrote p s d d'" and "s @ bw_buf w' = bw_buf w @ b" and "bw_err w' = None" and "no_faults d'"
proof -
  obtain m w' d' where r: "bufio_Write p b w d = ((m, None), w', d')" "no_faults d'"
    using bufio_Write_loop_no_faults [OF assms, of p b 0] by (auto simp: bufio_Write_def)
  obtain s t where "wrote p s d d'" "bw_err w' = None" "s @ bw_buf w' = bw_buf w @ b" "m = length b"
    by (rule bufio_Write_wrote [OF r(1)]) auto
  with r that show thesis by blast
qed

subsection \<open>Reading\<close>

text \<open>The calls that only read: every file is as before.\<close>

definition same_files :: "fs \<Rightarrow> fs \<Rightarrow> bool" where
  "same_files d d' \<longleftrightarrow> (\<forall>q. fs_get d' q = fs_get d q) \<and> unreadable d' = unreadable d \<and> (no_faults d \<longrightarrow> no_faults d')"

lemma same_files_refl: "same_files d d"
  by (simp add: same_files_def)

lemma same_files_trans: "same_files a b \<Longrightarrow> same_files b c \<Longrightarrow> same_files a c"
  by (simp add: same_files_def)

lemma tick_same_files: "tick d = (r, d') \<Longrightarrow> same_files d d'"
  using tick_frame [of d r d'] by (auto simp: same_files_def tick_no_faults)

lemma file_Close_same_files: "same_files d (snd (file_Close d))"
  by (auto simp: file_Close_def intro: tick_same_files split: prod.splits)

lemma os_Open_same_files: "os_Open p d = (r, d') \<Longrightarrow> same_files d d'"
  by (auto simp: os_Open_def same_files_refl intro: tick_same_files split: option.splits prod.splits)

end
