(* ===== verification/GoHeap.thy ===== *)
theory GoHeap
  imports Prelude
begin

text \<open>
  The parts of Go's \<^verbatim>\<open>sort\<close> and \<^verbatim>\<open>container/heap\<close> packages the store uses, over lists and with
  the caller's \<^verbatim>\<open>Less\<close> as a parameter: \<^verbatim>\<open>sort.Search\<close> (binary search), \<^verbatim>\<open>sort.Slice\<close> and the
  array heap (\<open>up\<close>, \<open>down\<close>, \<^verbatim>\<open>Init\<close>, \<^verbatim>\<open>Push\<close>, \<^verbatim>\<open>Pop\<close>). The locale \<open>lt_order\<close> is the contract
  a \<^verbatim>\<open>Less\<close> must meet; inside it the heap is shown to be a priority queue: \<^verbatim>\<open>Push\<close> and \<^verbatim>\<open>Pop\<close> keep
  the heap shape and the multiset of elements, and \<^verbatim>\<open>Pop\<close> returns a least element.
\<close>

section \<open>Definitions\<close>

subsection \<open>sort.Search and sort.Slice\<close>

function search_loop :: "(nat \<Rightarrow> bool) \<Rightarrow> nat \<Rightarrow> nat \<Rightarrow> nat" where
  "search_loop f i j =
     (if i < j
      then (let h = (i + j) div 2 in if \<not> f h then search_loop f (h + 1) j else search_loop f i h)
      else i)"
  by pat_completeness auto
termination
  by (relation "measure (\<lambda>(f, i, j). j - i)") auto

definition sort_Search :: "nat \<Rightarrow> (nat \<Rightarrow> bool) \<Rightarrow> nat" where
  "sort_Search n f = search_loop f 0 n"

text \<open>
  \<^verbatim>\<open>sort.Slice\<close> as the insertion sort it runs on short slices: each element is swapped to the
  left while it is less than its neighbour. Go gives no stability promise for it; the theorems
  about its callers use only that the result is an ordered permutation.
\<close>

fun insert_back :: "('a \<Rightarrow> 'a \<Rightarrow> bool) \<Rightarrow> 'a list \<Rightarrow> 'a \<Rightarrow> 'a list" where
  "insert_back lt ys x =
     (if ys = [] then [x]
      else if lt x (last ys) then insert_back lt (butlast ys) x @ [last ys]
      else ys @ [x])"

definition sort_Slice :: "('a \<Rightarrow> 'a \<Rightarrow> bool) \<Rightarrow> 'a list \<Rightarrow> 'a list" where
  "sort_Slice lt xs = foldl (insert_back lt) [] xs"

subsection \<open>container/heap\<close>

definition heap_swap :: "nat \<Rightarrow> nat \<Rightarrow> 'a list \<Rightarrow> 'a list" where
  "heap_swap i j h = h[i := h ! j, j := h ! i]"

definition heap_parent :: "nat \<Rightarrow> nat" where
  "heap_parent j = (j - 1) div 2"

function heap_up :: "('a \<Rightarrow> 'a \<Rightarrow> bool) \<Rightarrow> 'a list \<Rightarrow> nat \<Rightarrow> 'a list" where
  "heap_up lt h j =
     (let i = heap_parent j
      in if i = j \<or> \<not> lt (h ! j) (h ! i) then h else heap_up lt (heap_swap i j h) i)"
  by pat_completeness auto
termination
  by (relation "measure (\<lambda>(lt, h, j). j)") (auto simp: heap_parent_def)

function heap_down :: "('a \<Rightarrow> 'a \<Rightarrow> bool) \<Rightarrow> 'a list \<Rightarrow> nat \<Rightarrow> nat \<Rightarrow> 'a list" where
  "heap_down lt h i n =
     (let j1 = 2 * i + 1; j2 = j1 + 1
      in if j1 \<ge> n then h
         else let j = (if j2 < n \<and> lt (h ! j2) (h ! j1) then j2 else j1)
              in if \<not> lt (h ! j) (h ! i) then h else heap_down lt (heap_swap i j h) j n)"
  by pat_completeness auto
termination
  by (relation "measure (\<lambda>(lt, h, i, n). n - i)") (auto split: if_splits)

definition heap_Init :: "('a \<Rightarrow> 'a \<Rightarrow> bool) \<Rightarrow> 'a list \<Rightarrow> 'a list" where
  "heap_Init lt h = foldl (\<lambda>h i. heap_down lt h i (length h)) h (rev [0..<length h div 2])"

definition heap_Push :: "('a \<Rightarrow> 'a \<Rightarrow> bool) \<Rightarrow> 'a list \<Rightarrow> 'a \<Rightarrow> 'a list" where
  "heap_Push lt h x = heap_up lt (h @ [x]) (length h)"

definition heap_Pop :: "('a \<Rightarrow> 'a \<Rightarrow> bool) \<Rightarrow> 'a list \<Rightarrow> 'a \<times> 'a list" where
  "heap_Pop lt h =
     (let n = length h - 1; h' = heap_down lt (heap_swap 0 n h) 0 n in (h' ! n, take n h'))"

definition is_heap :: "('a \<Rightarrow> 'a \<Rightarrow> bool) \<Rightarrow> nat \<Rightarrow> 'a list \<Rightarrow> bool" where
  "is_heap lt n h \<longleftrightarrow> (\<forall>i < n. 0 < i \<longrightarrow> \<not> lt (h ! i) (h ! heap_parent i))"

text \<open>
  The states of the two sift loops: before a step of \<open>up\<close> at \<open>j\<close> the heap property may fail at
  \<open>j\<close> only and the children of \<open>j\<close> respect the parent of \<open>j\<close>; before a step of \<open>down\<close> at \<open>i\<close> it
  may fail between \<open>i\<close> and its children only and those children respect the parent of \<open>i\<close>.
\<close>

definition up_ok :: "('a \<Rightarrow> 'a \<Rightarrow> bool) \<Rightarrow> nat \<Rightarrow> 'a list \<Rightarrow> nat \<Rightarrow> bool" where
  "up_ok lt n h j \<longleftrightarrow> (\<forall>c < n. 0 < c \<longrightarrow>
     (c \<noteq> j \<longrightarrow> \<not> lt (h ! c) (h ! heap_parent c)) \<and>
     (0 < j \<and> heap_parent c = j \<longrightarrow> \<not> lt (h ! c) (h ! heap_parent j)))"

definition down_ok :: "('a \<Rightarrow> 'a \<Rightarrow> bool) \<Rightarrow> nat \<Rightarrow> 'a list \<Rightarrow> nat \<Rightarrow> bool" where
  "down_ok lt n h i \<longleftrightarrow> (\<forall>c < n. 0 < c \<longrightarrow>
     (heap_parent c \<noteq> i \<longrightarrow> \<not> lt (h ! c) (h ! heap_parent c)) \<and>
     (0 < i \<and> heap_parent c = i \<longrightarrow> \<not> lt (h ! c) (h ! heap_parent i)))"

definition least_child :: "('a \<Rightarrow> 'a \<Rightarrow> bool) \<Rightarrow> nat \<Rightarrow> 'a list \<Rightarrow> nat \<Rightarrow> nat" where
  "least_child lt n h i =
     (if 2 * i + 2 < n \<and> lt (h ! (2 * i + 2)) (h ! (2 * i + 1)) then 2 * i + 2 else 2 * i + 1)"

declare search_loop.simps [simp del] heap_up.simps [simp del] heap_down.simps [simp del]
  insert_back.simps [simp del]

section \<open>Binary search\<close>

lemma search_loop_unfold:
  "\<not> i < j \<Longrightarrow> search_loop f i j = i"
  "i < j \<Longrightarrow> f ((i + j) div 2) \<Longrightarrow> search_loop f i j = search_loop f i ((i + j) div 2)"
  "i < j \<Longrightarrow> \<not> f ((i + j) div 2) \<Longrightarrow> search_loop f i j = search_loop f ((i + j) div 2 + 1) j"
  by (simp_all add: search_loop.simps [of f i j] Let_def)

lemma search_loop_induct [case_names Stop Hit Miss]:
  assumes "\<And>i j. \<not> i < j \<Longrightarrow> P i j"
    and "\<And>i j. i < j \<Longrightarrow> f ((i + j) div 2) \<Longrightarrow> P i ((i + j) div 2) \<Longrightarrow> P i j"
    and "\<And>i j. i < j \<Longrightarrow> \<not> f ((i + j) div 2) \<Longrightarrow> P ((i + j) div 2 + 1) j \<Longrightarrow> P i j"
  shows "P i (j :: nat)"
proof (induction "j - i" arbitrary: i j rule: less_induct)
  case less
  show ?case
  proof (cases "i < j")
    case True
    then have "(i + j) div 2 - i < j - i" "j - ((i + j) div 2 + 1) < j - i" by auto
    with less True assms(2,3) show ?thesis by (cases "f ((i + j) div 2)") auto
  next
    case False
    then show ?thesis by (rule assms(1))
  qed
qed

lemma search_loop_bounds: "i \<le> j \<Longrightarrow> i \<le> search_loop f i j \<and> search_loop f i j \<le> j"
proof (induction i j rule: search_loop_induct [where f = f])
  case (Stop i j)
  then show ?case by (simp add: search_loop_unfold)
next
  case (Hit i j)
  then have "i \<le> search_loop f i ((i + j) div 2)" "search_loop f i ((i + j) div 2) \<le> (i + j) div 2"
    by simp_all
  moreover have "(i + j) div 2 \<le> j" using Hit by simp
  ultimately show ?case using Hit(1,2) by (simp add: search_loop_unfold)
next
  case (Miss i j)
  then have "(i + j) div 2 + 1 \<le> j" by simp
  with Miss have "(i + j) div 2 + 1 \<le> search_loop f ((i + j) div 2 + 1) j" "search_loop f ((i + j) div 2 + 1) j \<le> j"
    by simp_all
  moreover have "i \<le> (i + j) div 2 + 1" using Miss by simp
  ultimately show ?case using Miss(1,2) by (simp add: search_loop_unfold)
qed

lemma search_loop_edges:
  assumes "i \<le> j" and "0 < i \<longrightarrow> \<not> f (i - 1)" and "j < n \<longrightarrow> f j"
  shows "(0 < search_loop f i j \<longrightarrow> \<not> f (search_loop f i j - 1)) \<and>
         (search_loop f i j < n \<longrightarrow> f (search_loop f i j))"
  using assms
proof (induction i j rule: search_loop_induct [where f = f])
  case (Stop i j)
  then have "i = j" by simp
  with Stop search_loop_unfold(1) [of j j f] show ?case by simp
next
  case (Hit i j)
  have "search_loop f i j = search_loop f i ((i + j) div 2)"
    using Hit(1,2) by (simp add: search_loop_unfold)
  with Hit show ?case by auto
next
  case (Miss i j)
  have "search_loop f i j = search_loop f ((i + j) div 2 + 1) j"
    using Miss(1,2) by (simp add: search_loop_unfold)
  with Miss show ?case by auto
qed

lemma sort_Search_le: "sort_Search n f \<le> n"
  using search_loop_bounds [of 0 n f] by (simp add: sort_Search_def)

lemma sort_Search_holds: "sort_Search n f < n \<Longrightarrow> f (sort_Search n f)"
  using search_loop_edges [of 0 n f n] by (simp add: sort_Search_def)

lemma sort_Search_pred: "0 < sort_Search n f \<Longrightarrow> \<not> f (sort_Search n f - 1)"
  using search_loop_edges [of 0 n f n] by (simp add: sort_Search_def)

text \<open>On a predicate that stays true once it is true, the search returns the first index.\<close>

lemma sort_Search_iff:
  assumes mono: "\<And>i j. i \<le> j \<Longrightarrow> j < n \<Longrightarrow> f i \<Longrightarrow> f j" and "i < n"
  shows "f i \<longleftrightarrow> sort_Search n f \<le> i"
proof
  assume "f i"
  show "sort_Search n f \<le> i"
  proof (rule ccontr)
    assume "\<not> sort_Search n f \<le> i"
    then have "i \<le> sort_Search n f - 1" "0 < sort_Search n f" by auto
    moreover have "sort_Search n f - 1 < n"
      using sort_Search_le [of n f] \<open>i < n\<close> calculation by linarith
    ultimately show False
      using mono [of i "sort_Search n f - 1"] sort_Search_pred \<open>f i\<close> by blast
  qed
next
  assume "sort_Search n f \<le> i"
  with \<open>i < n\<close> sort_Search_holds [of n f] mono [of "sort_Search n f" i] show "f i" by simp
qed

section \<open>Ordered contracts\<close>

lemma heap_parent_less: "0 < i \<Longrightarrow> heap_parent i < i"
  by (auto simp: heap_parent_def)

lemma insert_back_Nil: "insert_back lt [] x = [x]"
  by (simp add: insert_back.simps [of lt "[]" x])

lemma insert_back_snoc:
  "insert_back lt (ys @ [y]) x = (if lt x y then insert_back lt ys x @ [y] else ys @ [y, x])"
  by (simp add: insert_back.simps [of lt "ys @ [y]" x])

locale lt_order =
  fixes lt :: "'a \<Rightarrow> 'a \<Rightarrow> bool"
  assumes lt_asym: "lt a b \<Longrightarrow> \<not> lt b a"
    and lt_negtrans: "\<not> lt a b \<Longrightarrow> \<not> lt b c \<Longrightarrow> \<not> lt a c"
begin

lemma lt_irrefl: "\<not> lt a a"
  using lt_asym by blast

lemma insert_back_mset: "mset (insert_back lt ys x) = add_mset x (mset ys)"
  by (induction ys rule: rev_induct) (auto simp: insert_back_Nil insert_back_snoc)

lemma insert_back_set: "set (insert_back lt ys x) = insert x (set ys)"
  by (metis insert_back_mset set_mset_add_mset_insert set_mset_mset)

lemma insert_back_sorted:
  "sorted_wrt (\<lambda>a b. \<not> lt b a) ys \<Longrightarrow> sorted_wrt (\<lambda>a b. \<not> lt b a) (insert_back lt ys x)"
proof (induction ys rule: rev_induct)
  case Nil
  then show ?case by (simp add: insert_back_Nil)
next
  case (snoc y ys)
  have ys: "sorted_wrt (\<lambda>a b. \<not> lt b a) ys" and y: "\<And>z. z \<in> set ys \<Longrightarrow> \<not> lt y z"
    using snoc.prems by (auto simp: sorted_wrt_append)
  show ?case
  proof (cases "lt x y")
    case True
    with snoc.IH [OF ys] y lt_asym [of x y] show ?thesis
      by (auto simp: insert_back_snoc insert_back_set sorted_wrt_append)
  next
    case False
    with y have "\<not> lt x z" if "z \<in> set ys" for z
      using that lt_negtrans [of x y z] by blast
    with False y ys show ?thesis
      by (auto simp: insert_back_snoc sorted_wrt_append)
  qed
qed

lemma foldl_insert_back:
  assumes "sorted_wrt (\<lambda>a b. \<not> lt b a) ys"
  shows "mset (foldl (insert_back lt) ys xs) = mset ys + mset xs \<and>
         sorted_wrt (\<lambda>a b. \<not> lt b a) (foldl (insert_back lt) ys xs)"
  using assms by (induction xs arbitrary: ys) (auto simp: insert_back_mset insert_back_sorted)

lemma sort_Slice_mset: "mset (sort_Slice lt xs) = mset xs"
  using foldl_insert_back [of "[]" xs] by (simp add: sort_Slice_def)

lemma sort_Slice_sorted: "sorted_wrt (\<lambda>a b. \<not> lt b a) (sort_Slice lt xs)"
  using foldl_insert_back [of "[]" xs] by (simp add: sort_Slice_def)

lemma sort_Slice_set: "set (sort_Slice lt xs) = set xs"
  by (metis sort_Slice_mset set_mset_mset)


subsection \<open>The heap as a priority queue\<close>

lemma heap_up_length: "length (heap_up lt h j) = length h"
proof (induction lt h j rule: heap_up.induct)
  case (1 lt h j)
  then show ?case by (subst heap_up.simps) (auto simp: Let_def heap_swap_def)
qed

lemma heap_up_mset: "j < length h \<Longrightarrow> mset (heap_up lt h j) = mset h"
proof (induction lt h j rule: heap_up.induct)
  case (1 lt h j)
  have "heap_parent j < length h" using "1.prems" by (auto simp: heap_parent_def)
  with 1 show ?case
    by (subst heap_up.simps) (auto simp: Let_def heap_swap_def mset_swap)
qed

lemma heap_swap_nth:
  assumes "i < length h" and "j < length h"
  shows "length (heap_swap i j h) = length h" and "heap_swap i j h ! i = h ! j"
    and "heap_swap i j h ! j = h ! i" and "\<And>k. k \<noteq> i \<Longrightarrow> k \<noteq> j \<Longrightarrow> heap_swap i j h ! k = h ! k"
  using assms by (auto simp: heap_swap_def nth_list_update)

lemma up_ok_swap:
  assumes ok: "up_ok lt (length h) h j" and j: "j < length h" "0 < j"
    and lt: "lt (h ! j) (h ! heap_parent j)"
  shows "up_ok lt (length h) (heap_swap (heap_parent j) j h) (heap_parent j)"
  unfolding up_ok_def
proof (intro allI impI conjI)
  let ?i = "heap_parent j"
  let ?h = "heap_swap ?i j h"
  have i: "?i < j" "?i < length h" using j heap_parent_less [of j] by auto
  note at = heap_swap_nth [OF i(2) j(1)]
  fix c assume c: "c < length h" "0 < c"
  {
    assume "c \<noteq> ?i"
    show "\<not> lt (?h ! c) (?h ! heap_parent c)"
    proof (cases "c = j")
      case True
      then show ?thesis using at lt lt_asym by simp
    next
      case False
      with ok c \<open>c \<noteq> ?i\<close> have "\<not> lt (h ! c) (h ! heap_parent c)" by (simp add: up_ok_def)
      moreover have "\<not> lt (h ! c) (h ! ?i)" if "heap_parent c = j"
        using ok c that j by (simp add: up_ok_def)
      moreover have "\<not> lt (h ! c) (h ! j)" if "heap_parent c = ?i"
        using calculation(1) that lt lt_asym lt_negtrans by metis
      ultimately show ?thesis
        using at False \<open>c \<noteq> ?i\<close> by (cases "heap_parent c = ?i"; cases "heap_parent c = j") simp_all
    qed
  }
  assume p: "0 < ?i \<and> heap_parent c = ?i"
  then have ne: "heap_parent ?i \<noteq> ?i" "heap_parent ?i \<noteq> j" "c \<noteq> ?i"
    using heap_parent_less [of ?i] heap_parent_less [of c] c i by auto
  have up: "\<not> lt (h ! ?i) (h ! heap_parent ?i)"
    using ok i j p by (simp add: up_ok_def)
  show "\<not> lt (?h ! c) (?h ! heap_parent ?i)"
  proof (cases "c = j")
    case True
    with up ne at show ?thesis by simp
  next
    case False
    with ok c have "\<not> lt (h ! c) (h ! heap_parent c)" by (simp add: up_ok_def)
    with p have "\<not> lt (h ! c) (h ! ?i)" by simp
    with up ne at False lt_negtrans show ?thesis by metis
  qed
qed

lemma heap_up_heap: "up_ok lt (length h) h j \<Longrightarrow> j < length h \<Longrightarrow> is_heap lt (length h) (heap_up lt h j)"
proof (induction j arbitrary: h rule: less_induct)
  case (less j)
  let ?i = "heap_parent j"
  show ?case
  proof (cases "?i = j \<or> \<not> lt (h ! j) (h ! ?i)")
    case True
    have "j = 0" if "?i = j" using heap_parent_less [of j] that by fastforce
    with True less.prems(1) have "is_heap lt (length h) h"
      unfolding is_heap_def up_ok_def by (metis less_irrefl_nat)
    with True show ?thesis by (subst heap_up.simps) (simp add: Let_def)
  next
    case False
    then have j: "0 < j" "?i < j" by (auto simp: heap_parent_def split: nat.splits)
    have len: "length (heap_swap ?i j h) = length h" by (simp add: heap_swap_def)
    from less.prems False j have "up_ok lt (length h) (heap_swap ?i j h) ?i"
      by (intro up_ok_swap) simp_all
    with less.IH [OF j(2), of "heap_swap ?i j h"] less.prems(2) j len
    have "is_heap lt (length h) (heap_up lt (heap_swap ?i j h) ?i)" by simp
    with False show ?thesis by (subst heap_up.simps) (simp add: Let_def)
  qed
qed

lemma heap_down_length: "length (heap_down lt h i n) = length h"
proof (induction lt h i n rule: heap_down.induct)
  case (1 lt h i n)
  then show ?case by (subst heap_down.simps) (auto simp: Let_def heap_swap_def)
qed

lemma heap_down_mset: "n \<le> length h \<Longrightarrow> mset (heap_down lt h i n) = mset h"
proof (induction lt h i n rule: heap_down.induct)
  case (1 lt h i n)
  then show ?case
    by (subst heap_down.simps) (auto simp: Let_def heap_swap_def mset_swap)
qed

lemma heap_down_frame: "n \<le> k \<Longrightarrow> heap_down lt h i n ! k = h ! k"
proof (induction lt h i n rule: heap_down.induct)
  case (1 lt h i n)
  then show ?case
    by (subst heap_down.simps) (auto simp: Let_def heap_swap_def)
qed

lemma heap_down_unfold:
  "heap_down lt h i n =
     (if n \<le> 2 * i + 1 \<or> \<not> lt (h ! least_child lt n h i) (h ! i) then h
      else heap_down lt (heap_swap i (least_child lt n h i) h) (least_child lt n h i) n)"
  by (subst heap_down.simps) (auto simp: Let_def least_child_def)

lemma least_child_least:
  assumes "c < n" "0 < c" "heap_parent c = i"
  shows "\<not> lt (h ! c) (h ! least_child lt n h i)"
proof -
  have "c = 2 * i + 1 \<or> c = 2 * i + 2" using assms(2,3) by (auto simp: heap_parent_def)
  then show ?thesis
  proof
    assume "c = 2 * i + 1"
    then show ?thesis
      using lt_asym [of "h ! (2 * i + 2)" "h ! (2 * i + 1)"] lt_irrefl by (auto simp: least_child_def)
  next
    assume "c = 2 * i + 2"
    with assms(1) show ?thesis using lt_irrefl by (auto simp: least_child_def)
  qed
qed

lemma down_ok_swap:
  assumes ok: "down_ok lt n h i" and n: "2 * i + 1 < n" "n \<le> length h"
    and j: "j = least_child lt n h i" and lt: "lt (h ! j) (h ! i)"
  shows "down_ok lt n (heap_swap i j h) j"
  unfolding down_ok_def
proof (intro allI impI conjI)
  let ?h = "heap_swap i j h"
  have jn: "j < n" "i < j" "heap_parent j = i" "0 < j"
    using n j by (auto simp: least_child_def heap_parent_def)
  then have at: "?h ! i = h ! j" "?h ! j = h ! i" "\<And>k. k \<noteq> i \<Longrightarrow> k \<noteq> j \<Longrightarrow> ?h ! k = h ! k"
    using heap_swap_nth [of i h j] n by auto
  fix c assume c: "c < n" "0 < c"
  {
    assume cj: "heap_parent c \<noteq> j"
    consider "heap_parent c = i" | "heap_parent c \<noteq> i" "c = i" | "heap_parent c \<noteq> i" "c \<noteq> i"
      by blast
    then show "\<not> lt (?h ! c) (?h ! heap_parent c)"
    proof cases
      case 1
      then have "c \<noteq> i" using c by (auto simp: heap_parent_def)
      with 1 at least_child_least [OF c 1] lt lt_asym j show ?thesis by metis
    next
      case 2
      with at cj c jn ok show ?thesis by (auto simp: down_ok_def)
    next
      case 3
      then have "c \<noteq> j" using jn by auto
      with 3 at(3) [of c] at(3) [of "heap_parent c"] cj c ok show ?thesis by (auto simp: down_ok_def)
    qed
  }
  assume "0 < j \<and> heap_parent c = j"
  then have "c \<noteq> i" "c \<noteq> j" "heap_parent c = j"
    using jn heap_parent_less [of c] c by auto
  with c jn at ok show "\<not> lt (?h ! c) (?h ! heap_parent j)" by (auto simp: down_ok_def)
qed

lemma heap_down_heap: "down_ok lt n h i \<Longrightarrow> n \<le> length h \<Longrightarrow> is_heap lt n (heap_down lt h i n)"
proof (induction "n - i" arbitrary: h i rule: less_induct)
  case less
  let ?j = "least_child lt n h i"
  show ?case
  proof (cases "n \<le> 2 * i + 1 \<or> \<not> lt (h ! ?j) (h ! i)")
    case True
    have "\<not> lt (h ! c) (h ! i)" if c: "c < n" "0 < c" "heap_parent c = i" for c
    proof -
      have "2 * i + 1 < n" using c by (auto simp: heap_parent_def)
      with True least_child_least [OF c] lt_negtrans show ?thesis by (metis linorder_not_le)
    qed
    with less.prems(1) have "is_heap lt n h"
      unfolding is_heap_def down_ok_def by metis
    with True show ?thesis by (simp add: heap_down_unfold [of h i n])
  next
    case False
    then have "n - ?j < n - i" by (auto simp: least_child_def)
    moreover have "down_ok lt n (heap_swap i ?j h) ?j"
      using False less.prems by (intro down_ok_swap) auto
    moreover have "n \<le> length (heap_swap i ?j h)" using less.prems by (simp add: heap_swap_def)
    ultimately have "is_heap lt n (heap_down lt (heap_swap i ?j h) ?j n)" by (rule less.hyps)
    with False show ?thesis by (simp add: heap_down_unfold [of h i n])
  qed
qed

lemma heap_root_least:
  assumes "is_heap lt n h" and "i < n"
  shows "\<not> lt (h ! i) (h ! 0)"
  using assms(2)
proof (induction i rule: less_induct)
  case (less i)
  show ?case
  proof (cases "i = 0")
    case True
    then show ?thesis by (simp add: lt_irrefl)
  next
    case False
    then have "heap_parent i < i" by (auto simp: heap_parent_def)
    with less False assms(1) lt_negtrans show ?thesis
      unfolding is_heap_def by (metis less_trans neq0_conv)
  qed
qed

lemma heap_Push_mset: "mset (heap_Push lt h x) = add_mset x (mset h)"
  by (simp add: heap_Push_def heap_up_mset)

lemma heap_Push_heap:
  assumes "is_heap lt (length h) h"
  shows "is_heap lt (length (heap_Push lt h x)) (heap_Push lt h x)"
proof -
  have par: "heap_parent i < length h" if "i < length h + 1" "0 < i" for i
    using heap_parent_less [of i] that by simp
  have "up_ok lt (length (h @ [x])) (h @ [x]) (length h)"
    unfolding up_ok_def
  proof (intro allI impI conjI)
    fix c assume "c < length (h @ [x])" "0 < c" "c \<noteq> length h"
    with assms par [of c] show "\<not> lt ((h @ [x]) ! c) ((h @ [x]) ! heap_parent c)"
      by (simp add: is_heap_def nth_append)
  next
    fix c assume "c < length (h @ [x])" "0 < c" "0 < length h \<and> heap_parent c = length h"
    then show "\<not> lt ((h @ [x]) ! c) ((h @ [x]) ! heap_parent (length h))" using par [of c] by simp
  qed
  then have "is_heap lt (length (h @ [x])) (heap_up lt (h @ [x]) (length h))"
    by (rule heap_up_heap) simp
  then show ?thesis by (simp add: heap_Push_def heap_up_length)
qed

lemma heap_Pop_mset:
  assumes "h \<noteq> []" and "heap_Pop lt h = (x, h')"
  shows "mset h = add_mset x (mset h')"
proof -
  let ?n = "length h - 1"
  let ?d = "heap_down lt (heap_swap 0 ?n h) 0 ?n"
  have len: "length ?d = length h" by (simp add: heap_swap_def heap_down_length)
  have x: "x = ?d ! ?n" and h': "h' = take ?n ?d" using assms(2) by (auto simp: heap_Pop_def Let_def)
  have "?d = h' @ [x]"
    using len assms(1) x h' by (metis Suc_pred' diff_less length_greater_0_conv less_one take_Suc_conv_app_nth take_all_iff nle_le)
  moreover have "mset ?d = mset h"
    using assms(1) by (simp add: heap_down_mset heap_swap_def mset_swap)
  ultimately show ?thesis by simp
qed

lemma heap_Pop_correct:
  assumes "is_heap lt (length h) h" and "h \<noteq> []" and "heap_Pop lt h = (x, h')"
  shows "x = h ! 0" and "mset h = add_mset x (mset h')"
    and "is_heap lt (length h') h'" and "\<And>y. y \<in> set h \<Longrightarrow> \<not> lt y x"
proof -
  let ?n = "length h - 1"
  let ?s = "heap_swap 0 ?n h"
  let ?d = "heap_down lt ?s 0 ?n"
  have len: "length ?s = length h" "length ?d = length h"
    by (simp_all add: heap_swap_def heap_down_length)
  have x: "x = ?d ! ?n" and h': "h' = take ?n ?d"
    using assms(3) by (auto simp: heap_Pop_def Let_def)
  have "?d ! ?n = ?s ! ?n" by (simp add: heap_down_frame)
  also have "\<dots> = h ! 0"
    using assms(2) by (cases "?n = 0") (auto simp: heap_swap_def)
  finally show x0: "x = h ! 0" using x by simp
  show "mset h = add_mset x (mset h')" by (rule heap_Pop_mset [OF assms(2,3)])
  have "down_ok lt ?n ?s 0"
    unfolding down_ok_def
  proof (intro allI impI conjI)
    fix c assume c: "c < ?n" "0 < c" "heap_parent c \<noteq> 0"
    then have "heap_parent c < ?n" using heap_parent_less [of c] by simp
    with c assms(1) show "\<not> lt (?s ! c) (?s ! heap_parent c)"
      by (simp add: heap_swap_def is_heap_def)
  qed simp
  with len have "is_heap lt ?n ?d" by (intro heap_down_heap) auto
  then show "is_heap lt (length h') h'"
    using h' len by (auto simp: is_heap_def heap_parent_def)
  show "\<And>y. y \<in> set h \<Longrightarrow> \<not> lt y x"
    using heap_root_least [OF assms(1)] x0 by (metis in_set_conv_nth)
qed

lemma heap_Push_length: "length (heap_Push lt h x) = Suc (length h)"
  by (simp add: heap_Push_def heap_up_length)

end

end
