(* ===== verification/Names.thy ===== *)
theory Names
  imports GoFS GoHeap "HOL-Library.Char_ord"
begin

text \<open>
  File names of the store (\<^verbatim>\<open>src/engine/engine.go\<close>, \<^verbatim>\<open>walFileName\<close> to \<^verbatim>\<open>parseSSTFilename\<close>) and the parts of
  \<^verbatim>\<open>strconv\<close>, \<^verbatim>\<open>strings\<close>, \<^verbatim>\<open>fmt\<close> and \<^verbatim>\<open>filepath\<close> they use. The data directory is a clean path, so
  \<^verbatim>\<open>filepath.Join\<close> puts one slash between directory and name. The theorems show that names parse
  back to what they were built from, that their order is the order of the generations, and that
  \<open>scanDir\<close> finds the largest generation in use.
\<close>

section \<open>Definitions\<close>

subsection \<open>Decimal numbers\<close>

definition dec_digit :: "nat \<Rightarrow> char" where
  "dec_digit n = char_of (48 + n)"

fun dec :: "nat \<Rightarrow> string" where
  "dec n = (if n < 10 then [dec_digit n] else dec (n div 10) @ [dec_digit (n mod 10)])"

text \<open>\<^verbatim>\<open>fmt.Sprintf("%0wd", n)\<close> for a number that is not negative\<close>

definition zero_pad :: "nat \<Rightarrow> nat \<Rightarrow> string" where
  "zero_pad w n = replicate (w - length (dec n)) (CHR ''0'') @ dec n"

definition digit_value :: "char \<Rightarrow> nat option" where
  "digit_value c = (if 48 \<le> (of_char c :: nat) \<and> (of_char c :: nat) \<le> 57 then Some (of_char c - 48) else None)"

fun digits_value :: "string \<Rightarrow> nat \<Rightarrow> nat option" where
  "digits_value [] acc = Some acc"
| "digits_value (c # cs) acc =
     (case digit_value c of None \<Rightarrow> None | Some v \<Rightarrow> digits_value cs (10 * acc + v))"

text \<open>\<^verbatim>\<open>strconv.ParseUint(s, 10, 64)\<close> and \<^verbatim>\<open>strconv.Atoi(s)\<close>; \<open>None\<close> is an error.\<close>

definition ParseUint :: "string \<Rightarrow> u64 option" where
  "ParseUint s =
     (if s = [] then None
      else case digits_value s 0 of None \<Rightarrow> None | Some n \<Rightarrow> if n < 2 ^ 64 then Some (of_nat n) else None)"

definition Atoi :: "string \<Rightarrow> int option" where
  "Atoi s =
     (let neg = (s \<noteq> [] \<and> hd s = CHR ''-'');
          ds = (if s \<noteq> [] \<and> (hd s = CHR ''-'' \<or> hd s = CHR ''+'') then tl s else s)
      in if ds = [] then None
         else case digits_value ds 0 of
                None \<Rightarrow> None
              | Some n \<Rightarrow>
                  let v = (if neg then - int n else int n)
                  in if - (2 ^ 63) \<le> v \<and> v < 2 ^ 63 then Some v else None)"

subsection \<open>Strings and paths\<close>

definition HasSuffix :: "string \<Rightarrow> string \<Rightarrow> bool" where
  "HasSuffix s suf \<longleftrightarrow> length suf \<le> length s \<and> drop (length s - length suf) s = suf"

definition TrimSuffix :: "string \<Rightarrow> string \<Rightarrow> string" where
  "TrimSuffix s suf = (if HasSuffix s suf then take (length s - length suf) s else s)"

text \<open>\<^verbatim>\<open>strings.SplitN(s, "-", 2)\<close>\<close>

definition SplitN2 :: "char \<Rightarrow> string \<Rightarrow> string list" where
  "SplitN2 c s =
     (let a = takeWhile (\<lambda>x. x \<noteq> c) s; b = dropWhile (\<lambda>x. x \<noteq> c) s
      in if b = [] then [a] else [a, tl b])"

text \<open>\<^verbatim>\<open>filepath.Join\<close> of a directory and a plain name; the path is not cleaned, so the same directory is always written the same way.\<close>

definition filepath_Join :: "string \<Rightarrow> string \<Rightarrow> string" where
  "filepath_Join dir name = dir @ ''/'' @ name"

subsection \<open>Names of the store\<close>

definition walFileName :: "string \<Rightarrow> u64 \<Rightarrow> string" where
  "walFileName dir gen = filepath_Join dir (zero_pad 20 (unat gen) @ ''.wal'')"

definition sst_name :: "nat \<Rightarrow> u64 \<Rightarrow> string" where
  "sst_name level gen = ''L'' @ zero_pad 2 level @ ''-'' @ zero_pad 20 (unat gen) @ ''.sst''"

definition sstFileName :: "string \<Rightarrow> nat \<Rightarrow> u64 \<Rightarrow> string" where
  "sstFileName dir level gen = filepath_Join dir (sst_name level gen)"

definition parseSSTFilename :: "string \<Rightarrow> (int \<times> u64) option" where
  "parseSSTFilename name =
     (let base = TrimSuffix name ''.sst''; parts = SplitN2 (CHR ''-'') base
      in if length parts \<noteq> 2 \<or> length (parts ! 0) < 2 \<or> parts ! 0 ! 0 \<noteq> CHR ''L'' then None
         else case Atoi (tl (parts ! 0)) of
                None \<Rightarrow> None
              | Some lvl \<Rightarrow> (case ParseUint (parts ! 1) of None \<Rightarrow> None | Some g \<Rightarrow> Some (lvl, g)))"

record sstFileInfo =
  sf_path :: string
  sf_level :: int
  sf_gen :: u64

text \<open>
  \<^verbatim>\<open>os.ReadDir\<close>: the names of the files directly below the directory, sorted. The file system of the
  model has no subdirectories, so there is no entry for \<^verbatim>\<open>scanDir\<close> to skip as one.
\<close>

definition dir_names :: "string \<Rightarrow> fs \<Rightarrow> string list" where
  "dir_names dir d =
     map (drop (length dir + 1))
       (filter (\<lambda>p. take (length dir + 1) p = dir @ ''/'' \<and> CHR ''/'' \<notin> set (drop (length dir + 1) p)) (remdups (map fst (files d))))"

definition os_ReadDir :: "string \<Rightarrow> fs \<Rightarrow> (error + string list) \<times> fs" where
  "os_ReadDir dir d =
     (let (r, d1) = tick d
      in (case reported r of None \<Rightarrow> Inr (sort (dir_names dir d)) | Some e \<Rightarrow> Inl e, d1))"

record dir_scan =
  ds_wals :: "string list"
  ds_ssts :: "sstFileInfo list"
  ds_maxGen :: u64

definition max_gen :: "u64 \<Rightarrow> u64 \<Rightarrow> u64" where
  "max_gen gen maxGen = (if gen > maxGen then gen else maxGen)"

definition scan_entry :: "string \<Rightarrow> dir_scan \<Rightarrow> string \<Rightarrow> dir_scan" where
  "scan_entry dir s name =
     (let full = filepath_Join dir name
      in if HasSuffix name ''.wal''
         then case ParseUint (TrimSuffix name ''.wal'') of
                None \<Rightarrow> s
              | Some gen \<Rightarrow> s\<lparr>ds_wals := ds_wals s @ [full], ds_maxGen := max_gen gen (ds_maxGen s)\<rparr>
         else if HasSuffix name ''.sst''
         then case parseSSTFilename name of
                None \<Rightarrow> s
              | Some (level, gen) \<Rightarrow>
                  s\<lparr>ds_ssts := ds_ssts s @ [\<lparr>sf_path = full, sf_level = level, sf_gen = gen\<rparr>],
                    ds_maxGen := max_gen gen (ds_maxGen s)\<rparr>
         else s)"

definition gen_less :: "sstFileInfo \<Rightarrow> sstFileInfo \<Rightarrow> bool" where
  "gen_less a b \<longleftrightarrow> sf_gen a < sf_gen b"

interpretation gl: lt_order gen_less
  by unfold_locales (auto simp: gen_less_def)

definition scanDir :: "string \<Rightarrow> fs \<Rightarrow> (error + dir_scan) \<times> fs" where
  "scanDir dir d =
     (let (r, d1) = os_ReadDir dir d
      in case r of
           Inl e \<Rightarrow> (Inl (EWrap ''engine: reading directory'' e), d1)
         | Inr entries \<Rightarrow>
             let s = foldl (scan_entry dir) \<lparr>ds_wals = [], ds_ssts = [], ds_maxGen = 0\<rparr> entries
             in (Inr (s\<lparr>ds_wals := sort (ds_wals s), ds_ssts := sort_Slice gen_less (ds_ssts s)\<rparr>), d1))"

declare dec.simps [simp del]

section \<open>Lemmas\<close>

lemma digit_value_dec: "n < 10 \<Longrightarrow> digit_value (dec_digit n) = Some n"
  by (simp add: digit_value_def dec_digit_def)

lemma digits_value_append:
  "digits_value (xs @ ys) acc = (case digits_value xs acc of None \<Rightarrow> None | Some v \<Rightarrow> digits_value ys v)"
  by (induction xs arbitrary: acc) (auto split: option.split)

lemma dec_not_Nil: "dec n \<noteq> []"
  by (simp add: dec.simps)

lemma digits_value_acc: "digits_value (dec n) acc = Some (acc * 10 ^ length (dec n) + n)"
proof (induction n arbitrary: acc rule: dec.induct)
  case (1 n)
  show ?case
  proof (cases "n < 10")
    case True
    then show ?thesis by (simp add: dec.simps [of n] digit_value_dec)
  next
    case False
    then show ?thesis
      using 1 [OF False, of acc]
      by (simp add: dec.simps [of n] digits_value_append digit_value_dec algebra_simps)
  qed
qed

lemma digits_value_zeros: "digits_value (replicate k (CHR ''0'') @ s) 0 = digits_value s 0"
  by (induction k) (simp_all add: digit_value_def)

lemma digits_value_zero_pad: "digits_value (zero_pad w n) 0 = Some n"
  by (simp add: zero_pad_def digits_value_zeros digits_value_acc)

lemma zero_pad_not_Nil: "zero_pad w n \<noteq> []"
  by (simp add: zero_pad_def dec_not_Nil)

lemma dec_chars: "c \<in> set (dec n) \<Longrightarrow> digit_value c \<noteq> None"
proof (induction n rule: dec.induct)
  case (1 n)
  then show ?case by (auto simp: dec.simps [of n] digit_value_dec split: if_splits)
qed

lemma zero_pad_chars: "c \<in> set (zero_pad w n) \<Longrightarrow> digit_value c \<noteq> None"
  by (auto simp: zero_pad_def digit_value_def dest: dec_chars split: if_splits)

lemma ParseUint_zero_pad: "n < 2 ^ 64 \<Longrightarrow> ParseUint (zero_pad w n) = Some (of_nat n)"
  by (simp add: ParseUint_def zero_pad_not_Nil digits_value_zero_pad)

lemma hd_zero_pad: "digit_value (hd (zero_pad w n)) \<noteq> None"
  by (rule zero_pad_chars [OF hd_in_set [OF zero_pad_not_Nil]])

lemma Atoi_zero_pad:
  assumes "n < 2 ^ 63"
  shows "Atoi (zero_pad w n) = Some (int n)"
proof -
  have "hd (zero_pad w n) \<noteq> CHR ''-''" "hd (zero_pad w n) \<noteq> CHR ''+''"
    using hd_zero_pad [of w n] by (auto simp: digit_value_def split: if_splits)
  then show ?thesis
    using assms by (simp add: Atoi_def Let_def zero_pad_not_Nil digits_value_zero_pad)
qed

lemma HasSuffix_append [simp]: "HasSuffix (s @ suf) suf"
  by (simp add: HasSuffix_def)

lemma TrimSuffix_append [simp]: "TrimSuffix (s @ suf) suf = s"
  by (simp add: TrimSuffix_def)

subsection \<open>Names parse back\<close>

lemma gen_bound: "unat (g :: u64) < 2 ^ 64"
  by (rule order_less_le_trans [OF unsigned_less]) simp

lemma digit_not_sep: "c \<in> set (zero_pad w n) \<Longrightarrow> c \<noteq> CHR ''-'' \<and> c \<noteq> CHR ''/'' \<and> c \<noteq> CHR ''.''"
  using zero_pad_chars [of c w n] by (auto simp: digit_value_def)

lemma SplitN2_sep: "\<forall>x \<in> set a. x \<noteq> c \<Longrightarrow> SplitN2 c (a @ c # b) = [a, b]"
  by (simp add: SplitN2_def takeWhile_append2 dropWhile_append2)

lemma parseSSTFilename_sst_name:
  assumes "level < 2 ^ 63"
  shows "parseSSTFilename (sst_name level gen) = Some (int level, gen)"
proof -
  let ?l = "CHR ''L'' # zero_pad 2 level" and ?g = "zero_pad 20 (unat gen)"
  have "TrimSuffix (sst_name level gen) ''.sst'' = ?l @ CHR ''-'' # ?g"
    using TrimSuffix_append [of "?l @ CHR ''-'' # ?g" "''.sst''"] by (simp add: sst_name_def)
  moreover have "SplitN2 (CHR ''-'') (?l @ CHR ''-'' # ?g) = [?l, ?g]"
    using digit_not_sep by (intro SplitN2_sep) auto
  moreover have "ParseUint ?g = Some gen" using gen_bound [of gen] by (simp add: ParseUint_zero_pad)
  moreover have "Suc 0 \<le> length (zero_pad 2 level)" using zero_pad_not_Nil [of 2 level] by (simp add: Suc_le_eq)
  ultimately show ?thesis
    using Atoi_zero_pad [OF assms, of 2] zero_pad_not_Nil by (simp add: parseSSTFilename_def Let_def)
qed

lemma sst_name_not_wal: "\<not> HasSuffix (sst_name level gen) ''.wal''" and sst_name_suffix: "HasSuffix (sst_name level gen) ''.sst''"
proof -
  have "HasSuffix (x @ ''.sst'') ''.sst''" "\<not> HasSuffix (x @ ''.sst'') ''.wal''" for x
    by (auto simp: HasSuffix_def)
  from this [of "''L'' @ zero_pad 2 level @ ''-'' @ zero_pad 20 (unat gen)"]
  show "\<not> HasSuffix (sst_name level gen) ''.wal''" "HasSuffix (sst_name level gen) ''.sst''" by (simp_all add: sst_name_def)
qed

subsection \<open>The order of names\<close>

definition digit_string :: "string \<Rightarrow> bool" where
  "digit_string s \<longleftrightarrow> (\<forall>c \<in> set s. digit_value c \<noteq> None)"

lemma digits_value_bounds:
  "digit_string s \<Longrightarrow> \<exists>v < 10 ^ length s. \<forall>acc. digits_value s acc = Some (acc * 10 ^ length s + v)"
proof (induction s)
  case Nil
  then show ?case by simp
next
  case (Cons c cs)
  then obtain v x where v: "v < 10 ^ length cs" "\<And>acc. digits_value cs acc = Some (acc * 10 ^ length cs + v)"
    and x: "digit_value c = Some x" by (auto simp: digit_string_def)
  then have "x \<le> 9" by (auto simp: digit_value_def split: if_splits)
  then have "x * 10 ^ length cs + v < 10 * 10 ^ length cs"
    using v(1) mult_right_mono [of x 9 "10 ^ length cs :: nat"] by linarith
  with v(2) x show ?case by (intro exI [of _ "x * 10 ^ length cs + v"]) (simp add: algebra_simps)
qed

lemma digit_value_less: "digit_value c = Some x \<Longrightarrow> digit_value d = Some y \<Longrightarrow> c < d \<longleftrightarrow> x < y"
  by (auto simp: digit_value_def less_char_def split: if_splits)

lemma digit_value_inj: "digit_value c = Some x \<Longrightarrow> digit_value d = Some x \<Longrightarrow> c = d"
  by (auto simp: digit_value_def split: if_splits) (metis eq_diff_iff of_char_eq_iff)

lemma digits_order:
  "digit_string s \<Longrightarrow> digit_string t \<Longrightarrow> length s = length t \<Longrightarrow>
   digits_value s acc = Some m \<Longrightarrow> digits_value t acc = Some n \<Longrightarrow> s < t \<longleftrightarrow> m < n"
proof (induction s arbitrary: t acc)
  case Nil
  then show ?case by simp
next
  case (Cons c s)
  then obtain d t' where t: "t = d # t'" by (cases t) auto
  obtain x y where xy: "digit_value c = Some x" "digit_value d = Some y"
    using Cons.prems t by (auto simp: digit_string_def)
  show ?case
  proof (cases "c = d")
    case True
    with Cons.IH [of t' "10 * acc + x"] Cons.prems t xy show ?thesis by (simp add: digit_string_def)
  next
    case False
    have ds: "digit_string s" "digit_string t'" using Cons.prems t by (simp_all add: digit_string_def)
    obtain v where v: "v < 10 ^ length s" "m = (10 * acc + x) * 10 ^ length s + v"
      using digits_value_bounds [OF ds(1)] Cons.prems(4) xy(1) by auto
    obtain w where w: "w < 10 ^ length s" "n = (10 * acc + y) * 10 ^ length s + w"
      using digits_value_bounds [OF ds(2)] Cons.prems(3,5) xy(2) t by auto
    have "x \<noteq> y" using False digit_value_inj xy by blast
    have far: "(10 * acc + a) * 10 ^ length s + p < (10 * acc + b) * 10 ^ length s + q" if "a < b" "p < 10 ^ length s" for a b p q :: nat
      using that mult_right_mono [of "10 * acc + Suc a" "10 * acc + b" "10 ^ length s :: nat"] by (simp add: algebra_simps)
    have "c < d \<longleftrightarrow> m < n"
      using far [of x y v w] far [of y x w v] v w \<open>x \<noteq> y\<close> digit_value_less [OF xy] by (cases "x < y") auto
    with t False show ?thesis by simp
  qed
qed

lemma length_dec: "n < 10 ^ k \<Longrightarrow> 0 < k \<Longrightarrow> length (dec n) \<le> k"
proof (induction n arbitrary: k rule: dec.induct)
  case (1 n)
  show ?case
  proof (cases "n < 10")
    case True
    with 1 show ?thesis by (simp add: dec.simps [of n])
  next
    case False
    then obtain j where "k = Suc j" "0 < j" using "1.prems" by (cases k; cases "k - 1") auto
    with "1.IH" [OF False, of j] "1.prems" False show ?thesis by (simp add: dec.simps [of n] less_mult_imp_div_less mult.commute)
  qed
qed

lemma length_zero_pad: "n < 10 ^ k \<Longrightarrow> 0 < k \<Longrightarrow> length (zero_pad k n) = k"
  using length_dec [of n k] by (simp add: zero_pad_def)

lemma gen_length: "length (zero_pad 20 (unat (g :: u64))) = 20"
  using gen_bound [of g] by (intro length_zero_pad) simp_all

lemma gen_order: "zero_pad 20 (unat (g :: u64)) < zero_pad 20 (unat h) \<longleftrightarrow> g < h"
  using digits_order [of "zero_pad 20 (unat g)" "zero_pad 20 (unat h)" 0 "unat g" "unat h"] zero_pad_chars
  by (simp add: digit_string_def gen_length digits_value_zero_pad word_less_nat_alt)

lemma append_less_same: "(p @ s < p @ t) = (s < (t :: string))"
  by (induction p) auto

lemma append_less_prefix: "length s = length t \<Longrightarrow> (s @ r < t @ r) = (s < (t :: string))"
  by (induction s t rule: list_induct2) auto

subsection \<open>Directory scans\<close>

lemma sst_name_plain: "CHR ''/'' \<notin> set (sst_name level gen)"
  using digit_not_sep by (auto simp: sst_name_def)

lemma wal_name_plain: "CHR ''/'' \<notin> set (zero_pad w n @ ''.wal'')"
  using digit_not_sep by auto

lemma dir_names_iff: "name \<in> set (dir_names dir d) \<longleftrightarrow> CHR ''/'' \<notin> set name \<and> fs_get d (filepath_Join dir name) \<noteq> None"
proof -
  have "name \<in> set (dir_names dir d) \<longleftrightarrow> CHR ''/'' \<notin> set name \<and> dir @ ''/'' @ name \<in> fst ` set (files d)"
  proof
    assume "name \<in> set (dir_names dir d)"
    then obtain p where p: "p \<in> fst ` set (files d)" "take (length dir + 1) p = dir @ ''/''" "name = drop (length dir + 1) p"
      "CHR ''/'' \<notin> set name" by (auto simp: dir_names_def)
    have "dir @ ''/'' @ name = p" using append_take_drop_id [of "length dir + 1" p] unfolding p(2,3) by simp
    then show "CHR ''/'' \<notin> set name \<and> dir @ ''/'' @ name \<in> fst ` set (files d)" using p(1,4) by simp
  next
    assume a: "CHR ''/'' \<notin> set name \<and> dir @ ''/'' @ name \<in> fst ` set (files d)"
    let ?p = "dir @ ''/'' @ name"
    have "?p \<in> set (remdups (map fst (files d)))" "take (length dir + 1) ?p = dir @ ''/''" "drop (length dir + 1) ?p = name" using a by auto
    then have "drop (length dir + 1) ?p \<in> set (dir_names dir d)"
      unfolding dir_names_def set_map set_filter using a by (intro imageI CollectI conjI) simp_all
    then show "name \<in> set (dir_names dir d)" by simp
  qed
  then show ?thesis by (simp add: filepath_Join_def fs_get_def map_of_eq_None_iff)
qed

lemma max_gen_ge [simp]: "a \<le> max_gen a b" "b \<le> max_gen a b"
  by (auto simp: max_gen_def)

lemma scan_entry_mono:
  "set (ds_wals s) \<subseteq> set (ds_wals (scan_entry dir s n)) \<and> set (ds_ssts s) \<subseteq> set (ds_ssts (scan_entry dir s n)) \<and>
   ds_maxGen s \<le> ds_maxGen (scan_entry dir s n)"
  by (auto simp: scan_entry_def Let_def split: option.splits)

lemma scan_fold_mono:
  "set (ds_wals s) \<subseteq> set (ds_wals (foldl (scan_entry dir) s ns)) \<and> set (ds_ssts s) \<subseteq> set (ds_ssts (foldl (scan_entry dir) s ns)) \<and>
   ds_maxGen s \<le> ds_maxGen (foldl (scan_entry dir) s ns)"
proof (induction ns arbitrary: s)
  case Nil
  then show ?case by simp
next
  case (Cons n ns)
  from Cons [of "scan_entry dir s n"] scan_entry_mono [of s dir n] show ?case by (auto dest: order_trans)
qed

lemma scan_fold_reaches:
  assumes "n \<in> set ns"
  obtains s' where "set (ds_wals (scan_entry dir s' n)) \<subseteq> set (ds_wals (foldl (scan_entry dir) s ns))"
    and "set (ds_ssts (scan_entry dir s' n)) \<subseteq> set (ds_ssts (foldl (scan_entry dir) s ns))"
    and "ds_maxGen (scan_entry dir s' n) \<le> ds_maxGen (foldl (scan_entry dir) s ns)"
proof -
  obtain xs ys where "ns = xs @ n # ys" using assms split_list by fastforce
  with that [of "foldl (scan_entry dir) s xs"] scan_fold_mono [of "scan_entry dir (foldl (scan_entry dir) s xs) n" dir ys]
  show thesis by auto
qed

lemma scan_entry_sst:
  "level < 2 ^ 63 \<Longrightarrow> \<lparr>sf_path = sstFileName dir level gen, sf_level = int level, sf_gen = gen\<rparr> \<in> set (ds_ssts (scan_entry dir s (sst_name level gen))) \<and>
     gen \<le> ds_maxGen (scan_entry dir s (sst_name level gen))"
  by (simp add: scan_entry_def Let_def sst_name_not_wal sst_name_suffix parseSSTFilename_sst_name sstFileName_def)

lemma scan_entry_wal:
  "walFileName dir gen \<in> set (ds_wals (scan_entry dir s (zero_pad 20 (unat gen) @ ''.wal''))) \<and>
     gen \<le> ds_maxGen (scan_entry dir s (zero_pad 20 (unat gen) @ ''.wal''))"
  using gen_bound [of gen] by (simp add: scan_entry_def Let_def walFileName_def ParseUint_zero_pad)

lemma scanDir_Inr:
  assumes "scanDir dir d = (Inr s, d')"
  shows "s = (let r = foldl (scan_entry dir) \<lparr>ds_wals = [], ds_ssts = [], ds_maxGen = 0\<rparr> (sort (dir_names dir d))
              in r\<lparr>ds_wals := sort (ds_wals r), ds_ssts := sort_Slice gen_less (ds_ssts r)\<rparr>)"
  using assms by (auto simp: scanDir_def os_ReadDir_def Let_def split: prod.splits option.splits)

lemma dir_names_distinct: "distinct (dir_names dir d)"
proof -
  let ?n = "length dir + 1"
  have "x = y" if "take ?n x = dir @ ''/''" "take ?n y = dir @ ''/''" "drop ?n x = drop ?n y" for x y :: string
    using append_take_drop_id [of ?n x] append_take_drop_id [of ?n y] unfolding that by simp
  then have "inj_on (drop ?n) {p. take ?n p = dir @ ''/''}" by (auto simp: inj_on_def)
  then show ?thesis unfolding dir_names_def distinct_map by (auto intro: inj_on_subset)
qed

text \<open>The entries a scan keeps, and their generations.\<close>

definition wal_entry :: "string \<Rightarrow> bool" where
  "wal_entry name \<longleftrightarrow> HasSuffix name ''.wal'' \<and> ParseUint (TrimSuffix name ''.wal'') \<noteq> None"

definition sst_entry :: "string \<Rightarrow> string \<Rightarrow> sstFileInfo option" where
  "sst_entry dir name =
     (if \<not> HasSuffix name ''.wal'' \<and> HasSuffix name ''.sst''
      then map_option (\<lambda>(level, gen). \<lparr>sf_path = filepath_Join dir name, sf_level = level, sf_gen = gen\<rparr>) (parseSSTFilename name)
      else None)"

definition entry_gen :: "string \<Rightarrow> u64 option" where
  "entry_gen name = (if HasSuffix name ''.wal'' then ParseUint (TrimSuffix name ''.wal'')
     else if HasSuffix name ''.sst'' then map_option snd (parseSSTFilename name) else None)"

lemma scan_fold:
  "ds_wals (foldl (scan_entry dir) s ns) = ds_wals s @ map (filepath_Join dir) (filter wal_entry ns) \<and>
   ds_ssts (foldl (scan_entry dir) s ns) = ds_ssts s @ List.map_filter (sst_entry dir) ns"
proof (induction ns arbitrary: s)
  case (Cons n ns)
  have "ds_wals (scan_entry dir s n) = ds_wals s @ (if wal_entry n then [filepath_Join dir n] else [])"
    "ds_ssts (scan_entry dir s n) = ds_ssts s @ (case sst_entry dir n of None \<Rightarrow> [] | Some i \<Rightarrow> [i])"
    by (auto simp: scan_entry_def wal_entry_def sst_entry_def Let_def split: option.splits)
  with Cons show ?case by (auto simp: map_filter_simps split: option.splits)
qed (simp add: map_filter_simps)

lemma scan_fold_gen:
  "\<forall>n \<in> set ns. \<forall>g. entry_gen n = Some g \<longrightarrow> g \<le> G \<Longrightarrow> ds_maxGen s \<le> G \<Longrightarrow> ds_maxGen (foldl (scan_entry dir) s ns) \<le> G"
proof (induction ns arbitrary: s)
  case (Cons n ns)
  have "ds_maxGen (scan_entry dir s n) \<le> G"
    using Cons.prems by (auto simp: scan_entry_def entry_gen_def max_gen_def Let_def split: option.splits)
  with Cons show ?case by simp
qed simp

lemma scanDir_lists:
  assumes "scanDir dir d = (Inr s, d')"
  shows "(\<forall>g. fs_get d (walFileName dir g) \<noteq> None \<longrightarrow> walFileName dir g \<in> set (ds_wals s) \<and> g \<le> ds_maxGen s) \<and>
    (\<forall>level g. level < 2 ^ 63 \<and> fs_get d (sstFileName dir level g) \<noteq> None \<longrightarrow>
       \<lparr>sf_path = sstFileName dir level g, sf_level = int level, sf_gen = g\<rparr> \<in> set (ds_ssts s) \<and> g \<le> ds_maxGen s) \<and>
    sorted (ds_wals s) \<and> sorted (map sf_gen (ds_ssts s))"
proof -
  let ?ns = "sort (dir_names dir d)" and ?s0 = "\<lparr>ds_wals = [], ds_ssts = [], ds_maxGen = 0\<rparr>"
  let ?r = "foldl (scan_entry dir) ?s0 ?ns"
  have s: "s = ?r\<lparr>ds_wals := sort (ds_wals ?r), ds_ssts := sort_Slice gen_less (ds_ssts ?r)\<rparr>"
    using scanDir_Inr [OF assms] by (simp add: Let_def)
  have "walFileName dir g \<in> set (ds_wals s) \<and> g \<le> ds_maxGen s" if "fs_get d (walFileName dir g) \<noteq> None" for g
  proof -
    let ?n = "zero_pad 20 (unat g) @ ''.wal''"
    have "?n \<in> set ?ns" using that wal_name_plain by (simp add: dir_names_iff walFileName_def)
    then obtain s' where "set (ds_wals (scan_entry dir s' ?n)) \<subseteq> set (ds_wals ?r)" "ds_maxGen (scan_entry dir s' ?n) \<le> ds_maxGen ?r"
      by (rule scan_fold_reaches)
    with scan_entry_wal [of dir g s'] s show ?thesis by auto
  qed
  moreover have "\<lparr>sf_path = sstFileName dir level g, sf_level = int level, sf_gen = g\<rparr> \<in> set (ds_ssts s) \<and> g \<le> ds_maxGen s"
    if "level < 2 ^ 63" "fs_get d (sstFileName dir level g) \<noteq> None" for level g
  proof -
    let ?n = "sst_name level g"
    have "?n \<in> set ?ns" using that sst_name_plain by (simp add: dir_names_iff sstFileName_def)
    then obtain s' where "set (ds_ssts (scan_entry dir s' ?n)) \<subseteq> set (ds_ssts ?r)" "ds_maxGen (scan_entry dir s' ?n) \<le> ds_maxGen ?r"
      by (rule scan_fold_reaches)
    with scan_entry_sst [OF that(1), of dir g s'] s show ?thesis by (auto simp: gl.sort_Slice_set)
  qed
  moreover have "sorted (map sf_gen (ds_ssts s))"
    using gl.sort_Slice_sorted [of "ds_ssts ?r"] s by (simp add: gen_less_def not_less sorted_map)
  moreover have "sorted (ds_wals s)" using s by simp
  ultimately show ?thesis by blast
qed

subsection \<open>Exactly the files of the store\<close>

lemma HasSuffix_iff: "HasSuffix s suf \<longleftrightarrow> (\<exists>x. s = x @ suf)"
  unfolding HasSuffix_def by (metis append_take_drop_id length_append le_add2 diff_add_inverse2 append_eq_conv_conj)

lemma wal_entry_iff: "wal_entry n \<longleftrightarrow> (\<exists>ds gen. n = ds @ ''.wal'' \<and> ParseUint ds = Some gen)"
  by (auto simp: wal_entry_def HasSuffix_iff)

lemma sst_not_wal: "\<not> HasSuffix (x @ ''.sst'') ''.wal''"
  by (auto simp: HasSuffix_def)

lemma SplitN2_iff: "SplitN2 c s = [a, b] \<longleftrightarrow> s = a @ c # b \<and> c \<notin> set a"
proof
  assume *: "SplitN2 c s = [a, b]"
  then have d: "dropWhile (\<lambda>x. x \<noteq> c) s \<noteq> []" "a = takeWhile (\<lambda>x. x \<noteq> c) s" "b = tl (dropWhile (\<lambda>x. x \<noteq> c) s)"
    by (auto simp: SplitN2_def Let_def split: if_splits)
  then have "dropWhile (\<lambda>x. x \<noteq> c) s = c # b" using hd_dropWhile [of "\<lambda>x. x \<noteq> c" s] by (cases "dropWhile (\<lambda>x. x \<noteq> c) s") auto
  with d(2) show "s = a @ c # b \<and> c \<notin> set a" using takeWhile_dropWhile_id [of "\<lambda>x. x \<noteq> c" s] set_takeWhileD by fastforce
qed (auto intro!: SplitN2_sep)

lemma parseSSTFilename_iff:
  "parseSSTFilename (base @ ''.sst'') = Some (level, gen) \<longleftrightarrow>
     (\<exists>ls ds. base = ''L'' @ ls @ ''-'' @ ds \<and> CHR ''-'' \<notin> set ls \<and> Atoi ls = Some level \<and> ParseUint ds = Some gen)"
  (is "?l \<longleftrightarrow> ?r")
proof
  assume ?l
  then obtain a b where ab: "SplitN2 (CHR ''-'') base = [a, b]" and "2 \<le> length a" "a ! 0 = CHR ''L''" "Atoi (tl a) = Some level" "ParseUint b = Some gen"
    by (auto simp: parseSSTFilename_def SplitN2_def Let_def split: if_splits option.splits)
  moreover from this obtain ls where "a = CHR ''L'' # ls" by (cases a) auto
  ultimately show ?r using SplitN2_iff [of "CHR ''-''" base a b] by auto
next
  assume ?r
  then obtain ls ds where *: "base = (CHR ''L'' # ls) @ CHR ''-'' # ds" "CHR ''-'' \<notin> set ls" "Atoi ls = Some level" "ParseUint ds = Some gen" by auto
  then have "SplitN2 (CHR ''-'') base = [CHR ''L'' # ls, ds]" by (subst SplitN2_iff) auto
  moreover have "ls \<noteq> []" using *(3) by (auto simp: Atoi_def)
  ultimately show ?l using *(3,4) by (cases ls) (simp_all add: parseSSTFilename_def Let_def)
qed

text \<open>The names a log and a table of the store may have in the directory.\<close>

definition log_path :: "string \<Rightarrow> string \<Rightarrow> u64 \<Rightarrow> bool" where
  "log_path dir path gen \<longleftrightarrow> (\<exists>ds. path = filepath_Join dir (ds @ ''.wal'') \<and> ParseUint ds = Some gen)"

definition table_path :: "string \<Rightarrow> string \<Rightarrow> int \<Rightarrow> u64 \<Rightarrow> bool" where
  "table_path dir path level gen \<longleftrightarrow>
     (\<exists>ls ds. path = filepath_Join dir (''L'' @ ls @ ''-'' @ ds @ ''.sst'') \<and> CHR ''-'' \<notin> set ls \<and>
        Atoi ls = Some level \<and> ParseUint ds = Some gen)"

lemma digits_value_chars: "digits_value s acc = Some n \<Longrightarrow> c \<in> set s \<Longrightarrow> digit_value c \<noteq> None"
  by (induction s arbitrary: acc) (auto split: option.splits)

lemma number_plain:
  "ParseUint s = Some gen \<Longrightarrow> CHR ''/'' \<notin> set s" "Atoi s = Some level \<Longrightarrow> CHR ''/'' \<notin> set s"
proof -
  have d: "digits_value s acc = Some n \<Longrightarrow> CHR ''/'' \<notin> set s" for s acc n
    using digits_value_chars [of s acc n "CHR ''/''"] by (auto simp: digit_value_def)
  show "ParseUint s = Some gen \<Longrightarrow> CHR ''/'' \<notin> set s"
    using d by (auto simp: ParseUint_def split: if_splits option.splits)
  show "Atoi s = Some level \<Longrightarrow> CHR ''/'' \<notin> set s"
    using d by (cases s) (auto simp: Atoi_def Let_def digit_value_def split: if_splits option.splits)
qed

lemma sst_entry_iff:
  "sst_entry dir n = Some i \<longleftrightarrow> sf_path i = filepath_Join dir n \<and> table_path dir (sf_path i) (sf_level i) (sf_gen i)"
  (is "?l \<longleftrightarrow> ?r")
proof
  assume ?l
  then obtain base level gen where "n = base @ ''.sst''" "parseSSTFilename n = Some (level, gen)" "i = \<lparr>sf_path = filepath_Join dir n, sf_level = level, sf_gen = gen\<rparr>"
    by (auto simp: sst_entry_def HasSuffix_iff split: if_splits)
  with parseSSTFilename_iff [of base level gen] show ?r unfolding table_path_def by fastforce
next
  assume ?r
  then obtain ls ds where n: "n = (''L'' @ ls @ ''-'' @ ds) @ ''.sst''" and *: "CHR ''-'' \<notin> set ls" "Atoi ls = Some (sf_level i)" "ParseUint ds = Some (sf_gen i)"
    and p: "sf_path i = filepath_Join dir n"
    by (auto simp: table_path_def filepath_Join_def)
  have "parseSSTFilename n = Some (sf_level i, sf_gen i)" unfolding n parseSSTFilename_iff using * by blast
  moreover have "\<not> HasSuffix n ''.wal''" "HasSuffix n ''.sst''" unfolding n by (rule sst_not_wal, rule HasSuffix_append)
  ultimately show ?l using p by (simp add: sst_entry_def)
qed

lemma entry_gen_iff:
  "entry_gen n = Some g \<longleftrightarrow> log_path dir (filepath_Join dir n) g \<or> (\<exists>i. sst_entry dir n = Some i \<and> sf_gen i = g)"
  by (auto simp: entry_gen_def log_path_def sst_entry_def filepath_Join_def HasSuffix_iff sst_not_wal)

lemma scan_fold_maxGen:
  "ds_maxGen (foldl (scan_entry dir) s ns) = Max (insert (ds_maxGen s) (set (List.map_filter entry_gen ns)))"
proof (induction ns arbitrary: s)
  case (Cons n ns)
  have "ds_maxGen (scan_entry dir s n) = (case entry_gen n of None \<Rightarrow> ds_maxGen s | Some g \<Rightarrow> max (ds_maxGen s) g)"
    by (auto simp: scan_entry_def entry_gen_def max_gen_def Let_def max_def split: option.splits)
  moreover have "Max (insert (max a b) S) = Max (insert a (insert b S))" if "finite S" for a b :: u64 and S
    using that by (cases "S = {}") (simp_all add: max.assoc)
  ultimately show ?case using Cons by (simp add: map_filter_simps split: option.splits)
qed (simp add: map_filter_simps)

lemma entry_gens: "set (List.map_filter entry_gen ns) = {g. \<exists>n \<in> set ns. entry_gen n = Some g}"
  by (auto simp: map_filter_def image_iff) (metis option.sel)

lemma sst_entries_distinct:
  assumes "distinct ns"
  shows "distinct (List.map_filter (sst_entry dir) ns)"
proof -
  have "n = m" if "sst_entry dir n = Some i" "sst_entry dir m = Some i" for n m i
    using that by (auto simp: sst_entry_iff filepath_Join_def)
  then have "inj_on (the \<circ> sst_entry dir) {n. sst_entry dir n \<noteq> None}" by (auto simp: inj_on_def)
  then show ?thesis using assms unfolding map_filter_def distinct_map by (auto intro: inj_on_subset)
qed

lemma scanDir_exact:
  assumes "scanDir dir d = (Inr s, d')"
  shows "\<forall>p. p \<in> set (ds_wals s) \<longleftrightarrow> fs_get d p \<noteq> None \<and> (\<exists>gen. log_path dir p gen)" (is ?logs)
    and "\<forall>i. i \<in> set (ds_ssts s) \<longleftrightarrow> fs_get d (sf_path i) \<noteq> None \<and> table_path dir (sf_path i) (sf_level i) (sf_gen i)" (is ?tables)
    and "ds_maxGen s = Max ({0} \<union> {gen. \<exists>p \<in> set (ds_wals s). log_path dir p gen} \<union> sf_gen ` set (ds_ssts s))" (is ?gen)
    and "distinct (ds_wals s)" and "distinct (ds_ssts s)"
proof -
  let ?ns = "sort (dir_names dir d)" and ?s0 = "\<lparr>ds_wals = [], ds_ssts = [], ds_maxGen = 0\<rparr>"
  let ?r = "foldl (scan_entry dir) ?s0 ?ns"
  have s: "s = ?r\<lparr>ds_wals := sort (ds_wals ?r), ds_ssts := sort_Slice gen_less (ds_ssts ?r)\<rparr>"
    using scanDir_Inr [OF assms] by (simp add: Let_def)
  have r: "ds_wals ?r = map (filepath_Join dir) (filter wal_entry ?ns)" "ds_ssts ?r = List.map_filter (sst_entry dir) ?ns"
    "ds_maxGen ?r = Max (insert 0 (set (List.map_filter entry_gen ?ns)))"
    using scan_fold [of dir ?s0 ?ns] scan_fold_maxGen [of dir ?s0 ?ns] by simp_all
  have join: "inj_on (filepath_Join dir) S" for S by (auto simp: inj_on_def filepath_Join_def)
  have w: "p \<in> set (ds_wals s) \<longleftrightarrow> (\<exists>n gen. p = filepath_Join dir n \<and> n \<in> set ?ns \<and> log_path dir p gen)" for p
    unfolding s by (auto simp: r(1) wal_entry_iff log_path_def filepath_Join_def)
  have t: "i \<in> set (ds_ssts s) \<longleftrightarrow> (\<exists>n \<in> set ?ns. sst_entry dir n = Some i)" for i
    unfolding s by (auto simp: r(2) gl.sort_Slice_set map_filter_def image_iff)
  have plain: "CHR ''/'' \<notin> set n" if "log_path dir (filepath_Join dir n) gen \<or> table_path dir (filepath_Join dir n) level gen" for n level gen
    using that number_plain by (auto simp: log_path_def table_path_def filepath_Join_def)
  show ?logs
    unfolding w using plain by (fastforce simp: dir_names_iff log_path_def)
  show ?tables
    unfolding t sst_entry_iff using plain by (fastforce simp: dir_names_iff table_path_def)
  have "set (List.map_filter entry_gen ?ns) = {gen. \<exists>p \<in> set (ds_wals s). log_path dir p gen} \<union> sf_gen ` set (ds_ssts s)"
    unfolding entry_gens set_eq_iff Un_iff mem_Collect_eq image_iff Bex_def w t entry_gen_iff [of _ _ dir] by blast
  then show ?gen using r(3) s by simp
  show "distinct (ds_wals s)" unfolding s by (simp add: r(1) distinct_map dir_names_distinct join)
  show "distinct (ds_ssts s)" unfolding s using sst_entries_distinct dir_names_distinct by (simp add: r(2) mset_eq_imp_distinct_iff [OF gl.sort_Slice_mset])
qed

section \<open>Properties\<close>

text \<open>
  Log file names sort as strings in the order of their generations, for every 64-bit
  generation, so that the sorted directory listing replays the logs oldest first.
\<close>

lemma wal_names_in_generation_order: "walFileName dir g < walFileName dir h \<longleftrightarrow> g < h"
  using append_less_same [of "dir @ ''/''" "zero_pad 20 (unat g) @ ''.wal''" "zero_pad 20 (unat h) @ ''.wal''"]
    append_less_prefix [of "zero_pad 20 (unat g)" "zero_pad 20 (unat h)" "''.wal''"] gen_length gen_order
  by (simp add: walFileName_def filepath_Join_def)

text \<open>
  C39: a directory scan that succeeds lists exactly the logs and tables among the files of the
  directory, each once, the logs sorted by name and the tables by generation; the level and the
  generation of a table are those of its name; and the generation returned is the largest one in a
  listed name (0 without one), so that the next generation names a new file. Every name that the
  store itself gives a log or a table is among them.
\<close>

theorem scan_dir_complete:
  assumes "scanDir dir d = (Inr s, d')"
  shows "(\<forall>p. p \<in> set (ds_wals s) \<longleftrightarrow> fs_get d p \<noteq> None \<and> (\<exists>gen. log_path dir p gen)) \<and>
    (\<forall>i. i \<in> set (ds_ssts s) \<longleftrightarrow> fs_get d (sf_path i) \<noteq> None \<and> table_path dir (sf_path i) (sf_level i) (sf_gen i)) \<and>
    distinct (ds_wals s) \<and> distinct (ds_ssts s) \<and> sorted (ds_wals s) \<and> sorted (map sf_gen (ds_ssts s)) \<and>
    ds_maxGen s = Max ({0} \<union> {gen. \<exists>p \<in> set (ds_wals s). log_path dir p gen} \<union> sf_gen ` set (ds_ssts s)) \<and>
    (\<forall>g. fs_get d (walFileName dir g) \<noteq> None \<longrightarrow> walFileName dir g \<in> set (ds_wals s) \<and> g \<le> ds_maxGen s) \<and>
    (\<forall>level g. level < 2 ^ 63 \<and> fs_get d (sstFileName dir level g) \<noteq> None \<longrightarrow>
       \<lparr>sf_path = sstFileName dir level g, sf_level = int level, sf_gen = g\<rparr> \<in> set (ds_ssts s) \<and> g \<le> ds_maxGen s)"
  using scanDir_lists [OF assms] scanDir_exact [OF assms] by blast

definition demo_dir :: fs where
  "demo_dir = \<lparr>files = [(walFileName ''d'' 7, \<lparr>content = [], durable = 0\<rparr>), (sstFileName ''d'' 0 5, \<lparr>content = [], durable = 0\<rparr>),
     (''d/notes.txt'', \<lparr>content = [], durable = 0\<rparr>)],
     sched = (\<lambda>_. Done), clock = 0, down = False, unreadable = (\<lambda>_ _. False)\<rparr>"

theorem scan_dir_complete_witness:
  "\<exists>s d'. scanDir ''d'' demo_dir = (Inr s, d') \<and> set (ds_wals s) = {walFileName ''d'' 7} \<and>
     \<lparr>sf_path = sstFileName ''d'' 0 5, sf_level = 0, sf_gen = 5\<rparr> \<in> set (ds_ssts s) \<and> ''d/notes.txt'' \<notin> sf_path ` set (ds_ssts s) \<and> 7 \<le> ds_maxGen s"
proof -
  obtain s d' where s: "scanDir ''d'' demo_dir = (Inr s, d')"
    by (cases "scanDir ''d'' demo_dir") (auto simp: scanDir_def os_ReadDir_def tick_def demo_dir_def Let_def)
  note exact = scan_dir_complete [OF s]
  then have sst: "\<forall>level g. level < 2 ^ 63 \<and> fs_get demo_dir (sstFileName ''d'' level g) \<noteq> None \<longrightarrow>
    \<lparr>sf_path = sstFileName ''d'' level g, sf_level = int level, sf_gen = g\<rparr> \<in> set (ds_ssts s) \<and> g \<le> ds_maxGen s" by (elim conjE)
  have files: "fs_get demo_dir p \<noteq> None \<longleftrightarrow> p \<in> {walFileName ''d'' 7, sstFileName ''d'' 0 5, ''d/notes.txt''}" for p
    by (auto simp: fs_get_def demo_dir_def)
  have "\<not> log_path ''d'' (sstFileName ''d'' 0 5) gen" "\<not> log_path ''d'' ''d/notes.txt'' gen" for gen
    using sst_name_not_wal [of 0 5] by (auto simp: log_path_def sstFileName_def filepath_Join_def HasSuffix_iff append_eq_append_conv_if Cons_eq_append_conv)
  moreover have "\<not> table_path ''d'' ''d/notes.txt'' level gen" for level gen
    by (auto simp: table_path_def filepath_Join_def)
  moreover have "walFileName ''d'' 7 \<in> set (ds_wals s) \<and> 7 \<le> ds_maxGen s" using exact files by blast
  moreover have "\<lparr>sf_path = sstFileName ''d'' 0 5, sf_level = int 0, sf_gen = 5\<rparr> \<in> set (ds_ssts s)"
    using sst [rule_format, of 0 5] files by simp
  ultimately show ?thesis using s exact files by (intro exI [of _ s] exI [of _ d']) auto
qed

end
