(* ===== verification/Metrics.thy ===== *)
theory Metrics
  imports Complex_Main Names
begin

text \<open>
  \<^verbatim>\<open>src/metrics/metrics.go\<close>: counters, gauges, a gauge per label value and latency histograms, and
  the registry that renders them as text. A registry is the list of the registered metrics; the
  pointer to a metric is its position. Values are \<^verbatim>\<open>int64\<close> at their width. The text of a float
  (\<^verbatim>\<open>strconv.FormatFloat\<close>) is a parameter of the rendering. The theorems show that the cumulative
  bucket counts of a histogram count the observations up to each bound and that the registry
  renders every metric once, in registration order.
\<close>

section \<open>Definitions\<close>

type_synonym i64 = "64 word"

record Counter =
  c_name :: string
  c_help :: string
  c_value :: i64

definition Counter_Inc :: "Counter \<Rightarrow> Counter" where
  "Counter_Inc c = c\<lparr>c_value := c_value c + 1\<rparr>"

definition Counter_Add :: "i64 \<Rightarrow> Counter \<Rightarrow> Counter" where
  "Counter_Add delta c = c\<lparr>c_value := c_value c + delta\<rparr>"

definition Counter_Value :: "Counter \<Rightarrow> i64" where
  "Counter_Value c = c_value c"

record Gauge =
  g_name :: string
  g_help :: string
  g_value :: i64

definition Gauge_Set :: "i64 \<Rightarrow> Gauge \<Rightarrow> Gauge" where
  "Gauge_Set v g = g\<lparr>g_value := v\<rparr>"

definition Gauge_Add :: "i64 \<Rightarrow> Gauge \<Rightarrow> Gauge" where
  "Gauge_Add delta g = g\<lparr>g_value := g_value g + delta\<rparr>"

definition Gauge_Value :: "Gauge \<Rightarrow> i64" where
  "Gauge_Value g = g_value g"

text \<open>The map of a GaugeVec as an association list with distinct keys.\<close>

record GaugeVec =
  gv_name :: string
  gv_help :: string
  gv_labelName :: string
  gv_values :: "(string \<times> i64) list"

definition GaugeVec_Set :: "string \<Rightarrow> i64 \<Rightarrow> GaugeVec \<Rightarrow> GaugeVec" where
  "GaugeVec_Set labelValue v gv = gv\<lparr>gv_values := AList.update labelValue v (gv_values gv)\<rparr>"

definition microsecond :: int where
  "microsecond = 1000"

definition millisecond :: int where
  "millisecond = 1000 * microsecond"

definition second :: int where
  "second = 1000 * millisecond"

definition defaultLatencyBucketsNs :: "i64 list" where
  "defaultLatencyBucketsNs = map of_int
     [100 * microsecond, 500 * microsecond, millisecond, 5 * millisecond, 10 * millisecond, 50 * millisecond,
      100 * millisecond, 500 * millisecond, second, 5 * second]"

record Histogram =
  h_name :: string
  h_help :: string
  h_bounds :: "i64 list"
  h_counts :: "i64 list"
  h_sumNs :: i64
  h_count :: i64

definition Histogram_Observe :: "i64 \<Rightarrow> Histogram \<Rightarrow> Histogram" where
  "Histogram_Observe d h =
     (let ns = (if sint d < 0 then 0 else d);
          h1 = h\<lparr>h_sumNs := h_sumNs h + ns, h_count := h_count h + 1\<rparr>;
          idx = sort_Search (length (h_bounds h)) (\<lambda>i. sint (h_bounds h ! i) \<ge> sint ns)
      in if idx = length (h_bounds h) then h1
         else h1\<lparr>h_counts := (h_counts h)[idx := h_counts h ! idx + 1]\<rparr>)"

subsection \<open>Rendering\<close>

definition Itoa :: "int \<Rightarrow> string" where
  "Itoa n = (if n < 0 then ''-'' @ dec (nat (- n)) else dec (nat n))"

text \<open>\<^verbatim>\<open>%q\<close> of a printable ASCII string, which label values and bucket bounds are.\<close>

definition quote_char :: "char \<Rightarrow> string" where
  "quote_char c = (if c = CHR 0x22 \<or> c = CHR 0x5C then [CHR 0x5C, c] else [c])"

definition quote :: "string \<Rightarrow> string" where
  "quote s = [CHR 0x22] @ concat (map quote_char s) @ [CHR 0x22]"

definition nl :: string where
  "nl = [CHR 0x0A]"

definition help_type :: "string \<Rightarrow> string \<Rightarrow> string \<Rightarrow> string" where
  "help_type name help kind = ''# HELP '' @ name @ '' '' @ help @ nl @ ''# TYPE '' @ name @ '' '' @ kind @ nl"

definition Counter_render :: "Counter \<Rightarrow> string" where
  "Counter_render c = help_type (c_name c) (c_help c) ''counter'' @ c_name c @ '' '' @ Itoa (sint (Counter_Value c)) @ nl"

definition Gauge_render :: "Gauge \<Rightarrow> string" where
  "Gauge_render g = help_type (g_name g) (g_help g) ''gauge'' @ g_name g @ '' '' @ Itoa (sint (Gauge_Value g)) @ nl"

definition GaugeVec_render :: "GaugeVec \<Rightarrow> string" where
  "GaugeVec_render gv =
     (let keys = sort (map fst (gv_values gv))
      in help_type (gv_name gv) (gv_help gv) ''gauge'' @
         concat (map (\<lambda>k. gv_name gv @ ''{'' @ gv_labelName gv @ ''='' @ quote k @ ''} '' @
                          Itoa (sint (case map_of (gv_values gv) k of None \<Rightarrow> 0 | Some v \<Rightarrow> v)) @ nl) keys))"

definition formatSeconds :: "(rat \<Rightarrow> string) \<Rightarrow> i64 \<Rightarrow> string" where
  "formatSeconds FormatFloat ns = FormatFloat (of_int (sint ns) / 1000000000)"

definition bucket_line :: "string \<Rightarrow> string \<Rightarrow> i64 \<Rightarrow> string" where
  "bucket_line name le n = name @ ''_bucket{le='' @ quote le @ ''} '' @ Itoa (sint n) @ nl"

fun render_buckets :: "(rat \<Rightarrow> string) \<Rightarrow> string \<Rightarrow> i64 list \<Rightarrow> i64 list \<Rightarrow> i64 \<Rightarrow> string" where
  "render_buckets ff name (b # bs) (c # cs) cumulative =
     bucket_line name (formatSeconds ff b) (cumulative + c) @
     render_buckets ff name bs cs (cumulative + c)"
| "render_buckets ff name bs cs cumulative = []"

definition Histogram_render :: "(rat \<Rightarrow> string) \<Rightarrow> Histogram \<Rightarrow> string" where
  "Histogram_render ff h =
     help_type (h_name h) (h_help h) ''histogram'' @
     render_buckets ff (h_name h) (h_bounds h) (h_counts h) 0 @
     bucket_line (h_name h) ''+Inf'' (h_count h) @
     h_name h @ ''_sum '' @ formatSeconds ff (h_sumNs h) @ nl @
     h_name h @ ''_count '' @ Itoa (sint (h_count h)) @ nl"

subsection \<open>The registry\<close>

datatype metric = MCounter Counter | MGauge Gauge | MGaugeVec GaugeVec | MHistogram Histogram

fun render :: "(rat \<Rightarrow> string) \<Rightarrow> metric \<Rightarrow> string" where
  "render ff (MCounter c) = Counter_render c"
| "render ff (MGauge g) = Gauge_render g"
| "render ff (MGaugeVec gv) = GaugeVec_render gv"
| "render ff (MHistogram h) = Histogram_render ff h"

type_synonym Registry = "metric list"

definition NewRegistry :: Registry where
  "NewRegistry = []"

definition register :: "metric \<Rightarrow> Registry \<Rightarrow> nat \<times> Registry" where
  "register m r = (length r, r @ [m])"

definition Registry_Render :: "(rat \<Rightarrow> string) \<Rightarrow> Registry \<Rightarrow> string" where
  "Registry_Render ff r = concat (map (render ff) r)"

definition NewCounter :: "string \<Rightarrow> string \<Rightarrow> Registry \<Rightarrow> nat \<times> Registry" where
  "NewCounter name help r = register (MCounter \<lparr>c_name = name, c_help = help, c_value = 0\<rparr>) r"

definition NewGauge :: "string \<Rightarrow> string \<Rightarrow> Registry \<Rightarrow> nat \<times> Registry" where
  "NewGauge name help r = register (MGauge \<lparr>g_name = name, g_help = help, g_value = 0\<rparr>) r"

definition NewGaugeVec :: "string \<Rightarrow> string \<Rightarrow> string \<Rightarrow> Registry \<Rightarrow> nat \<times> Registry" where
  "NewGaugeVec name help labelName r =
     register (MGaugeVec \<lparr>gv_name = name, gv_help = help, gv_labelName = labelName, gv_values = []\<rparr>) r"

definition new_histogram :: "string \<Rightarrow> string \<Rightarrow> Histogram" where
  "new_histogram name help =
     \<lparr>h_name = name, h_help = help, h_bounds = defaultLatencyBucketsNs,
      h_counts = replicate (length defaultLatencyBucketsNs) 0, h_sumNs = 0, h_count = 0\<rparr>"

definition NewLatencyHistogram :: "string \<Rightarrow> string \<Rightarrow> Registry \<Rightarrow> nat \<times> Registry" where
  "NewLatencyHistogram name help r = register (MHistogram (new_histogram name help)) r"

text \<open>Method calls through the pointer of a metric.\<close>

fun on_counter :: "(Counter \<Rightarrow> Counter) \<Rightarrow> metric \<Rightarrow> metric" where
  "on_counter f (MCounter c) = MCounter (f c)"
| "on_counter f m = m"

fun on_gauge :: "(Gauge \<Rightarrow> Gauge) \<Rightarrow> metric \<Rightarrow> metric" where
  "on_gauge f (MGauge g) = MGauge (f g)"
| "on_gauge f m = m"

fun on_gaugeVec :: "(GaugeVec \<Rightarrow> GaugeVec) \<Rightarrow> metric \<Rightarrow> metric" where
  "on_gaugeVec f (MGaugeVec g) = MGaugeVec (f g)"
| "on_gaugeVec f m = m"

fun on_histogram :: "(Histogram \<Rightarrow> Histogram) \<Rightarrow> metric \<Rightarrow> metric" where
  "on_histogram f (MHistogram h) = MHistogram (f h)"
| "on_histogram f m = m"

definition at_metric :: "nat \<Rightarrow> (metric \<Rightarrow> metric) \<Rightarrow> Registry \<Rightarrow> Registry" where
  "at_metric p f r = (if p < length r then r[p := f (r ! p)] else r)"

section \<open>Lemmas\<close>

text \<open>The duration that is counted: a negative one counts as zero.\<close>

definition clamp_ns :: "i64 \<Rightarrow> i64" where
  "clamp_ns d = (if sint d < 0 then 0 else d)"

lemma clamp_ns_nonneg: "0 \<le> sint (clamp_ns d)"
  by (simp add: clamp_ns_def)

text \<open>The cumulative count a rendered bucket shows.\<close>

definition cumulative :: "Histogram \<Rightarrow> nat \<Rightarrow> i64" where
  "cumulative h i = sum_list (take (Suc i) (h_counts h))"

definition observed :: "Histogram \<Rightarrow> i64 list \<Rightarrow> Histogram" where
  "observed h ds = foldl (\<lambda>h d. Histogram_Observe d h) h ds"

definition hist_wf :: "Histogram \<Rightarrow> bool" where
  "hist_wf h \<longleftrightarrow> length (h_counts h) = length (h_bounds h) \<and> sorted_wrt (\<lambda>a b. sint a \<le> sint b) (h_bounds h)"

lemma sum_list_take_update:
  "j < length xs \<Longrightarrow> sum_list (take n (xs[j := xs ! j + 1])) = sum_list (take n xs) + (if j < n then 1 else 0 :: i64)"
proof (induction xs arbitrary: j n)
  case Nil
  then show ?case by simp
next
  case (Cons x xs)
  then show ?case by (cases j; cases n) (auto simp: algebra_simps)
qed

lemma Observe_keeps:
  "h_bounds (Histogram_Observe d h) = h_bounds h" "h_sumNs (Histogram_Observe d h) = h_sumNs h + clamp_ns d"
  "h_count (Histogram_Observe d h) = h_count h + 1" "length (h_counts (Histogram_Observe d h)) = length (h_counts h)"
  "hist_wf h \<Longrightarrow> hist_wf (Histogram_Observe d h)"
  by (simp_all add: Histogram_Observe_def Let_def clamp_ns_def hist_wf_def)

lemma bucket_search:
  assumes "hist_wf h" and "i < length (h_bounds h)"
  shows "sort_Search (length (h_bounds h)) (\<lambda>i. sint (h_bounds h ! i) \<ge> sint ns) \<le> i \<longleftrightarrow> sint ns \<le> sint (h_bounds h ! i)"
proof -
  let ?f = "\<lambda>i. sint (h_bounds h ! i) \<ge> sint ns"
  have mono: "sint (h_bounds h ! a) \<le> sint (h_bounds h ! b)" if "a \<le> b" "b < length (h_bounds h)" for a b
    using assms(1) that by (cases "a = b") (auto simp: hist_wf_def sorted_wrt_iff_nth_less)
  show ?thesis
  proof
    assume le: "sort_Search (length (h_bounds h)) ?f \<le> i"
    then have "?f (sort_Search (length (h_bounds h)) ?f)" using assms(2) sort_Search_holds [of "length (h_bounds h)" ?f] by simp
    with mono [OF le assms(2)] show "sint ns \<le> sint (h_bounds h ! i)" by linarith
  next
    assume i: "sint ns \<le> sint (h_bounds h ! i)"
    show "sort_Search (length (h_bounds h)) ?f \<le> i"
    proof (rule ccontr)
      let ?k = "sort_Search (length (h_bounds h)) ?f"
      assume "\<not> ?k \<le> i"
      moreover have "?k - 1 < length (h_bounds h)" using sort_Search_le [of "length (h_bounds h)" ?f] calculation by linarith
      moreover have "i \<le> ?k - 1" "0 < ?k" using \<open>\<not> ?k \<le> i\<close> by linarith+
      ultimately show False using sort_Search_pred [of "length (h_bounds h)" ?f] mono [of i "?k - 1"] i by auto
    qed
  qed
qed

lemma Observe_cumulative:
  assumes "hist_wf h" and "i < length (h_bounds h)"
  shows "cumulative (Histogram_Observe d h) i = cumulative h i + (if sint (clamp_ns d) \<le> sint (h_bounds h ! i) then 1 else 0)"
proof -
  let ?k = "sort_Search (length (h_bounds h)) (\<lambda>i. sint (h_bounds h ! i) \<ge> sint (clamp_ns d))"
  note b = bucket_search [OF assms, of "clamp_ns d"]
  have "?k \<le> length (h_bounds h)" by (rule sort_Search_le)
  then consider "?k = length (h_bounds h)" | "?k < length (h_counts h)" using assms(1) unfolding hist_wf_def by linarith
  then show ?thesis
  proof cases
    case 1
    then have "h_counts (Histogram_Observe d h) = h_counts h" by (simp add: Histogram_Observe_def Let_def clamp_ns_def)
    with 1 b assms(2) show ?thesis by (simp add: cumulative_def)
  next
    case 2
    then have "h_counts (Histogram_Observe d h) = (h_counts h)[?k := h_counts h ! ?k + 1]"
      using assms(1) by (simp add: Histogram_Observe_def Let_def clamp_ns_def hist_wf_def)
    with sum_list_take_update [OF 2, of "Suc i"] b show ?thesis by (simp add: cumulative_def less_Suc_eq_le)
  qed
qed

lemma observed_Cons: "observed h (d # ds) = observed (Histogram_Observe d h) ds"
  by (simp add: observed_def)

lemma observed_counts:
  "hist_wf h \<Longrightarrow> h_bounds (observed h ds) = h_bounds h \<and> hist_wf (observed h ds) \<and>
   h_sumNs (observed h ds) = h_sumNs h + sum_list (map clamp_ns ds) \<and> h_count (observed h ds) = h_count h + of_nat (length ds) \<and>
   (\<forall>i < length (h_bounds h). cumulative (observed h ds) i =
      cumulative h i + of_nat (length (filter (\<lambda>d. sint (clamp_ns d) \<le> sint (h_bounds h ! i)) ds)))"
proof (induction ds arbitrary: h)
  case Nil
  then show ?case by (simp add: observed_def)
next
  case (Cons d ds)
  from Cons.IH [OF Observe_keeps(5) [OF Cons.prems]] Observe_cumulative [OF Cons.prems] show ?case
    by (auto simp: observed_Cons Observe_keeps)
qed

lemma sint_bucket: "0 \<le> n \<Longrightarrow> n < 2 ^ 63 \<Longrightarrow> sint (of_int n :: i64) = n"
  by (simp add: signed_of_int signed_take_bit_int_eq_self)

lemma new_histogram_wf: "hist_wf (new_histogram name help)" "cumulative (new_histogram name help) i = 0"
proof -
  show "hist_wf (new_histogram name help)"
    by (simp add: hist_wf_def new_histogram_def defaultLatencyBucketsNs_def microsecond_def millisecond_def second_def)
  show "cumulative (new_histogram name help) i = 0"
    by (simp add: cumulative_def new_histogram_def sum_list_replicate)
qed

lemma render_buckets_cumulative:
  "length cs = length bs \<Longrightarrow> render_buckets ff name bs cs a =
     concat (map (\<lambda>i. bucket_line name (formatSeconds ff (bs ! i)) (a + sum_list (take (Suc i) cs))) [0..<length bs])"
proof (induction bs arbitrary: cs a)
  case Nil
  then show ?case by simp
next
  case (Cons b bs)
  then obtain c cs' where cs: "cs = c # cs'" "length cs' = length bs" by (cases cs) auto
  have "[0..<length (b # bs)] = 0 # map Suc [0..<length bs]" by (simp add: map_Suc_upt upt_conv_Cons del: upt_Suc)
  with Cons.IH [OF cs(2), of "a + c"] cs show ?case by (simp add: comp_def add.assoc del: upt_Suc)
qed

section \<open>Properties\<close>

text \<open>
  C40: after any series of observed durations, each line a latency histogram renders for a bound
  carries the number of durations at or below that bound (a negative duration counts as zero),
  the +Inf line and the count carry the number of all durations, and the sum their sum, all
  modulo the width of the 64-bit counters.
\<close>

theorem histogram_counts_observations:
  "Histogram_render ff (observed (new_histogram name help) ds) =
    help_type name help ''histogram'' @
    concat (map (\<lambda>b. bucket_line name (formatSeconds ff b) (of_nat (length (filter (\<lambda>d. sint (clamp_ns d) \<le> sint b) ds))))
      defaultLatencyBucketsNs) @
    bucket_line name ''+Inf'' (of_nat (length ds)) @
    name @ ''_sum '' @ formatSeconds ff (sum_list (map clamp_ns ds)) @ nl @
    name @ ''_count '' @ Itoa (sint (of_nat (length ds) :: i64)) @ nl"
proof -
  let ?h0 = "new_histogram name help" and ?B = defaultLatencyBucketsNs
  let ?n = "\<lambda>b. of_nat (length (filter (\<lambda>d. sint (clamp_ns d) \<le> sint b) ds)) :: i64"
  define h where "h = observed ?h0 ds"
  note O = observed_counts [OF new_histogram_wf(1), of _ _ ds]
  have nm: "h_name (observed g ds) = h_name g" "h_help (observed g ds) = h_help g" for g
    by (induction ds arbitrary: g) (simp_all add: observed_def Histogram_Observe_def Let_def)
  have fields: "h_name h = name" "h_help h = help" "h_bounds h = ?B" "length (h_counts h) = length (h_bounds h)"
    "h_sumNs h = sum_list (map clamp_ns ds)" "h_count h = of_nat (length ds)"
    using O nm [of ?h0] unfolding h_def by (simp_all add: hist_wf_def new_histogram_def)
  have cum: "0 + sum_list (take (Suc i) (h_counts h)) = ?n (?B ! i)" if "i < length ?B" for i
    using O new_histogram_wf(2) that unfolding h_def by (simp add: cumulative_def new_histogram_def sum_list_replicate)
  have "render_buckets ff name ?B (h_counts h) 0 =
      concat (map (\<lambda>i. bucket_line name (formatSeconds ff (?B ! i)) (?n (?B ! i))) [0..<length ?B])"
  proof -
    have "map (\<lambda>i. bucket_line name (formatSeconds ff (?B ! i)) (0 + sum_list (take (Suc i) (h_counts h)))) [0..<length ?B] =
      map (\<lambda>i. bucket_line name (formatSeconds ff (?B ! i)) (?n (?B ! i))) [0..<length ?B]"
      by (rule map_cong [OF refl]) (simp only: cum set_upt atLeastLessThan_iff)
    with render_buckets_cumulative [OF fields(4), of ff name 0] show ?thesis by (simp only: fields(3))
  qed
  also have "\<dots> = concat (map (\<lambda>b. bucket_line name (formatSeconds ff b) (?n b)) ?B)"
    using map_map [of "\<lambda>b. bucket_line name (formatSeconds ff b) (?n b)" "(!) ?B" "[0..<length ?B]"] by (simp only: map_nth comp_def)
  finally show ?thesis by (simp add: Histogram_render_def fields flip: h_def)
qed

end
