(* ===== verification/Skiplist.thy ===== *)
theory Skiplist
  imports Prelude
begin

text \<open>
  \<^verbatim>\<open>src/skiplist/skiplist.go\<close>: the skip list behind every MemTable, at the level of its pointers.
  The nodes of one list live in a store indexed by address, the head node is the pointer \<open>Head\<close>
  (only its \<^verbatim>\<open>next\<close> array is ever read), and \<^verbatim>\<open>nil\<close> is \<open>Null\<close>. The loops that follow \<^verbatim>\<open>next\<close> pointers
  take the number of nodes plus one as fuel; under the invariant \<open>skl_inv\<close> no walk is longer
  (the lemmas on \<open>walk\<close> and \<open>collect\<close> hold for any larger fuel as well). The invariant says that
  level \<open>i\<close> is the chain of exactly the nodes of height above \<open>i\<close>, in strictly ascending key order;
  the operations refine an ordered association list. The mutex makes each operation atomic and
  is not part of the model.
\<close>

section \<open>Definitions\<close>

definition maxLevel :: nat where
  "maxLevel = 16"

datatype ptr = Null | Head | Nd nat

record 'v node =
  node_key :: bytes
  node_val :: 'v
  node_next :: "ptr list"

text \<open>
  \<open>skl_rnd n\<close> is the \<open>n\<close>-th draw of \<^verbatim>\<open>rnd.Float64()\<close>, scaled by \<open>2 ^ 53\<close> (the function returns an integer
  below \<open>2 ^ 53\<close> divided by it); \<open>skl_drawn\<close> counts the draws made so far.
\<close>

record 'v SkipList =
  skl_nodes :: "'v node list"
  skl_head :: "ptr list"
  skl_level :: nat
  skl_len :: nat
  skl_rnd :: "nat \<Rightarrow> int"
  skl_drawn :: nat

definition SkipList_New :: "(nat \<Rightarrow> int) \<Rightarrow> 'v SkipList" where
  "SkipList_New r = \<lparr>skl_nodes = [], skl_head = replicate maxLevel Null, skl_level = 1, skl_len = 0, skl_rnd = r, skl_drawn = 0\<rparr>"

definition below_pFactor :: "int \<Rightarrow> bool" where
  "below_pFactor d \<longleftrightarrow> d < 2251799813685248"

fun randomLevel_loop :: "nat \<Rightarrow> 'v SkipList \<Rightarrow> nat \<Rightarrow> nat \<times> 'v SkipList" where
  "randomLevel_loop 0 s lvl = (lvl, s)"
| "randomLevel_loop (Suc n) s lvl =
     (let s' = s\<lparr>skl_drawn := skl_drawn s + 1\<rparr>
      in if below_pFactor (skl_rnd s (skl_drawn s)) then randomLevel_loop n s' (lvl + 1) else (lvl, s'))"

definition randomLevel :: "'v SkipList \<Rightarrow> nat \<times> 'v SkipList" where
  "randomLevel s = randomLevel_loop (maxLevel - 1) s 1"

fun next_of :: "'v SkipList \<Rightarrow> ptr \<Rightarrow> nat \<Rightarrow> ptr" where
  "next_of s Head i = skl_head s ! i"
| "next_of s (Nd a) i = node_next (skl_nodes s ! a) ! i"
| "next_of s Null i = Null"

fun set_next :: "'v SkipList \<Rightarrow> ptr \<Rightarrow> nat \<Rightarrow> ptr \<Rightarrow> 'v SkipList" where
  "set_next s Head i p = s\<lparr>skl_head := (skl_head s)[i := p]\<rparr>"
| "set_next s (Nd a) i p = s\<lparr>skl_nodes := (skl_nodes s)[a := (skl_nodes s ! a)\<lparr>node_next := (node_next (skl_nodes s ! a))[i := p]\<rparr>]\<rparr>"
| "set_next s Null i p = s"

fun walk :: "nat \<Rightarrow> 'v SkipList \<Rightarrow> (bytes \<Rightarrow> bool) \<Rightarrow> nat \<Rightarrow> ptr \<Rightarrow> ptr" where
  "walk 0 s before i cur = cur"
| "walk (Suc fuel) s before i cur =
     (case next_of s cur i of
        Nd a \<Rightarrow> if before (node_key (skl_nodes s ! a)) then walk fuel s before i (Nd a) else cur
      | _ \<Rightarrow> cur)"

definition fuel_of :: "'v SkipList \<Rightarrow> nat" where
  "fuel_of s = length (skl_nodes s) + 1"

fun descend :: "'v SkipList \<Rightarrow> (bytes \<Rightarrow> bool) \<Rightarrow> nat \<Rightarrow> ptr \<Rightarrow> ptr list \<Rightarrow> ptr \<times> ptr list" where
  "descend s before 0 cur upd = (cur, upd)"
| "descend s before (Suc i) cur upd =
     (let c = walk (fuel_of s) s before i cur in descend s before i c (upd[i := c]))"

fun raise_level :: "nat \<Rightarrow> nat \<Rightarrow> ptr list \<Rightarrow> ptr list" where
  "raise_level i 0 upd = upd"
| "raise_level i (Suc n) upd = raise_level (i + 1) n (upd[i := Head])"

fun link :: "nat \<Rightarrow> nat \<Rightarrow> ptr list \<Rightarrow> nat \<Rightarrow> 'v SkipList \<Rightarrow> 'v SkipList" where
  "link i 0 upd n s = s"
| "link i (Suc k) upd n s =
     (let s1 = set_next s (Nd n) i (next_of s (upd ! i) i)
      in link (i + 1) k upd n (set_next s1 (upd ! i) i (Nd n)))"

definition insert_node :: "'v SkipList \<Rightarrow> ptr list \<Rightarrow> bytes \<Rightarrow> 'v \<Rightarrow> 'v SkipList" where
  "insert_node s upd k v =
     (let (lvl, s1) = randomLevel s;
          upd1 = (if lvl > skl_level s1 then raise_level (skl_level s1) (lvl - skl_level s1) upd else upd);
          s2 = (if lvl > skl_level s1 then s1\<lparr>skl_level := lvl\<rparr> else s1);
          n = length (skl_nodes s2);
          s3 = s2\<lparr>skl_nodes := skl_nodes s2 @ [\<lparr>node_key = k, node_val = v, node_next = replicate lvl Null\<rparr>]\<rparr>;
          s4 = link 0 lvl upd1 n s3
      in s4\<lparr>skl_len := skl_len s4 + 1\<rparr>)"

definition SkipList_Put :: "'v SkipList \<Rightarrow> bytes \<Rightarrow> 'v \<Rightarrow> 'v SkipList" where
  "SkipList_Put s k v =
     (let (cur, upd) = descend s (\<lambda>k'. bytes_Compare k' k < 0) (skl_level s) Head (replicate maxLevel Null)
      in case next_of s cur 0 of
           Nd a \<Rightarrow> if node_key (skl_nodes s ! a) = k
                   then s\<lparr>skl_nodes := (skl_nodes s)[a := (skl_nodes s ! a)\<lparr>node_val := v\<rparr>]\<rparr>
                   else insert_node s upd k v
         | _ \<Rightarrow> insert_node s upd k v)"

text \<open>The descent of \<^verbatim>\<open>Get\<close> and \<^verbatim>\<open>Range\<close> keeps no update vector.\<close>

fun locate :: "'v SkipList \<Rightarrow> (bytes \<Rightarrow> bool) \<Rightarrow> nat \<Rightarrow> ptr \<Rightarrow> ptr" where
  "locate s before 0 cur = cur"
| "locate s before (Suc i) cur = locate s before i (walk (fuel_of s) s before i cur)"

definition SkipList_Get :: "'v SkipList \<Rightarrow> bytes \<Rightarrow> 'v option" where
  "SkipList_Get s k =
     (case next_of s (locate s (\<lambda>k'. bytes_Compare k' k < 0) (skl_level s) Head) 0 of
        Nd a \<Rightarrow> if node_key (skl_nodes s ! a) = k then Some (node_val (skl_nodes s ! a)) else None
      | _ \<Rightarrow> None)"

definition SkipList_Len :: "'v SkipList \<Rightarrow> nat" where
  "SkipList_Len s = skl_len s"

fun collect :: "nat \<Rightarrow> 'v SkipList \<Rightarrow> (bytes \<Rightarrow> bool) \<Rightarrow> ptr \<Rightarrow> (bytes \<times> 'v) list" where
  "collect 0 s stop p = []"
| "collect (Suc fuel) s stop p =
     (case p of
        Nd a \<Rightarrow> if stop (node_key (skl_nodes s ! a)) then []
                else (node_key (skl_nodes s ! a), node_val (skl_nodes s ! a)) # collect fuel s stop (next_of s p 0)
      | _ \<Rightarrow> [])"

definition SkipList_All :: "'v SkipList \<Rightarrow> (bytes \<times> 'v) list" where
  "SkipList_All s = collect (fuel_of s) s (\<lambda>_. False) (next_of s Head 0)"

definition SkipList_Range :: "'v SkipList \<Rightarrow> bytes option \<Rightarrow> bytes option \<Rightarrow> (bytes \<times> 'v) list" where
  "SkipList_Range s start end =
     (let cur = locate s (\<lambda>k'. case start of None \<Rightarrow> False | Some b \<Rightarrow> bytes_Compare k' b < 0) (skl_level s) Head
      in collect (fuel_of s) s (\<lambda>k'. case end of None \<Rightarrow> False | Some b \<Rightarrow> bytes_Compare k' b \<ge> 0)
           (next_of s cur 0))"

subsection \<open>Invariant and abstraction\<close>

definition node_height :: "'v SkipList \<Rightarrow> nat \<Rightarrow> nat" where
  "node_height s a = length (node_next (skl_nodes s ! a))"

fun chain :: "'v SkipList \<Rightarrow> nat \<Rightarrow> ptr \<Rightarrow> nat list \<Rightarrow> bool" where
  "chain s i p [] \<longleftrightarrow> next_of s p i = Null"
| "chain s i p (a # as) \<longleftrightarrow> next_of s p i = Nd a \<and> chain s i (Nd a) as"

definition at_level :: "'v SkipList \<Rightarrow> nat \<Rightarrow> nat list \<Rightarrow> nat list" where
  "at_level s i as = filter (\<lambda>a. i < node_height s a) as"

definition skl_inv :: "'v SkipList \<Rightarrow> nat list \<Rightarrow> bool" where
  "skl_inv s as \<longleftrightarrow>
     length (skl_head s) = maxLevel \<and> 1 \<le> skl_level s \<and> skl_level s \<le> maxLevel \<and> skl_len s = length as \<and>
     distinct as \<and> set as = {..<length (skl_nodes s)} \<and>
     sorted_wrt (<) (map (\<lambda>a. node_key (skl_nodes s ! a)) as) \<and>
     (\<forall>a < length (skl_nodes s). 1 \<le> node_height s a \<and> node_height s a \<le> skl_level s) \<and>
     (\<forall>i < maxLevel. chain s i Head (at_level s i as))"

definition entry_of :: "'v SkipList \<Rightarrow> nat \<Rightarrow> bytes \<times> 'v" where
  "entry_of s a = (node_key (skl_nodes s ! a), node_val (skl_nodes s ! a))"

definition skl_wf :: "'v SkipList \<Rightarrow> bool" where
  "skl_wf s \<longleftrightarrow> (\<exists>as. skl_inv s as)"

text \<open>The specification of an insertion: a sorted association list with the key replaced.\<close>

definition put_sorted :: "bytes \<Rightarrow> 'v \<Rightarrow> (bytes \<times> 'v) list \<Rightarrow> (bytes \<times> 'v) list" where
  "put_sorted k v skl_kvs = takeWhile (\<lambda>e. fst e < k) skl_kvs @ (k, v) # dropWhile (\<lambda>e. fst e \<le> k) skl_kvs"

definition in_range :: "bytes option \<Rightarrow> bytes option \<Rightarrow> bytes \<Rightarrow> bool" where
  "in_range start end k \<longleftrightarrow>
     (case start of None \<Rightarrow> True | Some b \<Rightarrow> b \<le> k) \<and> (case end of None \<Rightarrow> True | Some b \<Rightarrow> k < b)"

section \<open>Walking a level\<close>

definition last_ptr :: "ptr \<Rightarrow> nat list \<Rightarrow> ptr" where
  "last_ptr p xs = (if xs = [] then p else Nd (last xs))"

lemma last_ptr_simps [simp]: "last_ptr p [] = p" "last_ptr p (x # xs) = last_ptr (Nd x) xs"
  by (auto simp: last_ptr_def)

lemma last_ptr_append: "last_ptr p (xs @ ys) = last_ptr (last_ptr p xs) ys"
  by (induction xs arbitrary: p) auto

lemma chain_append: "chain s i p (xs @ ys) \<Longrightarrow> chain s i (last_ptr p xs) ys"
  by (induction xs arbitrary: p) auto

lemma walk_chain:
  assumes "chain s i p (xs @ ys)" and "\<forall>x \<in> set xs. before (node_key (skl_nodes s ! x))"
    and "ys \<noteq> [] \<Longrightarrow> \<not> before (node_key (skl_nodes s ! hd ys))" and "length xs < fuel"
  shows "walk fuel s before i p = last_ptr p xs"
  using assms
proof (induction xs arbitrary: p fuel)
  case Nil
  then show ?case by (cases fuel; cases ys) auto
next
  case (Cons x xs)
  then show ?case by (cases fuel) auto
qed

lemma collect_chain:
  assumes "chain s 0 p as" and "length as < fuel"
  shows "collect fuel s stop (next_of s p 0) =
           map (entry_of s) (takeWhile (\<lambda>a. \<not> stop (node_key (skl_nodes s ! a))) as)"
  using assms
proof (induction as arbitrary: p fuel)
  case Nil
  then show ?case by (cases fuel) auto
next
  case (Cons a as)
  then show ?case
    by (cases fuel) (auto simp: entry_of_def simp del: next_of.simps)
qed

section \<open>Searching\<close>

text \<open>
  The search predicates are closed downwards: a key before one that is before the target is
  itself before the target. On a sorted list they split the nodes in a prefix and a suffix.
\<close>

definition skl_pre :: "(bytes \<Rightarrow> bool) \<Rightarrow> 'v SkipList \<Rightarrow> nat list \<Rightarrow> nat list" where
  "skl_pre before s as = takeWhile (\<lambda>a. before (node_key (skl_nodes s ! a))) as"

definition skl_post :: "(bytes \<Rightarrow> bool) \<Rightarrow> 'v SkipList \<Rightarrow> nat list \<Rightarrow> nat list" where
  "skl_post before s as = dropWhile (\<lambda>a. before (node_key (skl_nodes s ! a))) as"

lemma pre_post: "skl_pre before s as @ skl_post before s as = as"
  by (simp add: skl_pre_def skl_post_def)

lemma set_pre_post: "a \<in> set (skl_pre before s as) \<or> a \<in> set (skl_post before s as) \<Longrightarrow> a \<in> set as"
  by (metis pre_post Un_iff set_append)

lemma at_level_append: "at_level s i (xs @ ys) = at_level s i xs @ at_level s i ys"
  by (simp add: at_level_def)

lemma skl_inv_sorted: "skl_inv s as \<Longrightarrow> sorted_wrt (\<lambda>x y. node_key (skl_nodes s ! x) < node_key (skl_nodes s ! y)) as"
  by (simp add: skl_inv_def sorted_wrt_map)

lemma skl_inv_chain: "skl_inv s as \<Longrightarrow> i < maxLevel \<Longrightarrow> chain s i Head (at_level s i as)"
  by (simp add: skl_inv_def)

lemma skl_inv_level: "skl_inv s as \<Longrightarrow> skl_level s \<le> maxLevel" "skl_inv s as \<Longrightarrow> 1 \<le> skl_level s"
  by (auto simp: skl_inv_def)

lemma skl_inv_height: "skl_inv s as \<Longrightarrow> a \<in> set as \<Longrightarrow> 1 \<le> node_height s a \<and> node_height s a \<le> skl_level s"
  by (auto simp: skl_inv_def)

lemma skl_inv_length: "skl_inv s as \<Longrightarrow> length as = length (skl_nodes s)"
  by (metis card_lessThan distinct_card skl_inv_def)

lemma at_level_0: "skl_inv s as \<Longrightarrow> set bs \<subseteq> set as \<Longrightarrow> at_level s 0 bs = bs"
  by (auto simp: at_level_def filter_id_conv dest!: skl_inv_height)

lemma at_level_top: "skl_inv s as \<Longrightarrow> set bs \<subseteq> set as \<Longrightarrow> at_level s (skl_level s) bs = []"
  by (auto simp: at_level_def filter_empty_conv not_less dest!: skl_inv_height)

locale search_pred =
  fixes before :: "bytes \<Rightarrow> bool"
  assumes down_closed: "before k2 \<Longrightarrow> k1 < k2 \<Longrightarrow> before k1"
begin

lemma pre_before: "a \<in> set (skl_pre before s as) \<Longrightarrow> before (node_key (skl_nodes s ! a))"
  unfolding skl_pre_def by (rule set_takeWhileD [THEN conjunct2])

lemma post_not_before:
  assumes "skl_inv s as" and a: "a \<in> set (skl_post before s as)"
  shows "\<not> before (node_key (skl_nodes s ! a))"
proof -
  obtain b bs where b: "skl_post before s as = b # bs" using a by (cases "skl_post before s as") auto
  then have nb: "\<not> before (node_key (skl_nodes s ! b))"
    using hd_dropWhile [of "\<lambda>a. before (node_key (skl_nodes s ! a))" as] by (simp add: skl_post_def)
  have "sorted_wrt (\<lambda>x y. node_key (skl_nodes s ! x) < node_key (skl_nodes s ! y)) (skl_pre before s as @ b # bs)"
    using skl_inv_sorted [OF assms(1)] pre_post [of before s as] b by simp
  then have "a = b \<or> node_key (skl_nodes s ! b) < node_key (skl_nodes s ! a)"
    using a b by (auto simp: sorted_wrt_append)
  with nb down_closed show ?thesis by blast
qed

lemma chain_split:
  assumes "skl_inv s as" and "i < maxLevel"
  shows "chain s i Head (at_level s i (skl_pre before s as) @ at_level s i (skl_post before s as))"
  using skl_inv_chain [OF assms] pre_post [of before s as] by (metis at_level_append)

lemma pre_length:
  assumes "skl_inv s as"
  shows "length (at_level s i (skl_pre before s as)) < fuel_of s"
proof -
  have "length (at_level s i (skl_pre before s as)) \<le> length (skl_pre before s as)" by (simp add: at_level_def)
  also have "\<dots> \<le> length as" by (simp add: skl_pre_def length_takeWhile_le)
  finally show ?thesis using skl_inv_length [OF assms] by (simp add: fuel_of_def)
qed

lemma walk_level:
  assumes inv: "skl_inv s as" and "i < maxLevel"
  shows "walk (fuel_of s) s before i (last_ptr Head (at_level s (Suc i) (skl_pre before s as))) =
           last_ptr Head (at_level s i (skl_pre before s as))"
proof -
  let ?P = "at_level s i (skl_pre before s as)" and ?Q = "at_level s i (skl_post before s as)"
  let ?U = "at_level s (Suc i) (skl_pre before s as)"
  have stop: "\<not> before (node_key (skl_nodes s ! hd ?Q))" if "?Q \<noteq> []"
    using hd_in_set [OF that] post_not_before [OF inv] by (simp add: at_level_def)
  have pb: "\<forall>x \<in> set ?P. before (node_key (skl_nodes s ! x))"
    using pre_before [of _ s as] by (simp add: at_level_def)
  note ch = chain_split [OF inv \<open>i < maxLevel\<close>]
  show ?thesis
  proof (cases "?U = []")
    case True
    with walk_chain [OF ch pb stop pre_length [OF inv]] show ?thesis by simp
  next
    case False
    then have "last ?U \<in> set ?P"
      using last_in_set [OF False] by (simp add: at_level_def)
    then obtain us vs where uv: "?P = (us @ [last ?U]) @ vs" by (auto dest: split_list)
    have "chain s i Head ((us @ [last ?U]) @ (vs @ ?Q))"
      using ch uv by simp
    then have "chain s i (Nd (last ?U)) (vs @ ?Q)"
      using chain_append [of s i Head "us @ [last ?U]" "vs @ ?Q"] by (simp add: last_ptr_append)
    moreover have "\<forall>x \<in> set vs. before (node_key (skl_nodes s ! x))" and "length vs < fuel_of s"
      using pb pre_length [OF inv, of i] uv by auto
    ultimately have "walk (fuel_of s) s before i (Nd (last ?U)) = last_ptr (Nd (last ?U)) vs"
      by (intro walk_chain [where ys = ?Q] stop)
    moreover have "last_ptr Head ?U = Nd (last ?U)" using False by (simp add: last_ptr_def)
    moreover have "last_ptr Head ?P = last_ptr (Nd (last ?U)) vs"
      by (subst uv) (simp add: last_ptr_append)
    ultimately show ?thesis by simp
  qed
qed

lemma locate_level:
  assumes "skl_inv s as"
  shows "i \<le> maxLevel \<Longrightarrow> locate s before i (last_ptr Head (at_level s i (skl_pre before s as))) =
           last_ptr Head (at_level s 0 (skl_pre before s as))"
  by (induction i) (simp_all add: walk_level [OF assms])

lemma descend_level:
  assumes "skl_inv s as" and "i \<le> length upd" and "length upd = maxLevel"
  shows "descend s before i (last_ptr Head (at_level s i (skl_pre before s as))) upd =
           (last_ptr Head (at_level s 0 (skl_pre before s as)),
            map (\<lambda>j. last_ptr Head (at_level s j (skl_pre before s as))) [0..<i] @ drop i upd)"
  using assms(2,3)
proof (induction i arbitrary: upd)
  case 0
  then show ?case by simp
next
  case (Suc i)
  let ?c = "last_ptr Head (at_level s i (skl_pre before s as))"
  have "drop i (upd[i := ?c]) = ?c # drop (Suc i) upd"
    using Suc.prems by (simp add: Cons_nth_drop_Suc [symmetric])
  with Suc show ?case by (simp add: walk_level [OF assms(1)])
qed

lemma pre_subset: "set (skl_pre before s as) \<subseteq> set as" "set (skl_post before s as) \<subseteq> set as"
  using set_pre_post by blast+

lemma locate_pre:
  assumes "skl_inv s as"
  shows "locate s before (skl_level s) Head = last_ptr Head (skl_pre before s as)"
  using locate_level [OF assms skl_inv_level(1) [OF assms]]
  by (simp add: at_level_top [OF assms pre_subset(1)] at_level_0 [OF assms pre_subset(1)])

lemma descend_pre:
  assumes "skl_inv s as"
  shows "descend s before (skl_level s) Head (replicate maxLevel Null) =
     (last_ptr Head (skl_pre before s as),
      map (\<lambda>j. last_ptr Head (at_level s j (skl_pre before s as))) [0..<skl_level s] @
        replicate (maxLevel - skl_level s) Null)"
  using descend_level [OF assms, of "skl_level s" "replicate maxLevel Null"] skl_inv_level(1) [OF assms]
  by (simp add: at_level_top [OF assms pre_subset(1)] at_level_0 [OF assms pre_subset(1)])

lemma chain_post:
  assumes "skl_inv s as"
  shows "chain s 0 (last_ptr Head (skl_pre before s as)) (skl_post before s as)"
  using chain_append [OF chain_split [OF assms, of 0]]
  by (simp add: maxLevel_def at_level_0 [OF assms pre_subset(1)] at_level_0 [OF assms pre_subset(2)])

lemma next_post:
  assumes "skl_inv s as"
  shows "next_of s (last_ptr Head (skl_pre before s as)) 0 =
           (case skl_post before s as of [] \<Rightarrow> Null | a # _ \<Rightarrow> Nd a)"
  using chain_post [OF assms] by (cases "skl_post before s as") auto

end

interpretation key_before: search_pred "\<lambda>k'. bytes_Compare k' k < 0" for k
  by unfold_locales auto

interpretation start_before: search_pred
  "\<lambda>k'. case start of None \<Rightarrow> False | Some b \<Rightarrow> bytes_Compare k' b < 0" for start
  by unfold_locales (auto split: option.splits)

section \<open>Get, All and Range\<close>

definition skl_kvs :: "'v SkipList \<Rightarrow> nat list \<Rightarrow> (bytes \<times> 'v) list" where
  "skl_kvs s as = map (entry_of s) as"

lemma kvs_sorted: "skl_inv s as \<Longrightarrow> sorted_wrt (<) (map fst (skl_kvs s as))"
  by (simp add: skl_inv_def skl_kvs_def entry_of_def comp_def)

lemma All_kvs:
  assumes "skl_inv s as"
  shows "SkipList_All s = skl_kvs s as"
proof -
  have "chain s 0 Head as"
    using skl_inv_chain [OF assms, of 0] at_level_0 [OF assms subset_refl] by (simp add: maxLevel_def)
  then have "SkipList_All s = map (entry_of s) (takeWhile (\<lambda>_. True) as)"
    using collect_chain [of s Head as "fuel_of s" "\<lambda>_. False"] skl_inv_length [OF assms]
    by (simp add: SkipList_All_def fuel_of_def)
  moreover have "takeWhile (\<lambda>_. True) as = as" by (simp add: takeWhile_eq_all_conv)
  ultimately show ?thesis by (simp add: skl_kvs_def)
qed

text \<open>In a list with strictly ascending keys, a lookup finds the entry at the split point.\<close>

lemma map_of_split:
  fixes k :: "'a::linorder"
  assumes "sorted_wrt (<) (map fst xs)"
  shows "map_of xs k = (case dropWhile (\<lambda>e. fst e < k) xs of [] \<Rightarrow> None
                        | e # _ \<Rightarrow> if fst e = k then Some (snd e) else None)"
  using assms
proof (induction xs)
  case (Cons e es)
  show ?case
  proof (cases "fst e < k")
    case True
    with Cons show ?thesis by (cases e) auto
  next
    case False
    then have "k \<notin> fst ` set es" if "fst e \<noteq> k" using Cons.prems that by auto
    with False show ?thesis by (cases e) (auto simp: map_of_eq_None_iff)
  qed
qed simp

lemma Get_map_of:
  assumes "skl_inv s as"
  shows "SkipList_Get s k = map_of (skl_kvs s as) k"
proof -
  let ?b = "\<lambda>k'. bytes_Compare k' k < 0"
  have "dropWhile (\<lambda>e. fst e < k) (skl_kvs s as) = map (entry_of s) (skl_post ?b s as)"
    by (simp add: skl_kvs_def skl_post_def dropWhile_map comp_def entry_of_def)
  then have "map_of (skl_kvs s as) k = (case skl_post ?b s as of [] \<Rightarrow> None
       | a # _ \<Rightarrow> if node_key (skl_nodes s ! a) = k then Some (node_val (skl_nodes s ! a)) else None)"
    using map_of_split [OF kvs_sorted [OF assms], of k]
    by (auto simp: entry_of_def split: list.splits)
  then show ?thesis
    unfolding SkipList_Get_def key_before.locate_pre [OF assms] key_before.next_post [OF assms]
    by (simp split: list.splits)
qed

text \<open>On a sorted list, dropping and taking by a threshold are filters.\<close>

lemma dropWhile_start:
  "sorted_wrt (<) (map fst xs) \<Longrightarrow>
   dropWhile (\<lambda>e. case start of None \<Rightarrow> False | Some b \<Rightarrow> fst e < b) xs =
     filter (\<lambda>e. case start of None \<Rightarrow> True | Some b \<Rightarrow> (b :: 'a::linorder) \<le> fst e) xs"
proof (induction xs)
  case (Cons e es)
  then have "filter (\<lambda>e. case start of None \<Rightarrow> True | Some b \<Rightarrow> b \<le> fst e) es = es"
    if "\<not> (case start of None \<Rightarrow> False | Some b \<Rightarrow> fst e < b)"
    using that by (fastforce simp: filter_id_conv split: option.splits)
  with Cons show ?case by (auto split: option.splits)
qed simp

lemma takeWhile_end:
  "sorted_wrt (<) (map fst xs) \<Longrightarrow>
   takeWhile (\<lambda>e. case end of None \<Rightarrow> True | Some b \<Rightarrow> fst e < (b :: 'a::linorder)) xs =
     filter (\<lambda>e. case end of None \<Rightarrow> True | Some b \<Rightarrow> fst e < b) xs"
proof (induction xs)
  case (Cons e es)
  then have "filter (\<lambda>e. case end of None \<Rightarrow> True | Some b \<Rightarrow> fst e < b) es = []"
    if "\<not> (case end of None \<Rightarrow> True | Some b \<Rightarrow> fst e < b)"
    using that by (fastforce simp: filter_empty_conv split: option.splits)
  with Cons show ?case by auto
qed simp

lemma drop_take_range:
  assumes "sorted_wrt (<) (map fst xs)"
  shows "takeWhile (\<lambda>e. case end of None \<Rightarrow> True | Some b \<Rightarrow> fst e < b)
           (dropWhile (\<lambda>e. case start of None \<Rightarrow> False | Some b \<Rightarrow> fst e < b) xs) =
         filter (\<lambda>e. in_range start end (fst e)) xs"
proof -
  have "sorted_wrt (<) (map fst (filter P xs))" for P
    using assms by (simp add: sorted_wrt_map sorted_wrt_filter)
  then show ?thesis
    by (simp add: dropWhile_start [OF assms] takeWhile_end in_range_def conj_commute)
qed

lemma Range_filter:
  assumes "skl_inv s as"
  shows "SkipList_Range s start end = filter (\<lambda>e. in_range start end (fst e)) (skl_kvs s as)"
proof -
  let ?b = "\<lambda>k'. case start of None \<Rightarrow> False | Some b \<Rightarrow> bytes_Compare k' b < 0"
  let ?e = "\<lambda>k'. case end of None \<Rightarrow> False | Some b \<Rightarrow> 0 \<le> bytes_Compare k' b"
  have lenu: "length (skl_post ?b s as) < fuel_of s"
    using skl_inv_length [OF assms] length_dropWhile_le [of _ as]
    by (simp add: fuel_of_def skl_post_def less_Suc_eq_le)
  have "SkipList_Range s start end = map (entry_of s) (takeWhile (\<lambda>a. \<not> ?e (node_key (skl_nodes s ! a))) (skl_post ?b s as))"
    unfolding SkipList_Range_def start_before.locate_pre [OF assms] Let_def
    by (rule collect_chain [OF start_before.chain_post [OF assms] lenu])
  also have "\<dots> = takeWhile (\<lambda>e. case end of None \<Rightarrow> True | Some b \<Rightarrow> fst e < b)
      (dropWhile (\<lambda>e. case start of None \<Rightarrow> False | Some b \<Rightarrow> fst e < b) (skl_kvs s as))"
    by (simp add: skl_kvs_def skl_post_def dropWhile_map takeWhile_map comp_def entry_of_def not_le
        option.case_distrib [of Not] cong: option.case_cong)
  also have "\<dots> = filter (\<lambda>e. in_range start end (fst e)) (skl_kvs s as)"
    by (rule drop_take_range [OF kvs_sorted [OF assms]])
  finally show ?thesis .
qed

section \<open>Put\<close>

lemma randomLevel_loop_bounds:
  "randomLevel_loop n s lvl = (l, s') \<Longrightarrow> lvl \<le> l \<and> l \<le> lvl + n"
  by (induction n arbitrary: s lvl) (fastforce simp: Let_def split: if_splits)+

lemma randomLevel_loop_state:
  "\<exists>d. snd (randomLevel_loop n s lvl) = s\<lparr>skl_drawn := d\<rparr>"
proof (induction n arbitrary: s lvl)
  case 0
  have "s = s\<lparr>skl_drawn := skl_drawn s\<rparr>" by simp
  then show ?case unfolding randomLevel_loop.simps snd_conv by (rule exI)
next
  case (Suc n)
  from Suc [of "s\<lparr>skl_drawn := skl_drawn s + 1\<rparr>" "lvl + 1"] show ?case by (auto simp: Let_def)
qed

lemma randomLevel_bounds:
  assumes "randomLevel s = (l, s')"
  shows "1 \<le> l" and "l \<le> maxLevel" and "\<exists>d. s' = s\<lparr>skl_drawn := d\<rparr>"
  using randomLevel_loop_bounds [of "maxLevel - 1" s 1 l s'] randomLevel_loop_state [of "maxLevel - 1" s 1] assms
  by (auto simp: randomLevel_def maxLevel_def)

lemma raise_level_nth:
  "i + n \<le> length upd \<Longrightarrow> j < length upd \<Longrightarrow>
   raise_level i n upd ! j = (if i \<le> j \<and> j < i + n then Head else upd ! j)"
  by (induction n arbitrary: i upd) (auto simp: nth_list_update)

fun valid_at :: "'v SkipList \<Rightarrow> ptr \<Rightarrow> nat \<Rightarrow> bool" where
  "valid_at s Head i \<longleftrightarrow> i < length (skl_head s)"
| "valid_at s (Nd a) i \<longleftrightarrow> a < length (skl_nodes s) \<and> i < node_height s a"
| "valid_at s Null i \<longleftrightarrow> False"

text \<open>Two lists that differ in \<^verbatim>\<open>next\<close> pointers only.\<close>

definition same_nodes :: "'v SkipList \<Rightarrow> 'v SkipList \<Rightarrow> bool" where
  "same_nodes s s' \<longleftrightarrow>
     length (skl_nodes s') = length (skl_nodes s) \<and> length (skl_head s') = length (skl_head s) \<and>
     skl_level s' = skl_level s \<and> skl_len s' = skl_len s \<and>
     (\<forall>a. entry_of s' a = entry_of s a \<and> node_height s' a = node_height s a)"

lemma same_nodes_refl: "same_nodes s s"
  by (simp add: same_nodes_def)

lemma same_nodes_trans: "same_nodes s t \<Longrightarrow> same_nodes t u \<Longrightarrow> same_nodes s u"
  by (simp add: same_nodes_def)

lemma same_nodes_valid: "same_nodes s s' \<Longrightarrow> valid_at s' p i = valid_at s p i"
  by (cases p) (auto simp: same_nodes_def)

lemma nth_update_node: "xs[a := y] ! b = (if a = b \<and> a < length xs then y else xs ! b)"
  by (metis list_update_beyond not_less nth_list_update)

lemma set_next_same: "same_nodes s (set_next s p i q)"
  by (cases p) (auto simp: same_nodes_def entry_of_def node_height_def nth_update_node)

lemma next_of_set_next:
  "next_of (set_next s p i q) r j = (if r = p \<and> j = i \<and> valid_at s p i then q else next_of s r j)"
  by (cases p; cases r) (auto simp: nth_update_node node_height_def)

declare next_of.simps [simp del] set_next.simps [simp del] valid_at.simps [simp del]

lemma link_same: "same_nodes s (link i k upd n s)"
proof (induction k arbitrary: i s)
  case (Suc k)
  then show ?case
    unfolding link.simps Let_def by (meson same_nodes_trans set_next_same)
qed (simp add: same_nodes_refl)

lemma link_next:
  assumes "\<And>j. i \<le> j \<Longrightarrow> j < i + k \<Longrightarrow> valid_at s (upd ! j) j \<and> valid_at s (Nd n) j \<and> upd ! j \<noteq> Nd n"
  shows "next_of (link i k upd n s) p j =
    (if i \<le> j \<and> j < i + k
     then if p = Nd n then next_of s (upd ! j) j else if p = upd ! j then Nd n else next_of s p j
     else next_of s p j)"
  using assms
proof (induction k arbitrary: i s)
  case (Suc k)
  let ?s1 = "set_next s (Nd n) i (next_of s (upd ! i) i)"
  let ?s2 = "set_next ?s1 (upd ! i) i (Nd n)"
  have same: "same_nodes s ?s2" "same_nodes s ?s1"
    using set_next_same same_nodes_trans by blast+
  have v: "valid_at s (upd ! i) i" "valid_at s (Nd n) i" "upd ! i \<noteq> Nd n"
    using Suc.prems [of i] by auto
  have step: "next_of ?s2 q m = (if m = i \<and> q = Nd n then next_of s (upd ! i) i
       else if m = i \<and> q = upd ! i then Nd n else next_of s q m)" for q m
    using v by (auto simp: next_of_set_next same_nodes_valid [OF same(2)])
  have "next_of (link (i + 1) k upd n ?s2) p j =
    (if i + 1 \<le> j \<and> j < i + 1 + k
     then if p = Nd n then next_of ?s2 (upd ! j) j else if p = upd ! j then Nd n else next_of ?s2 p j
     else next_of ?s2 p j)"
    using Suc.prems by (intro Suc.IH) (simp add: same_nodes_valid [OF same(1)])
  then have rec: "next_of (link i (Suc k) upd n s) p j =
    (if i < j \<and> j < i + 1 + k
     then if p = Nd n then next_of ?s2 (upd ! j) j else if p = upd ! j then Nd n else next_of ?s2 p j
     else next_of ?s2 p j)"
    by (simp add: Let_def Suc_le_eq)
  show ?case
  proof (cases "j = i")
    case True
    then show ?thesis unfolding rec using step by simp
  next
    case False
    then show ?thesis unfolding rec using step by auto
  qed
qed auto

lemma chain_cong:
  "next_of s' p i = next_of s p i \<Longrightarrow> (\<forall>a \<in> set xs. next_of s' (Nd a) i = next_of s (Nd a) i) \<Longrightarrow>
   chain s' i p xs = chain s i p xs"
  by (induction xs arbitrary: p) auto

lemma chain_insert:
  assumes "chain s i p (xs @ ys)" and "distinct (xs @ ys)" and "n \<notin> set (xs @ ys)"
    and "p \<noteq> Nd n" and "\<And>a. a \<in> set (xs @ ys) \<Longrightarrow> p \<noteq> Nd a"
    and "\<And>q. q = p \<or> q \<in> Nd ` set (n # xs @ ys) \<Longrightarrow>
           next_of s' q i = (if q = Nd n then next_of s (last_ptr p xs) i
                             else if q = last_ptr p xs then Nd n else next_of s q i)"
  shows "chain s' i p (xs @ n # ys)"
  using assms
proof (induction xs arbitrary: p)
  case Nil
  have "chain s' i (Nd n) ys"
  proof (cases ys)
    case Nil': Nil
    with Nil show ?thesis by simp
  next
    case (Cons y ys')
    have "chain s' i (Nd y) ys' = chain s i (Nd y) ys'"
      using Nil Cons by (intro chain_cong) (auto simp: image_iff)
    with Nil Cons show ?thesis by simp
  qed
  with Nil show ?case by simp
next
  case (Cons x xs)
  have ne: "last_ptr (Nd x) xs \<noteq> p"
    using Cons.prems(5) [of x] Cons.prems(5) [of "last xs"] by (auto simp: last_ptr_def)
  have "next_of s' p i = Nd x"
    using Cons.prems(1,4) Cons.prems(6) [of p] ne by auto
  moreover have "chain s' i (Nd x) (xs @ n # ys)"
  proof (rule Cons.IH)
    fix q assume "q = Nd x \<or> q \<in> Nd ` set (n # xs @ ys)"
    then have "q = p \<or> q \<in> Nd ` set (n # (x # xs) @ ys)" by auto
    from Cons.prems(6) [OF this]
    show "next_of s' q i = (if q = Nd n then next_of s (last_ptr (Nd x) xs) i
        else if q = last_ptr (Nd x) xs then Nd n else next_of s q i)" by simp
  qed (use Cons.prems in auto)
  ultimately show ?case by simp
qed

subsection \<open>Inserting a node\<close>

text \<open>
  The state of an insertion: \<open>n\<close> is the fresh address, \<open>lvl\<close> its height, and level \<open>i < lvl\<close>
  is relinked after the last node of height above \<open>i\<close> that precedes the key.
\<close>

definition with_node :: "'v SkipList \<Rightarrow> nat \<Rightarrow> nat \<Rightarrow> bytes \<Rightarrow> 'v \<Rightarrow> 'v SkipList" where
  "with_node s d lvl k v =
     s\<lparr>skl_drawn := d, skl_level := max lvl (skl_level s),
       skl_nodes := skl_nodes s @ [\<lparr>node_key = k, node_val = v, node_next = replicate lvl Null\<rparr>]\<rparr>"

lemma with_node_facts:
  "a < length (skl_nodes s) \<Longrightarrow> entry_of (with_node s d lvl k v) a = entry_of s a"
  "a < length (skl_nodes s) \<Longrightarrow> node_height (with_node s d lvl k v) a = node_height s a"
  "a < length (skl_nodes s) \<Longrightarrow> next_of (with_node s d lvl k v) (Nd a) i = next_of s (Nd a) i"
  "next_of (with_node s d lvl k v) Head i = next_of s Head i"
  "entry_of (with_node s d lvl k v) (length (skl_nodes s)) = (k, v)"
  "node_height (with_node s d lvl k v) (length (skl_nodes s)) = lvl"
  by (simp_all add: with_node_def entry_of_def node_height_def next_of.simps nth_append)

lemma insert_node_eq:
  assumes inv: "skl_inv s as"
    and upd: "upd = map f [0..<skl_level s] @ replicate (maxLevel - skl_level s) Null"
    and f: "\<And>j. skl_level s \<le> j \<Longrightarrow> f j = Head"
  obtains lvl d upd1 where "1 \<le> lvl" "lvl \<le> maxLevel"
    and "\<And>j. j < lvl \<Longrightarrow> upd1 ! j = f j"
    and "insert_node s upd k v =
           (link 0 lvl upd1 (length (skl_nodes s)) (with_node s d lvl k v))\<lparr>skl_len := skl_len s + 1\<rparr>"
proof -
  obtain lvl s1 where r: "randomLevel s = (lvl, s1)" by fastforce
  obtain d where s1: "s1 = s\<lparr>skl_drawn := d\<rparr>" using randomLevel_bounds(3) [OF r] by blast
  define upd1 where "upd1 = (if lvl > skl_level s then raise_level (skl_level s) (lvl - skl_level s) upd else upd)"
  have lvl: "1 \<le> lvl" "lvl \<le> maxLevel" using randomLevel_bounds [OF r] by auto
  have lenu: "length upd = maxLevel" using upd skl_inv_level [OF inv] by simp
  have "upd1 ! j = f j" if "j < lvl" for j
    using that lvl lenu f skl_inv_level [OF inv] raise_level_nth [of "skl_level s" "lvl - skl_level s" upd j]
    by (auto simp: upd1_def upd nth_append)
  moreover have "skl_len (link 0 lvl upd1 (length (skl_nodes s)) (with_node s d lvl k v)) = skl_len s"
    using link_same [of "with_node s d lvl k v" 0 lvl upd1 "length (skl_nodes s)"]
    by (simp add: same_nodes_def with_node_def)
  ultimately have "insert_node s upd k v =
      (link 0 lvl upd1 (length (skl_nodes s)) (with_node s d lvl k v))\<lparr>skl_len := skl_len s + 1\<rparr>"
    by (cases "lvl > skl_level s")
      (auto simp: insert_node_def r s1 upd1_def with_node_def Let_def max_def)
  with lvl \<open>\<And>j. j < lvl \<Longrightarrow> upd1 ! j = f j\<close> that show thesis by blast
qed

lemma len_update_facts:
  "next_of (s\<lparr>skl_len := m\<rparr>) p i = next_of s p i" "node_height (s\<lparr>skl_len := m\<rparr>) a = node_height s a"
  "entry_of (s\<lparr>skl_len := m\<rparr>) a = entry_of s a"
  by (cases p) (simp_all add: next_of.simps node_height_def entry_of_def)

lemma insert_chain:
  assumes inv: "skl_inv s (B @ A)" and n: "n = length (skl_nodes s)" and i: "i < maxLevel"
    and lvl: "lvl \<le> maxLevel"
    and upd: "\<And>j. j < lvl \<Longrightarrow> upd ! j = last_ptr Head (at_level s j B)"
  shows "chain (link 0 lvl upd n (with_node s d lvl k v)) i Head
           (at_level s i B @ (if i < lvl then [n] else []) @ at_level s i A)"
proof -
  let ?w = "with_node s d lvl k v"
  let ?t = "link 0 lvl upd n ?w"
  have old: "a < n" if "a \<in> set (B @ A)" for a
    using inv that n by (auto simp: skl_inv_def)
  have upd_cases: "upd ! j = Head \<or> (\<exists>a. upd ! j = Nd a \<and> a < n \<and> j < node_height s a)" if "j < lvl" for j
    using upd [OF that] old last_in_set [of "at_level s j B"] by (auto simp: last_ptr_def at_level_def)
  have valid: "valid_at ?w (upd ! j) j \<and> valid_at ?w (Nd n) j \<and> upd ! j \<noteq> Nd n" if "j < lvl" for j
    using upd_cases [OF that] that lvl inv n with_node_facts(2,6) [where s = s]
    by (auto simp: valid_at.simps skl_inv_def with_node_def)
  have next_w: "next_of ?w q i = next_of s q i" if "q = Head \<or> (\<exists>a < n. q = Nd a)" for q
    using that n by (auto simp: with_node_facts)
  have next_t: "next_of ?t q i = (if i < lvl \<and> q = Nd n then next_of s (upd ! i) i
       else if i < lvl \<and> q = upd ! i then Nd n else next_of s q i)"
    if "q = Head \<or> q = Nd n \<and> i < lvl \<or> (\<exists>a < n. q = Nd a)" for q
    using link_next [of 0 lvl ?w upd n q i] valid next_w that upd_cases [of i] by auto
  have ch: "chain s i Head (at_level s i B @ at_level s i A)"
    using skl_inv_chain [OF inv i] by (simp add: at_level_append)
  have sub: "set (at_level s i B @ at_level s i A) \<subseteq> set (B @ A)" by (auto simp: at_level_def)
  show ?thesis
  proof (cases "i < lvl")
    case True
    have "distinct (at_level s i (B @ A))"
      unfolding at_level_def using inv by (intro distinct_filter) (simp add: skl_inv_def)
    then have d: "distinct (at_level s i B @ at_level s i A)" by (simp add: at_level_append)
    have "chain ?t i Head (at_level s i B @ n # at_level s i A)"
    proof (rule chain_insert [OF ch d])
      fix q assume "q = Head \<or> q \<in> Nd ` set (n # at_level s i B @ at_level s i A)"
      then have "q = Head \<or> q = Nd n \<and> i < lvl \<or> (\<exists>a < n. q = Nd a)"
        using sub old True by auto
      from next_t [OF this] True upd [OF True]
      show "next_of ?t q i = (if q = Nd n then next_of s (last_ptr Head (at_level s i B)) i
          else if q = last_ptr Head (at_level s i B) then Nd n else next_of s q i)" by simp
    qed (use sub old in auto)
    with True show ?thesis by simp
  next
    case False
    with sub next_t old have "chain ?t i Head (at_level s i B @ at_level s i A) =
        chain s i Head (at_level s i B @ at_level s i A)"
      by (intro chain_cong) (auto simp: subset_iff)
    with False ch show ?thesis by simp
  qed
qed

lemma len_update_lists:
  "chain (s\<lparr>skl_len := m\<rparr>) i p xs = chain s i p xs" "at_level (s\<lparr>skl_len := m\<rparr>) i xs = at_level s i xs"
  "skl_kvs (s\<lparr>skl_len := m\<rparr>) xs = skl_kvs s xs"
  by (intro chain_cong) (simp_all add: at_level_def skl_kvs_def len_update_facts comp_def)

text \<open>What an insertion did to the entries and heights, whatever it did to the pointers.\<close>

definition extends_by :: "'v SkipList \<Rightarrow> nat \<Rightarrow> bytes \<Rightarrow> 'v \<Rightarrow> 'v SkipList \<Rightarrow> bool" where
  "extends_by s lvl k v t \<longleftrightarrow>
     length (skl_nodes t) = Suc (length (skl_nodes s)) \<and> length (skl_head t) = length (skl_head s) \<and>
     skl_level t = max lvl (skl_level s) \<and>
     (\<forall>a < length (skl_nodes s). entry_of t a = entry_of s a \<and> node_height t a = node_height s a) \<and>
     entry_of t (length (skl_nodes s)) = (k, v) \<and> node_height t (length (skl_nodes s)) = lvl"

lemma link_extends: "extends_by s lvl k v (link 0 lvl upd (length (skl_nodes s)) (with_node s d lvl k v))"
  using link_same [of "with_node s d lvl k v" 0 lvl upd "length (skl_nodes s)"]
  by (simp add: extends_by_def same_nodes_def with_node_facts) (simp add: with_node_def)

lemma extends_by_lists:
  assumes "extends_by s lvl k v t" and "set xs \<subseteq> {..<length (skl_nodes s)}"
  shows "skl_kvs t xs = skl_kvs s xs" and "at_level t i xs = at_level s i xs"
  using assms by (auto simp: extends_by_def skl_kvs_def at_level_def intro!: filter_cong)

lemma extends_by_inv:
  assumes inv: "skl_inv s (B @ A)" and ext: "extends_by s lvl k v t" and lvl: "1 \<le> lvl" "lvl \<le> maxLevel"
    and keys: "\<And>a. a \<in> set B \<Longrightarrow> node_key (skl_nodes s ! a) < k" "\<And>a. a \<in> set A \<Longrightarrow> k < node_key (skl_nodes s ! a)"
    and ch: "\<And>i. i < maxLevel \<Longrightarrow> chain t i Head
      (at_level s i B @ (if i < lvl then [length (skl_nodes s)] else []) @ at_level s i A)"
  shows "skl_inv (t\<lparr>skl_len := skl_len s + 1\<rparr>) (B @ length (skl_nodes s) # A)"
proof -
  let ?n = "length (skl_nodes s)"
  have sub: "set B \<subseteq> {..<?n}" "set A \<subseteq> {..<?n}" and lens: "skl_len s = length (B @ A)"
    using inv by (auto simp: skl_inv_def)
  have lv: "at_level t i (B @ ?n # A) = at_level s i B @ (if i < lvl then [?n] else []) @ at_level s i A" for i
    using extends_by_lists(2) [OF ext sub(1)] extends_by_lists(2) [OF ext sub(2)] ext
    by (simp add: at_level_def extends_by_def)
  have key_map: "map (\<lambda>a. node_key (skl_nodes s' ! a)) xs = map fst (skl_kvs s' xs)" for s' :: "'a SkipList" and xs
    by (simp add: skl_kvs_def entry_of_def)
  have "skl_kvs t (B @ ?n # A) = skl_kvs s B @ (k, v) # skl_kvs s A"
    using extends_by_lists(1) [OF ext sub(1)] extends_by_lists(1) [OF ext sub(2)] ext
    by (simp add: skl_kvs_def extends_by_def)
  moreover have "sorted_wrt (<) (map fst (skl_kvs s B @ (k, v) # skl_kvs s A))"
    using kvs_sorted [OF inv] keys by (auto simp: skl_kvs_def sorted_wrt_append entry_of_def)
  ultimately have "sorted_wrt (<) (map (\<lambda>a. node_key (skl_nodes t ! a)) (B @ ?n # A))"
    unfolding key_map by simp
  moreover have "1 \<le> node_height t a \<and> node_height t a \<le> skl_level t" if "a < length (skl_nodes t)" for a
    using that lvl ext inv by (cases "a = ?n") (auto simp: skl_inv_def extends_by_def le_max_iff_disj)
  moreover have "skl_level t \<le> maxLevel" "1 \<le> skl_level t" "length (skl_head t) = maxLevel"
      "length (skl_nodes t) = Suc ?n"
    using ext lvl inv by (auto simp: extends_by_def skl_inv_def)
  moreover have "distinct (B @ ?n # A)" "set (B @ ?n # A) = {..<Suc ?n}"
    using inv sub by (auto simp: skl_inv_def lessThan_Suc)
  ultimately show ?thesis
    using ch lv lens by (simp add: skl_inv_def len_update_facts len_update_lists)
qed

lemma insert_node_inv:
  assumes inv: "skl_inv s (B @ A)"
    and keys: "\<And>a. a \<in> set B \<Longrightarrow> node_key (skl_nodes s ! a) < k" "\<And>a. a \<in> set A \<Longrightarrow> k < node_key (skl_nodes s ! a)"
    and upd: "upd = map (\<lambda>j. last_ptr Head (at_level s j B)) [0..<skl_level s] @ replicate (maxLevel - skl_level s) Null"
  shows "\<exists>as'. skl_inv (insert_node s upd k v) as' \<and>
           skl_kvs (insert_node s upd k v) as' = skl_kvs s B @ (k, v) # skl_kvs s A"
proof -
  let ?n = "length (skl_nodes s)"
  have sub: "set B \<subseteq> {..<?n}" "set A \<subseteq> {..<?n}"
    using inv by (auto simp: skl_inv_def)
  have top: "last_ptr Head (at_level s j B) = Head" if "skl_level s \<le> j" for j
    using that skl_inv_height [OF inv] by (fastforce simp: at_level_def last_ptr_def filter_empty_conv)
  obtain lvl d upd1 where lvl: "1 \<le> lvl" "lvl \<le> maxLevel"
    and upd1: "\<And>j. j < lvl \<Longrightarrow> upd1 ! j = last_ptr Head (at_level s j B)"
    and eq: "insert_node s upd k v = (link 0 lvl upd1 ?n (with_node s d lvl k v))\<lparr>skl_len := skl_len s + 1\<rparr>"
    using insert_node_eq [OF inv upd top] by metis
  note ext = link_extends [of s lvl k v upd1 d]
  have "skl_inv (insert_node s upd k v) (B @ ?n # A)"
    unfolding eq using insert_chain [OF inv refl _ lvl(2) upd1]
    by (intro extends_by_inv [OF inv ext lvl keys]) simp_all
  moreover have "skl_kvs (insert_node s upd k v) (B @ ?n # A) = skl_kvs s B @ (k, v) # skl_kvs s A"
    unfolding eq len_update_lists
    using extends_by_lists(1) [OF ext sub(1)] extends_by_lists(1) [OF ext sub(2)] ext
    by (simp add: skl_kvs_def extends_by_def)
  ultimately show ?thesis by blast
qed

subsection \<open>The operation\<close>

lemma put_sorted_split:
  assumes "\<And>e. e \<in> set xs \<Longrightarrow> fst e < k" and "\<And>e. e \<in> set ys \<Longrightarrow> k < fst e"
  shows "put_sorted k v (xs @ ys) = xs @ (k, v) # ys"
    and "put_sorted k v (xs @ (k, u) # ys) = xs @ (k, v) # ys"
proof -
  have "takeWhile (\<lambda>e. fst e < k) ys = []" "dropWhile (\<lambda>e. fst e \<le> k) ys = ys"
    using assms(2) by (cases ys; force)+
  then show "put_sorted k v (xs @ ys) = xs @ (k, v) # ys"
    and "put_sorted k v (xs @ (k, u) # ys) = xs @ (k, v) # ys"
    using assms(1) by (simp_all add: put_sorted_def less_imp_le)
qed

lemma overwrite_inv:
  assumes inv: "skl_inv s as" and a: "a < length (skl_nodes s)"
    and s': "s' = s\<lparr>skl_nodes := (skl_nodes s)[a := (skl_nodes s ! a)\<lparr>node_val := v\<rparr>]\<rparr>"
  shows "skl_inv s' as"
    and "skl_kvs s' xs = map (\<lambda>b. if b = a then (node_key (skl_nodes s ! a), v) else entry_of s b) xs"
proof -
  have nx: "next_of s' p i = next_of s p i" for p i
    using s' by (cases p) (auto simp: next_of.simps nth_update_node)
  have ht: "node_height s' b = node_height s b" "node_key (skl_nodes s' ! b) = node_key (skl_nodes s ! b)" for b
    using s' by (auto simp: node_height_def nth_update_node)
  have "chain s' i p xs = chain s i p xs" for i p xs
    by (intro chain_cong) (simp_all add: nx)
  moreover have "at_level s' i xs = at_level s i xs" for i xs
    by (simp add: at_level_def ht)
  ultimately show "skl_inv s' as" using inv ht by (simp add: skl_inv_def) (simp add: s')
  show "skl_kvs s' xs = map (\<lambda>b. if b = a then (node_key (skl_nodes s ! a), v) else entry_of s b) xs"
    using a s' by (auto simp: skl_kvs_def entry_of_def nth_update_node)
qed

lemma Put_cases:
  assumes "skl_inv s as"
  shows "SkipList_Put s k v =
    (let B = skl_pre (\<lambda>k'. bytes_Compare k' k < 0) s as;
         upd = map (\<lambda>j. last_ptr Head (at_level s j B)) [0..<skl_level s] @ replicate (maxLevel - skl_level s) Null
     in case skl_post (\<lambda>k'. bytes_Compare k' k < 0) s as of
          [] \<Rightarrow> insert_node s upd k v
        | a # _ \<Rightarrow> if node_key (skl_nodes s ! a) = k
                   then s\<lparr>skl_nodes := (skl_nodes s)[a := (skl_nodes s ! a)\<lparr>node_val := v\<rparr>]\<rparr> else insert_node s upd k v)"
  unfolding SkipList_Put_def key_before.descend_pre [OF assms] prod.case Let_def key_before.next_post [OF assms]
  by (simp split: list.split)

text \<open>The list splits at the key: smaller keys, and keys that are not smaller.\<close>

lemma split_at_key:
  assumes inv: "skl_inv s as" and B: "B = skl_pre (\<lambda>k'. bytes_Compare k' k < 0) s as"
    and A: "A = skl_post (\<lambda>k'. bytes_Compare k' k < 0) s as"
  shows "as = B @ A" and "\<And>a. a \<in> set B \<Longrightarrow> node_key (skl_nodes s ! a) < k"
    and "sorted_wrt (<) (map fst (skl_kvs s B @ skl_kvs s A))"
    and "\<And>a. a \<in> set A \<Longrightarrow> k \<le> node_key (skl_nodes s ! a)"
    and "\<And>a A'. A = a # A' \<Longrightarrow> b \<in> set A' \<Longrightarrow> k < node_key (skl_nodes s ! b)"
proof -
  show as: "as = B @ A" by (simp add: A B pre_post)
  show "node_key (skl_nodes s ! a) < k" if "a \<in> set B" for a
    using key_before.pre_before [of a k s as] that by (simp add: B)
  show srt: "sorted_wrt (<) (map fst (skl_kvs s B @ skl_kvs s A))"
    using kvs_sorted [OF inv] by (simp add: as skl_kvs_def)
  show Ak: "k \<le> node_key (skl_nodes s ! a)" if "a \<in> set A" for a
    using key_before.post_not_before [OF inv] that by (simp add: A not_less)
  show "k < node_key (skl_nodes s ! b)" if "A = a # A'" "b \<in> set A'" for a A'
    using srt Ak [of a] that by (force simp: skl_kvs_def entry_of_def sorted_wrt_append)
qed

lemma Put_correct:
  assumes inv: "skl_inv s as"
  shows "\<exists>as'. skl_inv (SkipList_Put s k v) as' \<and> skl_kvs (SkipList_Put s k v) as' = put_sorted k v (skl_kvs s as)"
proof -
  define B where "B = skl_pre (\<lambda>k'. bytes_Compare k' k < 0) s as"
  define A where "A = skl_post (\<lambda>k'. bytes_Compare k' k < 0) s as"
  note sp = split_at_key [OF inv B_def A_def]
  note put = Put_cases [OF inv, of k v, folded B_def A_def, unfolded Let_def]
  show ?thesis
  proof (cases "\<exists>a A'. A = a # A' \<and> node_key (skl_nodes s ! a) = k")
    case True
    then obtain a A' where A: "A = a # A'" "node_key (skl_nodes s ! a) = k" by blast
    have a: "a < length (skl_nodes s)" using inv by (auto simp: skl_inv_def sp(1) A)
    have eq: "SkipList_Put s k v = s\<lparr>skl_nodes := (skl_nodes s)[a := (skl_nodes s ! a)\<lparr>node_val := v\<rparr>]\<rparr>"
      using A put by simp
    have "a \<notin> set B" "a \<notin> set A'" using inv by (auto simp: skl_inv_def sp(1) A)
    then have "skl_kvs (SkipList_Put s k v) as = skl_kvs s B @ (k, v) # skl_kvs s A'"
      using overwrite_inv(2) [OF inv a eq, of as] A by (auto simp: sp(1) skl_kvs_def)
    moreover have "put_sorted k v (skl_kvs s B @ (k, node_val (skl_nodes s ! a)) # skl_kvs s A') = skl_kvs s B @ (k, v) # skl_kvs s A'"
      using sp(2) sp(5) [OF A(1)] by (intro put_sorted_split(2)) (auto simp: skl_kvs_def entry_of_def)
    moreover have "skl_kvs s as = skl_kvs s B @ (k, node_val (skl_nodes s ! a)) # skl_kvs s A'"
      using A by (simp add: sp(1) skl_kvs_def entry_of_def)
    ultimately show ?thesis using overwrite_inv(1) [OF inv a eq] by metis
  next
    case False
    then have Ak: "k < node_key (skl_nodes s ! a)" if "a \<in> set A" for a
      using that sp(4) [of a] sp(5) [of _ _ a] by (cases A) (auto simp: less_le)
    have "SkipList_Put s k v = insert_node s (map (\<lambda>j. last_ptr Head (at_level s j B)) [0..<skl_level s] @
        replicate (maxLevel - skl_level s) Null) k v"
      using False put by (auto split: list.splits)
    moreover have "put_sorted k v (skl_kvs s B @ skl_kvs s A) = skl_kvs s B @ (k, v) # skl_kvs s A"
      using sp(2) Ak by (intro put_sorted_split(1)) (auto simp: skl_kvs_def entry_of_def)
    moreover have "skl_kvs s as = skl_kvs s B @ skl_kvs s A" by (simp add: sp(1) skl_kvs_def)
    ultimately show ?thesis
      using insert_node_inv [OF inv [unfolded sp(1)] sp(2) Ak refl, of v] by simp
  qed
qed

section \<open>The ordered store interface\<close>

lemma map_of_put_sorted:
  assumes "sorted_wrt (<) (map fst xs)"
  shows "map_of (put_sorted k v xs) = (map_of xs)(k \<mapsto> v)"
proof -
  let ?T = "takeWhile (\<lambda>e. fst e < k) xs" and ?D = "dropWhile (\<lambda>e. fst e < k) xs"
  have T: "map_of ?T k = None"
    using set_takeWhileD by (fastforce simp: map_of_eq_None_iff)
  have s: "sorted_wrt (<) (map fst ?D)"
    using assms by (metis dropWhile_eq_drop drop_map sorted_wrt_drop)
  have "map_of (dropWhile (\<lambda>e. fst e \<le> k) xs) k' = map_of ?D k'" if "k' \<noteq> k" for k'
    using assms that
  proof (induction xs)
    case (Cons e es)
    then have "dropWhile (\<lambda>e. fst e \<le> k) es = es" if "fst e = k" using that by (cases es) auto
    with Cons show ?case by (cases e) (auto simp: less_le)
  qed simp
  moreover have "map_of xs = map_of ?D ++ map_of ?T"
    by (metis map_of_append takeWhile_dropWhile_id)
  ultimately show ?thesis
    using T by (auto simp: put_sorted_def map_add_def fun_eq_iff split: option.splits)
qed

lemma put_sorted_sorted:
  assumes "sorted_wrt (<) (map fst xs)"
  shows "sorted_wrt (<) (map fst (put_sorted k v xs))"
  using assms
proof (induction xs)
  case (Cons e es)
  consider "fst e < k" | "fst e = k" | "k < fst e" by (rule linorder_cases)
  then show ?case
  proof cases
    case 1
    then have "put_sorted k v (e # es) = e # put_sorted k v es" by (simp add: put_sorted_def)
    moreover have "fst e < fst x" if "x \<in> set (put_sorted k v es)" for x
      using that Cons.prems 1 by (auto simp: put_sorted_def dest!: set_takeWhileD set_dropWhileD)
    ultimately show ?thesis using Cons by auto
  next
    case 2
    then have "dropWhile (\<lambda>e. fst e \<le> k) es = es" using Cons.prems by (cases es) auto
    with 2 Cons.prems show ?thesis by (auto simp: put_sorted_def)
  next
    case 3
    with Cons.prems show ?thesis by (auto simp: put_sorted_def)
  qed
qed (simp add: put_sorted_def)

text \<open>
  What a MemTable relies on: a store of entries in ascending key order, with insertion,
  lookup, enumeration and range enumeration.
\<close>

locale ordered_store =
  fixes empty :: 's
    and put :: "'s \<Rightarrow> bytes \<Rightarrow> 'v \<Rightarrow> 's"
    and get :: "'s \<Rightarrow> bytes \<Rightarrow> 'v option"
    and all :: "'s \<Rightarrow> (bytes \<times> 'v) list"
    and range :: "'s \<Rightarrow> bytes option \<Rightarrow> bytes option \<Rightarrow> (bytes \<times> 'v) list"
    and size :: "'s \<Rightarrow> nat"
    and invar :: "'s \<Rightarrow> bool"
  assumes invar_empty: "invar empty"
    and all_empty: "all empty = []"
    and invar_put: "invar s \<Longrightarrow> invar (put s k v)"
    and all_put: "invar s \<Longrightarrow> all (put s k v) = put_sorted k v (all s)"
    and all_sorted: "invar s \<Longrightarrow> sorted_wrt (<) (map fst (all s))"
    and get_all: "invar s \<Longrightarrow> get s k = map_of (all s) k"
    and range_all: "invar s \<Longrightarrow> range s a b = filter (\<lambda>e. in_range a b (fst e)) (all s)"
    and size_all: "invar s \<Longrightarrow> size s = length (all s)"
begin

lemma get_empty: "get empty k = None"
  by (simp add: get_all invar_empty all_empty)

lemma get_put: "invar s \<Longrightarrow> get (put s k v) k' = (if k' = k then Some v else get s k')"
  by (simp add: get_all invar_put all_put map_of_put_sorted all_sorted)

lemma keys_put: "invar s \<Longrightarrow> fst ` set (all (put s k v)) = insert k (fst ` set (all s))"
  by (metis (no_types, lifting) all_put all_sorted dom_fun_upd dom_map_of_conv_image_fst
      map_of_put_sorted option.distinct(1))

lemma in_all_iff: "invar s \<Longrightarrow> (k, v) \<in> set (all s) \<longleftrightarrow> get s k = Some v"
  by (metis all_sorted get_all map_of_eq_Some_iff strict_sorted_iff)

lemma in_range_iff: "invar s \<Longrightarrow> (k, v) \<in> set (range s a b) \<longleftrightarrow> in_range a b k \<and> get s k = Some v"
  by (auto simp: range_all in_all_iff)

lemma size_put: "invar s \<Longrightarrow> size (put s k v) = (if get s k = None then size s + 1 else size s)"
proof -
  assume s: "invar s"
  have card: "size t = card (fst ` set (all t))" if "invar t" for t
    using all_sorted [OF that] size_all [OF that]
    by (metis distinct_card length_map list.set_map strict_sorted_iff)
  have "get s k = None \<longleftrightarrow> k \<notin> fst ` set (all s)"
    using s by (simp add: get_all map_of_eq_None_iff)
  with card [OF s] card [OF invar_put [OF s]] keys_put [OF s] show ?thesis
    by (auto simp: insert_absorb)
qed

end

interpretation skl: ordered_store "SkipList_New r" SkipList_Put SkipList_Get SkipList_All SkipList_Range SkipList_Len skl_wf for r
proof
  show "skl_wf (SkipList_New r)"
    by (auto simp: skl_wf_def skl_inv_def SkipList_New_def maxLevel_def at_level_def next_of.simps intro: exI [of _ "[]"])
  show "SkipList_All (SkipList_New r) = []"
    by (simp add: SkipList_All_def SkipList_New_def fuel_of_def next_of.simps maxLevel_def)
next
  fix s :: "'a SkipList" and k v a b
  assume "skl_wf s"
  then obtain as where inv: "skl_inv s as" by (auto simp: skl_wf_def)
  obtain as' where as': "skl_inv (SkipList_Put s k v) as'" "skl_kvs (SkipList_Put s k v) as' = put_sorted k v (skl_kvs s as)"
    using Put_correct [OF inv] by blast
  show "skl_wf (SkipList_Put s k v)" using as' by (auto simp: skl_wf_def)
  show "SkipList_All (SkipList_Put s k v) = put_sorted k v (SkipList_All s)" using as' by (simp add: All_kvs [OF inv] All_kvs [OF as'(1)])
  show "sorted_wrt (<) (map fst (SkipList_All s))" by (simp add: All_kvs [OF inv] kvs_sorted [OF inv])
  show "SkipList_Get s k = map_of (SkipList_All s) k" by (simp add: All_kvs [OF inv] Get_map_of [OF inv])
  show "SkipList_Range s a b = filter (\<lambda>e. in_range a b (fst e)) (SkipList_All s)"
    by (simp add: All_kvs [OF inv] Range_filter [OF inv])
  show "SkipList_Len s = length (SkipList_All s)" using inv by (simp add: All_kvs [OF inv] SkipList_Len_def skl_kvs_def skl_inv_def)
qed

section \<open>Properties\<close>

definition put_all :: "'v SkipList \<Rightarrow> (bytes \<times> 'v) list \<Rightarrow> 'v SkipList" where
  "put_all s kvs = foldl (\<lambda>s (k, v). SkipList_Put s k v) s kvs"

lemma put_all_snoc: "put_all s (kvs @ [(k, v)]) = SkipList_Put (put_all s kvs) k v"
  by (simp add: put_all_def)

lemma put_all_wf: "skl_wf (put_all (SkipList_New r) kvs)"
proof (induction kvs rule: rev_induct)
  case Nil
  then show ?case by (simp add: put_all_def skl.invar_empty)
next
  case (snoc e kvs)
  then show ?case by (cases e) (simp add: put_all_snoc skl.invar_put)
qed

lemma put_all_get: "SkipList_Get (put_all (SkipList_New r) kvs) k = map_of (rev kvs) k"
proof (induction kvs rule: rev_induct)
  case Nil
  then show ?case by (simp add: put_all_def skl.get_empty)
next
  case (snoc e kvs)
  then show ?case by (cases e) (simp add: put_all_snoc skl.get_put put_all_wf)
qed

text \<open>
  C26: the bottom level of a skip list built by insertions is a sorted map: All lists each
  inserted key once, in strictly ascending order, with its last value, Len is the number of
  keys, and Range is the part of All inside the half-open interval.
\<close>

theorem skiplist_ordered_view:
  "let s = put_all (SkipList_New r) kvs
   in sorted_wrt (<) (map fst (SkipList_All s)) \<and> map_of (SkipList_All s) = map_of (rev kvs) \<and>
      SkipList_Len s = card (fst ` set kvs) \<and>
      SkipList_Range s a b = filter (\<lambda>e. in_range a b (fst e)) (SkipList_All s)"
proof -
  define s where "s = put_all (SkipList_New r) kvs"
  have wf: "skl_wf s" unfolding s_def by (rule put_all_wf)
  have m: "map_of (SkipList_All s) = map_of (rev kvs)"
    using skl.get_all [OF wf] put_all_get [of r kvs] unfolding s_def by fastforce
  then have "fst ` set (SkipList_All s) = fst ` set kvs"
    by (metis dom_map_of_conv_image_fst set_rev)
  then have "SkipList_Len s = card (fst ` set kvs)"
    using skl.size_all [OF wf] skl.all_sorted [OF wf]
    by (metis distinct_card length_map list.set_map strict_sorted_iff)
  with wf m show ?thesis
    by (simp add: skl.all_sorted skl.range_all flip: s_def)
qed

end
