(* ===== verification/Memtable.thy ===== *)
theory Memtable
  imports Skiplist
begin

text \<open>
  \<^verbatim>\<open>src/memtable/memtable.go\<close>: the in-memory write buffer, a skip list of entries plus the running
  byte count that decides rotation. \<^verbatim>\<open>ValueType\<close> is a byte, as in the source (a table file can
  hold other values than the two constants). The facts about the operations come from the
  interpretation \<open>skl\<close> of the ordered store interface on the pointer-level skip list.
\<close>

section \<open>Definitions\<close>

type_synonym ValueType = byte

definition TypeValue :: ValueType where
  "TypeValue = 1"

definition TypeTombstone :: ValueType where
  "TypeTombstone = 2"

record Entry =
  ent_type :: ValueType
  ent_value :: bytes
  ent_seq :: u64

definition entryOverhead :: nat where
  "entryOverhead = 48"

text \<open>The size counter is an \<^verbatim>\<open>int64\<close>, kept at its width: read it with \<open>sint\<close>.\<close>

record MemTable =
  mt_skl :: "Entry SkipList"
  mt_size :: "64 word"

definition MemTable_New :: "(nat \<Rightarrow> int) \<Rightarrow> MemTable" where
  "MemTable_New r = \<lparr>mt_skl = SkipList_New r, mt_size = 0\<rparr>"

definition MemTable_Put :: "MemTable \<Rightarrow> bytes \<Rightarrow> bytes \<Rightarrow> u64 \<Rightarrow> MemTable" where
  "MemTable_Put m k v seq =
     m\<lparr>mt_skl := SkipList_Put (mt_skl m) k \<lparr>ent_type = TypeValue, ent_value = v, ent_seq = seq\<rparr>,
       mt_size := mt_size m + of_nat (length k + length v + entryOverhead)\<rparr>"

definition MemTable_Delete :: "MemTable \<Rightarrow> bytes \<Rightarrow> u64 \<Rightarrow> MemTable" where
  "MemTable_Delete m k seq =
     m\<lparr>mt_skl := SkipList_Put (mt_skl m) k \<lparr>ent_type = TypeTombstone, ent_value = [], ent_seq = seq\<rparr>,
       mt_size := mt_size m + of_nat (length k + entryOverhead)\<rparr>"

definition MemTable_Get :: "MemTable \<Rightarrow> bytes \<Rightarrow> Entry option" where
  "MemTable_Get m k = SkipList_Get (mt_skl m) k"

definition MemTable_Size :: "MemTable \<Rightarrow> 64 word" where
  "MemTable_Size m = mt_size m"

definition MemTable_Len :: "MemTable \<Rightarrow> nat" where
  "MemTable_Len m = SkipList_Len (mt_skl m)"

definition MemTable_All :: "MemTable \<Rightarrow> (bytes \<times> Entry) list" where
  "MemTable_All m = SkipList_All (mt_skl m)"

definition MemTable_Range :: "MemTable \<Rightarrow> bytes option \<Rightarrow> bytes option \<Rightarrow> (bytes \<times> Entry) list" where
  "MemTable_Range m start end = SkipList_Range (mt_skl m) start end"

definition mt_inv :: "MemTable \<Rightarrow> bool" where
  "mt_inv m \<longleftrightarrow> skl_wf (mt_skl m)"

section \<open>Lemmas\<close>

lemma mt_inv_New [inv_rules, simp]: "mt_inv (MemTable_New r)"
  by (simp add: mt_inv_def MemTable_New_def skl.invar_empty)

lemma mt_inv_Put [inv_rules, simp]: "mt_inv m \<Longrightarrow> mt_inv (MemTable_Put m k v seq)"
  by (simp add: mt_inv_def MemTable_Put_def skl.invar_put)

lemma mt_inv_Delete [inv_rules, simp]: "mt_inv m \<Longrightarrow> mt_inv (MemTable_Delete m k seq)"
  by (simp add: mt_inv_def MemTable_Delete_def skl.invar_put)

lemma MemTable_Get_New: "MemTable_Get (MemTable_New r) k = None"
  by (simp add: MemTable_Get_def MemTable_New_def skl.get_empty)

lemma MemTable_Get_Put:
  "mt_inv m \<Longrightarrow> MemTable_Get (MemTable_Put m k v seq) k' =
     (if k' = k then Some \<lparr>ent_type = TypeValue, ent_value = v, ent_seq = seq\<rparr> else MemTable_Get m k')"
  by (simp add: mt_inv_def MemTable_Get_def MemTable_Put_def skl.get_put)

lemma MemTable_Get_Delete:
  "mt_inv m \<Longrightarrow> MemTable_Get (MemTable_Delete m k seq) k' =
     (if k' = k then Some \<lparr>ent_type = TypeTombstone, ent_value = [], ent_seq = seq\<rparr> else MemTable_Get m k')"
  by (simp add: mt_inv_def MemTable_Get_def MemTable_Delete_def skl.get_put)

lemma MemTable_All_sorted: "mt_inv m \<Longrightarrow> sorted_wrt (<) (map fst (MemTable_All m))"
  by (simp add: mt_inv_def MemTable_All_def skl.all_sorted)

lemma MemTable_All_New: "MemTable_All (MemTable_New r) = []"
  by (simp add: MemTable_All_def MemTable_New_def skl.all_empty)

lemma MemTable_All_iff: "mt_inv m \<Longrightarrow> (k, e) \<in> set (MemTable_All m) \<longleftrightarrow> MemTable_Get m k = Some e"
  by (simp add: mt_inv_def MemTable_All_def MemTable_Get_def skl.in_all_iff)

lemma MemTable_All_map_of: "mt_inv m \<Longrightarrow> map_of (MemTable_All m) k = MemTable_Get m k"
  by (simp add: mt_inv_def MemTable_All_def MemTable_Get_def skl.get_all)

lemma MemTable_Len_All: "mt_inv m \<Longrightarrow> MemTable_Len m = length (MemTable_All m)"
  by (simp add: mt_inv_def MemTable_Len_def MemTable_All_def skl.size_all)

lemma MemTable_Range_All:
  "mt_inv m \<Longrightarrow> MemTable_Range m a b = filter (\<lambda>e. in_range a b (fst e)) (MemTable_All m)"
  by (simp add: mt_inv_def MemTable_Range_def MemTable_All_def skl.range_all)

text \<open>An overwritten entry is gone: the MemTable holds one version per key.\<close>

lemma MemTable_All_Put:
  "mt_inv m \<Longrightarrow> MemTable_All (MemTable_Put m k v seq) =
     put_sorted k \<lparr>ent_type = TypeValue, ent_value = v, ent_seq = seq\<rparr> (MemTable_All m)"
  by (simp add: mt_inv_def MemTable_All_def MemTable_Put_def skl.all_put)

lemma MemTable_All_Delete:
  "mt_inv m \<Longrightarrow> MemTable_All (MemTable_Delete m k seq) =
     put_sorted k \<lparr>ent_type = TypeTombstone, ent_value = [], ent_seq = seq\<rparr> (MemTable_All m)"
  by (simp add: mt_inv_def MemTable_All_def MemTable_Delete_def skl.all_put)

section \<open>Properties\<close>

datatype mem_op = MPut bytes bytes u64 | MDelete bytes u64

fun mem_apply :: "MemTable \<Rightarrow> mem_op \<Rightarrow> MemTable" where
  "mem_apply m (MPut k v seq) = MemTable_Put m k v seq"
| "mem_apply m (MDelete k seq) = MemTable_Delete m k seq"

fun mem_entry :: "mem_op \<Rightarrow> bytes \<times> Entry" where
  "mem_entry (MPut k v seq) = (k, \<lparr>ent_type = TypeValue, ent_value = v, ent_seq = seq\<rparr>)"
| "mem_entry (MDelete k seq) = (k, \<lparr>ent_type = TypeTombstone, ent_value = [], ent_seq = seq\<rparr>)"

definition mem_cost :: "mem_op \<Rightarrow> nat" where
  "mem_cost oper = length (fst (mem_entry oper)) + length (ent_value (snd (mem_entry oper))) + entryOverhead"

lemma mem_apply_inv: "mt_inv m \<Longrightarrow> mt_inv (mem_apply m oper)"
  by (cases oper) simp_all

lemma mem_apply_get: "mt_inv m \<Longrightarrow> MemTable_Get (mem_apply m oper) k = map_of (mem_entry oper # MemTable_All m) k"
  by (cases oper) (auto simp: MemTable_Get_Put MemTable_Get_Delete MemTable_All_map_of)

lemma mem_run_inv: "mt_inv (foldl mem_apply (MemTable_New r) ops)"
  by (induction ops rule: rev_induct) (simp_all add: mem_apply_inv)

lemma mem_run_get:
  "MemTable_Get (foldl mem_apply (MemTable_New r) ops) k = map_of (rev (map mem_entry ops)) k"
proof (induction ops rule: rev_induct)
  case Nil
  then show ?case by (simp add: MemTable_Get_New)
next
  case (snoc oper ops)
  then show ?case
    using mem_apply_get [OF mem_run_inv [of r ops], of oper k]
    by (cases "mem_entry oper") (simp add: MemTable_All_map_of mem_run_inv)
qed

text \<open>
  C27: after any sequence of Puts and Deletes a MemTable holds, for each key, exactly the last
  operation on it (a deleted key as a tombstone entry), and its size counter is the sum of the
  costs of all operations, overwritten ones included, modulo the width of the counter.
\<close>

theorem memtable_last_write:
  "map_of (MemTable_All (foldl mem_apply (MemTable_New r) ops)) = map_of (rev (map mem_entry ops)) \<and>
   (\<forall>k. MemTable_Get (foldl mem_apply (MemTable_New r) ops) k = map_of (rev (map mem_entry ops)) k) \<and>
   MemTable_Size (foldl mem_apply (MemTable_New r) ops) = of_nat (sum_list (map mem_cost ops))"
proof -
  have cost: "mt_size (mem_apply m oper) = mt_size m + of_nat (mem_cost oper)" for m oper
    by (cases oper) (simp_all add: MemTable_Put_def MemTable_Delete_def mem_cost_def)
  have "mt_size (foldl mem_apply (MemTable_New r) ops) = of_nat (sum_list (map mem_cost ops))"
    by (induction ops rule: rev_induct) (simp_all add: MemTable_New_def cost)
  moreover have "map_of (MemTable_All (foldl mem_apply (MemTable_New r) ops)) = map_of (rev (map mem_entry ops))"
    using mem_run_get [of r ops] MemTable_All_map_of [OF mem_run_inv [of r ops]] by auto
  ultimately show ?thesis by (simp add: MemTable_Size_def mem_run_get)
qed

end
