(* ===== verification/GoHash.thy ===== *)
theory GoHash
  imports Prelude
begin

text \<open>
  The two checksum packages of the Go library the store uses: \<^verbatim>\<open>hash/fnv\<close> (FNV-1 and FNV-1a,
  32 bits) for the Bloom filter and \<^verbatim>\<open>hash/crc32\<close> with the IEEE polynomial for the write-ahead
  log. Both are defined on bytes at their machine width and evaluate in the kernel.
\<close>

definition fnv_offset32 :: u32 where
  "fnv_offset32 = 2166136261"

definition fnv_prime32 :: u32 where
  "fnv_prime32 = 16777619"

definition fnv_New32a :: "bytes \<Rightarrow> u32" where
  "fnv_New32a bs = foldl (\<lambda>h b. (h XOR ucast b) * fnv_prime32) fnv_offset32 bs"

definition fnv_New32 :: "bytes \<Rightarrow> u32" where
  "fnv_New32 bs = foldl (\<lambda>h b. (h * fnv_prime32) XOR ucast b) fnv_offset32 bs"

definition crc32_IEEE_poly :: u32 where
  "crc32_IEEE_poly = 0xedb88320"

definition crc32_bit :: "u32 \<Rightarrow> u32" where
  "crc32_bit c = (if bit c 0 then drop_bit 1 c XOR crc32_IEEE_poly else drop_bit 1 c)"

definition crc32_byte :: "u32 \<Rightarrow> byte \<Rightarrow> u32" where
  "crc32_byte c b =
     crc32_bit (crc32_bit (crc32_bit (crc32_bit (crc32_bit (crc32_bit (crc32_bit (crc32_bit
       (c XOR ucast b))))))))"

definition crc32_ChecksumIEEE :: "bytes \<Rightarrow> u32" where
  "crc32_ChecksumIEEE bs = NOT (foldl crc32_byte (NOT 0) bs)"

end
