(* ===== verification/Wal.thy ===== *)
theory Wal
  imports GoFS GoHash "HOL-Library.Sublist"
begin

text \<open>
  \<^verbatim>\<open>src/wal/wal.go\<close>: the write-ahead log. \<open>encode_record\<close> is the buffer \<^verbatim>\<open>Append\<close> builds; \<open>Append\<close>
  is the whole call over the faulty file system (buffered write, flush, fsync, with the error of
  each step); \<open>Replay_loop\<close> is the read loop with every exit of the source. \<open>parse_records\<close> is the
  specification of the log format: the longest prefix of well-formed records. The theorems show
  that replay computes it, that appended records come back, and what survives a crash.
\<close>

section \<open>Definitions\<close>

type_synonym RecordType = byte

definition RecordPut :: RecordType where
  "RecordPut = 1"

definition RecordDelete :: RecordType where
  "RecordDelete = 2"

record WalRecord =
  wr_type :: RecordType
  wr_key :: bytes
  wr_value :: bytes
  wr_seq :: u64

definition headerSize :: nat where
  "headerSize = 21"

definition encode_body :: "RecordType \<Rightarrow> u64 \<Rightarrow> u32 \<Rightarrow> u32 \<Rightarrow> bytes \<Rightarrow> bytes" where
  "encode_body typ seq keyLen valLen body =
     [typ] @ PutUint64 seq @ PutUint32 keyLen @ PutUint32 valLen @ body"

definition encode_record :: "WalRecord \<Rightarrow> bytes" where
  "encode_record r =
     (let b = encode_body (wr_type r) (wr_seq r) (of_nat (length (wr_key r))) (of_nat (length (wr_value r)))
                (wr_key r @ wr_value r)
      in PutUint32 (crc32_ChecksumIEEE b) @ b)"

record WAL =
  wal_w :: bufw
  wal_path :: string

definition WAL_Open :: "string \<Rightarrow> fs \<Rightarrow> (error + WAL) \<times> fs" where
  "WAL_Open path d =
     (let (e, d1) = os_OpenAppend path d
      in (case e of None \<Rightarrow> Inr \<lparr>wal_w = bufio_NewWriter, wal_path = path\<rparr>
          | Some x \<Rightarrow> Inl (EWrap ''wal: failed to open'' x), d1))"

definition WAL_Append :: "WAL \<Rightarrow> WalRecord \<Rightarrow> fs \<Rightarrow> error option \<times> WAL \<times> fs" where
  "WAL_Append w r d =
     (let ((n, e), b, d1) = bufio_Write (wal_path w) (encode_record r) (wal_w w) d;
          w1 = w\<lparr>wal_w := b\<rparr>
      in case e of
           Some x \<Rightarrow> (Some (EWrap ''wal: write failed'' x), w1, d1)
         | None \<Rightarrow>
             let (e2, b2, d2) = bufio_Flush (wal_path w) b d1; w2 = w\<lparr>wal_w := b2\<rparr>
             in case e2 of
                  Some x \<Rightarrow> (Some (EWrap ''wal: flush failed'' x), w2, d2)
                | None \<Rightarrow>
                    let (e3, d3) = file_Sync (wal_path w) d2
                    in case e3 of
                         Some x \<Rightarrow> (Some (EWrap ''wal: fsync failed'' x), w2, d3)
                       | None \<Rightarrow> (None, w2, d3))"

definition WAL_Close :: "WAL \<Rightarrow> fs \<Rightarrow> error option \<times> fs" where
  "WAL_Close w d =
     (let (e, b, d1) = bufio_Flush (wal_path w) (wal_w w) d
      in case e of
           Some x \<Rightarrow> (Some (EWrap ''wal: final flush failed'' x), d1)
         | None \<Rightarrow>
             let (e2, d2) = file_Close d1
             in (case e2 of Some x \<Rightarrow> Some (EWrap ''wal: close failed'' x) | None \<Rightarrow> None, d2))"

definition WAL_Remove :: "string \<Rightarrow> fs \<Rightarrow> error option \<times> fs" where
  "WAL_Remove path d = os_Remove path d"

definition maxReasonableLen :: nat where
  "maxReasonableLen = 536870912"

text \<open>
  One pass of the read loop over the open file: \<open>pos\<close> is the position of the buffered reader,
  \<open>st\<close> the state the callback \<open>fn\<close> works on.
\<close>

function Replay_loop ::
  "(WalRecord \<Rightarrow> 's \<Rightarrow> error option \<times> 's) \<Rightarrow> handle \<Rightarrow> nat \<Rightarrow> 's \<Rightarrow> error option \<times> 's" where
  "Replay_loop fn h pos st =
     (case ReadFull h headerSize pos of
        Inl e \<Rightarrow> if e = EEOF \<or> e = EUnexpectedEOF then (None, st)
                 else (Some (EWrap ''wal: reading header'' e), st)
      | Inr header \<Rightarrow>
          let crc = Uint32 (slice 0 4 header);
              typ = header ! 4;
              seq = Uint64 (slice 5 13 header);
              keyLen = Uint32 (slice 13 17 header);
              valLen = Uint32 (slice 17 21 header)
          in if unat keyLen > maxReasonableLen \<or> unat valLen > maxReasonableLen then (None, st)
             else case ReadFull h (unat keyLen + unat valLen) (pos + headerSize) of
                    Inl e \<Rightarrow> (None, st)
                  | Inr body \<Rightarrow>
                      if crc32_ChecksumIEEE (encode_body typ seq keyLen valLen body) \<noteq> crc then (None, st)
                      else let (e, st') = fn \<lparr>wr_type = typ, wr_key = take (unat keyLen) body,
                                wr_value = drop (unat keyLen) body, wr_seq = seq\<rparr> st
                           in case e of
                                Some x \<Rightarrow> (Some (EWrap ''wal: apply callback'' x), st')
                              | None \<Rightarrow> Replay_loop fn h (pos + headerSize + unat keyLen + unat valLen) st')"
  by pat_completeness auto
termination
proof (relation "measure (\<lambda>(fn, h, pos, st). length (hdata h) - pos)", goal_cases)
  case 1
  then show ?case by simp
next
  case 2
  then show ?case
    by (auto simp: ReadFull_def headerSize_def Let_def split: if_splits)
qed

definition WAL_Replay ::
  "string \<Rightarrow> (WalRecord \<Rightarrow> 's \<Rightarrow> error option \<times> 's) \<Rightarrow> 's \<Rightarrow> fs \<Rightarrow> (error option \<times> 's) \<times> fs" where
  "WAL_Replay path fn st d =
     (let (r, d1) = os_Open path d
      in case r of
           Inl e \<Rightarrow> if e = ENotExist then ((None, st), d1)
                    else ((Some (EWrap ''wal: failed to open for replay'' e), st), d1)
         | Inr h \<Rightarrow> (Replay_loop fn h 0 st, d1))"

declare Replay_loop.simps [simp del]

subsection \<open>Specification\<close>

text \<open>The first record of a byte string and its length, if it is complete and its checksum fits.\<close>

definition parse_record :: "bytes \<Rightarrow> (WalRecord \<times> nat) option" where
  "parse_record bs =
     (let crc = Uint32 (slice 0 4 bs);
          typ = bs ! 4;
          seq = Uint64 (slice 5 13 bs);
          keyLen = Uint32 (slice 13 17 bs);
          valLen = Uint32 (slice 17 21 bs);
          n = unat keyLen + unat valLen;
          body = slice 21 (21 + n) bs
      in if length bs < 21 \<or> unat keyLen > maxReasonableLen \<or> unat valLen > maxReasonableLen
            \<or> length bs < 21 + n
            \<or> crc32_ChecksumIEEE (encode_body typ seq keyLen valLen body) \<noteq> crc
         then None
         else Some (\<lparr>wr_type = typ, wr_key = take (unat keyLen) body,
                     wr_value = drop (unat keyLen) body, wr_seq = seq\<rparr>, 21 + n))"

lemma parse_record_length: "parse_record bs = Some (r, n) \<Longrightarrow> 21 \<le> n \<and> n \<le> length bs"
  by (auto simp: parse_record_def Let_def split: if_splits)

function parse_records :: "bytes \<Rightarrow> WalRecord list" where
  "parse_records bs =
     (case parse_record bs of None \<Rightarrow> [] | Some (r, n) \<Rightarrow> r # parse_records (drop n bs))"
  by pat_completeness auto
termination
  by (relation "measure length") (auto dest!: parse_record_length)

declare parse_records.simps [simp del]

text \<open>Delivering records one by one until the callback fails.\<close>

fun deliver :: "(WalRecord \<Rightarrow> 's \<Rightarrow> error option \<times> 's) \<Rightarrow> WalRecord list \<Rightarrow> 's \<Rightarrow> error option \<times> 's" where
  "deliver fn [] st = (None, st)"
| "deliver fn (r # rs) st =
     (let (e, st') = fn r st
      in case e of Some x \<Rightarrow> (Some (EWrap ''wal: apply callback'' x), st') | None \<Rightarrow> deliver fn rs st')"

text \<open>A record within the length limit of the replay loop, 512 MiB; Append does not enforce it.\<close>

definition rec_fits :: "WalRecord \<Rightarrow> bool" where
  "rec_fits r \<longleftrightarrow> length (wr_key r) \<le> maxReasonableLen \<and> length (wr_value r) \<le> maxReasonableLen"

section \<open>The record format\<close>

lemma encode_record_layout:
  "slice 0 4 (encode_record r @ bs) = PutUint32 (crc32_ChecksumIEEE (drop 4 (encode_record r)))"
  "(encode_record r @ bs) ! 4 = wr_type r"
  "slice 5 13 (encode_record r @ bs) = PutUint64 (wr_seq r)"
  "slice 13 17 (encode_record r @ bs) = PutUint32 (of_nat (length (wr_key r)))"
  "slice 17 21 (encode_record r @ bs) = PutUint32 (of_nat (length (wr_value r)))"
  "slice 21 (21 + length (wr_key r) + length (wr_value r)) (encode_record r @ bs) = wr_key r @ wr_value r"
  by (simp_all add: encode_record_def encode_body_def Let_def slice_def nth_append)

lemma length_encode_record: "length (encode_record r) = 21 + length (wr_key r) + length (wr_value r)"
  by (simp add: encode_record_def encode_body_def Let_def)

lemma unat_len32: "n \<le> maxReasonableLen \<Longrightarrow> unat (of_nat n :: u32) = n"
  by (simp add: maxReasonableLen_def unat_of_nat)

lemma parse_record_encode:
  assumes "rec_fits r"
  shows "parse_record (encode_record r @ bs) = Some (r, length (encode_record r))"
proof -
  have k: "unat (of_nat (length (wr_key r)) :: u32) = length (wr_key r)"
    and v: "unat (of_nat (length (wr_value r)) :: u32) = length (wr_value r)"
    using assms by (simp_all add: rec_fits_def unat_len32)
  have body: "slice 21 (21 + (length (wr_key r) + length (wr_value r))) (encode_record r @ bs) = wr_key r @ wr_value r"
    using encode_record_layout(6) [of r bs] by (simp add: add.assoc)
  have crc: "drop 4 (encode_record r) = encode_body (wr_type r) (wr_seq r) (of_nat (length (wr_key r)))
      (of_nat (length (wr_value r))) (wr_key r @ wr_value r)"
    by (simp add: encode_record_def Let_def)
  show ?thesis
    using assms
    unfolding parse_record_def Let_def encode_record_layout Uint32_PutUint32 Uint64_PutUint64 k v body crc
    by (simp add: length_encode_record rec_fits_def not_less)
qed

text \<open>A proper prefix of an encoded record is not a record: a torn write is recognised.\<close>

lemma parse_record_torn:
  assumes "rec_fits r" and "m < length (encode_record r)"
  shows "parse_record (take m (encode_record r)) = None"
proof (cases "m < 21")
  case True
  then have "length (take m (encode_record r)) < 21" by simp
  then show ?thesis unfolding parse_record_def Let_def by (simp only: simp_thms if_True)
next
  case False
  have sl: "slice i j (take m (encode_record r)) = slice i j (encode_record r)" if "j \<le> 21" for i j
    using that False by (simp add: slice_def drop_take min_def)
  have k: "unat (of_nat (length (wr_key r)) :: u32) = length (wr_key r)"
    and v: "unat (of_nat (length (wr_value r)) :: u32) = length (wr_value r)"
    using assms by (simp_all add: rec_fits_def unat_len32)
  have "unat (Uint32 (slice 13 17 (take m (encode_record r)))) = length (wr_key r)"
      "unat (Uint32 (slice 17 21 (take m (encode_record r)))) = length (wr_value r)"
    using encode_record_layout(4,5) [of r "[]"] k v by (simp_all add: sl)
  with assms(2) show ?thesis
    by (simp add: parse_record_def Let_def length_encode_record)
qed

lemma parse_records_Cons:
  "rec_fits r \<Longrightarrow> parse_records (encode_record r @ bs) = r # parse_records bs"
  by (simp add: parse_records.simps [of "encode_record r @ bs"] parse_record_encode)

lemma parse_records_torn:
  "rec_fits r \<Longrightarrow> m < length (encode_record r) \<Longrightarrow> parse_records (take m (encode_record r)) = []"
  by (simp add: parse_records.simps [of "take m (encode_record r)"] parse_record_torn)

lemma parse_records_Nil: "parse_records [] = []"
  by (simp add: parse_records.simps [of "[]"] parse_record_def Let_def)

lemma parse_records_concat:
  "\<forall>r \<in> set rs. rec_fits r \<Longrightarrow> parse_records (concat (map encode_record rs) @ bs) = rs @ parse_records bs"
  by (induction rs) (simp_all add: parse_records_Cons)

section \<open>Replay computes the specification\<close>

definition readable :: "handle \<Rightarrow> bool" where
  "readable h \<longleftrightarrow> (\<forall>i. \<not> hbad h i)"

lemma ReadFull_readable:
  "readable h \<Longrightarrow> ReadFull h n pos =
     (if n = 0 then Inr []
      else if length (hdata h) \<le> pos then Inl EEOF
      else if length (hdata h) < pos + n then Inl EUnexpectedEOF
      else Inr (slice pos (pos + n) (hdata h)))"
  by (auto simp: ReadFull_def readable_def Let_def list_ex_iff)

lemma slice_drop: "slice i j (drop n xs) = slice (n + i) (n + j) xs"
  by (simp add: slice_def add.commute)

lemma slice_slice: "j \<le> n - m \<Longrightarrow> slice i j (slice m n xs) = slice (m + i) (m + j) xs"
  by (simp add: slice_def drop_take add.commute min_def)

text \<open>
  The read loop on a readable file: one parsed record is delivered and the loop goes on behind
  it; where no record parses, the loop ends without an error.
\<close>

lemma Replay_loop_unfold:
  assumes "readable h"
  shows "Replay_loop fn h pos st =
    (case parse_record (drop pos (hdata h)) of
       None \<Rightarrow> (None, st)
     | Some (r, n) \<Rightarrow>
         let (e, st') = fn r st
         in case e of Some x \<Rightarrow> (Some (EWrap ''wal: apply callback'' x), st')
            | None \<Rightarrow> Replay_loop fn h (pos + n) st')"
proof (cases "length (hdata h) < pos + 21")
  case True
  then have "parse_record (drop pos (hdata h)) = None"
    by (auto simp: parse_record_def Let_def)
  moreover have "Replay_loop fn h pos st = (None, st)"
    using True by (subst Replay_loop.simps) (simp add: ReadFull_readable [OF assms] headerSize_def)
  ultimately show ?thesis by simp
next
  case False
  let ?D = "hdata h" and ?b = "drop pos (hdata h)"
  define kl where "kl = unat (Uint32 (slice 13 17 ?b))"
  define vl where "vl = unat (Uint32 (slice 17 21 ?b))"
  have hd: "ReadFull h 21 pos = Inr (slice pos (pos + 21) ?D)"
    using False by (simp add: ReadFull_readable [OF assms] headerSize_def)
  have fields: "slice 0 4 (slice pos (pos + 21) ?D) = slice 0 4 ?b"
      "slice pos (pos + 21) ?D ! 4 = ?b ! 4" "slice 5 13 (slice pos (pos + 21) ?D) = slice 5 13 ?b"
      "slice 13 17 (slice pos (pos + 21) ?D) = slice 13 17 ?b"
      "slice 17 21 (slice pos (pos + 21) ?D) = slice 17 21 ?b"
    using False by (simp_all add: slice_slice slice_drop) (simp add: slice_def)
  have body: "ReadFull h (kl + vl) (pos + 21) =
      (if length ?b < 21 + (kl + vl) then Inl (if length ?D \<le> pos + 21 then EEOF else EUnexpectedEOF)
       else Inr (slice 21 (21 + (kl + vl)) ?b))"
    using False
    by (auto simp: ReadFull_readable [OF assms] headerSize_def slice_drop add.assoc slice_def add.commute [of pos 21])
  show ?thesis
    using False
    by (subst Replay_loop.simps)
      (simp add: hd fields body parse_record_def Let_def headerSize_def add.assoc
        flip: kl_def vl_def split: option.split prod.split)
qed

lemma Replay_loop_deliver:
  assumes "readable h"
  shows "Replay_loop fn h pos st = deliver fn (parse_records (drop pos (hdata h))) st"
proof (induction "length (hdata h) - pos" arbitrary: pos st rule: less_induct)
  case less
  show ?case
  proof (cases "parse_record (drop pos (hdata h))")
    case None
    then show ?thesis
      by (simp add: Replay_loop_unfold [OF assms, of fn pos] parse_records.simps [of "drop pos (hdata h)"])
  next
    case (Some rn)
    obtain r n where rn: "parse_record (drop pos (hdata h)) = Some (r, n)" using Some by (cases rn) auto
    have "length (hdata h) - (pos + n) < length (hdata h) - pos"
      using parse_record_length [OF rn] by auto
    from less [OF this] show ?thesis
      by (simp add: Replay_loop_unfold [OF assms, of fn pos] parse_records.simps [of "drop pos (hdata h)"]
          rn add.commute split: option.split prod.split)
  qed
qed

section \<open>Append under faults\<close>

lemma file_Sync_effect:
  assumes "file_Sync p d = (e, d')"
  shows "fs_get d' q = (if q = p then map_option (\<lambda>f. f\<lparr>durable := if fst (tick d) = Done \<or> takes_effect (fst (tick d))
           then length (content f) else durable f\<rparr>) (fs_get d p) else fs_get d q)"
    and "unreadable d' = unreadable d" and "e = None \<Longrightarrow> fst (tick d) = Done"
proof -
  obtain r d1 where r: "tick d = (r, d1)" by fastforce
  note t = tick_frame [OF r]
  show "e = None \<Longrightarrow> fst (tick d) = Done"
    using assms r by (auto simp: file_Sync_def Let_def)
  show "unreadable d' = unreadable d"
    using assms r t by (auto simp: file_Sync_def Let_def split: option.splits if_splits)
  show "fs_get d' q = (if q = p then map_option (\<lambda>f. f\<lparr>durable := if fst (tick d) = Done \<or> takes_effect (fst (tick d))
           then length (content f) else durable f\<rparr>) (fs_get d p) else fs_get d q)"
    using assms r t by (auto simp: file_Sync_def Let_def split: option.splits if_splits)
qed

text \<open>
  What the log file looks like between calls: complete records \<open>rs\<close>, and behind them nothing
  while the writer is healthy, or a torn record once a write failed (the writer then refuses
  every later append). \<open>n\<close> bytes are durable.
\<close>

definition wal_state :: "WAL \<Rightarrow> fs \<Rightarrow> WalRecord list \<Rightarrow> nat \<Rightarrow> bool" where
  "wal_state w d rs n \<longleftrightarrow>
     (\<exists>f tail. fs_get d (wal_path w) = Some f \<and> content f = concat (map encode_record rs) @ tail \<and>
        durable f = n \<and> n \<le> length (content f) \<and> (\<forall>r \<in> set rs. rec_fits r) \<and>
        (if bw_err (wal_w w) = None then bw_buf (wal_w w) = [] \<and> tail = []
         else \<exists>r k. rec_fits r \<and> k < length (encode_record r) \<and> tail = take k (encode_record r)))"

lemma wal_state_broken:
  assumes "wal_state w d rs n" and "bw_err (wal_w w) = Some x"
  shows "\<exists>e w' d'. WAL_Append w r d = (Some e, w', d') \<and> wal_state w' d' rs n \<and> bw_err (wal_w w') = Some x"
proof -
  have "bufio_Write (wal_path w) (encode_record r) (wal_w w) d = ((0, Some x), wal_w w, d)"
    using assms(2) by (simp add: bufio_Write_def bufio_Write_loop.simps [of "wal_path w"] Let_def)
  then have "WAL_Append w r d = (Some (EWrap ''wal: write failed'' x), w, d)"
    by (simp add: WAL_Append_def)
  with assms show ?thesis by blast
qed

text \<open>
  One append from a healthy state. Success: the record is complete and every byte durable.
  Failure: the record landed in part (the log is then broken) or whole but unacknowledged.
\<close>

lemma wrote_content:
  "wrote p s d d' \<Longrightarrow> fs_get d p = Some f \<Longrightarrow> fs_get d' p = Some (f\<lparr>content := content f @ s\<rparr>)"
  by (simp add: wrote_def)

lemma wal_state_partial:
  assumes f: "fs_get d (wal_path w) = Some f" "content f = concat (map encode_record rs)"
      "durable f = n" "n \<le> length (content f)" "\<forall>r \<in> set rs. rec_fits r" and fits: "rec_fits r"
    and s: "wrote (wal_path w) s d d'" "s @ t = encode_record r"
    and w': "wal_path w' = wal_path w" "bw_err (wal_w w') \<noteq> None"
  shows "wal_state w' d' rs n \<or> wal_state w' d' (rs @ [r]) n"
proof (cases "t = []")
  case True
  have "wal_state w' d' (rs @ [r]) n"
    unfolding wal_state_def
    using wrote_content [OF s(1) f(1)] f fits s(2) w' True
    by (auto intro!: exI [of _ r] exI [of _ 0] simp: length_encode_record)
  then show ?thesis ..
next
  case False
  then have "length s < length (encode_record r)" "s = take (length s) (encode_record r)"
    using s(2) by (auto simp flip: s(2))
  with wrote_content [OF s(1) f(1)] f fits w' have "wal_state w' d' rs n"
    unfolding wal_state_def by auto
  then show ?thesis ..
qed

lemma wal_state_synced:
  assumes f: "fs_get d (wal_path w) = Some f" "content f = concat (map encode_record rs)"
      "n \<le> durable f" "durable f \<le> length (content f)" "\<forall>r \<in> set rs. rec_fits r"
    and w: "bw_err (wal_w w) = None" "bw_buf (wal_w w) = []"
    and sy: "file_Sync (wal_path w) d = (e, d')"
  shows "\<exists>m \<ge> n. wal_state w d' rs m \<and> (e = None \<longrightarrow> m = length (concat (map encode_record rs)))"
proof -
  let ?f = "f\<lparr>durable := if fst (tick d) = Done \<or> takes_effect (fst (tick d)) then length (content f) else durable f\<rparr>"
  have "fs_get d' (wal_path w) = Some ?f" using file_Sync_effect(1) [OF sy, of "wal_path w"] f(1) by simp
  then have "wal_state w d' rs (durable ?f)" using f w by (auto simp: wal_state_def)
  moreover have "n \<le> durable ?f" "e = None \<Longrightarrow> durable ?f = length (concat (map encode_record rs))"
    using f file_Sync_effect(3) [OF sy] by auto
  ultimately show ?thesis by blast
qed

lemma wal_state_Append:
  assumes st: "wal_state w d rs n" and ok: "bw_err (wal_w w) = None" and fits: "rec_fits r"
    and app: "WAL_Append w r d = (e, w', d')"
  shows "\<exists>m \<ge> n. (wal_state w' d' (rs @ [r]) m \<or> e \<noteq> None \<and> wal_state w' d' rs m) \<and>
    (e = None \<longrightarrow> m = length (concat (map encode_record (rs @ [r]))) \<and> bw_err (wal_w w') = None)"
proof -
  let ?p = "wal_path w"
  obtain f where f: "fs_get d ?p = Some f" "content f = concat (map encode_record rs)"
      "durable f = n" "n \<le> length (content f)" "\<forall>r \<in> set rs. rec_fits r" and b0: "bw_buf (wal_w w) = []"
    using st ok by (auto simp: wal_state_def)
  obtain k e1 b1 d1 where w1: "bufio_Write ?p (encode_record r) (wal_w w) d = ((k, e1), b1, d1)"
    by (metis prod.exhaust)
  obtain s1 t1 where s1: "wrote ?p s1 d d1" "bw_err b1 = e1" "s1 @ t1 = encode_record r"
      "e1 = None \<Longrightarrow> s1 @ bw_buf b1 = encode_record r"
    using bufio_Write_wrote [OF w1] b0 by (metis append_Nil)
  obtain e2 b2 d2 where w2: "bufio_Flush ?p b1 d1 = (e2, b2, d2)" by (metis prod.exhaust)
  obtain s2 where s2: "wrote ?p s2 d1 d2" "bw_err b2 = e2" "s2 @ bw_buf b2 = bw_buf b1"
      "e2 = None \<Longrightarrow> bw_buf b2 = []"
    using bufio_Flush_wrote [OF w2] by metis
  obtain e3 d3 where w3: "file_Sync ?p d2 = (e3, d3)" by (metis prod.exhaust)
  consider (wfail) x where "e1 = Some x" | (ffail) x where "e1 = None" "e2 = Some x"
    | (synced) "e1 = None" "e2 = None" by fastforce
  then show ?thesis
  proof cases
    case wfail
    then have "e = Some (EWrap ''wal: write failed'' x)" "w' = w\<lparr>wal_w := b1\<rparr>" "d' = d1"
      using app w1 by (auto simp: WAL_Append_def)
    with wal_state_partial [OF f fits s1(1,3), of w'] wfail s1(2) show ?thesis by auto
  next
    case ffail
    then have e: "e = Some (EWrap ''wal: flush failed'' x)" "w' = w\<lparr>wal_w := b2\<rparr>" "d' = d2"
      using app w1 w2 by (auto simp: WAL_Append_def)
    have "(s1 @ s2) @ bw_buf b2 = encode_record r" using s1(4) [OF ffail(1)] s2(3) by simp
    from wal_state_partial [OF f fits wrote_trans [OF s1(1) s2(1)] this, of w'] e ffail s2(2)
    show ?thesis by auto
  next
    case synced
    let ?w = "w\<lparr>wal_w := b2\<rparr>"
    have w': "w' = ?w" "d' = d3" "e = None \<longleftrightarrow> e3 = None"
      using app w1 w2 w3 synced by (auto simp: WAL_Append_def Let_def split: option.splits)
    have all: "s1 @ s2 = encode_record r" using s1(4) s2(3,4) synced by (metis append_Nil2)
    have "fs_get d2 ?p = Some (f\<lparr>content := content f @ encode_record r\<rparr>)"
      using wrote_content [OF wrote_trans [OF s1(1) s2(1)] f(1)] all by simp
    with wal_state_synced [of d2 ?w _ "rs @ [r]" n e3 d3] w3 f fits synced s2(2,4) show ?thesis
      unfolding w' by auto
  qed
qed

section \<open>Durability\<close>

text \<open>A sequence of appends; the first component lists the acknowledged ones.\<close>

fun append_all :: "WAL \<Rightarrow> WalRecord list \<Rightarrow> fs \<Rightarrow> WalRecord list \<times> WAL \<times> fs" where
  "append_all w [] d = ([], w, d)"
| "append_all w (r # rs) d =
     (let (e, w1, d1) = WAL_Append w r d; (acked, w2, d2) = append_all w1 rs d1
      in (if e = None then r # acked else acked, w2, d2))"

text \<open>The acknowledged records lie within the durable prefix.\<close>

definition acked_durable :: "WalRecord list \<Rightarrow> WalRecord list \<Rightarrow> nat \<Rightarrow> bool" where
  "acked_durable acked rs n \<longleftrightarrow>
     (\<exists>j \<le> length rs. subseq acked (take j rs) \<and> length (concat (map encode_record (take j rs))) \<le> n)"

lemma acked_durable_mono: "acked_durable acked rs n \<Longrightarrow> n \<le> m \<Longrightarrow> acked_durable acked (rs @ xs) m"
  unfolding acked_durable_def by (elim exE, rule_tac x = j in exI) auto

lemma WAL_Append_path: "WAL_Append w r d = (e, w', d') \<Longrightarrow> wal_path w' = wal_path w"
  by (auto simp: WAL_Append_def Let_def split: prod.splits option.splits)

lemma append_all_state:
  assumes "wal_state w d dn n" and "acked_durable acked0 dn n" and "\<forall>r \<in> set rs. rec_fits r"
    and "append_all w rs d = (acked, w', d')"
  shows "\<exists>dn' n'. wal_state w' d' dn' n' \<and> acked_durable (acked0 @ acked) dn' n' \<and>
           (\<exists>new. dn' = dn @ new \<and> subseq new rs) \<and> wal_path w' = wal_path w"
  using assms
proof (induction rs arbitrary: w d "dn" n acked0 acked)
  case Nil
  then show ?case by (intro exI [of _ dn] exI [of _ n]) auto
next
  case (Cons r rs)
  obtain e w1 d1 where a: "WAL_Append w r d = (e, w1, d1)" by (metis prod.exhaust)
  obtain ack where rest: "append_all w1 rs d1 = (ack, w', d')"
    and out: "acked = (if e = None then r # ack else ack)"
    using Cons.prems(4) a by (auto split: prod.splits)
  have fits: "rec_fits r" "\<forall>r \<in> set rs. rec_fits r" using Cons.prems(3) by auto
  have mono: "acked_durable acked0 dn m" "acked_durable acked0 (dn @ [r]) m" if "n \<le> m" for m
    using acked_durable_mono [OF Cons.prems(2) that, of "[]"] acked_durable_mono [OF Cons.prems(2) that]
    by simp_all
  have path: "wal_path w1 = wal_path w" by (rule WAL_Append_path [OF a])
  show ?case
  proof (cases "bw_err (wal_w w)")
    case None
    obtain m where m: "n \<le> m" "wal_state w1 d1 (dn @ [r]) m \<or> e \<noteq> None \<and> wal_state w1 d1 dn m"
      "e = None \<longrightarrow> m = length (concat (map encode_record (dn @ [r])))"
      using wal_state_Append [OF Cons.prems(1) None fits(1) a] by blast
    show ?thesis
    proof (cases "e = None")
      case True
      have "acked_durable (acked0 @ [r]) (dn @ [r]) m"
        using Cons.prems(2) m(3) True unfolding acked_durable_def
        by (intro exI [of _ "length (dn @ [r])"]) (auto intro: subseq_order.trans list_emb_append_mono)
      from Cons.IH [OF _ this fits(2) rest] m(2) True show ?thesis
        by (auto simp: out path)
    next
      case False
      with m(2) show ?thesis
        using Cons.IH [OF _ mono(1) [OF m(1)] fits(2) rest] Cons.IH [OF _ mono(2) [OF m(1)] fits(2) rest]
        by (fastforce simp: out path)
    qed
  next
    case (Some x)
    then have "e \<noteq> None" "wal_state w1 d1 dn n"
      using wal_state_broken [OF Cons.prems(1) Some, of r] a by auto
    with Cons.IH [OF _ mono(1) [OF order_refl] fits(2) rest] show ?thesis
      by (fastforce simp: out path)
  qed
qed

lemma parse_records_take:
  assumes "\<forall>r \<in> set rs. rec_fits r" and "\<And>m. parse_records (take m tail) = []"
  shows "\<exists>i \<le> length rs. parse_records (take m (concat (map encode_record rs) @ tail)) = take i rs \<and>
           (\<forall>j \<le> length rs. length (concat (map encode_record (take j rs))) \<le> m \<longrightarrow> j \<le> i)"
  using assms(1)
proof (induction rs arbitrary: m)
  case Nil
  then show ?case using assms(2) by simp
next
  case (Cons r rs)
  let ?l = "length (encode_record r)"
  have fits: "rec_fits r" using Cons.prems by simp
  show ?case
  proof (cases "?l \<le> m")
    case True
    obtain i where i: "i \<le> length rs"
      "parse_records (take (m - ?l) (concat (map encode_record rs) @ tail)) = take i rs"
      "\<forall>j \<le> length rs. length (concat (map encode_record (take j rs))) \<le> m - ?l \<longrightarrow> j \<le> i"
      using Cons by (metis list.set_intros(2))
    have "j \<le> Suc i" if "j \<le> length (r # rs)" "length (concat (map encode_record (take j (r # rs)))) \<le> m" for j
      using that i(3) by (cases j) auto
    with i True fits show ?thesis
      by (intro exI [of _ "Suc i"]) (auto simp: parse_records_Cons)
  next
    case False
    have "j \<le> 0" if "length (concat (map encode_record (take j (r # rs)))) \<le> m" for j
      using that False by (cases j) auto
    with False fits show ?thesis
      by (intro exI [of _ 0]) (auto simp: parse_records_torn)
  qed
qed

lemma wal_state_reboot:
  assumes "wal_state w d dn n" and "acked_durable acked dn n"
  shows "\<exists>f L. fs_get (reboot keep sch d) (wal_path w) = Some f \<and>
           L = parse_records (content f) \<and> subseq acked L \<and> subseq L dn"
proof -
  obtain f tail where f: "fs_get d (wal_path w) = Some f" "content f = concat (map encode_record dn) @ tail"
      "durable f = n" "\<forall>r \<in> set dn. rec_fits r"
    and tail: "tail = [] \<or> (\<exists>r k. rec_fits r \<and> k < length (encode_record r) \<and> tail = take k (encode_record r))"
    using assms(1) unfolding wal_state_def by (metis (no_types, lifting))
  have torn: "parse_records (take m tail) = []" for m
    using tail parse_records_torn by (auto simp: parse_records_Nil take_take min_def)
  let ?m = "max n (keep (wal_path w))"
  obtain i where i: "parse_records (take ?m (content f)) = take i dn"
    "\<forall>j \<le> length dn. length (concat (map encode_record (take j dn))) \<le> ?m \<longrightarrow> j \<le> i"
    using parse_records_take [OF f(4) torn, of ?m] unfolding f(2) by blast
  obtain j where "j \<le> length dn" "subseq acked (take j dn)"
    "length (concat (map encode_record (take j dn))) \<le> n"
    using assms(2) by (auto simp: acked_durable_def)
  moreover from this i(2) have "j \<le> i" by (meson le_max_iff_disj)
  then have "subseq (take j dn) (take i dn)"
    by (metis min.absorb1 prefix_imp_subseq take_is_prefix take_take)
  ultimately have "subseq acked (take i dn)" using subseq_order.trans by blast
  moreover have "subseq (take i dn) dn" by (rule prefix_imp_subseq [OF take_is_prefix])
  ultimately show ?thesis
    using f i by (simp add: fs_get_reboot Let_def)
qed

subsection \<open>Properties\<close>

definition log_to :: "WalRecord \<Rightarrow> WalRecord list \<Rightarrow> error option \<times> WalRecord list" where
  "log_to r acc = (None, acc @ [r])"

lemma deliver_log_to: "deliver log_to rs acc = (None, acc @ rs)"
  by (induction rs arbitrary: acc) (simp_all add: log_to_def)

text \<open>
  C19: durability of the log. Starting from an empty log, run any sequence of appends of records whose
  keys and values are at most 512 MiB, under any fault schedule, then restart the machine with any
  amount of the unsynced data lost but the name of the log kept: the records that replay delivers
  contain every acknowledged record, in order, and nothing but records that were passed to Append.
  Append does not enforce the limit, and a record above it is lost with all that follow it.
\<close>

theorem wal_acknowledged_survive:
  assumes "fs_get d p = Some \<lparr>content = [], durable = 0\<rparr>" and "\<forall>r \<in> set rs. rec_fits r"
    and "append_all \<lparr>wal_w = bufio_NewWriter, wal_path = p\<rparr> rs d = (acked, w', d')"
  shows "\<exists>f L. fs_get (reboot keep sch d') p = Some f \<and>
           Replay_loop log_to \<lparr>hdata = content f, hbad = (\<lambda>_. False)\<rparr> 0 [] = (None, L) \<and>
           subseq acked L \<and> subseq L rs"
proof -
  have st: "wal_state \<lparr>wal_w = bufio_NewWriter, wal_path = p\<rparr> d [] 0"
    using assms(1) by (simp add: wal_state_def bufio_NewWriter_def)
  have "acked_durable [] [] 0" by (simp add: acked_durable_def)
  from append_all_state [OF st this assms(2,3)] obtain dn n where
    "wal_state w' d' dn n" "acked_durable acked dn n" "subseq dn rs" "wal_path w' = p" by auto
  with wal_state_reboot [of w' d' dn n acked keep sch] show ?thesis
    using Replay_loop_deliver [of "\<lparr>hdata = c, hbad = (\<lambda>_. False)\<rparr>" log_to 0 "[]" for c]
    by (fastforce simp: readable_def deliver_log_to intro: subseq_order.trans)
qed

theorem wal_acknowledged_survive_witness:
  "\<exists>acked w' d' f L.
     append_all \<lparr>wal_w = bufio_NewWriter, wal_path = ''w''\<rparr>
       [\<lparr>wr_type = RecordPut, wr_key = [1], wr_value = [2, 3], wr_seq = 7\<rparr>]
       \<lparr>files = [(''w'', \<lparr>content = [], durable = 0\<rparr>)], sched = (\<lambda>_. Done), clock = 0, down = False,
         unreadable = (\<lambda>_ _. False)\<rparr> = (acked, w', d') \<and>
     fs_get (reboot (\<lambda>_. 0) (\<lambda>_. Done) d') ''w'' = Some f \<and>
     Replay_loop log_to \<lparr>hdata = content f, hbad = (\<lambda>_. False)\<rparr> 0 [] = (None, L) \<and> subseq acked L"
proof -
  let ?r = "\<lparr>wr_type = RecordPut, wr_key = [1], wr_value = [2, 3], wr_seq = 7\<rparr>"
  let ?d = "\<lparr>files = [(''w'', \<lparr>content = [], durable = 0\<rparr>)], sched = (\<lambda>_. Done), clock = 0, down = False,
         unreadable = (\<lambda>_ _. False)\<rparr>"
  obtain acked w' d' where r: "append_all \<lparr>wal_w = bufio_NewWriter, wal_path = ''w''\<rparr> [?r] ?d = (acked, w', d')"
    by (metis prod.exhaust)
  have d: "fs_get ?d ''w'' = Some \<lparr>content = [], durable = 0\<rparr>" by (simp add: fs_get_def)
  have "\<forall>r \<in> set [?r]. rec_fits r" by (simp add: rec_fits_def maxReasonableLen_def)
  from wal_acknowledged_survive [OF d this r] r show ?thesis by blast
qed

text \<open>
  C20: on a readable file the replay loop refines the format specification: it delivers exactly
  the longest prefix of complete records with valid checksums, one after the other, until the
  file ends, a record does not parse, or the callback fails.
\<close>

theorem wal_replay_refines_format:
  assumes "\<forall>i. \<not> hbad h i"
  shows "Replay_loop fn h 0 st = deliver fn (parse_records (hdata h)) st"
  using Replay_loop_deliver [of h fn 0 st] assms by (simp add: readable_def)

theorem wal_replay_refines_format_witness:
  "Replay_loop log_to
     \<lparr>hdata = encode_record \<lparr>wr_type = RecordPut, wr_key = [1], wr_value = [2, 3], wr_seq = 7\<rparr> @
        take 5 (encode_record \<lparr>wr_type = RecordDelete, wr_key = [1], wr_value = [], wr_seq = 8\<rparr>), hbad = (\<lambda>_. False)\<rparr> 0 [] =
   (None, [\<lparr>wr_type = RecordPut, wr_key = [1], wr_value = [2, 3], wr_seq = 7\<rparr>])"
proof -
  let ?r = "\<lparr>wr_type = RecordPut, wr_key = [1], wr_value = [2, 3], wr_seq = 7\<rparr>" and ?t = "\<lparr>wr_type = RecordDelete, wr_key = [1], wr_value = [], wr_seq = 8\<rparr>"
  let ?h = "\<lparr>hdata = encode_record ?r @ take 5 (encode_record ?t), hbad = (\<lambda>_. False)\<rparr>"
  have "rec_fits ?r" "rec_fits ?t" by (simp_all add: rec_fits_def maxReasonableLen_def)
  moreover have "5 < length (encode_record ?t)" by (simp add: encode_record_def encode_body_def Let_def)
  ultimately have "parse_records (hdata ?h) = [?r]"
    using parse_records_concat [of "[?r]" "take 5 (encode_record ?t)"] parse_records_torn [of ?t 5] by simp
  with wal_replay_refines_format [of ?h log_to "[]"] show ?thesis by (simp add: deliver_log_to)
qed

text \<open>
  A log of complete records with a torn record behind it replays to exactly the complete
  records, without an error.
\<close>

lemma wal_torn_tail_discarded:
  assumes "\<forall>r \<in> set rs. rec_fits r" and "rec_fits r" and "k < length (encode_record r)"
    and "hdata h = concat (map encode_record rs) @ take k (encode_record r)" and "\<forall>i. \<not> hbad h i"
  shows "Replay_loop log_to h 0 [] = (None, rs)"
  using assms Replay_loop_deliver [of h log_to 0 "[]"]
  by (simp add: readable_def deliver_log_to parse_records_concat parse_records_torn)

lemma WAL_Append_no_faults:
  assumes "no_faults d" and "bw_err (wal_w w) = None" and "bw_buf (wal_w w) = []"
    and "fs_get d (wal_path w) = Some f"
  shows "\<exists>w' d'. WAL_Append w r d = (None, w', d') \<and> bw_err (wal_w w') = None \<and> bw_buf (wal_w w') = [] \<and>
           wal_path w' = wal_path w \<and> no_faults d' \<and>
           fs_get d' (wal_path w) = Some \<lparr>content = content f @ encode_record r,
             durable = length (content f @ encode_record r)\<rparr>"
proof -
  let ?p = "wal_path w"
  obtain b1 d1 s1 where w1: "bufio_Write ?p (encode_record r) (wal_w w) d = ((length (encode_record r), None), b1, d1)"
    "wrote ?p s1 d d1" "s1 @ bw_buf b1 = encode_record r" "bw_err b1 = None" "no_faults d1"
    using bufio_Write_no_faults [OF assms(1,2), of ?p "encode_record r"] assms(3) by (metis append_Nil)
  obtain d2 where w2: "bufio_Flush ?p b1 d1 = (None, b1\<lparr>bw_buf := []\<rparr>, d2)" "wrote ?p (bw_buf b1) d1 d2" "no_faults d2"
    by (rule bufio_Flush_no_faults [OF w1(5,4)])
  have "fs_get d2 ?p = Some (f\<lparr>content := content f @ encode_record r\<rparr>)"
    using wrote_content [OF wrote_trans [OF w1(2) w2(2)] assms(4)] w1(3) by simp
  then have "file_Sync ?p d2 = (None, fs_set ?p (f\<lparr>content := content f @ encode_record r,
      durable := length (content f @ encode_record r)\<rparr>) (d2\<lparr>clock := clock d2 + 1\<rparr>))"
    using w2(3) by (simp add: file_Sync_def tick_no_faults)
  then show ?thesis
    using w1 w2 by (simp add: WAL_Append_def Let_def)
qed

text \<open>
  when no call fails, Append on a healthy log returns without an error, and the file then
  ends with the complete record and is durable to its last byte.
\<close>

theorem wal_append_succeeds:
  assumes "no_faults d" and "bw_err (wal_w w) = None" and "bw_buf (wal_w w) = []"
    and "fs_get d (wal_path w) = Some f"
  shows "\<exists>w' d'. WAL_Append w r d = (None, w', d') \<and> bw_err (wal_w w') = None \<and> bw_buf (wal_w w') = [] \<and>
           wal_path w' = wal_path w \<and> no_faults d' \<and>
           fs_get d' (wal_path w) = Some \<lparr>content = content f @ encode_record r,
             durable = length (content f @ encode_record r)\<rparr>"
  by (rule WAL_Append_no_faults [OF assms])

theorem wal_append_succeeds_witness:
  "\<exists>w' d'. WAL_Append \<lparr>wal_w = bufio_NewWriter, wal_path = ''w''\<rparr>
       \<lparr>wr_type = RecordPut, wr_key = [1], wr_value = [2], wr_seq = 1\<rparr>
       \<lparr>files = [(''w'', \<lparr>content = [], durable = 0\<rparr>)], sched = (\<lambda>_. Done), clock = 0, down = False,
         unreadable = (\<lambda>_ _. False)\<rparr> = (None, w', d')"
  using wal_append_succeeds
    [of "\<lparr>files = [(''w'', \<lparr>content = [], durable = 0\<rparr>)], sched = (\<lambda>_. Done), clock = 0, down = False,
         unreadable = (\<lambda>_ _. False)\<rparr>" "\<lparr>wal_w = bufio_NewWriter, wal_path = ''w''\<rparr>"
        "\<lparr>content = [], durable = 0\<rparr>" "\<lparr>wr_type = RecordPut, wr_key = [1], wr_value = [2], wr_seq = 1\<rparr>"]
  by (auto simp: no_faults_def bufio_NewWriter_def fs_get_def)

text \<open>
  C21: Append accepts a value above 512 MiB, but Replay takes its header for a corrupt one and
  stops there: the record and every record behind it are lost on recovery, without an error,
  although each of them was acknowledged.
\<close>

theorem wal_oversized_value_lost:
  assumes "length (wr_key r) \<le> maxReasonableLen"
    and "maxReasonableLen < length (wr_value r)" and "length (wr_value r) < 2 ^ 32"
    and "hdata h = encode_record r @ rest" and "\<forall>i. \<not> hbad h i"
  shows "Replay_loop log_to h 0 [] = (None, [])"
proof -
  have "unat (of_nat (length (wr_value r)) :: u32) = length (wr_value r)"
    using assms(3) by (simp add: unat_of_nat)
  then have "parse_record (encode_record r @ rest) = None"
    using assms(2) encode_record_layout(5) [of r rest] by (simp add: parse_record_def Let_def)
  then show ?thesis
    using assms(4,5) Replay_loop_deliver [of h log_to 0 "[]"]
    by (simp add: readable_def parse_records.simps [of "encode_record r @ rest"])
qed

theorem wal_oversized_value_lost_witness:
  "Replay_loop log_to
     \<lparr>hdata = encode_record \<lparr>wr_type = RecordPut, wr_key = [1], wr_value = replicate 536870913 0, wr_seq = 1\<rparr> @
              encode_record \<lparr>wr_type = RecordPut, wr_key = [2], wr_value = [5], wr_seq = 2\<rparr>,
      hbad = (\<lambda>_. False)\<rparr> 0 [] = (None, [])"
  using wal_oversized_value_lost
    [of "\<lparr>wr_type = RecordPut, wr_key = [1], wr_value = replicate 536870913 0, wr_seq = 1\<rparr>"
        "\<lparr>hdata = encode_record \<lparr>wr_type = RecordPut, wr_key = [1], wr_value = replicate 536870913 0, wr_seq = 1\<rparr> @
              encode_record \<lparr>wr_type = RecordPut, wr_key = [2], wr_value = [5], wr_seq = 2\<rparr>,
      hbad = (\<lambda>_. False)\<rparr>"
        "encode_record \<lparr>wr_type = RecordPut, wr_key = [2], wr_value = [5], wr_seq = 2\<rparr>"]
  by (simp add: maxReasonableLen_def)

text \<open>
  C22: a read error inside the body of a record ends the replay like a torn write does: no error is
  returned and nothing from that record on is delivered.
\<close>

theorem wal_body_read_error_swallowed:
  assumes "hdata h = encode_record r @ rest" and "rec_fits r"
    and "\<forall>i < 21. \<not> hbad h i" and "21 \<le> j" and "j < length (encode_record r)" and "hbad h j"
  shows "Replay_loop fn h 0 st = (None, st)"
proof -
  have hd: "ReadFull h headerSize 0 = Inr (slice 0 21 (encode_record r @ rest))"
    using assms(1,3) by (auto simp: ReadFull_def headerSize_def Let_def list_ex_iff length_encode_record)
  have fields: "slice i k (slice 0 21 (encode_record r @ rest)) = slice i k (encode_record r @ rest)" if "k \<le> 21" for i k
    using slice_slice [of k 21 0 i "encode_record r @ rest"] that by simp
  have lens: "unat (of_nat (length (wr_key r)) :: u32) = length (wr_key r)"
      "unat (of_nat (length (wr_value r)) :: u32) = length (wr_value r)"
    using assms(2) by (simp_all add: rec_fits_def unat_len32)
  have "ReadFull h (length (wr_key r) + length (wr_value r)) headerSize = Inl EIO"
    using assms(1,4,5,6)
    by (auto simp: ReadFull_def headerSize_def Let_def list_ex_iff length_encode_record)
  then show ?thesis
    using encode_record_layout(4,5) [of r rest] lens assms(1,2)
    by (subst Replay_loop.simps) (simp add: hd fields Let_def rec_fits_def)
qed

theorem wal_body_read_error_swallowed_witness:
  "Replay_loop log_to
     \<lparr>hdata = encode_record \<lparr>wr_type = RecordPut, wr_key = [1], wr_value = [2], wr_seq = 1\<rparr>,
      hbad = (\<lambda>i. i = 22)\<rparr> 0 [] = (None, [])"
  using wal_body_read_error_swallowed
    [of "\<lparr>hdata = encode_record \<lparr>wr_type = RecordPut, wr_key = [1], wr_value = [2], wr_seq = 1\<rparr>,
          hbad = (\<lambda>i. i = 22)\<rparr>" "\<lparr>wr_type = RecordPut, wr_key = [1], wr_value = [2], wr_seq = 1\<rparr>" "[]" 22
        log_to "[]"]
  by (simp add: rec_fits_def maxReasonableLen_def length_encode_record)

end
