(* ===== verification/Bloom.thy ===== *)
theory Bloom
  imports Complex_Main GoHash
begin

text \<open>
  \<^verbatim>\<open>src/bloom/bloom.go\<close>: the Bloom filter of a table. All counters and hashes are 32-bit words,
  so \<^verbatim>\<open>(numBits+7)/8\<close> and \<^verbatim>\<open>h1 + i*h2\<close> wrap as in the source; a division by zero or an index out
  of range is the error \<open>EPanic\<close>. The floating point expressions of \<^verbatim>\<open>NewForEntries\<close> (lines 35
  and 36) are the argument \<open>mk\<close>: \<open>mk n p = (m, k)\<close> are the integers the two formulas yield for
  \<open>n\<close> entries at a false positive rate of \<open>p\<close>. What the store relies on, that a key that
  was added is never reported absent, holds for any sizing.
\<close>

section \<open>Definitions\<close>

record Filter =
  bits :: bytes
  numBits :: u32
  numHash :: u32

definition NewForEntries :: "(int \<Rightarrow> rat \<Rightarrow> int \<times> int) \<Rightarrow> int \<Rightarrow> rat \<Rightarrow> Filter" where
  "NewForEntries mk n fp =
     (let n1 = (if n < 1 then 1 else n);
          fp1 = (if fp \<le> 0 \<or> fp \<ge> 1 then 1 / 100 else fp);
          m = fst (mk n1 fp1);
          k = (if snd (mk n1 fp1) < 1 then 1 else snd (mk n1 fp1));
          nb = (if (of_int m :: u32) = 0 then 1 else of_int m)
      in \<lparr>bits = replicate (unat ((nb + 7) div 8)) 0, numBits = nb, numHash = of_int k\<rparr>)"

definition hashes :: "bytes \<Rightarrow> u32 \<times> u32" where
  "hashes k = (fnv_New32a k, fnv_New32 k)"

definition bit_index :: "Filter \<Rightarrow> u32 \<Rightarrow> u32 \<Rightarrow> u32 \<Rightarrow> u32" where
  "bit_index f h1 h2 i = (h1 + i * h2) mod numBits f"

definition bit_mask :: "u32 \<Rightarrow> byte" where
  "bit_mask idx = push_bit (unat (idx mod 8)) 1"

text \<open>\<open>n\<close> counts the iterations left: the loop variable is \<open>numHash f - n\<close>.\<close>

fun add_loop :: "Filter \<Rightarrow> u32 \<Rightarrow> u32 \<Rightarrow> nat \<Rightarrow> u32 \<Rightarrow> error + Filter" where
  "add_loop f h1 h2 0 i = Inr f"
| "add_loop f h1 h2 (Suc n) i =
     (if numBits f = 0 then Inl EPanic
      else let idx = bit_index f h1 h2 i; p = unat (idx div 8)
           in if p \<ge> length (bits f) then Inl EPanic
              else add_loop (f\<lparr>bits := (bits f)[p := (bits f ! p) OR bit_mask idx]\<rparr>) h1 h2 n (i + 1))"

definition Filter_Add :: "Filter \<Rightarrow> bytes \<Rightarrow> error + Filter" where
  "Filter_Add f k = (let (h1, h2) = hashes k in add_loop f h1 h2 (unat (numHash f)) 0)"

fun may_loop :: "Filter \<Rightarrow> u32 \<Rightarrow> u32 \<Rightarrow> nat \<Rightarrow> u32 \<Rightarrow> error + bool" where
  "may_loop f h1 h2 0 i = Inr True"
| "may_loop f h1 h2 (Suc n) i =
     (if numBits f = 0 then Inl EPanic
      else let idx = bit_index f h1 h2 i; p = unat (idx div 8)
           in if p \<ge> length (bits f) then Inl EPanic
              else if (bits f ! p) AND bit_mask idx = 0 then Inr False
              else may_loop f h1 h2 n (i + 1))"

definition MayContain :: "Filter \<Rightarrow> bytes \<Rightarrow> error + bool" where
  "MayContain f k = (let (h1, h2) = hashes k in may_loop f h1 h2 (unat (numHash f)) 0)"

definition Filter_Encode :: "Filter \<Rightarrow> bytes" where
  "Filter_Encode f = PutUint32 (numBits f) @ PutUint32 (numHash f) @ bits f"

definition Filter_Decode :: "bytes \<Rightarrow> error + Filter" where
  "Filter_Decode buf =
     (if length buf < 8 then Inl (EMsg ''bloom: buffer too short'')
      else let nb = Uint32 (slice 0 4 buf); nh = Uint32 (slice 4 8 buf);
               expected = unat ((nb + 7) div 8)
           in if length buf - 8 \<noteq> expected then Inl (EMsg ''bloom: corrupt filter'')
              else Inr \<lparr>bits = drop 8 buf, numBits = nb, numHash = nh\<rparr>)"

definition filter_wf :: "Filter \<Rightarrow> bool" where
  "filter_wf f \<longleftrightarrow> numBits f \<noteq> 0 \<and> unat (numBits f) + 7 < 2 ^ 32 \<and>
     length (bits f) = (unat (numBits f) + 7) div 8"

text \<open>All bits probed for the two hashes are set.\<close>

definition probe_set :: "Filter \<Rightarrow> u32 \<Rightarrow> bool" where
  "probe_set f idx \<longleftrightarrow> (bits f ! unat (idx div 8)) AND bit_mask idx \<noteq> 0"

section \<open>Lemmas\<close>

lemma filter_wf_index:
  assumes "filter_wf f"
  shows "unat (bit_index f h1 h2 i div 8) < length (bits f)"
proof -
  have "unat (bit_index f h1 h2 i) < unat (numBits f)"
    using assms by (simp add: filter_wf_def bit_index_def unat_mod unat_gt_0)
  then have "unat (bit_index f h1 h2 i) div 8 < (unat (numBits f) + 7) div 8" by simp
  then show ?thesis using assms by (simp add: filter_wf_def unat_div)
qed

lemma filter_wf_update: "filter_wf f \<Longrightarrow> filter_wf (f\<lparr>bits := (bits f)[p := b]\<rparr>)"
  by (simp add: filter_wf_def)

lemma add_loop_Suc:
  assumes "filter_wf f"
  shows "add_loop f h1 h2 (Suc n) i =
    (let idx = bit_index f h1 h2 i; p = unat (idx div 8)
     in add_loop (f\<lparr>bits := (bits f)[p := (bits f ! p) OR bit_mask idx]\<rparr>) h1 h2 n (i + 1))"
  using filter_wf_index [OF assms, of h1 h2 i] assms by (simp add: Let_def filter_wf_def)

declare add_loop.simps(2) [simp del]

lemma add_loop_ok:
  "filter_wf f \<Longrightarrow> \<exists>f'. add_loop f h1 h2 n i = Inr f' \<and> filter_wf f' \<and>
     numBits f' = numBits f \<and> numHash f' = numHash f"
proof (induction n arbitrary: f i)
  case (Suc n)
  then show ?case
    unfolding add_loop_Suc [OF Suc.prems] Let_def
    using Suc.IH [OF filter_wf_update [OF Suc.prems]] by simp
qed simp

lemma bit_mask_nonzero: "bit_mask idx \<noteq> 0"
proof -
  have "unat (idx mod 8) < 8" by (simp add: unat_mod)
  then have "bit (bit_mask idx) (unat (idx mod 8))" by (simp add: bit_mask_def bit_simps)
  then show ?thesis by auto
qed

lemma probe_set_update:
  assumes "unat (idx div 8) < length (bits f)"
  shows "probe_set (f\<lparr>bits := (bits f)[unat (idx div 8) := (bits f ! unat (idx div 8)) OR bit_mask idx]\<rparr>) idx"
    and "probe_set f idx' \<Longrightarrow>
      probe_set (f\<lparr>bits := (bits f)[unat (idx div 8) := (bits f ! unat (idx div 8)) OR bit_mask idx]\<rparr>) idx'"
proof -
  show "probe_set (f\<lparr>bits := (bits f)[unat (idx div 8) := (bits f ! unat (idx div 8)) OR bit_mask idx]\<rparr>) idx"
    using assms bit_mask_nonzero by (simp add: probe_set_def bit.conj_disj_distrib2)
  have mono: "(x OR y) AND m \<noteq> 0" if "x AND m \<noteq> 0" for x y m :: byte
    using that by (auto simp: bit_eq_iff bit_simps)
  assume "probe_set f idx'"
  then show "probe_set (f\<lparr>bits := (bits f)[unat (idx div 8) := (bits f ! unat (idx div 8)) OR bit_mask idx]\<rparr>) idx'"
    using assms mono by (cases "unat (idx' div 8) = unat (idx div 8)") (auto simp: probe_set_def)
qed

lemma add_loop_keeps:
  "filter_wf f \<Longrightarrow> probe_set f idx \<Longrightarrow> add_loop f h1 h2 n i = Inr f' \<Longrightarrow> probe_set f' idx"
proof (induction n arbitrary: f i)
  case (Suc n)
  let ?j = "bit_index f h1 h2 i"
  let ?f = "f\<lparr>bits := (bits f)[unat (?j div 8) := (bits f ! unat (?j div 8)) OR bit_mask ?j]\<rparr>"
  have lt: "unat (?j div 8) < length (bits f)" by (rule filter_wf_index [OF Suc.prems(1)])
  have "add_loop ?f h1 h2 n (i + 1) = Inr f'"
    using Suc.prems(3) by (simp add: add_loop_Suc [OF Suc.prems(1)] Let_def)
  then show ?case
    using Suc.IH [OF filter_wf_update [OF Suc.prems(1)]] probe_set_update(2) [OF lt Suc.prems(2)] by blast
qed simp

lemma bit_index_bits [simp]: "bit_index (f\<lparr>bits := b\<rparr>) h1 h2 i = bit_index f h1 h2 i"
  by (simp add: bit_index_def)

lemma add_loop_sets:
  "filter_wf f \<Longrightarrow> add_loop f h1 h2 n i = Inr f' \<Longrightarrow> m < n \<Longrightarrow> probe_set f' (bit_index f h1 h2 (i + of_nat m))"
proof (induction n arbitrary: f i m)
  case (Suc n)
  let ?j = "bit_index f h1 h2 i"
  let ?f = "f\<lparr>bits := (bits f)[unat (?j div 8) := (bits f ! unat (?j div 8)) OR bit_mask ?j]\<rparr>"
  have lt: "unat (?j div 8) < length (bits f)" by (rule filter_wf_index [OF Suc.prems(1)])
  have wf: "filter_wf ?f" by (rule filter_wf_update [OF Suc.prems(1)])
  have rec: "add_loop ?f h1 h2 n (i + 1) = Inr f'"
    using Suc.prems(2) by (simp add: add_loop_Suc [OF Suc.prems(1)] Let_def)
  show ?case
  proof (cases m)
    case 0
    then show ?thesis using add_loop_keeps [OF wf probe_set_update(1) [OF lt] rec] by simp
  next
    case (Suc m')
    then show ?thesis
      using Suc.IH [OF wf rec, of m'] Suc.prems(3) by (simp add: add.assoc)
  qed
qed simp

lemma may_loop_True:
  "filter_wf f \<Longrightarrow> (\<And>m. m < n \<Longrightarrow> probe_set f (bit_index f h1 h2 (i + of_nat m))) \<Longrightarrow>
   may_loop f h1 h2 n i = Inr True"
proof (induction n arbitrary: i)
  case (Suc n)
  have "probe_set f (bit_index f h1 h2 i)" using Suc.prems(2) [of 0] by simp
  moreover have "may_loop f h1 h2 n (i + 1) = Inr True"
    using Suc.prems(2) [of "Suc _"] by (intro Suc.IH [OF Suc.prems(1)]) (simp add: add.assoc)
  ultimately show ?case
    using filter_wf_index [OF Suc.prems(1), of h1 h2 i] Suc.prems(1)
    by (simp add: Let_def probe_set_def filter_wf_def)
qed simp

lemma may_loop_cases:
  "filter_wf f \<Longrightarrow> (may_loop f h1 h2 n i = Inr True \<and> (\<forall>m < n. probe_set f (bit_index f h1 h2 (i + of_nat m)))) \<or>
     may_loop f h1 h2 n i = Inr False"
proof (induction n arbitrary: i)
  case (Suc n)
  have lt: "unat (bit_index f h1 h2 i div 8) < length (bits f)" by (rule filter_wf_index [OF Suc.prems])
  have step: "may_loop f h1 h2 (Suc n) i =
      (if probe_set f (bit_index f h1 h2 i) then may_loop f h1 h2 n (i + 1) else Inr False)"
    using lt Suc.prems by (simp add: Let_def probe_set_def filter_wf_def)
  have "\<forall>m < Suc n. probe_set f (bit_index f h1 h2 (i + of_nat m))"
    if "probe_set f (bit_index f h1 h2 i)" "\<forall>m < n. probe_set f (bit_index f h1 h2 (i + 1 + of_nat m))"
    using that by (auto simp: less_Suc_eq_0_disj add.assoc)
  with Suc.IH [OF Suc.prems, of "i + 1"] show ?case unfolding step by auto
qed simp

section \<open>No false negatives\<close>

lemma Filter_Add_ok:
  "filter_wf f \<Longrightarrow> \<exists>f'. Filter_Add f k = Inr f' \<and> filter_wf f' \<and>
     numBits f' = numBits f \<and> numHash f' = numHash f"
  using add_loop_ok by (simp add: Filter_Add_def hashes_def)

lemma MayContain_Add_same:
  assumes "filter_wf f" and "Filter_Add f k = Inr f'"
  shows "MayContain f' k = Inr True"
proof -
  obtain g where g: "Filter_Add f k = Inr g" "filter_wf g" "numBits g = numBits f" "numHash g = numHash f"
    using Filter_Add_ok [OF assms(1)] by blast
  have "bit_index f' h1 h2 i = bit_index f h1 h2 i" for h1 h2 i
    using g assms(2) by (simp add: bit_index_def)
  with g assms show ?thesis
    using add_loop_sets [OF assms(1), of "fnv_New32a k" "fnv_New32 k" "unat (numHash f)" 0 f']
    by (auto simp: MayContain_def hashes_def Filter_Add_def intro!: may_loop_True)
qed

lemma MayContain_Add_other:
  assumes "filter_wf f" and "Filter_Add f k = Inr f'" and "MayContain f k' = Inr True"
  shows "MayContain f' k' = Inr True"
proof -
  obtain g where g: "Filter_Add f k = Inr g" "filter_wf g" "numBits g = numBits f" "numHash g = numHash f"
    using Filter_Add_ok [OF assms(1)] by blast
  have idx: "bit_index f' h1 h2 i = bit_index f h1 h2 i" for h1 h2 i
    using g assms(2) by (simp add: bit_index_def)
  have "\<forall>m < unat (numHash f). probe_set f (bit_index f (fnv_New32a k') (fnv_New32 k') (of_nat m))"
    using may_loop_cases [OF assms(1), of "fnv_New32a k'" "fnv_New32 k'" "unat (numHash f)" 0] assms(3)
    by (auto simp: MayContain_def hashes_def)
  then show ?thesis
    using g assms add_loop_keeps [OF assms(1)] idx
    by (auto simp: MayContain_def hashes_def Filter_Add_def intro!: may_loop_True)
qed

lemma MayContain_total: "filter_wf f \<Longrightarrow> \<exists>b. MayContain f k = Inr b"
  using may_loop_cases [of f "fnv_New32a k" "fnv_New32 k" "unat (numHash f)" 0] by (auto simp: MayContain_def hashes_def)

lemma NewForEntries_wf:
  assumes "0 \<le> fst (mk (max 1 n) (1 / 100))" and "fst (mk (max 1 n) (1 / 100)) + 7 < 2 ^ 32"
  shows "filter_wf (NewForEntries mk n (1 / 100))"
proof -
  define m where "m = fst (mk (max 1 n) (1 / 100))"
  define nb :: u32 where "nb = (if (of_int m :: u32) = 0 then 1 else of_int m)"
  have "unat (of_int m :: u32) = nat m"
    using assms by (simp add: m_def [symmetric] unat_eq_nat_uint uint_word_of_int_eq take_bit_int_eq_self)
  then have nb: "nb \<noteq> 0" "unat nb + 7 < 2 ^ 32"
    using assms by (auto simp: nb_def m_def [symmetric])
  then have "unat (nb + 7) = unat nb + 7" by (subst unat_add_lem [THEN iffD1]) simp_all
  then have "unat ((nb + 7) div 8) = (unat nb + 7) div 8" by (simp add: unat_div)
  moreover have "(if n < 1 then 1 else n) = max 1 n" by auto
  then have "bits (NewForEntries mk n (1 / 100)) = replicate (unat ((nb + 7) div 8)) 0"
      "numBits (NewForEntries mk n (1 / 100)) = nb"
    by (simp_all add: NewForEntries_def Let_def m_def nb_def)
  ultimately show ?thesis
    using nb by (simp add: filter_wf_def)
qed

section \<open>Encoding\<close>

lemma Filter_Decode_Encode:
  assumes "filter_wf f"
  shows "Filter_Decode (Filter_Encode f) = Inr f"
proof -
  have "unat (numBits f + 7) = unat (numBits f) + 7"
    using assms by (subst unat_add_lem [THEN iffD1]) (simp_all add: filter_wf_def)
  then have "unat ((numBits f + 7) div 8) = length (bits f)"
    using assms by (simp add: filter_wf_def unat_div)
  then show ?thesis
    by (simp add: Filter_Decode_def Filter_Encode_def slice_def)
qed

section \<open>Properties\<close>

fun add_keys :: "Filter \<Rightarrow> bytes list \<Rightarrow> error + Filter" where
  "add_keys f [] = Inr f"
| "add_keys f (k # ks) = (case Filter_Add f k of Inl e \<Rightarrow> Inl e | Inr f' \<Rightarrow> add_keys f' ks)"

lemma add_keys_ok:
  "filter_wf f \<Longrightarrow> \<exists>f'. add_keys f ks = Inr f' \<and> filter_wf f' \<and>
     (\<forall>k. k \<in> set ks \<or> MayContain f k = Inr True \<longrightarrow> MayContain f' k = Inr True)"
proof (induction ks arbitrary: f)
  case (Cons k ks)
  obtain f1 where f1: "Filter_Add f k = Inr f1" "filter_wf f1" using Filter_Add_ok [OF Cons.prems] by blast
  obtain f' where f': "add_keys f1 ks = Inr f'" "filter_wf f'"
    "\<forall>x. x \<in> set ks \<or> MayContain f1 x = Inr True \<longrightarrow> MayContain f' x = Inr True"
    using Cons.IH [OF f1(2)] by blast
  have "MayContain f1 x = Inr True" if "x = k \<or> MayContain f x = Inr True" for x
    using that MayContain_Add_same [OF Cons.prems f1(1)] MayContain_Add_other [OF Cons.prems f1(1)] by blast
  with f1 f' show ?case by auto
qed simp

text \<open>
  C25: no false negatives. For any sizing whose bit count fits, a filter into which a list of keys
  was added, and which was then written out and read back, reports every one of these keys as
  possibly present.
\<close>

theorem bloom_no_false_negatives:
  assumes "0 \<le> fst (mk (max 1 n) (1 / 100))" and "fst (mk (max 1 n) (1 / 100)) + 7 < 2 ^ 32"
  shows "\<exists>f. add_keys (NewForEntries mk n (1 / 100)) ks = Inr f \<and> Filter_Decode (Filter_Encode f) = Inr f \<and>
    (\<forall>k \<in> set ks. MayContain f k = Inr True)"
  using add_keys_ok [OF NewForEntries_wf [of mk n, OF assms], of ks] Filter_Decode_Encode by blast

theorem bloom_no_false_negatives_witness:
  "\<exists>f. add_keys (NewForEntries (\<lambda>n p. (10 * n, 7)) 2 (1 / 100)) [[1, 2], [3]] = Inr f \<and> MayContain f [3] = Inr True"
  using bloom_no_false_negatives [of "\<lambda>n p. (10 * n, 7)" 2 "[[1, 2], [3]]"] by auto

text \<open>
  Decode accepts an encoded filter that claims zero bits and at least one hash, and every
  lookup in such a filter then divides by zero: MayContain panics for every key.
\<close>

lemma bloom_decoded_zero_bits_panics:
  "\<exists>f. Filter_Decode [0, 0, 0, 0, 1, 0, 0, 0] = Inr f \<and> (\<forall>k. MayContain f k = Inl EPanic)"
proof -
  have "Filter_Decode [0, 0, 0, 0, 1, 0, 0, 0] = Inr \<lparr>bits = [], numBits = 0, numHash = 1\<rparr>"
    by code_simp
  moreover have "MayContain \<lparr>bits = [], numBits = 0, numHash = 1\<rparr> k = Inl EPanic" for k
    by (simp add: MayContain_def hashes_def One_nat_def [symmetric] del: One_nat_def)
      (simp add: One_nat_def)
  ultimately show ?thesis by blast
qed

end
