(* ===== verification/Sstable.thy ===== *)
theory Sstable
  imports Memtable Bloom GoFS
begin

text \<open>
  \<^verbatim>\<open>src/sstable/sstable.go\<close>: the writer of sorted string tables. \<open>Write\<close> is the whole call over the
  faulty file system: the order check, the data block with per-value compression, the index, the
  Bloom filter, the footer, flush, fsync, close and rename, with the clean-up of every error
  path. \<open>table_image\<close> is the specification of the file format as one expression. DEFLATE and the
  floating point sizing of the filter are the fields of \<open>env\<close>; what the code relies on is \<open>env_ok\<close>:
  a stream that was compressed decompresses to the same bytes, and the number of filter bits fits.
\<close>

section \<open>Definitions\<close>

record env =
  deflate :: "bytes \<Rightarrow> bytes option"
  inflate :: "bytes \<Rightarrow> error + bytes"
  sizing :: "int \<Rightarrow> rat \<Rightarrow> int \<times> int"

definition magicNumber :: u32 where
  "magicNumber = 0x4B565353"

definition compressedFlag :: byte where
  "compressedFlag = 0x80"

definition dataHeaderSize :: nat where
  "dataHeaderSize = 17"

definition footerSize :: nat where
  "footerSize = 44"

record Record =
  rec_key :: bytes
  rec_value :: bytes
  rec_type :: ValueType
  rec_seq :: u64

record indexEntry =
  ie_key :: bytes
  ie_offset :: u64

definition compressValue :: "env \<Rightarrow> bytes \<Rightarrow> bytes \<times> bool" where
  "compressValue env v =
     (if length v = 0 then (v, False)
      else case deflate env v of
             None \<Rightarrow> (v, False)
           | Some buf \<Rightarrow> if length buf \<ge> length v then (v, False) else (buf, True))"

definition decompressValue :: "env \<Rightarrow> bytes \<Rightarrow> error + bytes" where
  "decompressValue env v =
     (case inflate env v of Inl e \<Rightarrow> Inl (EWrap ''decompressing value'' e) | Inr out \<Rightarrow> Inr out)"

text \<open>The writer's local variables: the buffered writer, the offset, the filter, the index, the
  previous key and sequence number, and the file system.\<close>

record wstate =
  ws_w :: bufw
  ws_off :: u64
  ws_filter :: Filter
  ws_index :: "indexEntry list"
  ws_prev :: "(bytes \<times> u64) option"
  ws_fs :: fs

definition write_chunk :: "string \<Rightarrow> bytes \<Rightarrow> wstate \<Rightarrow> error option \<times> wstate" where
  "write_chunk tmp b st =
     (let ((n, e), w, d) = bufio_Write tmp b (ws_w st) (ws_fs st)
      in (case e of None \<Rightarrow> None | Some x \<Rightarrow> Some (EWrap ''sstable: write failed'' x),
          st\<lparr>ws_w := w, ws_fs := d, ws_off := ws_off st + of_nat n\<rparr>))"

text \<open>\<^verbatim>\<open>if err := a(); err != nil { return abort(err) }\<close> followed by \<open>b\<close>\<close>

definition andThen ::
  "(wstate \<Rightarrow> error option \<times> wstate) \<Rightarrow> (wstate \<Rightarrow> error option \<times> wstate) \<Rightarrow> wstate \<Rightarrow> error option \<times> wstate" where
  "andThen a b st = (case a st of (Some e, st1) \<Rightarrow> (Some e, st1) | (None, st1) \<Rightarrow> b st1)"

definition stored_value :: "env \<Rightarrow> bool \<Rightarrow> Record \<Rightarrow> byte \<times> bytes" where
  "stored_value env compress r =
     (if compress \<and> rec_type r = TypeValue
      then case compressValue env (rec_value r) of
             (cv, ok) \<Rightarrow> if ok then (rec_type r OR compressedFlag, cv) else (rec_type r, rec_value r)
      else (rec_type r, rec_value r))"

definition data_header :: "bytes \<Rightarrow> u64 \<Rightarrow> byte \<Rightarrow> bytes \<Rightarrow> bytes" where
  "data_header key seq typ sv =
     PutUint32 (of_nat (length key)) @ PutUint64 seq @ [typ] @ PutUint32 (of_nat (length sv))"

text \<open>
  \<open>None\<close> is the nil \<^verbatim>\<open>prevKey\<close> before the first record. A key is not nil: Put, Delete and the
  records read back from logs and tables all have keys that are not empty.
\<close>

definition out_of_order :: "(bytes \<times> u64) option \<Rightarrow> Record \<Rightarrow> bool" where
  "out_of_order prev r \<longleftrightarrow>
     (case prev of
        None \<Rightarrow> False
      | Some (prevKey, prevSeq) \<Rightarrow>
          let c = bytes_Compare prevKey (rec_key r) in c > 0 \<or> (c = 0 \<and> rec_seq r \<ge> prevSeq))"

definition write_record :: "env \<Rightarrow> string \<Rightarrow> bool \<Rightarrow> Record \<Rightarrow> wstate \<Rightarrow> error option \<times> wstate" where
  "write_record env tmp compress r st =
     (if out_of_order (ws_prev st) r then (Some (EMsg ''sstable: records passed to Write must be sorted''), st)
      else case Filter_Add (ws_filter st) (rec_key r) of
             Inl e \<Rightarrow> (Some e, st)
           | Inr f \<Rightarrow>
               let (typ, sv) = stored_value env compress r
               in andThen (write_chunk tmp (data_header (rec_key r) (rec_seq r) typ sv))
                    (andThen (write_chunk tmp (rec_key r))
                      (if length sv > 0 then write_chunk tmp sv else Pair None))
                    (st\<lparr>ws_prev := Some (rec_key r, rec_seq r), ws_filter := f,
                        ws_index := ws_index st @ [\<lparr>ie_key = rec_key r, ie_offset = ws_off st\<rparr>]\<rparr>))"

fun write_records :: "env \<Rightarrow> string \<Rightarrow> bool \<Rightarrow> Record list \<Rightarrow> wstate \<Rightarrow> error option \<times> wstate" where
  "write_records env tmp compress [] = Pair None"
| "write_records env tmp compress (r # rs) =
     andThen (write_record env tmp compress r) (write_records env tmp compress rs)"

definition encode_index :: "indexEntry \<Rightarrow> bytes" where
  "encode_index ie = PutUint32 (of_nat (length (ie_key ie))) @ ie_key ie @ PutUint64 (ie_offset ie)"

fun write_index :: "string \<Rightarrow> indexEntry list \<Rightarrow> wstate \<Rightarrow> error option \<times> wstate" where
  "write_index tmp [] = Pair None"
| "write_index tmp (ie # ies) = andThen (write_chunk tmp (encode_index ie)) (write_index tmp ies)"

definition footer_bytes :: "u64 \<Rightarrow> u64 \<Rightarrow> u64 \<Rightarrow> u64 \<Rightarrow> u64 \<Rightarrow> bytes" where
  "footer_bytes indexOffset indexLen bloomOffset bloomLen numEntries =
     PutUint64 indexOffset @ PutUint64 indexLen @ PutUint64 bloomOffset @ PutUint64 bloomLen @
     PutUint64 numEntries @ PutUint32 magicNumber"

text \<open>The blocks behind the data block: index, filter, footer.\<close>

definition write_tail :: "string \<Rightarrow> nat \<Rightarrow> wstate \<Rightarrow> error option \<times> wstate" where
  "write_tail tmp n st =
     (let indexOffset = ws_off st
      in andThen (write_index tmp (ws_index st))
           (\<lambda>st1. let indexLen = ws_off st1 - indexOffset; bloomOffset = ws_off st1
                  in andThen (write_chunk tmp (Filter_Encode (ws_filter st1)))
                       (\<lambda>st2. let bloomLen = ws_off st2 - bloomOffset
                              in write_chunk tmp
                                   (footer_bytes indexOffset indexLen bloomOffset bloomLen (of_nat n)) st2) st1) st)"

definition flush_tmp :: "string \<Rightarrow> wstate \<Rightarrow> error option \<times> wstate" where
  "flush_tmp tmp st =
     (let (e, w, d) = bufio_Flush tmp (ws_w st) (ws_fs st)
      in (case e of None \<Rightarrow> None | Some x \<Rightarrow> Some (EWrap ''sstable: flush'' x), st\<lparr>ws_w := w, ws_fs := d\<rparr>))"

definition sync_tmp :: "string \<Rightarrow> wstate \<Rightarrow> error option \<times> wstate" where
  "sync_tmp tmp st =
     (let (e, d) = file_Sync tmp (ws_fs st)
      in (case e of None \<Rightarrow> None | Some x \<Rightarrow> Some (EWrap ''sstable: fsync'' x), st\<lparr>ws_fs := d\<rparr>))"

text \<open>\<^verbatim>\<open>abort\<close>: close and remove the temporary file. A panic runs no clean-up.\<close>

definition abort :: "string \<Rightarrow> error \<Rightarrow> fs \<Rightarrow> error option \<times> fs" where
  "abort tmp cause d =
     (if cause = EPanic then (Some cause, d)
      else let (e1, d1) = file_Close d; (e2, d2) = os_Remove tmp d1 in (Some cause, d2))"

definition Write :: "env \<Rightarrow> string \<Rightarrow> Record list \<Rightarrow> bool \<Rightarrow> fs \<Rightarrow> error option \<times> fs" where
  "Write env path records compress d =
     (if length records = 0 then (Some (EMsg ''sstable: refusing to write an empty table''), d)
      else
        let tmp = path @ ''.tmp''; (e, d1) = os_Create tmp d
        in case e of
             Some x \<Rightarrow> (Some (EWrap ''sstable: create'' x), d1)
           | None \<Rightarrow>
               let (e1, st) =
                     andThen (write_records env tmp compress records)
                       (andThen (write_tail tmp (length records))
                         (andThen (flush_tmp tmp) (sync_tmp tmp)))
                       \<lparr>ws_w = bufio_NewWriter, ws_off = 0,
                        ws_filter = NewForEntries (sizing env) (int (length records)) (1 / 100),
                        ws_index = [], ws_prev = None, ws_fs = d1\<rparr>
               in case e1 of
                    Some x \<Rightarrow> abort tmp x (ws_fs st)
                  | None \<Rightarrow>
                      let (e2, d2) = file_Close (ws_fs st)
                      in case e2 of
                           Some x \<Rightarrow> (Some (EWrap ''sstable: close'' x), snd (os_Remove tmp d2))
                         | None \<Rightarrow>
                             let (e3, d3) = os_Rename tmp path d2
                             in case e3 of
                                  Some x \<Rightarrow> (Some (EWrap ''sstable: rename'' x), snd (os_Remove tmp d3))
                                | None \<Rightarrow> (None, d3))"

section \<open>The file format\<close>

definition encode_data :: "env \<Rightarrow> bool \<Rightarrow> Record \<Rightarrow> bytes" where
  "encode_data env compress r =
     (let (typ, sv) = stored_value env compress r
      in data_header (rec_key r) (rec_seq r) typ sv @ rec_key r @ sv)"

definition data_block :: "env \<Rightarrow> bool \<Rightarrow> Record list \<Rightarrow> bytes" where
  "data_block env compress rs = concat (map (encode_data env compress) rs)"

fun index_entries :: "env \<Rightarrow> bool \<Rightarrow> u64 \<Rightarrow> Record list \<Rightarrow> indexEntry list" where
  "index_entries env compress off [] = []"
| "index_entries env compress off (r # rs) =
     \<lparr>ie_key = rec_key r, ie_offset = off\<rparr> #
     index_entries env compress (off + of_nat (length (encode_data env compress r))) rs"

definition index_block :: "env \<Rightarrow> bool \<Rightarrow> Record list \<Rightarrow> bytes" where
  "index_block env compress rs = concat (map encode_index (index_entries env compress 0 rs))"

definition table_image :: "env \<Rightarrow> bool \<Rightarrow> Record list \<Rightarrow> Filter \<Rightarrow> bytes" where
  "table_image env compress rs f =
     (let dat = data_block env compress rs; idx = index_block env compress rs; blm = Filter_Encode f
      in dat @ idx @ blm @
         footer_bytes (of_nat (length dat)) (of_nat (length idx)) (of_nat (length dat + length idx))
           (of_nat (length blm)) (of_nat (length rs)))"

text \<open>The filter of a table: all keys added to a fresh filter of the size for their number.\<close>

definition table_filter :: "env \<Rightarrow> Record list \<Rightarrow> error + Filter" where
  "table_filter env rs = add_keys (NewForEntries (sizing env) (int (length rs)) (1 / 100)) (map rec_key rs)"

definition rec_before :: "Record \<Rightarrow> Record \<Rightarrow> bool" where
  "rec_before a b \<longleftrightarrow> rec_key a < rec_key b \<or> (rec_key a = rec_key b \<and> rec_seq b < rec_seq a)"

fun in_order :: "(bytes \<times> u64) option \<Rightarrow> Record list \<Rightarrow> bool" where
  "in_order prev [] = True"
| "in_order prev (r # rs) = (\<not> out_of_order prev r \<and> in_order (Some (rec_key r, rec_seq r)) rs)"

definition env_ok :: "env \<Rightarrow> bool" where
  "env_ok env \<longleftrightarrow> (\<forall>v c. deflate env v = Some c \<longrightarrow> inflate env c = Inr v) \<and>
     (\<forall>n. 0 < n \<and> n \<le> 2 ^ 28 \<longrightarrow> 0 \<le> fst (sizing env n (1 / 100)) \<and> fst (sizing env n (1 / 100)) + 7 < 2 ^ 32)"

definition rec_ok :: "Record \<Rightarrow> bool" where
  "rec_ok r \<longleftrightarrow> rec_key r \<noteq> [] \<and> length (rec_key r) < 2 ^ 32 \<and> length (rec_value r) < 2 ^ 32 \<and>
     rec_type r \<in> {TypeValue, TypeTombstone}"

definition recs_ok :: "Record list \<Rightarrow> bool" where
  "recs_ok rs \<longleftrightarrow> rs \<noteq> [] \<and> (\<forall>r \<in> set rs. rec_ok r) \<and> sorted_wrt rec_before rs \<and> length rs \<le> 2 ^ 28"

section \<open>Lemmas\<close>

definition emitted :: "string \<Rightarrow> bytes \<Rightarrow> wstate \<Rightarrow> wstate \<Rightarrow> bool" where
  "emitted tmp b st st' \<longleftrightarrow>
     (\<exists>s. wrote tmp s (ws_fs st) (ws_fs st') \<and> s @ bw_buf (ws_w st') = bw_buf (ws_w st) @ b) \<and>
     ws_off st' = ws_off st + of_nat (length b) \<and> bw_err (ws_w st') = None"

definition only_tmp :: "string \<Rightarrow> wstate \<Rightarrow> wstate \<Rightarrow> bool" where
  "only_tmp tmp st st' \<longleftrightarrow> (\<exists>s. wrote tmp s (ws_fs st) (ws_fs st'))"

lemma emitted_trans: "emitted tmp a s t \<Longrightarrow> emitted tmp b t u \<Longrightarrow> emitted tmp (a @ b) s u"
proof -
  assume a: "emitted tmp a s t" and b: "emitted tmp b t u"
  obtain x where x: "wrote tmp x (ws_fs s) (ws_fs t)" "x @ bw_buf (ws_w t) = bw_buf (ws_w s) @ a"
    using a unfolding emitted_def by blast
  obtain y where y: "wrote tmp y (ws_fs t) (ws_fs u)" "y @ bw_buf (ws_w u) = bw_buf (ws_w t) @ b"
    using b unfolding emitted_def by blast
  have "(x @ y) @ bw_buf (ws_w u) = bw_buf (ws_w s) @ a @ b" using x(2) y(2) by (metis append.assoc)
  moreover have "ws_off u = ws_off s + of_nat (length (a @ b))" "bw_err (ws_w u) = None"
    using a b by (simp_all add: emitted_def)
  ultimately show ?thesis using wrote_trans [OF x(1) y(1)] unfolding emitted_def by blast
qed

lemma emitted_refl: "bw_err (ws_w st) = None \<Longrightarrow> emitted tmp [] st st"
  by (auto simp: emitted_def wrote_Nil intro: exI [of _ "[]"])

lemma only_tmp_trans: "only_tmp tmp s t \<Longrightarrow> only_tmp tmp t u \<Longrightarrow> only_tmp tmp s u"
  unfolding only_tmp_def using wrote_trans by blast

lemma only_tmp_refl: "only_tmp tmp st st"
  using wrote_Nil by (auto simp: only_tmp_def)

text \<open>
  What a step of the writer does: it appends to the temporary file only; on success it has
  emitted the bytes \<open>b\<close> and kept the other variables; without faults it succeeds.
\<close>

definition step_emits :: "string \<Rightarrow> bytes \<Rightarrow> (wstate \<Rightarrow> error option \<times> wstate) \<Rightarrow> wstate \<Rightarrow> bool" where
  "step_emits tmp b m st \<longleftrightarrow>
     (case m st of (e, st') \<Rightarrow>
        only_tmp tmp st st' \<and>
        (e = None \<longrightarrow> emitted tmp b st st' \<and> ws_filter st' = ws_filter st \<and>
           ws_index st' = ws_index st \<and> ws_prev st' = ws_prev st) \<and>
        (no_faults (ws_fs st) \<and> bw_err (ws_w st) = None \<longrightarrow> e = None \<and> no_faults (ws_fs st')) \<and>
        e \<noteq> Some EPanic)"

lemma step_emitsD:
  assumes "step_emits tmp b m st" and "m st = (e, st')"
  shows "only_tmp tmp st st'"
    and "e = None \<Longrightarrow> emitted tmp b st st' \<and> ws_filter st' = ws_filter st \<and> ws_index st' = ws_index st \<and> ws_prev st' = ws_prev st"
    and "no_faults (ws_fs st) \<Longrightarrow> bw_err (ws_w st) = None \<Longrightarrow> e = None \<and> no_faults (ws_fs st')"
    and "e \<noteq> Some EPanic"
  using assms by (auto simp: step_emits_def)

lemma write_chunk_emits: "step_emits tmp b (write_chunk tmp b) st"
proof -
  obtain n e w d where r: "bufio_Write tmp b (ws_w st) (ws_fs st) = ((n, e), w, d)" by (metis prod.exhaust)
  obtain s t where s: "wrote tmp s (ws_fs st) d" "bw_err w = e"
    "e = None \<Longrightarrow> s @ bw_buf w = bw_buf (ws_w st) @ b \<and> n = length b"
    by (rule bufio_Write_wrote [OF r]) auto
  have nf: "e = None \<and> no_faults d" if "no_faults (ws_fs st)" "bw_err (ws_w st) = None"
    using bufio_Write_no_faults [OF that, of tmp b] r by (metis Pair_inject)
  show ?thesis
    using r s nf by (auto simp: step_emits_def write_chunk_def only_tmp_def emitted_def split: option.split)
qed

lemma Pair_None_emits: "bw_err (ws_w st) = None \<Longrightarrow> step_emits tmp [] (Pair None) st"
  by (simp add: step_emits_def only_tmp_refl emitted_refl)

lemma andThen_emits:
  assumes "step_emits tmp a m st" and "\<And>st'. m st = (None, st') \<Longrightarrow> step_emits tmp b k st'"
  shows "step_emits tmp (a @ b) (andThen m k) st"
proof -
  obtain e st1 where m: "m st = (e, st1)" by fastforce
  note M = step_emitsD [OF assms(1) m]
  show ?thesis
  proof (cases e)
    case None
    obtain e2 st2 where k: "k st1 = (e2, st2)" by fastforce
    note K = step_emitsD [OF assms(2) k]
    have "bw_err (ws_w st1) = None" using M(2) None by (simp add: emitted_def)
    with M K m k None show ?thesis
      by (auto simp: step_emits_def andThen_def intro: only_tmp_trans emitted_trans)
  next
    case (Some x)
    with M m show ?thesis by (auto simp: step_emits_def andThen_def)
  qed
qed

lemma step_emits_cong: "m st = m' st \<Longrightarrow> step_emits tmp b m st = step_emits tmp b m' st"
  by (simp add: step_emits_def)

lemma write_index_emits:
  "bw_err (ws_w st) = None \<Longrightarrow> step_emits tmp (concat (map encode_index ies)) (write_index tmp ies) st"
proof (induction ies arbitrary: st)
  case Nil
  then show ?case by (simp add: Pair_None_emits)
next
  case (Cons ie ies)
  have "step_emits tmp (concat (map encode_index ies)) (write_index tmp ies) st'"
    if "write_chunk tmp (encode_index ie) st = (None, st')" for st'
    using step_emitsD(2) [OF write_chunk_emits that] Cons.IH [of st'] by (simp add: emitted_def)
  then show ?case
    using andThen_emits [OF write_chunk_emits, of tmp "encode_index ie" st _ "write_index tmp ies"] by simp
qed

lemma write_tail_emits:
  assumes "bw_err (ws_w st) = None" and "ws_off st = of_nat off"
    and "idx = concat (map encode_index (ws_index st))" and "blm = Filter_Encode (ws_filter st)"
  shows "step_emits tmp
    (idx @ blm @ footer_bytes (of_nat off) (of_nat (length idx)) (of_nat (off + length idx)) (of_nat (length blm)) (of_nat n))
    (write_tail tmp n) st"
proof -
  let ?foot = "footer_bytes (of_nat off) (of_nat (length idx)) (of_nat (off + length idx)) (of_nat (length blm)) (of_nat n)"
  define k2 where "k2 o1 st2 = write_chunk tmp (footer_bytes (ws_off st) (o1 - ws_off st) o1 (ws_off st2 - o1) (of_nat n)) st2" for o1 st2
  define k1 where "k1 st1 = andThen (write_chunk tmp (Filter_Encode (ws_filter st1))) (k2 (ws_off st1)) st1" for st1
  have tail: "write_tail tmp n st = andThen (write_index tmp (ws_index st)) k1 st"
    by (simp add: write_tail_def Let_def k1_def [abs_def] k2_def [abs_def])
  have "step_emits tmp (idx @ blm @ ?foot) (andThen (write_index tmp (ws_index st)) k1) st"
  proof (rule andThen_emits)
    show "step_emits tmp idx (write_index tmp (ws_index st)) st"
      using write_index_emits [OF assms(1)] assms(3) by simp
    fix st1
    assume "write_index tmp (ws_index st) st = (None, st1)"
    from step_emitsD(2) [OF write_index_emits [OF assms(1)] this] assms
    have o1: "ws_off st1 = of_nat (off + length idx)" and f1: "Filter_Encode (ws_filter st1) = blm"
      by (auto simp: emitted_def)
    have "step_emits tmp ?foot (k2 (ws_off st1)) st2" if "write_chunk tmp blm st1 = (None, st2)" for st2
    proof -
      have "ws_off st2 = ws_off st1 + of_nat (length blm)"
        using step_emitsD(2) [OF write_chunk_emits that] by (simp add: emitted_def)
      then have "k2 (ws_off st1) st2 = write_chunk tmp ?foot st2" using o1 assms(2) by (simp add: k2_def)
      with write_chunk_emits show ?thesis using step_emits_cong by metis
    qed
    then have "step_emits tmp (blm @ ?foot) (andThen (write_chunk tmp blm) (k2 (ws_off st1))) st1"
      by (rule andThen_emits [OF write_chunk_emits])
    then show "step_emits tmp (blm @ ?foot) k1 st1"
      using f1 step_emits_cong [of k1 st1 "andThen (write_chunk tmp blm) (k2 (ws_off st1))"] by (simp add: k1_def)
  qed
  with tail show ?thesis using step_emits_cong by metis
qed

lemma write_record_body_emits:
  assumes "stored_value env compress r = (typ, sv)" and "bw_err (ws_w st) = None"
  shows "step_emits tmp (encode_data env compress r)
    (andThen (write_chunk tmp (data_header (rec_key r) (rec_seq r) typ sv))
      (andThen (write_chunk tmp (rec_key r)) (if length sv > 0 then write_chunk tmp sv else Pair None))) st"
proof -
  have sv: "step_emits tmp sv (if length sv > 0 then write_chunk tmp sv else Pair None) st'"
    if "bw_err (ws_w st') = None" for st'
    using that by (simp add: write_chunk_emits Pair_None_emits)
  have "step_emits tmp (rec_key r @ sv)
      (andThen (write_chunk tmp (rec_key r)) (if length sv > 0 then write_chunk tmp sv else Pair None)) st'" for st'
    using step_emitsD(2) [OF write_chunk_emits]
    by (intro andThen_emits write_chunk_emits sv) (simp add: emitted_def)
  then show ?thesis
    using assms(1) by (simp add: encode_data_def andThen_emits [OF write_chunk_emits])
qed

text \<open>A successful or failed pass over the records.\<close>

definition records_done :: "env \<Rightarrow> string \<Rightarrow> bool \<Rightarrow> Record list \<Rightarrow> wstate \<Rightarrow> wstate \<Rightarrow> bool" where
  "records_done env tmp compress rs st st' \<longleftrightarrow>
     emitted tmp (data_block env compress rs) st st' \<and>
     ws_index st' = ws_index st @ index_entries env compress (ws_off st) rs \<and>
     add_keys (ws_filter st) (map rec_key rs) = Inr (ws_filter st')"

lemma write_record_cases:
  assumes "write_record env tmp compress r st = (e, st')" and "bw_err (ws_w st) = None"
  obtains (refused) "out_of_order (ws_prev st) r" "st' = st"
      "e = Some (EMsg ''sstable: records passed to Write must be sorted'')"
  | (panic) x where "Filter_Add (ws_filter st) (rec_key r) = Inl x" "st' = st" "e = Some x"
  | (body) f st1 where "\<not> out_of_order (ws_prev st) r" "Filter_Add (ws_filter st) (rec_key r) = Inr f"
      "st1 = st\<lparr>ws_prev := Some (rec_key r, rec_seq r), ws_filter := f,
                 ws_index := ws_index st @ [\<lparr>ie_key = rec_key r, ie_offset = ws_off st\<rparr>]\<rparr>"
      "step_emits tmp (encode_data env compress r) (\<lambda>_. (e, st')) st1"
proof (cases "out_of_order (ws_prev st) r")
  case True
  with assms(1) show thesis by (auto simp: write_record_def intro: refused)
next
  case ord: False
  show thesis
  proof (cases "Filter_Add (ws_filter st) (rec_key r)")
    case (Inl x)
    with assms(1) ord show thesis by (auto simp: write_record_def intro: panic)
  next
    case (Inr f)
    obtain ty sv where sv: "stored_value env compress r = (ty, sv)" by fastforce
    let ?st = "st\<lparr>ws_prev := Some (rec_key r, rec_seq r), ws_filter := f,
                   ws_index := ws_index st @ [\<lparr>ie_key = rec_key r, ie_offset = ws_off st\<rparr>]\<rparr>"
    let ?m = "andThen (write_chunk tmp (data_header (rec_key r) (rec_seq r) ty sv))
                (andThen (write_chunk tmp (rec_key r)) (if length sv > 0 then write_chunk tmp sv else Pair None))"
    have "?m ?st = (e, st')" using assms(1) ord Inr sv by (simp add: write_record_def)
    then have "step_emits tmp (encode_data env compress r) (\<lambda>_. (e, st')) ?st"
      using write_record_body_emits [OF sv, of ?st tmp] assms(2) step_emits_cong [of ?m ?st "\<lambda>_. (e, st')"] by simp
    with ord Inr show thesis by (rule body [OF _ _ refl])
  qed
qed

text \<open>
  The contract of a pass over some records: only the temporary file changes; success means that
  exactly these records are in order and have been added to data block, index and filter; records
  in order are written when nothing fails; and there is no panic.
\<close>

definition pass_ok :: "env \<Rightarrow> string \<Rightarrow> bool \<Rightarrow> Record list \<Rightarrow> wstate \<Rightarrow> error option \<Rightarrow> wstate \<Rightarrow> bool" where
  "pass_ok env tmp compress rs st e st' \<longleftrightarrow>
     only_tmp tmp st st' \<and>
     (e = None \<longrightarrow> records_done env tmp compress rs st st' \<and> in_order (ws_prev st) rs) \<and>
     (filter_wf (ws_filter st) \<longrightarrow> e \<noteq> Some EPanic \<and> (e = None \<longrightarrow> filter_wf (ws_filter st')) \<and>
        (no_faults (ws_fs st) \<and> in_order (ws_prev st) rs \<longrightarrow> e = None \<and> no_faults (ws_fs st')))"

lemma write_record_ok:
  assumes "write_record env tmp compress r st = (e, st')" and "bw_err (ws_w st) = None"
  shows "pass_ok env tmp compress [r] st e st' \<and> (e = None \<longrightarrow> ws_prev st' = Some (rec_key r, rec_seq r))"
  using assms
proof (cases rule: write_record_cases)
  case refused
  then show ?thesis by (simp add: pass_ok_def only_tmp_refl)
next
  case (panic x)
  then have "\<not> filter_wf (ws_filter st)" using Filter_Add_ok [of "ws_filter st" "rec_key r"] by auto
  with panic show ?thesis by (simp add: pass_ok_def only_tmp_refl)
next
  case (body f st1)
  note E = step_emitsD [OF body(4) refl]
  have io: "emitted tmp b st1 st' = emitted tmp b st st'" "only_tmp tmp st1 st' = only_tmp tmp st st'" for b
    by (simp_all add: emitted_def only_tmp_def body(3))
  have "filter_wf (ws_filter st) \<Longrightarrow> filter_wf f" using Filter_Add_ok [of "ws_filter st" "rec_key r"] body(2) by auto
  moreover have "e = None \<Longrightarrow> records_done env tmp compress [r] st st' \<and> ws_prev st' = Some (rec_key r, rec_seq r) \<and>
      ws_filter st' = f"
    using E(2) [unfolded io] body(2) by (simp add: body(3) records_done_def data_block_def)
  moreover have "no_faults (ws_fs st) \<Longrightarrow> e = None \<and> no_faults (ws_fs st')"
    using E(3) assms(2) by (simp add: body(3))
  ultimately show ?thesis using E(1,4) body(1) by (auto simp: pass_ok_def io)
qed

lemma records_done_Cons:
  assumes "records_done env tmp compress [r] st st1" and "records_done env tmp compress rs st1 st2"
  shows "records_done env tmp compress (r # rs) st st2"
proof -
  have "emitted tmp (encode_data env compress r @ data_block env compress rs) st st2"
    using assms emitted_trans by (auto simp: records_done_def data_block_def)
  with assms show ?thesis
    by (auto simp: records_done_def data_block_def emitted_def split: sum.splits)
qed

lemma write_records_ok:
  "write_records env tmp compress rs st = (e, st') \<Longrightarrow> bw_err (ws_w st) = None \<Longrightarrow>
   pass_ok env tmp compress rs st e st'"
proof (induction rs arbitrary: st)
  case Nil
  then show ?case by (auto simp: pass_ok_def records_done_def data_block_def emitted_refl only_tmp_refl)
next
  case (Cons r rs)
  obtain e1 st1 where r: "write_record env tmp compress r st = (e1, st1)" by fastforce
  note R = write_record_ok [OF r Cons.prems(2)]
  show ?case
  proof (cases e1)
    case None
    then have rs: "write_records env tmp compress rs st1 = (e, st')" using Cons.prems(1) r by (simp add: andThen_def)
    have "bw_err (ws_w st1) = None" using R None by (simp add: pass_ok_def records_done_def emitted_def)
    from Cons.IH [OF rs this] R None show ?thesis
      by (auto simp: pass_ok_def intro: only_tmp_trans records_done_Cons)
  next
    case (Some x)
    then have "e = Some x" "st' = st1" using Cons.prems(1) r by (simp_all add: andThen_def)
    with R Some show ?thesis by (auto simp: pass_ok_def)
  qed
qed

subsection \<open>The order check\<close>

lemma out_of_order_Some: "out_of_order (Some (k, q)) r \<longleftrightarrow> rec_key r < k \<or> (rec_key r = k \<and> q \<le> rec_seq r)"
  by (auto simp: out_of_order_def Let_def)

lemma rec_before_trans: "rec_before a b \<Longrightarrow> rec_before b c \<Longrightarrow> rec_before a c"
  by (auto simp: rec_before_def)

lemma in_order_Some: "in_order (Some (rec_key a, rec_seq a)) rs \<longleftrightarrow> sorted_wrt rec_before (a # rs)"
proof (induction rs arbitrary: a)
  case Nil
  then show ?case by simp
next
  case (Cons b rs)
  have "\<not> out_of_order (Some (rec_key a, rec_seq a)) b \<longleftrightarrow> rec_before a b"
    by (auto simp: out_of_order_Some rec_before_def not_le not_less less_le)
  with Cons show ?case by (auto intro: rec_before_trans)
qed

lemma in_order_None: "in_order None rs \<longleftrightarrow> sorted_wrt rec_before rs"
proof (cases rs)
  case (Cons a as)
  then show ?thesis using in_order_Some [of a as] by (simp add: out_of_order_def)
qed simp

subsection \<open>The whole call\<close>

definition frame :: "string \<Rightarrow> fs \<Rightarrow> fs \<Rightarrow> bool" where
  "frame tmp d d' \<longleftrightarrow> (\<forall>q. q \<noteq> tmp \<longrightarrow> fs_get d' q = fs_get d q) \<and> unreadable d' = unreadable d"

lemma frame_refl: "frame tmp d d"
  by (simp add: frame_def)

lemma frame_trans: "frame tmp a b \<Longrightarrow> frame tmp b c \<Longrightarrow> frame tmp a c"
  by (simp add: frame_def)

lemma only_tmp_frame: "only_tmp tmp st st' \<Longrightarrow> frame tmp (ws_fs st) (ws_fs st')"
  by (auto simp: only_tmp_def frame_def wrote_def)

lemma tick_frame_fs: "tick d = (r, d') \<Longrightarrow> frame p d d'"
  using tick_frame by (simp add: frame_def)

lemma file_Close_frame: "file_Close d = (e, d') \<Longrightarrow> frame p d d'"
  by (auto simp: file_Close_def intro: tick_frame_fs split: prod.splits)

lemma os_Remove_frame: "frame p d (snd (os_Remove p d))"
  using tick_frame [of d] by (auto simp: os_Remove_def frame_def split: option.splits prod.splits)

lemma os_Create_frame: "os_Create p d = (e, d') \<Longrightarrow> frame p d d'"
  using tick_frame [of d] by (auto simp: os_Create_def frame_def Let_def split: prod.splits if_splits)

lemma os_Create_ok:
  "os_Create p d = (None, d') \<Longrightarrow> fs_get d' p = Some \<lparr>content = [], durable = 0\<rparr>"
  by (auto simp: os_Create_def Let_def split: prod.splits if_splits)

lemma file_Sync_frame: "file_Sync p d = (e, d') \<Longrightarrow> frame p d d'"
  using tick_frame [of d] by (auto simp: file_Sync_def frame_def Let_def split: prod.splits option.splits if_splits)

lemma abort_frame: "abort p x d = (e, d') \<Longrightarrow> frame p d d' \<and> e = Some x"
  using file_Close_frame [of d] os_Remove_frame [of p]
  by (auto simp: abort_def frame_refl Let_def split: prod.splits if_splits) (metis frame_trans snd_conv)

definition synced :: "string \<Rightarrow> bytes \<Rightarrow> fs \<Rightarrow> bool" where
  "synced p b d \<longleftrightarrow> fs_get d p = Some \<lparr>content = b, durable = length b\<rparr>"

lemma file_Sync_synced:
  assumes "file_Sync p d = (None, d')" and "fs_get d p = Some f"
  shows "synced p (content f) d'"
proof -
  obtain r d1 where t: "tick d = (r, d1)" by fastforce
  with assms have "r = Done" "fs_get d1 p = Some f" using tick_frame [OF t] by (auto simp: file_Sync_def)
  with assms(1) t have "d' = fs_set p (f\<lparr>durable := length (content f)\<rparr>) d1" by (simp add: file_Sync_def)
  then show ?thesis by (simp add: synced_def)
qed

lemma finish_ok:
  assumes "andThen (flush_tmp tmp) (sync_tmp tmp) st = (e, st')"
    and "fs_get (ws_fs st) tmp = Some f"
  shows "frame tmp (ws_fs st) (ws_fs st')" and "e \<noteq> Some EPanic"
    and "e = None \<Longrightarrow> synced tmp (content f @ bw_buf (ws_w st)) (ws_fs st')"
    and "no_faults (ws_fs st) \<Longrightarrow> bw_err (ws_w st) = None \<Longrightarrow> e = None \<and> no_faults (ws_fs st')"
proof -
  obtain e1 w d where fl: "bufio_Flush tmp (ws_w st) (ws_fs st) = (e1, w, d)" by (metis prod.exhaust)
  obtain s where s: "wrote tmp s (ws_fs st) d" "e1 = None \<Longrightarrow> s = bw_buf (ws_w st)"
    by (rule bufio_Flush_wrote [OF fl]) (metis append_Nil2)
  obtain e2 d2 where sy: "file_Sync tmp d = (e2, d2)" by fastforce
  have fr: "frame tmp (ws_fs st) d" "frame tmp d d2" using s(1) file_Sync_frame [OF sy] by (auto simp: frame_def wrote_def)
  have run: "e1 = None \<and> ws_fs st' = d2 \<and> e = map_option (EWrap ''sstable: fsync'') e2 \<or>
      (\<exists>x. e1 = Some x \<and> ws_fs st' = d \<and> e = Some (EWrap ''sstable: flush'' x))"
    using assms(1) fl sy by (auto simp: andThen_def flush_tmp_def sync_tmp_def split: option.splits)
  show "frame tmp (ws_fs st) (ws_fs st')" using run fr frame_trans by blast
  show "e \<noteq> Some EPanic" using run by (cases e2) auto
  show "synced tmp (content f @ bw_buf (ws_w st)) (ws_fs st')" if "e = None"
  proof -
    have "e1 = None" "e2 = None" "ws_fs st' = d2" using run that by auto
    moreover have "fs_get d tmp = Some (f\<lparr>content := content f @ s\<rparr>)" using s(1) assms(2) by (simp add: wrote_def)
    ultimately show ?thesis using s(2) file_Sync_synced [of tmp d d2] sy by simp
  qed
  show "e = None \<and> no_faults (ws_fs st')" if nf: "no_faults (ws_fs st)" "bw_err (ws_w st) = None"
  proof -
    obtain d' where "bufio_Flush tmp (ws_w st) (ws_fs st) = (None, (ws_w st)\<lparr>bw_buf := []\<rparr>, d')" "no_faults d'"
      by (rule bufio_Flush_no_faults [OF nf])
    then have "e1 = None" "no_faults d" using fl by auto
    then have "e2 = None" "no_faults d2" using sy
      by (auto simp: file_Sync_def tick_no_faults Let_def split: option.splits)
    with run \<open>e1 = None\<close> show ?thesis by auto
  qed
qed

text \<open>The steps up to fsync, from a fresh temporary file.\<close>

definition Write_steps :: "env \<Rightarrow> string \<Rightarrow> bool \<Rightarrow> Record list \<Rightarrow> wstate \<Rightarrow> error option \<times> wstate" where
  "Write_steps env tmp compress rs =
     andThen (write_records env tmp compress rs)
       (andThen (write_tail tmp (length rs)) (andThen (flush_tmp tmp) (sync_tmp tmp)))"

definition fresh_state :: "env \<Rightarrow> Record list \<Rightarrow> fs \<Rightarrow> wstate" where
  "fresh_state env rs d =
     \<lparr>ws_w = bufio_NewWriter, ws_off = 0, ws_filter = NewForEntries (sizing env) (int (length rs)) (1 / 100),
      ws_index = [], ws_prev = None, ws_fs = d\<rparr>"

lemma Write_blocks_ok:
  assumes "andThen (write_records env tmp compress rs) (write_tail tmp (length rs)) (fresh_state env rs d) = (e, st')"
  shows "only_tmp tmp (fresh_state env rs d) st'"
    and "e = None \<Longrightarrow> in_order None rs \<and> (\<exists>f. table_filter env rs = Inr f \<and>
           emitted tmp (table_image env compress rs f) (fresh_state env rs d) st')"
    and "filter_wf (NewForEntries (sizing env) (int (length rs)) (1 / 100)) \<Longrightarrow> e \<noteq> Some EPanic \<and>
           (no_faults d \<and> in_order None rs \<longrightarrow> e = None \<and> no_faults (ws_fs st'))"
proof -
  let ?st = "fresh_state env rs d"
  have st: "bw_err (ws_w ?st) = None" "ws_off ?st = 0" "ws_index ?st = []" "ws_prev ?st = None" "ws_fs ?st = d"
    "ws_filter ?st = NewForEntries (sizing env) (int (length rs)) (1 / 100)"
    by (simp_all add: fresh_state_def bufio_NewWriter_def)
  obtain e1 st1 where r: "write_records env tmp compress rs ?st = (e1, st1)" by fastforce
  note R = write_records_ok [OF r st(1), unfolded pass_ok_def st]
  have "only_tmp tmp ?st st' \<and>
    (e = None \<longrightarrow> in_order None rs \<and> (\<exists>f. table_filter env rs = Inr f \<and> emitted tmp (table_image env compress rs f) ?st st')) \<and>
    (filter_wf (ws_filter ?st) \<longrightarrow> e \<noteq> Some EPanic \<and> (no_faults d \<and> in_order None rs \<longrightarrow> e = None \<and> no_faults (ws_fs st')))"
  proof (cases e1)
    case None
    then have D: "records_done env tmp compress rs ?st st1" "in_order None rs" using R by auto
    let ?dat = "data_block env compress rs" and ?idx = "index_block env compress rs" and ?blm = "Filter_Encode (ws_filter st1)"
    have D1: "emitted tmp ?dat ?st st1" "ws_index st1 = index_entries env compress 0 rs" "table_filter env rs = Inr (ws_filter st1)"
      using D(1) st by (auto simp: records_done_def table_filter_def)
    have idx: "?idx = concat (map encode_index (ws_index st1))" using D1 by (simp add: index_block_def)
    have st1: "bw_err (ws_w st1) = None" "ws_off st1 = of_nat (length ?dat)" using D1(1) st by (auto simp: emitted_def)
    have t: "write_tail tmp (length rs) st1 = (e, st')" using assms r None by (simp add: andThen_def)
    note T = step_emitsD [OF write_tail_emits [OF st1 idx refl] t]
    have "emitted tmp (table_image env compress rs (ws_filter st1)) ?st st'" if "e = None"
      using T(2) that emitted_trans [OF D1(1)] by (simp add: table_image_def Let_def)
    with T R None D D1 st1 st show ?thesis by (auto intro: only_tmp_trans)
  next
    case (Some x)
    with assms r have "e = Some x" "st' = st1" by (simp_all add: andThen_def)
    with R Some st show ?thesis by auto
  qed
  then show "only_tmp tmp ?st st'"
    and "e = None \<Longrightarrow> in_order None rs \<and> (\<exists>f. table_filter env rs = Inr f \<and> emitted tmp (table_image env compress rs f) ?st st')"
    and "filter_wf (NewForEntries (sizing env) (int (length rs)) (1 / 100)) \<Longrightarrow> e \<noteq> Some EPanic \<and>
           (no_faults d \<and> in_order None rs \<longrightarrow> e = None \<and> no_faults (ws_fs st'))"
    using st by auto
qed

lemma andThen_assoc: "andThen a (andThen b c) st = andThen (andThen a b) c st"
  by (auto simp: andThen_def split: prod.splits option.splits)

lemma Write_steps_ok:
  assumes "Write_steps env tmp compress rs (fresh_state env rs d) = (e, st')"
    and "fs_get d tmp = Some \<lparr>content = [], durable = 0\<rparr>"
  shows "frame tmp d (ws_fs st')"
    and "e = None \<Longrightarrow> in_order None rs \<and> (\<exists>f. table_filter env rs = Inr f \<and> synced tmp (table_image env compress rs f) (ws_fs st'))"
    and "filter_wf (NewForEntries (sizing env) (int (length rs)) (1 / 100)) \<Longrightarrow> no_faults d \<Longrightarrow> in_order None rs \<Longrightarrow>
           e = None \<and> no_faults (ws_fs st')"
proof -
  let ?st = "fresh_state env rs d"
  have st: "ws_fs ?st = d" "bw_buf (ws_w ?st) = []" by (simp_all add: fresh_state_def bufio_NewWriter_def)
  obtain e1 st1 where r: "andThen (write_records env tmp compress rs) (write_tail tmp (length rs)) ?st = (e1, st1)" by fastforce
  note R = Write_blocks_ok [OF r]
  obtain s where s: "wrote tmp s d (ws_fs st1)" using R(1) st by (auto simp: only_tmp_def)
  then have f1: "fs_get (ws_fs st1) tmp = Some \<lparr>content = s, durable = 0\<rparr>" using assms(2) by (simp add: wrote_def)
  have run: "Write_steps env tmp compress rs ?st =
      (case e1 of Some x \<Rightarrow> (Some x, st1) | None \<Rightarrow> andThen (flush_tmp tmp) (sync_tmp tmp) st1)"
    using r by (simp add: Write_steps_def andThen_assoc [of _ "write_tail tmp (length rs)"]) (simp add: andThen_def)
  show "frame tmp d (ws_fs st')"
    using run assms(1) only_tmp_frame [OF R(1)] finish_ok(1) [OF _ f1, of e st'] frame_trans [of tmp d "ws_fs st1"] st
    by (cases e1) auto
  show "in_order None rs \<and> (\<exists>f. table_filter env rs = Inr f \<and> synced tmp (table_image env compress rs f) (ws_fs st'))" if "e = None"
  proof -
    have e1: "e1 = None" using that run assms(1) by (cases e1) auto
    then obtain f where f: "in_order None rs" "table_filter env rs = Inr f" "emitted tmp (table_image env compress rs f) ?st st1"
      using R(2) by blast
    then obtain s' where "wrote tmp s' d (ws_fs st1)" "s' @ bw_buf (ws_w st1) = table_image env compress rs f"
      using st by (auto simp: emitted_def)
    with f1 assms(2) have "s @ bw_buf (ws_w st1) = table_image env compress rs f" by (simp add: wrote_def)
    with finish_ok(3) [OF _ f1, of e st'] run assms(1) e1 that f show ?thesis by auto
  qed
  show "e = None \<and> no_faults (ws_fs st')" if nf: "filter_wf (NewForEntries (sizing env) (int (length rs)) (1 / 100))"
    "no_faults d" "in_order None rs"
  proof -
    have e1: "e1 = None" "no_faults (ws_fs st1)" using R(3) nf by auto
    then have "bw_err (ws_w st1) = None" using R(2) by (auto simp: emitted_def)
    with finish_ok(4) [OF _ f1, of e st'] run assms(1) e1 show ?thesis by auto
  qed
qed

lemma Write_unfold:
  "Write env path rs compress d =
     (if rs = [] then (Some (EMsg ''sstable: refusing to write an empty table''), d)
      else
        let tmp = path @ ''.tmp''; (e, d1) = os_Create tmp d
        in case e of
             Some x \<Rightarrow> (Some (EWrap ''sstable: create'' x), d1)
           | None \<Rightarrow>
               let (e1, st) = Write_steps env tmp compress rs (fresh_state env rs d1)
               in case e1 of
                    Some x \<Rightarrow> abort tmp x (ws_fs st)
                  | None \<Rightarrow>
                      let (e2, d2) = file_Close (ws_fs st)
                      in case e2 of
                           Some x \<Rightarrow> (Some (EWrap ''sstable: close'' x), snd (os_Remove tmp d2))
                         | None \<Rightarrow>
                             let (e3, d3) = os_Rename tmp path d2
                             in case e3 of
                                  Some x \<Rightarrow> (Some (EWrap ''sstable: rename'' x), snd (os_Remove tmp d3))
                                | None \<Rightarrow> (None, d3))"
  unfolding Write_def Write_steps_def fresh_state_def length_0_conv by (rule refl)

text \<open>The effect of a rename of a synced temporary file, completed or cut off.\<close>

lemma os_Rename_cases:
  assumes "os_Rename tmp path d = (e, d')" and "fs_get d tmp = Some f" and "path \<noteq> tmp"
  shows "(\<forall>q. q \<noteq> path \<and> q \<noteq> tmp \<longrightarrow> fs_get d' q = fs_get d q) \<and>
    (if e = None then fs_get d' path = Some f \<and> fs_get d' tmp = None
     else fs_get d' path = fs_get d path \<or> fs_get d' path = Some f) \<and> unreadable d' = unreadable d"
proof -
  obtain r d1 where t: "tick d = (r, d1)" by fastforce
  have "d' = (if takes_effect r then fs_set path f (fs_del tmp d1) else d1)" "e = reported r"
    using assms(1,2) t by (auto simp: os_Rename_def)
  then show ?thesis using tick_frame [OF t] assms(2,3) by auto
qed

definition table_at :: "env \<Rightarrow> bool \<Rightarrow> Record list \<Rightarrow> string \<Rightarrow> fs \<Rightarrow> bool" where
  "table_at env compress rs path d \<longleftrightarrow>
     sorted_wrt rec_before rs \<and> rs \<noteq> [] \<and>
     (\<exists>f. table_filter env rs = Inr f \<and> synced path (table_image env compress rs f) d)"

text \<open>The close and the rename behind a complete temporary file.\<close>

definition Write_finish :: "string \<Rightarrow> string \<Rightarrow> fs \<Rightarrow> error option \<times> fs" where
  "Write_finish tmp path d =
     (let (e2, d2) = file_Close d
      in case e2 of
           Some x \<Rightarrow> (Some (EWrap ''sstable: close'' x), snd (os_Remove tmp d2))
         | None \<Rightarrow>
             let (e3, d3) = os_Rename tmp path d2
             in case e3 of
                  Some x \<Rightarrow> (Some (EWrap ''sstable: rename'' x), snd (os_Remove tmp d3))
                | None \<Rightarrow> (None, d3))"

lemma Write_finish_outcome:
  assumes "Write_finish tmp path d = (e, d')" and "synced tmp b d" and "path \<noteq> tmp"
  shows "(\<forall>q. q \<noteq> path \<and> q \<noteq> tmp \<longrightarrow> fs_get d' q = fs_get d q) \<and> unreadable d' = unreadable d \<and>
    (synced path b d' \<or> e \<noteq> None \<and> fs_get d' path = fs_get d path)"
proof -
  obtain e2 d2 where cl: "file_Close d = (e2, d2)" by fastforce
  have d2: "fs_get d2 q = fs_get d q" "unreadable d2 = unreadable d" for q
    using file_Close_frame [OF cl, of "q @ ''x''"] by (simp_all add: frame_def)
  obtain e3 d3 where rn: "os_Rename tmp path d2 = (e3, d3)" by fastforce
  have RN: "(\<forall>q. q \<noteq> path \<and> q \<noteq> tmp \<longrightarrow> fs_get d3 q = fs_get d q) \<and>
    (if e3 = None then synced path b d3 else fs_get d3 path = fs_get d path \<or> synced path b d3) \<and> unreadable d3 = unreadable d"
    using os_Rename_cases [OF rn _ assms(3)] assms(2) d2 by (auto simp: synced_def split: if_splits)
  show ?thesis
  proof (cases e2)
    case (Some x)
    then have "d' = snd (os_Remove tmp d2)" "e \<noteq> None" using assms(1) cl by (auto simp: Write_finish_def)
    then show ?thesis using os_Remove_frame [of tmp d2] d2 assms(3) by (simp add: frame_def)
  next
    case None
    then have d': "e = map_option (EWrap ''sstable: rename'') e3" "d' = (if e3 = None then d3 else snd (os_Remove tmp d3))"
      using assms(1) cl rn by (auto simp: Write_finish_def split: option.splits)
    have "frame tmp d3 d'" using d'(2) os_Remove_frame [of tmp d3] frame_refl by simp
    with RN d' assms(3) show ?thesis by (auto simp: frame_def synced_def split: if_splits)
  qed
qed

lemma Write_finish_no_faults:
  assumes "no_faults d" and "synced tmp b d"
  shows "\<exists>d'. Write_finish tmp path d = (None, d') \<and> no_faults d' \<and> (path \<noteq> tmp \<longrightarrow> fs_get d' tmp = None)"
  using assms by (auto simp: Write_finish_def file_Close_def os_Rename_def tick_no_faults synced_def)

lemma Write_cases:
  assumes "Write env path rs compress d = (e, d')" and "rs \<noteq> []"
  obtains (early) "frame (path @ ''.tmp'') d d'" "e \<noteq> None"
      "\<not> (no_faults d \<and> in_order None rs \<and> filter_wf (NewForEntries (sizing env) (int (length rs)) (1 / 100)))"
  | (complete) f d1 where "frame (path @ ''.tmp'') d d1" "in_order None rs" "table_filter env rs = Inr f"
      "synced (path @ ''.tmp'') (table_image env compress rs f) d1" "Write_finish (path @ ''.tmp'') path d1 = (e, d')"
      "no_faults d \<Longrightarrow> filter_wf (NewForEntries (sizing env) (int (length rs)) (1 / 100)) \<Longrightarrow> no_faults d1"
proof -
  let ?tmp = "path @ ''.tmp''"
  obtain ec d1 where c: "os_Create ?tmp d = (ec, d1)" by fastforce
  have nc: "ec = None \<and> no_faults d1" if "no_faults d" using that c by (auto simp: os_Create_def tick_no_faults)
  note fc = os_Create_frame [OF c]
  show thesis
  proof (cases ec)
    case (Some x)
    with assms c have "e \<noteq> None" "d' = d1" by (auto simp: Write_unfold)
    with fc nc Some show thesis by (intro early) auto
  next
    case ec: None
    obtain e1 st where s: "Write_steps env ?tmp compress rs (fresh_state env rs d1) = (e1, st)" by fastforce
    note S = Write_steps_ok [OF s os_Create_ok [OF c [unfolded ec]]]
    note fs = frame_trans [OF fc S(1)]
    show thesis
    proof (cases e1)
      case (Some x)
      then have "abort ?tmp x (ws_fs st) = (e, d')" using assms c ec s by (simp add: Write_unfold)
      then have "frame ?tmp d d'" "e = Some x" using abort_frame frame_trans [OF fs] by blast+
      with S(3) nc Some show thesis by (intro early) auto
    next
      case None
      then have "Write_finish ?tmp path (ws_fs st) = (e, d')"
        using assms c ec s by (simp add: Write_unfold Write_finish_def Let_def)
      with S(2,3) None fs nc show thesis by (auto intro: complete)
    qed
  qed
qed

lemma Write_outcome:
  assumes "Write env path rs compress d = (e, d')"
  shows "(\<forall>q. q \<noteq> path \<and> q \<noteq> path @ ''.tmp'' \<longrightarrow> fs_get d' q = fs_get d q) \<and> unreadable d' = unreadable d \<and>
    (table_at env compress rs path d' \<or> e \<noteq> None \<and> fs_get d' path = fs_get d path)"
proof (cases "rs = []")
  case True
  with assms show ?thesis by (auto simp: Write_unfold)
next
  case False
  from assms False show ?thesis
  proof (cases rule: Write_cases)
    case early
    then show ?thesis by (simp add: frame_def)
  next
    case (complete f d1)
    then show ?thesis
      using Write_finish_outcome [OF complete(5,4)] False by (auto simp: frame_def table_at_def in_order_None)
  qed
qed

lemma env_ok_filter: "env_ok env \<Longrightarrow> rs \<noteq> [] \<Longrightarrow> length rs \<le> 2 ^ 28 \<Longrightarrow>
  filter_wf (NewForEntries (sizing env) (int (length rs)) (1 / 100))"
proof -
  assume a: "env_ok env" "rs \<noteq> []" "length rs \<le> 2 ^ 28"
  then have n: "0 < int (length rs)" "int (length rs) \<le> 2 ^ 28" by auto
  moreover have "max 1 (int (length rs)) = int (length rs)" using n(1) by linarith
  ultimately show ?thesis using a(1) by (intro NewForEntries_wf) (auto simp: env_ok_def)
qed

lemma Write_no_faults:
  assumes "no_faults d" and "env_ok env" and "recs_ok rs"
  obtains d' where "Write env path rs compress d = (None, d')" and "no_faults d'" and "table_at env compress rs path d'"
    and "fs_get d' (path @ ''.tmp'') = None"
proof -
  obtain e d' where w: "Write env path rs compress d = (e, d')" by fastforce
  have wf: "filter_wf (NewForEntries (sizing env) (int (length rs)) (1 / 100))" "rs \<noteq> []" "in_order None rs"
    using assms(2,3) by (auto simp: recs_ok_def in_order_None intro: env_ok_filter)
  from w wf(2) show thesis
  proof (cases rule: Write_cases)
    case early
    then show thesis using assms(1) wf by simp
  next
    case (complete f d1)
    then have "e = None" "no_faults d'" "fs_get d' (path @ ''.tmp'') = None"
      using Write_finish_no_faults [of d1 "path @ ''.tmp''" _ path] assms(1) wf(1) by auto
    with w Write_outcome [OF w] show thesis by (intro that) auto
  qed
qed

section \<open>Properties\<close>

lemma synced_reboot: "synced p b d \<Longrightarrow> synced p b (reboot keep sch d)"
  by (simp add: synced_def fs_get_reboot Let_def)

lemma fs_get_reboot_cong: "fs_get d' q = fs_get d q \<Longrightarrow> fs_get (reboot keep sch d') q = fs_get (reboot keep sch d) q"
  by (simp add: fs_get_reboot)

lemma table_at_reboot: "table_at env compress rs p d \<Longrightarrow> table_at env compress rs p (reboot keep sch d)"
  by (auto simp: table_at_def intro: synced_reboot)

text \<open>An environment for examples: a run of one byte is stored as its length and the byte.\<close>

definition demo_env :: env where
  "demo_env = \<lparr>deflate = (\<lambda>v. if v \<noteq> [] \<and> length v < 256 \<and> v = replicate (length v) (hd v)
                              then Some [of_nat (length v), hd v] else None),
    inflate = (\<lambda>c. case c of [n, b] \<Rightarrow> Inr (replicate (unat n) b) | _ \<Rightarrow> Inl EUnexpectedEOF),
    sizing = (\<lambda>n p. (10 * n, 7))\<rparr>"

lemma demo_env_ok: "env_ok demo_env"
proof -
  have "unat (of_nat n :: byte) = n" if "n < 256" for n :: nat
    using that by (simp add: unat_of_nat)
  then show ?thesis by (auto simp: env_ok_def demo_env_def split: if_splits)
qed

definition demo_fs :: fs where
  "demo_fs = \<lparr>files = [], sched = (\<lambda>_. Done), clock = 0, down = False, unreadable = (\<lambda>_ _. False)\<rparr>"

lemma demo_fs_no_faults: "no_faults demo_fs"
  by (simp add: no_faults_def demo_fs_def)

definition demo_recs :: "Record list" where
  "demo_recs = [\<lparr>rec_key = [1], rec_value = [7, 7, 7], rec_type = TypeValue, rec_seq = 3\<rparr>,
    \<lparr>rec_key = [1], rec_value = [5], rec_type = TypeValue, rec_seq = 1\<rparr>,
    \<lparr>rec_key = [2], rec_value = [], rec_type = TypeTombstone, rec_seq = 2\<rparr>]"

lemma demo_recs_ok: "recs_ok demo_recs"
  by (simp add: recs_ok_def demo_recs_def rec_ok_def rec_before_def)

text \<open>
  C18: Write is atomic. Whatever call fails and wherever the machine crashes, after a restart the
  final path holds either what it held before or the complete table of exactly the given records,
  which are then sorted; if Write returned no error it is the complete table; and no file but
  the temporary one is touched.
\<close>

theorem sstable_write_atomic:
  assumes "Write env path rs compress d = (e, d')"
  shows "(e = None \<longrightarrow> table_at env compress rs path (reboot keep sch d')) \<and>
    (fs_get (reboot keep sch d') path = fs_get (reboot keep sch d) path \<or> table_at env compress rs path (reboot keep sch d')) \<and>
    (\<forall>q. q \<noteq> path \<and> q \<noteq> path @ ''.tmp'' \<longrightarrow> fs_get (reboot keep sch d') q = fs_get (reboot keep sch d) q)"
proof -
  note W = Write_outcome [OF assms]
  then have "table_at env compress rs path (reboot keep sch d') \<or>
      e \<noteq> None \<and> fs_get (reboot keep sch d') path = fs_get (reboot keep sch d) path"
    using fs_get_reboot_cong [of d' path d keep sch] table_at_reboot [of env compress rs path d' keep sch] by auto
  moreover have "fs_get (reboot keep sch d') q = fs_get (reboot keep sch d) q" if "q \<noteq> path" "q \<noteq> path @ ''.tmp''" for q
    using W that by (intro fs_get_reboot_cong) simp
  ultimately show ?thesis by auto
qed

theorem sstable_write_atomic_witness:
  "\<exists>e d'. Write demo_env ''t'' demo_recs True (demo_fs\<lparr>sched := (\<lambda>n. if n = 2 then Crash 5 else Done)\<rparr>) = (e, d') \<and>
     (fs_get (reboot (\<lambda>_. 0) (\<lambda>_. Done) d') ''t'' = None \<or>
      table_at demo_env True demo_recs ''t'' (reboot (\<lambda>_. 0) (\<lambda>_. Done) d'))"
proof -
  let ?d = "demo_fs\<lparr>sched := (\<lambda>n. if n = 2 then Crash 5 else Done)\<rparr>"
  obtain e d' where w: "Write demo_env ''t'' demo_recs True ?d = (e, d')" by fastforce
  have "fs_get (reboot (\<lambda>_. 0) (\<lambda>_. Done) ?d) ''t'' = None"
    unfolding fs_get_reboot by (simp add: fs_get_def demo_fs_def)
  with sstable_write_atomic [OF w, of "\<lambda>_. 0" "\<lambda>_. Done"] w show ?thesis by auto
qed

text \<open>
  when nothing fails, Write of well-formed sorted records succeeds, leaves the complete table
  at the final path, fsynced, and no temporary file.
\<close>

theorem sstable_write_succeeds:
  assumes "no_faults d" and "env_ok env" and "recs_ok rs"
  shows "\<exists>d'. Write env path rs compress d = (None, d') \<and> table_at env compress rs path d' \<and>
           fs_get d' (path @ ''.tmp'') = None"
  by (rule Write_no_faults [OF assms, of path compress]) auto

theorem sstable_write_succeeds_witness:
  "\<exists>d'. Write demo_env ''t'' demo_recs True demo_fs = (None, d') \<and> fs_get d' ''t.tmp'' = None"
  using sstable_write_succeeds [OF demo_fs_no_faults demo_env_ok demo_recs_ok, of "''t''" True] by auto

text \<open>
  Records that are not sorted by key ascending and sequence number descending, or contain a
  key with the same sequence number twice, are refused with an error and the final path keeps
  what it held.
\<close>

theorem sstable_write_refuses_unsorted:
  assumes "\<not> sorted_wrt rec_before rs" and "Write env path rs compress d = (e, d')"
  shows "e \<noteq> None \<and> fs_get d' path = fs_get d path"
  using Write_outcome [OF assms(2)] assms(1) by (auto simp: table_at_def)

theorem sstable_write_refuses_unsorted_witness:
  "\<exists>e d'. Write demo_env ''t'' (rev demo_recs) False demo_fs = (e, d') \<and> e \<noteq> None"
proof -
  have "\<not> sorted_wrt rec_before (rev demo_recs)" by (simp add: demo_recs_def rec_before_def)
  moreover obtain e d' where "Write demo_env ''t'' (rev demo_recs) False demo_fs = (e, d')" by fastforce
  ultimately show ?thesis using sstable_write_refuses_unsorted by blast
qed

end
