(* ===== verification/Table.thy ===== *)
theory Table
  imports Sstable GoHeap
begin

text \<open>
  \<^verbatim>\<open>src/sstable/table.go\<close>: an opened table. \<open>Table_Open\<close> parses footer, index and filter with the
  checks of the source on 64-bit words (a sum of offset and length wraps), \<open>Table_Get\<close> is the
  point lookup (range check, filter, binary search, scan of the versions), \<open>Iterator_Next\<close> the
  sequential scan, \<open>RangeIterator_Next\<close> the bounded scan over the index, and \<open>Acquire\<close>, \<open>Release\<close>,
  \<open>Retire\<close> the reference count that defers closing and deleting the file. The theorems relate each
  of them to the list of records the file was written from.
\<close>

section \<open>Definitions\<close>

subsection \<open>Opening\<close>

text \<open>
  A nil slice matters in one place: \<^verbatim>\<open>minKey\<close> is nil for an empty index, and also when the first
  key is empty, since \<^verbatim>\<open>append([]byte(nil), ...)\<close> of no bytes is nil.
\<close>

record Table =
  tbl_path :: string
  tbl_file :: handle
  tbl_index :: "indexEntry list"
  tbl_filter :: Filter
  tbl_numEntries :: u64
  tbl_minKey :: "bytes option"
  tbl_maxKey :: bytes
  tbl_dataBlockSz :: int
  tbl_fileSize :: int
  tbl_refCount :: int
  tbl_removeOnZero :: bool
  tbl_released :: bool

text \<open>\<^verbatim>\<open>make\<close> panics above the address space of the runtime (48 bits); \<open>sz\<close> is the element size.\<close>

definition makeslice_ok :: "int \<Rightarrow> u64 \<Rightarrow> bool" where
  "makeslice_ok sz n \<longleftrightarrow> uint n * sz \<le> 2 ^ 48"

text \<open>\<^verbatim>\<open>f.ReadAt(buf, int64(off))\<close>: a negative offset is an error.\<close>

definition ReadAt64 :: "handle \<Rightarrow> nat \<Rightarrow> int \<Rightarrow> error + bytes" where
  "ReadAt64 h n off = (if off < 0 then Inl (EMsg ''negative offset'') else ReadAt h n (nat off))"

definition file_Stat :: "handle \<Rightarrow> fs \<Rightarrow> (error + nat) \<times> fs" where
  "file_Stat h d =
     (let (r, d1) = tick d in (case reported r of None \<Rightarrow> Inr (length (hdata h)) | Some e \<Rightarrow> Inl e, d1))"

function parse_index :: "bytes \<Rightarrow> nat \<Rightarrow> indexEntry list \<Rightarrow> error + indexEntry list" where
  "parse_index buf pos index =
     (if pos < length buf
      then if pos + 4 > length buf then Inl (EMsg ''sstable: truncated index entry'')
           else let klen = unat (Uint32 (slice pos (pos + 4) buf)); pos1 = pos + 4
                in if pos1 + klen + 8 > length buf then Inl (EMsg ''sstable: truncated index entry'')
                   else let key = slice pos1 (pos1 + klen) buf; pos2 = pos1 + klen;
                            off = Uint64 (slice pos2 (pos2 + 8) buf)
                        in parse_index buf (pos2 + 8) (index @ [\<lparr>ie_key = key, ie_offset = off\<rparr>])
      else Inr index)"
  by pat_completeness auto
termination
  by (relation "measure (\<lambda>(buf, pos, index). length buf - pos)") auto

definition read_block :: "handle \<Rightarrow> u64 \<Rightarrow> u64 \<Rightarrow> string \<Rightarrow> error + bytes" where
  "read_block h off len msg =
     (if \<not> makeslice_ok 1 len then Inl EPanic
      else if len > 0
           then case ReadAt64 h (unat len) (sint off) of Inl e \<Rightarrow> Inl (EWrap msg e) | Inr buf \<Rightarrow> Inr buf
           else Inr [])"

definition Open_body :: "string \<Rightarrow> handle \<Rightarrow> nat \<Rightarrow> error + Table" where
  "Open_body path h sz =
     (if sz < footerSize then Inl (EMsg ''sstable: too small to contain a valid footer'')
      else case ReadAt64 h footerSize (int sz - int footerSize) of
        Inl e \<Rightarrow> Inl (EWrap ''sstable: reading footer'' e)
      | Inr footer \<Rightarrow>
          if Uint32 (slice 40 44 footer) \<noteq> magicNumber then Inl (EMsg ''sstable: failed magic-number validation'')
          else
            let indexOffset = Uint64 (slice 0 8 footer); indexLen = Uint64 (slice 8 16 footer);
                bloomOffset = Uint64 (slice 16 24 footer); bloomLen = Uint64 (slice 24 32 footer);
                numEntries = Uint64 (slice 32 40 footer)
            in if indexOffset + indexLen > of_nat sz \<or> bloomOffset + bloomLen > of_nat sz
               then Inl (EMsg ''sstable: footer references offsets beyond end of file'')
               else case read_block h indexOffset indexLen ''sstable: reading index block'' of
                 Inl e \<Rightarrow> Inl e
               | Inr indexBuf \<Rightarrow>
                   if \<not> makeslice_ok 32 numEntries then Inl EPanic
                   else case parse_index indexBuf 0 [] of
                     Inl e \<Rightarrow> Inl e
                   | Inr index \<Rightarrow>
                       case read_block h bloomOffset bloomLen ''sstable: reading bloom filter block'' of
                         Inl e \<Rightarrow> Inl e
                       | Inr bloomBuf \<Rightarrow>
                           case Filter_Decode bloomBuf of
                             Inl e \<Rightarrow> Inl (EWrap ''sstable: decoding bloom filter'' e)
                           | Inr filt \<Rightarrow>
                               Inr \<lparr>tbl_path = path, tbl_file = h, tbl_index = index, tbl_filter = filt,
                                    tbl_numEntries = numEntries,
                                    tbl_minKey = (case index of [] \<Rightarrow> None
                                                  | ie # _ \<Rightarrow> if ie_key ie = [] then None else Some (ie_key ie)),
                                    tbl_maxKey = (if index = [] then [] else ie_key (last index)),
                                    tbl_dataBlockSz = sint indexOffset, tbl_fileSize = int sz,
                                    tbl_refCount = 1, tbl_removeOnZero = False, tbl_released = False\<rparr>)"

text \<open>Every error return closes the file; a panic does not.\<close>

definition Table_Open :: "string \<Rightarrow> fs \<Rightarrow> (error + Table) \<times> fs" where
  "Table_Open path d =
     (let (r, d1) = os_Open path d
      in case r of
           Inl e \<Rightarrow> (Inl (EWrap ''sstable: open'' e), d1)
         | Inr h \<Rightarrow>
             let (s, d2) = file_Stat h d1
             in case s of
                  Inl e \<Rightarrow> (Inl (EWrap ''sstable: stat'' e), snd (file_Close d2))
                | Inr sz \<Rightarrow>
                    case Open_body path h sz of
                      Inl e \<Rightarrow> (Inl e, if e = EPanic then d2 else snd (file_Close d2))
                    | Inr t \<Rightarrow> (Inr t, d2))"

subsection \<open>Point lookups\<close>

definition MayContainRange :: "Table \<Rightarrow> bytes \<Rightarrow> bool" where
  "MayContainRange t key =
     (case tbl_minKey t of
        None \<Rightarrow> False
      | Some mn \<Rightarrow> bytes_Compare key mn \<ge> 0 \<and> bytes_Compare key (tbl_maxKey t) \<le> 0)"

text \<open>\<^verbatim>\<open>ReadAt\<close> on the table's own file, which \<^verbatim>\<open>Release\<close> may have closed.\<close>

definition table_ReadAt :: "Table \<Rightarrow> nat \<Rightarrow> int \<Rightarrow> error + bytes" where
  "table_ReadAt t n off =
     (if tbl_released t then Inl (EMsg ''file already closed'') else ReadAt64 (tbl_file t) n off)"

definition readRecordAt :: "env \<Rightarrow> Table \<Rightarrow> int \<Rightarrow> error + Record" where
  "readRecordAt env t off =
     (case table_ReadAt t dataHeaderSize off of
        Inl e \<Rightarrow> Inl (EWrap ''read header'' e)
      | Inr header \<Rightarrow>
          let keyLen = unat (Uint32 (slice 0 4 header)); seq = Uint64 (slice 4 12 header);
              rawTyp = header ! 12; valLen = unat (Uint32 (slice 13 17 header)); bodyLen = keyLen + valLen
          in case (if bodyLen > 0 then table_ReadAt t bodyLen (off + int dataHeaderSize) else Inr []) of
               Inl e \<Rightarrow> Inl (EWrap ''read body'' e)
             | Inr body \<Rightarrow>
                 let mk = (\<lambda>v. \<lparr>rec_key = take keyLen body, rec_value = v,
                                rec_type = rawTyp AND NOT compressedFlag, rec_seq = seq\<rparr>)
                 in if rawTyp AND compressedFlag \<noteq> 0
                    then case decompressValue env (drop keyLen body) of
                           Inl e \<Rightarrow> Inl (EWrap ''record at offset'' e)
                         | Inr dv \<Rightarrow> Inr (mk dv)
                    else Inr (mk (drop keyLen body)))"

function get_loop :: "env \<Rightarrow> Table \<Rightarrow> bytes \<Rightarrow> u64 \<Rightarrow> nat \<Rightarrow> error + Record option" where
  "get_loop env t key maxSeq i =
     (if i < length (tbl_index t) \<and> ie_key (tbl_index t ! i) = key
      then case readRecordAt env t (sint (ie_offset (tbl_index t ! i))) of
             Inl e \<Rightarrow> Inl (EWrap ''sstable: reading record for key'' e)
           | Inr r \<Rightarrow> if rec_seq r \<le> maxSeq then Inr (Some r) else get_loop env t key maxSeq (i + 1)
      else Inr None)"
  by pat_completeness auto
termination
  by (relation "measure (\<lambda>(env, t, key, maxSeq, i). length (tbl_index t) - i)") auto

definition Table_Get :: "env \<Rightarrow> Table \<Rightarrow> bytes \<Rightarrow> u64 \<Rightarrow> error + Record option" where
  "Table_Get env t key maxSeq =
     (if \<not> MayContainRange t key then Inr None
      else case MayContain (tbl_filter t) key of
             Inl e \<Rightarrow> Inl e
           | Inr False \<Rightarrow> Inr None
           | Inr True \<Rightarrow>
               get_loop env t key maxSeq
                 (sort_Search (length (tbl_index t)) (\<lambda>i. bytes_Compare (ie_key (tbl_index t ! i)) key \<ge> 0)))"

subsection \<open>Sequential iteration\<close>

text \<open>\<open>it_rd\<close> is the position of the buffered reader, \<open>it_pos\<close> the iterator's own count. After an
  error the callers drop the iterator.\<close>

record Iterator =
  it_h :: handle
  it_rd :: nat
  it_pos :: int
  it_limit :: int

definition NewIterator :: "Table \<Rightarrow> fs \<Rightarrow> (error + Iterator) \<times> fs" where
  "NewIterator t d =
     (let (r, d1) = os_Open (tbl_path t) d
      in (case r of Inl e \<Rightarrow> Inl (EWrap ''sstable: opening for iteration'' e)
          | Inr h \<Rightarrow> Inr \<lparr>it_h = h, it_rd = 0, it_pos = 0, it_limit = tbl_dataBlockSz t\<rparr>, d1))"

definition Iterator_Next :: "env \<Rightarrow> Iterator \<Rightarrow> error + (Record \<times> Iterator) option" where
  "Iterator_Next env it =
     (if it_pos it \<ge> it_limit it then Inr None
      else case ReadFull (it_h it) dataHeaderSize (it_rd it) of
        Inl e \<Rightarrow> Inl (EWrap ''sstable: iterator header read'' e)
      | Inr header \<Rightarrow>
          let keyLen = unat (Uint32 (slice 0 4 header)); seq = Uint64 (slice 4 12 header);
              rawTyp = header ! 12; valLen = unat (Uint32 (slice 13 17 header));
              rd1 = it_rd it + dataHeaderSize
          in case ReadFull (it_h it) keyLen rd1 of
               Inl e \<Rightarrow> Inl (EWrap ''sstable: iterator key read'' e)
             | Inr key \<Rightarrow>
                 (case ReadFull (it_h it) valLen (rd1 + keyLen) of
                    Inl e \<Rightarrow> Inl (EWrap ''sstable: iterator value read'' e)
                  | Inr val \<Rightarrow>
                      let it' = it\<lparr>it_rd := rd1 + keyLen + valLen,
                                   it_pos := it_pos it + int dataHeaderSize + int keyLen + int valLen\<rparr>;
                          mk = (\<lambda>v. \<lparr>rec_key = key, rec_value = v,
                                     rec_type = rawTyp AND NOT compressedFlag, rec_seq = seq\<rparr>)
                      in if rawTyp AND compressedFlag \<noteq> 0
                         then case decompressValue env val of
                                Inl e \<Rightarrow> Inl (EWrap ''sstable: iterator decompress'' e)
                              | Inr dv \<Rightarrow> Inr (Some (mk dv, it'))
                         else Inr (Some (mk val, it'))))"

subsection \<open>Bounded iteration\<close>

record RangeIterator =
  ri_t :: Table
  ri_idx :: nat
  ri_end :: "bytes option"
  ri_maxSeq :: u64

definition NewRangeIterator :: "Table \<Rightarrow> bytes option \<Rightarrow> bytes option \<Rightarrow> u64 \<Rightarrow> RangeIterator" where
  "NewRangeIterator t start end maxSeq =
     \<lparr>ri_t = t,
      ri_idx = (case start of
                  None \<Rightarrow> 0
                | Some b \<Rightarrow> sort_Search (length (tbl_index t)) (\<lambda>i. bytes_Compare (ie_key (tbl_index t ! i)) b \<ge> 0)),
      ri_end = end, ri_maxSeq = maxSeq\<rparr>"

function group_scan :: "env \<Rightarrow> Table \<Rightarrow> bytes \<Rightarrow> u64 \<Rightarrow> nat \<Rightarrow> Record option \<Rightarrow> error + nat \<times> Record option" where
  "group_scan env t key maxSeq idx found =
     (if idx < length (tbl_index t) \<and> ie_key (tbl_index t ! idx) = key
      then case found of
             Some r \<Rightarrow> group_scan env t key maxSeq (idx + 1) found
           | None \<Rightarrow>
               case readRecordAt env t (sint (ie_offset (tbl_index t ! idx))) of
                 Inl e \<Rightarrow> Inl (EWrap ''sstable: range iterator'' e)
               | Inr r \<Rightarrow> group_scan env t key maxSeq (idx + 1) (if rec_seq r \<le> maxSeq then Some r else None)
      else Inr (idx, found))"
  by pat_completeness auto
termination
  by (relation "measure (\<lambda>(env, t, key, maxSeq, idx, found). length (tbl_index t) - idx)") auto

declare parse_index.simps [simp del] get_loop.simps [simp del] group_scan.simps [simp del]

lemma group_scan_ge: "group_scan env t key maxSeq idx found = Inr (idx', found') \<Longrightarrow> idx \<le> idx'"
proof (induction env t key maxSeq idx found rule: group_scan.induct)
  case (1 env t key maxSeq idx found)
  then show ?case
    by (subst (asm) (2) group_scan.simps) (fastforce split: if_splits option.splits sum.splits)
qed

lemma group_scan_progress:
  assumes "group_scan env t (ie_key (tbl_index t ! idx)) maxSeq idx None = Inr (idx', found')"
    and "idx < length (tbl_index t)"
  shows "idx < idx'"
  using assms group_scan_ge [of env t _ maxSeq "idx + 1"]
  by (subst (asm) group_scan.simps) (fastforce split: if_splits sum.splits)

function range_next :: "env \<Rightarrow> Table \<Rightarrow> bytes option \<Rightarrow> u64 \<Rightarrow> nat \<Rightarrow> error + Record option \<times> nat" where
  "range_next env t end maxSeq idx =
     (if idx < length (tbl_index t)
      then let key = ie_key (tbl_index t ! idx)
           in if (case end of None \<Rightarrow> False | Some b \<Rightarrow> bytes_Compare key b \<ge> 0) then Inr (None, idx)
              else case group_scan env t key maxSeq idx None of
                     Inl e \<Rightarrow> Inl e
                   | Inr (idx', found) \<Rightarrow>
                       (case found of Some r \<Rightarrow> Inr (Some r, idx') | None \<Rightarrow> range_next env t end maxSeq idx')
      else Inr (None, idx))"
  by pat_completeness auto
termination
  by (relation "measure (\<lambda>(env, t, end, maxSeq, idx). length (tbl_index t) - idx)")
    (auto dest: group_scan_progress)

declare range_next.simps [simp del]

definition RangeIterator_Next :: "env \<Rightarrow> RangeIterator \<Rightarrow> error + Record option \<times> RangeIterator" where
  "RangeIterator_Next env it =
     (case range_next env (ri_t it) (ri_end it) (ri_maxSeq it) (ri_idx it) of
        Inl e \<Rightarrow> Inl e
      | Inr (r, idx) \<Rightarrow> Inr (r, it\<lparr>ri_idx := idx\<rparr>))"

subsection \<open>Lifetime\<close>

definition Table_Acquire :: "Table \<Rightarrow> bool \<times> Table" where
  "Table_Acquire t = (if tbl_released t then (False, t) else (True, t\<lparr>tbl_refCount := tbl_refCount t + 1\<rparr>))"

definition Table_Release :: "Table \<Rightarrow> fs \<Rightarrow> error option \<times> Table \<times> fs" where
  "Table_Release t d =
     (let t1 = t\<lparr>tbl_refCount := tbl_refCount t - 1\<rparr>
      in if tbl_refCount t1 > 0 then (None, t1, d)
         else let t2 = t1\<lparr>tbl_released := True\<rparr>;
                  (e, d1) = (if tbl_released t then (Some (EMsg ''file already closed''), d) else file_Close d);
                  (e2, d2) = (if tbl_removeOnZero t
                              then let (r, d') = os_Remove (tbl_path t) d1
                                   in (if r \<noteq> None \<and> r \<noteq> Some ENotExist \<and> e = None then r else e, d')
                              else (e, d1))
              in (case e2 of None \<Rightarrow> None | Some x \<Rightarrow> Some (EWrap ''sstable: releasing'' x), t2, d2))"

definition Table_Retire :: "Table \<Rightarrow> fs \<Rightarrow> error option \<times> Table \<times> fs" where
  "Table_Retire t d = Table_Release (t\<lparr>tbl_removeOnZero := True\<rparr>) d"

section \<open>Decoding one record\<close>

lemma unat_len: "length xs < 2 ^ 32 \<Longrightarrow> unat (of_nat (length xs) :: u32) = length xs"
  by (simp add: unat_of_nat)

lemma data_header_fields [codec_simps]:
  "length (data_header key seq ty sv) = dataHeaderSize"
  "Uint32 (slice 0 4 (data_header key seq ty sv)) = of_nat (length key)"
  "Uint64 (slice 4 12 (data_header key seq ty sv)) = seq"
  "data_header key seq ty sv ! 12 = ty"
  "Uint32 (slice 13 17 (data_header key seq ty sv)) = of_nat (length sv)"
  by (simp_all add: data_header_def dataHeaderSize_def slice_def nth_append)

lemma flag_clear:
  "TypeValue AND NOT compressedFlag = TypeValue" "TypeTombstone AND NOT compressedFlag = TypeTombstone"
  "TypeValue AND compressedFlag = 0" "TypeTombstone AND compressedFlag = 0"
  "(TypeValue OR compressedFlag) AND NOT compressedFlag = TypeValue"
  "(TypeValue OR compressedFlag) AND compressedFlag \<noteq> 0" "compressedFlag \<noteq> 0"
  by (simp_all add: TypeValue_def TypeTombstone_def compressedFlag_def)

lemma stored_value_ok:
  assumes "stored_value env compress r = (ty, sv)" and "env_ok env" and "rec_ok r"
  shows "length sv < 2 ^ 32" and "ty AND NOT compressedFlag = rec_type r"
    and "ty AND compressedFlag \<noteq> 0 \<Longrightarrow> decompressValue env sv = Inr (rec_value r)"
    and "ty AND compressedFlag = 0 \<Longrightarrow> sv = rec_value r"
proof -
  consider (plain) "ty = rec_type r" "sv = rec_value r"
    | (packed) "ty = TypeValue OR compressedFlag" "rec_type r = TypeValue" "deflate env (rec_value r) = Some sv"
        "length sv < length (rec_value r)"
    using assms(1) by (auto simp: stored_value_def compressValue_def split: if_splits option.splits prod.splits)
  then have "length sv < 2 ^ 32 \<and> ty AND NOT compressedFlag = rec_type r \<and>
      (if ty AND compressedFlag \<noteq> 0 then decompressValue env sv = Inr (rec_value r) else sv = rec_value r)"
  proof cases
    case plain
    with assms(3) show ?thesis by (auto simp: rec_ok_def flag_clear)
  next
    case packed
    with assms(2,3) show ?thesis
      by (auto simp: rec_ok_def flag_clear env_ok_def decompressValue_def)
  qed
  then show "length sv < 2 ^ 32" and "ty AND NOT compressedFlag = rec_type r"
    and "ty AND compressedFlag \<noteq> 0 \<Longrightarrow> decompressValue env sv = Inr (rec_value r)"
    and "ty AND compressedFlag = 0 \<Longrightarrow> sv = rec_value r"
    by (auto split: if_splits)
qed

definition healthy :: "handle \<Rightarrow> bool" where
  "healthy h \<longleftrightarrow> (\<forall>i. \<not> hbad h i)"

lemma ReadAt64_middle:
  assumes "hdata h = xs @ ys @ zs" and "healthy h" and "off = int (length xs)" and "n = length ys"
  shows "ReadAt64 h n off = Inr ys"
  using assms slice_middle [of xs ys zs]
  by (simp add: ReadAt64_def ReadAt_def healthy_def list_ex_iff)

lemma ReadFull_middle:
  assumes "hdata h = xs @ ys @ zs" and "healthy h" and "pos = length xs" and "n = length ys"
  shows "ReadFull h n pos = Inr ys"
  using assms slice_middle [of xs ys zs]
  by (auto simp: ReadFull_def healthy_def list_ex_iff Let_def)

lemma readRecordAt_encoded:
  assumes "hdata (tbl_file t) = xs @ encode_data env compress r @ zs" and "healthy (tbl_file t)"
    and "\<not> tbl_released t" and "env_ok env" and "rec_ok r"
  shows "readRecordAt env t (int (length xs)) = Inr r"
proof -
  obtain ty sv where sv: "stored_value env compress r = (ty, sv)" by fastforce
  note S = stored_value_ok [OF sv assms(4,5)]
  let ?h = "data_header (rec_key r) (rec_seq r) ty sv"
  have d: "hdata (tbl_file t) = xs @ ?h @ (rec_key r @ sv @ zs)"
    "hdata (tbl_file t) = (xs @ ?h) @ (rec_key r @ sv) @ zs"
    using assms(1) by (simp_all add: encode_data_def sv)
  have k: "unat (of_nat (length (rec_key r)) :: u32) = length (rec_key r)" "unat (of_nat (length sv) :: u32) = length sv"
    using assms(5) S(1) by (simp_all add: rec_ok_def unat_len)
  have h: "table_ReadAt t dataHeaderSize (int (length xs)) = Inr ?h"
    using ReadAt64_middle [OF d(1) assms(2) refl] assms(3) by (simp add: table_ReadAt_def data_header_fields)
  have "table_ReadAt t (length (rec_key r) + length sv) (int (length xs) + int dataHeaderSize) = Inr (rec_key r @ sv)"
    using ReadAt64_middle [OF d(2) assms(2) refl, of "length (rec_key r) + length sv"] assms(3)
    by (simp add: table_ReadAt_def data_header_fields)
  moreover have "rec_key r \<noteq> []" using assms(5) by (simp add: rec_ok_def)
  ultimately show ?thesis
    using S(2-4) by (simp add: readRecordAt_def h data_header_fields k Let_def)
qed

lemma Iterator_Next_encoded:
  assumes "hdata (it_h it) = xs @ encode_data env compress r @ zs" and "healthy (it_h it)"
    and "it_rd it = length xs" and "it_pos it = int (length xs)" and "int (length xs) < it_limit it"
    and "env_ok env" and "rec_ok r"
  shows "Iterator_Next env it = Inr (Some (r, it\<lparr>it_rd := length (xs @ encode_data env compress r),
           it_pos := int (length (xs @ encode_data env compress r))\<rparr>))"
proof -
  obtain ty sv where sv: "stored_value env compress r = (ty, sv)" by fastforce
  note S = stored_value_ok [OF sv assms(6,7)]
  let ?h = "data_header (rec_key r) (rec_seq r) ty sv"
  have d: "hdata (it_h it) = xs @ ?h @ (rec_key r @ sv @ zs)" "hdata (it_h it) = (xs @ ?h) @ rec_key r @ (sv @ zs)"
    "hdata (it_h it) = (xs @ ?h @ rec_key r) @ sv @ zs"
    using assms(1) by (simp_all add: encode_data_def sv)
  have k: "unat (of_nat (length (rec_key r)) :: u32) = length (rec_key r)" "unat (of_nat (length sv) :: u32) = length sv"
    using assms(7) S(1) by (simp_all add: rec_ok_def unat_len)
  have e: "length (encode_data env compress r) = dataHeaderSize + length (rec_key r) + length sv"
    by (simp add: encode_data_def sv data_header_fields)
  have "ReadFull (it_h it) dataHeaderSize (length xs) = Inr ?h"
    "ReadFull (it_h it) (length (rec_key r)) (length xs + dataHeaderSize) = Inr (rec_key r)"
    "ReadFull (it_h it) (length sv) (length xs + dataHeaderSize + length (rec_key r)) = Inr sv"
    using ReadFull_middle [OF d(1) assms(2) refl] ReadFull_middle [OF d(2) assms(2) refl]
      ReadFull_middle [OF d(3) assms(2) refl] by (simp_all add: data_header_fields add.assoc)
  then show ?thesis
    using S(2-4) assms(3-5) by (simp add: Iterator_Next_def data_header_fields k e Let_def add.assoc)
qed

section \<open>Opening a written table\<close>

definition offset_of :: "env \<Rightarrow> bool \<Rightarrow> Record list \<Rightarrow> nat \<Rightarrow> nat" where
  "offset_of env compress rs i = length (data_block env compress (take i rs))"

lemma length_index_entries [simp]: "length (index_entries env compress off rs) = length rs"
  by (induction rs arbitrary: off) simp_all

lemma data_block_Cons: "data_block env compress (r # rs) = encode_data env compress r @ data_block env compress rs"
  by (simp add: data_block_def)

lemma index_entries_nth:
  "i < length rs \<Longrightarrow> index_entries env compress off rs ! i =
     \<lparr>ie_key = rec_key (rs ! i), ie_offset = off + of_nat (offset_of env compress rs i)\<rparr>"
proof (induction rs arbitrary: off i)
  case (Cons r rs)
  then show ?case
    by (cases i) (simp_all add: offset_of_def data_block_Cons data_block_def add.assoc)
qed simp

lemma index_entries_keys: "map ie_key (index_entries env compress off rs) = map rec_key rs"
  by (induction rs arbitrary: off) simp_all

lemma data_block_split:
  assumes "i < length rs"
  shows "data_block env compress rs =
    data_block env compress (take i rs) @ encode_data env compress (rs ! i) @ data_block env compress (drop (Suc i) rs)"
proof -
  have "data_block env compress (take i rs @ rs ! i # drop (Suc i) rs) =
      data_block env compress (take i rs) @ encode_data env compress (rs ! i) @ data_block env compress (drop (Suc i) rs)"
    by (simp add: data_block_def)
  then show ?thesis unfolding id_take_nth_drop [OF assms, symmetric] .
qed

lemma length_encode_index: "length (encode_index ie) = 12 + length (ie_key ie)"
  by (simp add: encode_index_def)

lemma parse_index_entry:
  assumes "length (ie_key ie) < 2 ^ 32" and "ie = \<lparr>ie_key = k, ie_offset = off\<rparr>"
  shows "parse_index (xs @ encode_index ie @ ys) (length xs) acc =
     parse_index (xs @ encode_index ie @ ys) (length (xs @ encode_index ie)) (acc @ [ie])"
proof -
  let ?k = "ie_key ie" and ?b = "xs @ encode_index ie @ ys"
  have "?b = xs @ PutUint32 (of_nat (length ?k)) @ (?k @ PutUint64 (ie_offset ie) @ ys)"
    "?b = (xs @ PutUint32 (of_nat (length ?k))) @ ?k @ (PutUint64 (ie_offset ie) @ ys)"
    "?b = (xs @ PutUint32 (of_nat (length ?k)) @ ?k) @ PutUint64 (ie_offset ie) @ ys"
    by (simp_all add: encode_index_def)
  then have "slice (length xs) (length xs + 4) ?b = PutUint32 (of_nat (length ?k))"
    "slice (length xs + 4) (length xs + 4 + length ?k) ?b = ?k"
    "slice (length xs + 4 + length ?k) (length xs + 4 + length ?k + 8) ?b = PutUint64 (ie_offset ie)"
    using slice_middle length_PutUint32 length_PutUint64
    by (metis length_append add.assoc)+
  moreover have "length ?b \<ge> length xs + 12 + length ?k" by (simp add: length_encode_index)
  ultimately show ?thesis
    using unat_len [OF assms(1)] by (subst parse_index.simps) (simp add: assms(2) Let_def length_encode_index add.commute add.left_commute)
qed

lemma parse_index_block:
  assumes "\<forall>ie \<in> set ies. length (ie_key ie) < 2 ^ 32"
  shows "parse_index (xs @ concat (map encode_index ies)) (length xs) acc = Inr (acc @ ies)"
  using assms
proof (induction ies arbitrary: xs acc)
  case Nil
  then show ?case by (simp add: parse_index.simps)
next
  case (Cons ie ies)
  then show ?case
    using parse_index_entry [of ie "ie_key ie" "ie_offset ie" xs "concat (map encode_index ies)" acc]
      Cons.IH [of "xs @ encode_index ie" "acc @ [ie]"] by simp
qed

lemma footer_fields [codec_simps]:
  "length (footer_bytes io il bo bl n) = footerSize"
  "Uint64 (slice 0 8 (footer_bytes io il bo bl n)) = io"
  "Uint64 (slice 8 16 (footer_bytes io il bo bl n)) = il"
  "Uint64 (slice 16 24 (footer_bytes io il bo bl n)) = bo"
  "Uint64 (slice 24 32 (footer_bytes io il bo bl n)) = bl"
  "Uint64 (slice 32 40 (footer_bytes io il bo bl n)) = n"
  "Uint32 (slice 40 44 (footer_bytes io il bo bl n)) = magicNumber"
  by (simp_all add: footer_bytes_def footerSize_def slice_def)

lemma read_block_middle:
  assumes "hdata h = xs @ ys @ zs" and "healthy h" and "length (xs @ ys) \<le> 2 ^ 48"
  shows "read_block h (of_nat (length xs)) (of_nat (length ys)) msg = Inr ys"
proof -
  have b: "length xs < 2 ^ 63" "length ys < 2 ^ 63" "length ys \<le> 2 ^ 48" using assms(3) by simp_all
  then have u: "unat (of_nat (length ys) :: u64) = length ys" "sint (of_nat (length xs) :: u64) = int (length xs)"
    by (simp_all add: unat_of_nat sint_of_nat_u64)
  then have "makeslice_ok 1 (of_nat (length ys))" using b by (simp add: makeslice_ok_def uint_nat)
  moreover have "(of_nat (length ys) :: u64) = 0 \<longleftrightarrow> ys = []" using u(1) by (metis length_0_conv unsigned_eq_0_iff)
  ultimately show ?thesis
    using ReadAt64_middle [OF assms(1,2) refl refl] by (auto simp: read_block_def u word_greater_zero_iff)
qed

text \<open>
  The invariant of an open table: what \<open>Table_Open\<close> establishes on the file of the records \<open>rs\<close>
  and the read operations rely on. Nothing changes it but the reference count reaching zero.
\<close>

definition opened :: "env \<Rightarrow> bool \<Rightarrow> Record list \<Rightarrow> Table \<Rightarrow> bool" where
  "opened env compress rs t \<longleftrightarrow>
     recs_ok rs \<and> \<not> tbl_released t \<and> healthy (tbl_file t) \<and>
     (\<exists>zs. hdata (tbl_file t) = data_block env compress rs @ zs) \<and> length (data_block env compress rs) < 2 ^ 63 \<and>
     tbl_index t = index_entries env compress 0 rs \<and> filter_wf (tbl_filter t) \<and>
     (\<forall>r \<in> set rs. MayContain (tbl_filter t) (rec_key r) = Inr True) \<and>
     tbl_minKey t = Some (rec_key (hd rs)) \<and> tbl_maxKey t = rec_key (last rs) \<and>
     tbl_dataBlockSz t = int (length (data_block env compress rs))"

lemma table_filter_ok:
  assumes "env_ok env" and "recs_ok rs" and "table_filter env rs = Inr f"
  shows "filter_wf f" and "\<And>r. r \<in> set rs \<Longrightarrow> MayContain f (rec_key r) = Inr True"
proof -
  have "filter_wf (NewForEntries (sizing env) (int (length rs)) (1 / 100))"
    using assms(1,2) by (auto simp: recs_ok_def intro: env_ok_filter)
  from add_keys_ok [OF this, of "map rec_key rs"] assms(3)
  show "filter_wf f" "\<And>r. r \<in> set rs \<Longrightarrow> MayContain f (rec_key r) = Inr True"
    by (auto simp: table_filter_def)
qed

lemma index_entries_short:
  "\<forall>r \<in> set rs. rec_ok r \<Longrightarrow> \<forall>ie \<in> set (index_entries env compress off rs). length (ie_key ie) < 2 ^ 32"
  by (induction rs arbitrary: off) (auto simp: rec_ok_def)

lemma Open_body_ok:
  assumes "env_ok env" and "recs_ok rs" and "table_filter env rs = Inr f" and "healthy h"
    and "hdata h = table_image env compress rs f" and "length (hdata h) \<le> 2 ^ 48"
  shows "\<exists>t. Open_body path h (length (hdata h)) = Inr t \<and> opened env compress rs t \<and> tbl_path t = path \<and>
    tbl_file t = h \<and> tbl_numEntries t = of_nat (length rs) \<and> tbl_fileSize t = int (length (hdata h)) \<and> tbl_refCount t = 1 \<and>
    \<not> tbl_removeOnZero t"
proof -
  let ?dat = "data_block env compress rs" and ?idx = "index_block env compress rs" and ?blm = "Filter_Encode f"
  let ?foot = "footer_bytes (of_nat (length ?dat)) (of_nat (length ?idx)) (of_nat (length ?dat + length ?idx))
     (of_nat (length ?blm)) (of_nat (length rs))"
  let ?sz = "length (hdata h)"
  have img: "hdata h = ?dat @ ?idx @ (?blm @ ?foot)" "hdata h = (?dat @ ?idx) @ ?blm @ ?foot"
    "hdata h = (?dat @ ?idx @ ?blm) @ ?foot @ []"
    using assms(5) by (simp_all add: table_image_def Let_def)
  have sz: "?sz = length ?dat + length ?idx + length ?blm + footerSize"
    using arg_cong [OF img(1), of length] by (simp add: footer_fields)
  note F = table_filter_ok [OF assms(1,2,3)]
  have rs: "rs \<noteq> []" "length rs \<le> 2 ^ 28" "\<forall>r \<in> set rs. rec_ok r" using assms(2) by (auto simp: recs_ok_def)
  have foot: "ReadAt64 h footerSize (int ?sz - int footerSize) = Inr ?foot"
    using ReadAt64_middle [OF img(3) assms(4), of "int ?sz - int footerSize" footerSize] sz by (simp add: footer_fields)
  have idx: "read_block h (of_nat (length ?dat)) (of_nat (length ?idx)) msg = Inr ?idx" for msg
    using read_block_middle [OF img(1) assms(4)] assms(6) sz by simp
  have blm: "read_block h (of_nat (length ?dat + length ?idx)) (of_nat (length ?blm)) msg = Inr ?blm" for msg
    using read_block_middle [OF img(2) assms(4), of msg] assms(6) sz by simp
  have w: "(of_nat a :: u64) + of_nat b \<le> of_nat ?sz" if "a + b \<le> ?sz" for a b
    using that assms(6) by (simp add: word_le_nat_alt unat_of_nat flip: of_nat_add)
  have pidx: "parse_index ?idx 0 [] = Inr (index_entries env compress 0 rs)"
    using parse_index_block [where xs = "[]" and acc = "[]", OF index_entries_short [OF rs(3)]] by (simp add: index_block_def)
  have ends: "ie_key (last (index_entries env compress 0 rs)) = rec_key (last rs)"
    "index_entries env compress 0 rs = ie # ies \<Longrightarrow> ie_key ie = rec_key (hd rs)" for ie ies
    using index_entries_keys [of env compress 0 rs] rs(1)
    by (metis last_map length_0_conv length_index_entries, metis list.map_sel(1) list.sel(1) list.simps(9))
  have lens: "length ?dat < 2 ^ 63" "makeslice_ok 32 (of_nat (length rs))"
    using assms(6) sz rs(2) by (simp_all add: makeslice_ok_def uint_nat unat_of_nat)
  have key: "rec_key (hd rs) \<noteq> []" using rs(1,3) by (simp add: rec_ok_def)
  have "index_entries env compress 0 rs \<noteq> []" using rs(1) by (metis length_0_conv length_index_entries)
  then obtain ie ies where ix: "index_entries env compress 0 rs = ie # ies" by (cases "index_entries env compress 0 rs") auto
  have checks: "\<not> of_nat (length ?dat) + of_nat (length ?idx) > (of_nat ?sz :: u64)"
    "\<not> of_nat (length ?dat + length ?idx) + of_nat (length ?blm) > (of_nat ?sz :: u64)" "\<not> ?sz < footerSize"
    using w [of "length ?dat" "length ?idx"] w [of "length ?dat + length ?idx" "length ?blm"] sz by (simp_all add: not_less)
  have "Open_body path h ?sz = Inr \<lparr>tbl_path = path, tbl_file = h, tbl_index = index_entries env compress 0 rs, tbl_filter = f,
      tbl_numEntries = of_nat (length rs), tbl_minKey = Some (rec_key (hd rs)), tbl_maxKey = rec_key (last rs),
      tbl_dataBlockSz = int (length ?dat), tbl_fileSize = int ?sz, tbl_refCount = 1, tbl_removeOnZero = False, tbl_released = False\<rparr>"
    unfolding Open_body_def foot sum.case footer_fields Let_def idx blm pidx Filter_Decode_Encode [OF F(1)] if_not_P [OF checks(1)]
    using checks lens ends key ix by (simp add: sint_of_nat_u64 del: of_nat_add)
  then show ?thesis
    using F assms(2,4) img(1) lens by (auto simp: opened_def)
qed

section \<open>Reading an open table\<close>

definition visible :: "bytes \<Rightarrow> u64 \<Rightarrow> Record \<Rightarrow> bool" where
  "visible key maxSeq r \<longleftrightarrow> rec_key r = key \<and> rec_seq r \<le> maxSeq"

text \<open>The newest version of a key at or below a sequence number: the first such record of a table.\<close>

definition lookup :: "Record list \<Rightarrow> bytes \<Rightarrow> u64 \<Rightarrow> Record option" where
  "lookup rs key maxSeq = find (visible key maxSeq) rs"

lemma opened_length: "opened env compress rs t \<Longrightarrow> length (tbl_index t) = length rs"
  by (simp add: opened_def)

lemma opened_index:
  assumes "opened env compress rs t" and "i < length rs"
  shows "ie_key (tbl_index t ! i) = rec_key (rs ! i)"
    and "env_ok env \<Longrightarrow> readRecordAt env t (sint (ie_offset (tbl_index t ! i))) = Inr (rs ! i)"
proof -
  obtain zs where zs: "hdata (tbl_file t) = data_block env compress rs @ zs" using assms(1) by (auto simp: opened_def)
  have ix: "tbl_index t = index_entries env compress 0 rs" using assms(1) by (simp add: opened_def)
  show "ie_key (tbl_index t ! i) = rec_key (rs ! i)"
    using assms(2) by (simp add: ix index_entries_nth)
  note sp = data_block_split [OF assms(2), of env compress]
  have "offset_of env compress rs i < 2 ^ 63"
    using assms(1) arg_cong [OF sp, of length] by (simp add: opened_def offset_of_def)
  then have "sint (ie_offset (tbl_index t ! i)) = int (length (data_block env compress (take i rs)))"
    using assms(2) by (simp add: ix index_entries_nth sint_of_nat_u64) (simp add: offset_of_def)
  moreover have "rec_ok (rs ! i)" using assms by (simp add: opened_def recs_ok_def)
  ultimately show "env_ok env \<Longrightarrow> readRecordAt env t (sint (ie_offset (tbl_index t ! i))) = Inr (rs ! i)"
    using readRecordAt_encoded [of t "data_block env compress (take i rs)" env compress "rs ! i"] assms(1) sp zs
    by (simp add: opened_def)
qed

lemma sorted_keys: "sorted_wrt rec_before rs \<Longrightarrow> sorted (map rec_key rs)"
  by (induction rs) (auto simp: rec_before_def less_imp_le)

lemma keys_mono: "sorted_wrt rec_before rs \<Longrightarrow> i \<le> j \<Longrightarrow> j < length rs \<Longrightarrow> rec_key (rs ! i) \<le> rec_key (rs ! j)"
  using sorted_nth_mono [OF sorted_keys, of rs i j] by simp

lemma find_drop:
  assumes "\<And>j. j < i \<Longrightarrow> j < length rs \<Longrightarrow> \<not> P (rs ! j)"
  shows "find P rs = find P (drop i rs)"
proof -
  have "find P (take i rs) = None" using assms by (auto simp: find_None_iff in_set_conv_nth)
  then have "find P (take i rs @ drop i rs) = find P (drop i rs)" by (simp only: find_append option.case)
  then show ?thesis by simp
qed

lemma get_loop_find:
  assumes "opened env compress rs t" and "env_ok env" and "\<And>j. i \<le> j \<Longrightarrow> j < length rs \<Longrightarrow> key \<le> rec_key (rs ! j)"
  shows "get_loop env t key maxSeq i = Inr (find (visible key maxSeq) (drop i rs))"
  using assms(3)
proof (induction "length rs - i" arbitrary: i)
  case 0
  then show ?case using opened_length [OF assms(1)] by (simp add: get_loop.simps)
next
  case (Suc n)
  then have i: "i < length rs" by simp
  note O = opened_index [OF assms(1) i] opened_length [OF assms(1)]
  have dr: "drop i rs = rs ! i # drop (Suc i) rs" by (rule Cons_nth_drop_Suc [OF i, symmetric])
  have srt: "sorted_wrt rec_before rs" using assms(1) by (simp add: opened_def recs_ok_def)
  show ?case
  proof (cases "rec_key (rs ! i) = key")
    case True
    have "get_loop env t key maxSeq (Suc i) = Inr (find (visible key maxSeq) (drop (Suc i) rs))"
      using Suc by (intro Suc.hyps(1)) auto
    with True i O assms(2) show ?thesis
      by (subst get_loop.simps) (simp add: dr visible_def)
  next
    case False
    have "\<not> visible key maxSeq (rs ! j)" if "i \<le> j" "j < length rs" for j
      using keys_mono [OF srt that] Suc.prems [of i] i False by (auto simp: visible_def)
    then have "find (visible key maxSeq) (drop i rs) = None"
      by (auto simp: find_None_iff in_set_conv_nth)
    with False O show ?thesis by (subst get_loop.simps) simp
  qed
qed

lemma index_search:
  assumes "opened env compress rs t"
    and i_def: "i = sort_Search (length (tbl_index t)) (\<lambda>i. bytes_Compare (ie_key (tbl_index t ! i)) key \<ge> 0)"
  shows "i \<le> length rs" and "\<And>j. j < length rs \<Longrightarrow> key \<le> rec_key (rs ! j) \<longleftrightarrow> i \<le> j"
proof -
  have srt: "sorted_wrt rec_before rs" using assms(1) by (auto simp: opened_def recs_ok_def)
  note len = opened_length [OF assms(1)]
  show "i \<le> length rs" unfolding i_def len by (rule sort_Search_le)
  fix j
  assume j: "j < length rs"
  have mono: "bytes_Compare (ie_key (tbl_index t ! b)) key \<ge> 0"
    if "a \<le> b" "b < length rs" "bytes_Compare (ie_key (tbl_index t ! a)) key \<ge> 0" for a b
    using keys_mono [OF srt that(1,2)] that opened_index(1) [OF assms(1)] by auto
  show "key \<le> rec_key (rs ! j) \<longleftrightarrow> i \<le> j"
    using sort_Search_iff [of "length rs" "\<lambda>i. bytes_Compare (ie_key (tbl_index t ! i)) key \<ge> 0" j] mono j
      opened_index(1) [OF assms(1) j] unfolding i_def len by simp
qed

lemma MayContainRange_iff:
  assumes "opened env compress rs t"
  shows "MayContainRange t key \<longleftrightarrow> rec_key (hd rs) \<le> key \<and> key \<le> rec_key (last rs)"
  using assms by (auto simp: MayContainRange_def opened_def)

lemma in_key_range:
  assumes "opened env compress rs t" and "r \<in> set rs"
  shows "rec_key (hd rs) \<le> rec_key r \<and> rec_key r \<le> rec_key (last rs)"
proof -
  have srt: "sorted_wrt rec_before rs" and ne: "rs \<noteq> []" using assms(1) by (auto simp: opened_def recs_ok_def)
  obtain i where "i < length rs" "r = rs ! i" using assms(2) by (auto simp: in_set_conv_nth)
  then show ?thesis
    using keys_mono [OF srt, of 0 i] keys_mono [OF srt, of i "length rs - 1"] ne
    by (simp add: hd_conv_nth last_conv_nth)
qed

lemma Table_Get_lookup:
  assumes "opened env compress rs t" and "env_ok env"
  shows "Table_Get env t key maxSeq = Inr (lookup rs key maxSeq)"
proof (cases "\<exists>r \<in> set rs. rec_key r = key")
  case True
  then obtain r where r: "r \<in> set rs" "rec_key r = key" by blast
  let ?i = "sort_Search (length (tbl_index t)) (\<lambda>i. bytes_Compare (ie_key (tbl_index t ! i)) key \<ge> 0)"
  note S = index_search [OF assms(1), where key = key, OF refl]
  have "get_loop env t key maxSeq ?i = Inr (find (visible key maxSeq) (drop ?i rs))"
    using S(2) by (intro get_loop_find [OF assms]) auto
  moreover have "\<not> visible key maxSeq (rs ! j)" if "j < ?i" "j < length rs" for j
    using S(2) [OF that(2)] that by (auto simp: visible_def)
  then have "find (visible key maxSeq) (drop ?i rs) = lookup rs key maxSeq"
    unfolding lookup_def by (rule find_drop [symmetric])
  moreover have "MayContain (tbl_filter t) key = Inr True" using assms(1) r by (auto simp: opened_def)
  moreover have "MayContainRange t key" using in_key_range [OF assms(1) r(1)] r(2) MayContainRange_iff [OF assms(1)] by simp
  ultimately show ?thesis by (simp add: Table_Get_def)
next
  case False
  then have none: "lookup rs key maxSeq = None" by (auto simp: lookup_def find_None_iff visible_def)
  obtain b where b: "MayContain (tbl_filter t) key = Inr b"
    using MayContain_total [of "tbl_filter t" key] assms(1) by (auto simp: opened_def)
  let ?i = "sort_Search (length (tbl_index t)) (\<lambda>i. bytes_Compare (ie_key (tbl_index t ! i)) key \<ge> 0)"
  have "get_loop env t key maxSeq ?i = Inr None"
  proof (cases "?i < length rs")
    case True
    then show ?thesis using False opened_index(1) [OF assms(1) True] by (subst get_loop.simps) auto
  next
    case False
    then show ?thesis using opened_length [OF assms(1)] by (subst get_loop.simps) auto
  qed
  with none b show ?thesis by (cases b) (simp_all add: Table_Get_def)
qed

subsection \<open>Sequential scan\<close>

definition iterating :: "env \<Rightarrow> bool \<Rightarrow> Record list \<Rightarrow> nat \<Rightarrow> Iterator \<Rightarrow> bool" where
  "iterating env compress rs i it \<longleftrightarrow>
     i \<le> length rs \<and> (\<forall>r \<in> set rs. rec_ok r) \<and> healthy (it_h it) \<and>
     (\<exists>zs. hdata (it_h it) = data_block env compress rs @ zs) \<and>
     it_rd it = offset_of env compress rs i \<and> it_pos it = int (offset_of env compress rs i) \<and>
     it_limit it = int (length (data_block env compress rs))"

lemma offset_of_Suc: "i < length rs \<Longrightarrow>
    offset_of env compress rs (Suc i) = length (data_block env compress (take i rs) @ encode_data env compress (rs ! i))"
  by (simp add: offset_of_def take_Suc_conv_app_nth data_block_def)

lemma Iterator_Next_nth:
  assumes "iterating env compress rs i it" and "env_ok env"
  shows "i < length rs \<Longrightarrow> \<exists>it'. Iterator_Next env it = Inr (Some (rs ! i, it')) \<and> iterating env compress rs (Suc i) it'"
    and "i = length rs \<Longrightarrow> Iterator_Next env it = Inr None"
proof -
  show "i = length rs \<Longrightarrow> Iterator_Next env it = Inr None"
    using assms(1) by (simp add: Iterator_Next_def iterating_def offset_of_def)
  assume i: "i < length rs"
  obtain zs where zs: "hdata (it_h it) = data_block env compress rs @ zs" using assms(1) by (auto simp: iterating_def)
  note sp = data_block_split [OF i, of env compress]
  let ?xs = "data_block env compress (take i rs)"
  have "0 < length (encode_data env compress (rs ! i))"
    by (cases "stored_value env compress (rs ! i)") (simp add: encode_data_def data_header_fields dataHeaderSize_def)
  then have "length ?xs < length (data_block env compress rs)" using arg_cong [OF sp, of length] by simp
  then have "int (length ?xs) < it_limit it" using assms(1) by (simp add: iterating_def)
  then have "Iterator_Next env it = Inr (Some (rs ! i, it\<lparr>it_rd := length (?xs @ encode_data env compress (rs ! i)),
           it_pos := int (length (?xs @ encode_data env compress (rs ! i)))\<rparr>))"
    using assms i zs sp by (intro Iterator_Next_encoded) (auto simp: iterating_def offset_of_def)
  then show "\<exists>it'. Iterator_Next env it = Inr (Some (rs ! i, it')) \<and> iterating env compress rs (Suc i) it'"
    using assms(1) i unfolding offset_of_Suc [OF i, symmetric] by (auto simp: iterating_def)
qed

subsection \<open>Bounded scan\<close>

text \<open>The first record of each run of equal keys.\<close>

function newest :: "Record list \<Rightarrow> Record list" where
  "newest [] = []"
| "newest (r # rs) = r # newest (dropWhile (\<lambda>x. rec_key x = rec_key r) rs)"
  by pat_completeness auto
termination
  by (relation "measure length") (auto simp: length_dropWhile_le less_Suc_eq_le)

definition before_end :: "bytes option \<Rightarrow> Record \<Rightarrow> bool" where
  "before_end b r \<longleftrightarrow> (case b of None \<Rightarrow> True | Some e \<Rightarrow> rec_key r < e)"

definition view :: "bytes option \<Rightarrow> u64 \<Rightarrow> Record list \<Rightarrow> Record list" where
  "view b maxSeq rs = newest (filter (\<lambda>r. rec_seq r \<le> maxSeq) (takeWhile (before_end b) rs))"

lemma group_scan_run:
  assumes "opened env compress rs t" and "env_ok env" and "i \<le> length rs"
  shows "group_scan env t key maxSeq i found =
    (let g = takeWhile (\<lambda>r. rec_key r = key) (drop i rs)
     in Inr (i + length g, case found of Some r \<Rightarrow> Some r | None \<Rightarrow> find (\<lambda>r. rec_seq r \<le> maxSeq) g))"
  using assms(3)
proof (induction "length rs - i" arbitrary: i found)
  case 0
  then show ?case using opened_length [OF assms(1)] by (simp add: group_scan.simps split: option.split)
next
  case (Suc n)
  then have i: "i < length rs" by simp
  note O = opened_index [OF assms(1) i] opened_length [OF assms(1)]
  have dr: "drop i rs = rs ! i # drop (Suc i) rs" by (rule Cons_nth_drop_Suc [OF i, symmetric])
  have "group_scan env t key maxSeq (Suc i) found' =
      (let g = takeWhile (\<lambda>r. rec_key r = key) (drop (Suc i) rs)
       in Inr (Suc i + length g, case found' of Some r \<Rightarrow> Some r | None \<Rightarrow> find (\<lambda>r. rec_seq r \<le> maxSeq) g))" for found'
    using Suc i by (intro Suc.hyps(1)) auto
  then show ?case
    using i O assms(2) by (subst group_scan.simps) (auto simp: dr Let_def split: option.split)
qed

lemma view_Nil [simp]: "view b maxSeq [] = []"
  by (simp add: view_def)

lemma view_end: "\<not> before_end b r \<Longrightarrow> view b maxSeq (r # rs) = []"
  by (simp add: view_def)

lemma filter_first: "find P xs = Some x \<Longrightarrow> \<exists>ys. filter P xs = x # ys"
  by (induction xs) (auto split: if_splits)

text \<open>The view of a list that starts with a run \<open>g\<close> of one key, followed by other keys.\<close>

lemma view_group:
  assumes "\<forall>r \<in> set g. rec_key r = key" and "g \<noteq> []" and "before_end b (hd g)" and "\<forall>r \<in> set rs. rec_key r \<noteq> key"
  shows "view b maxSeq (g @ rs) =
    (case find (\<lambda>r. rec_seq r \<le> maxSeq) g of None \<Rightarrow> view b maxSeq rs | Some r \<Rightarrow> r # view b maxSeq rs)"
proof -
  have "before_end b r" if "r \<in> set g" for r
    using that assms(1-3) hd_in_set [OF assms(2)] by (auto simp: before_end_def split: option.splits)
  then have tw: "takeWhile (before_end b) (g @ rs) = g @ takeWhile (before_end b) rs"
    by (simp add: takeWhile_append)
  let ?P = "\<lambda>r. rec_seq r \<le> maxSeq"
  let ?f = "filter ?P (takeWhile (before_end b) rs)"
  have other: "rec_key x \<noteq> key" if "x \<in> set ?f" for x using that assms(4) set_takeWhileD by fastforce
  show ?thesis
  proof (cases "find ?P g")
    case None
    then have "filter ?P g = []" by (simp add: find_None_iff filter_empty_conv)
    with None show ?thesis by (simp add: view_def tw)
  next
    case (Some r)
    then obtain g' where g': "filter ?P g = r # g'" using filter_first [OF Some] by blast
    have "set (r # g') \<subseteq> set g" using filter_is_subset [of ?P g] unfolding g' .
    then have keys: "rec_key r = key" "\<forall>x \<in> set g'. rec_key x = key" using assms(1) by auto
    have "dropWhile (\<lambda>x. rec_key x = key) ?f = ?f" using other by (cases ?f) auto
    then have "dropWhile (\<lambda>x. rec_key x = rec_key r) (g' @ ?f) = ?f" using keys by (simp add: dropWhile_append2)
    with Some g' show ?thesis by (simp add: view_def tw)
  qed
qed

lemma dropWhile_key_gone:
  assumes "sorted_wrt rec_before rs" and "rec_key (hd rs) = key"
  shows "\<forall>r \<in> set (dropWhile (\<lambda>r. rec_key r = key) rs). rec_key r \<noteq> key"
proof (cases "dropWhile (\<lambda>r. rec_key r = key) rs")
  case (Cons x xs)
  then have x: "rec_key x \<noteq> key" by (metis (mono_tags) dropWhile_eq_Cons_conv)
  obtain ys where rs: "rs = ys @ x # xs" using Cons by (metis dropWhile_eq_Cons_conv)
  have "key \<le> rec_key x"
    using assms rs sorted_keys [OF assms(1)] by (cases ys) (auto simp: sorted_append)
  with x have "key < rec_key x" by simp
  moreover have "\<forall>r \<in> set xs. rec_key x \<le> rec_key r" using sorted_keys [OF assms(1)] rs by (auto simp: sorted_append)
  ultimately show ?thesis using Cons by fastforce
qed (metis dropWhile_eq_Nil_conv empty_iff list.set(1))

lemma range_next_view:
  assumes "opened env compress rs t" and "env_ok env"
  shows "i \<le> length rs \<Longrightarrow>
    \<exists>i'. i' \<le> length rs \<and> range_next env t b maxSeq i =
        Inr (case view b maxSeq (drop i rs) of [] \<Rightarrow> None | r # _ \<Rightarrow> Some r, i') \<and>
      view b maxSeq (drop i' rs) = tl (view b maxSeq (drop i rs))"
proof (induction "length rs - i" arbitrary: i rule: less_induct)
  case less
  note len = opened_length [OF assms(1)]
  show ?case
  proof (cases "i < length rs")
    case False
    with less.prems len show ?thesis by (intro exI [of _ i]) (simp add: range_next.simps)
  next
    case i: True
    note O = opened_index [OF assms(1) i]
    have dr: "drop i rs = rs ! i # drop (Suc i) rs" by (rule Cons_nth_drop_Suc [OF i, symmetric])
    let ?key = "rec_key (rs ! i)"
    have be: "(case b of None \<Rightarrow> False | Some e \<Rightarrow> bytes_Compare ?key e \<ge> 0) \<longleftrightarrow> \<not> before_end b (rs ! i)"
      by (auto simp: before_end_def split: option.split)
    show ?thesis
    proof (cases "before_end b (rs ! i)")
      case False
      then show ?thesis using i O len be
        by (intro exI [of _ i]) (simp add: range_next.simps [of env t b maxSeq i] dr view_end)
    next
      case True
      let ?g = "takeWhile (\<lambda>r. rec_key r = ?key) (drop i rs)" and ?rest = "dropWhile (\<lambda>r. rec_key r = ?key) (drop i rs)"
      let ?j = "i + length ?g"
      have j1: "i < ?j" by (simp add: dr)
      have j2: "?j \<le> length rs" using length_takeWhile_le [of "\<lambda>r. rec_key r = ?key" "drop i rs"] i by simp
      have j3: "drop ?j rs = ?rest"
        using dropWhile_eq_drop [of "\<lambda>r. rec_key r = ?key" "drop i rs"] by (simp add: add.commute)
      note j = j1 j2 j3
      have srt: "sorted_wrt rec_before (drop i rs)" using assms(1) by (simp add: opened_def recs_ok_def sorted_wrt_drop)
      have "\<forall>r \<in> set ?rest. rec_key r \<noteq> ?key" by (rule dropWhile_key_gone [OF srt]) (simp add: dr)
      moreover have "\<forall>r \<in> set ?g. rec_key r = ?key" by (auto dest: set_takeWhileD)
      moreover have "?g \<noteq> []" "before_end b (hd ?g)" using True by (simp_all add: dr)
      ultimately have v: "view b maxSeq (?g @ ?rest) =
          (case find (\<lambda>r. rec_seq r \<le> maxSeq) ?g of None \<Rightarrow> view b maxSeq ?rest | Some r \<Rightarrow> r # view b maxSeq ?rest)"
        by (intro view_group)
      have rn: "range_next env t b maxSeq i =
          (case find (\<lambda>r. rec_seq r \<le> maxSeq) ?g of Some r \<Rightarrow> Inr (Some r, ?j) | None \<Rightarrow> range_next env t b maxSeq ?j)"
        using i O len be True group_scan_run [OF assms, of i ?key maxSeq None] by (subst range_next.simps) (simp add: Let_def)
      show ?thesis
      proof (cases "find (\<lambda>r. rec_seq r \<le> maxSeq) ?g")
        case None
        have "length rs - ?j < length rs - i" using j1 j2 by linarith
        from less.hyps [OF this j2] None j3 rn v show ?thesis unfolding takeWhile_dropWhile_id by simp
      next
        case (Some r)
        with j rn v show ?thesis unfolding takeWhile_dropWhile_id by (intro exI [of _ ?j]) auto
      qed
    qed
  qed
qed

section \<open>Files\<close>

text \<open>The file at \<open>path\<close> is the table of \<open>rs\<close>, readable, and of a size \<^verbatim>\<open>make\<close> accepts.\<close>

definition table_file :: "env \<Rightarrow> bool \<Rightarrow> Record list \<Rightarrow> string \<Rightarrow> fs \<Rightarrow> bool" where
  "table_file env compress rs path d \<longleftrightarrow>
     recs_ok rs \<and> table_at env compress rs path d \<and> (\<forall>i. \<not> unreadable d path i) \<and>
     (\<forall>f. table_filter env rs = Inr f \<longrightarrow> length (table_image env compress rs f) \<le> 2 ^ 48)"

lemma file_Stat_same_files: "file_Stat h d = (r, d') \<Longrightarrow> same_files d d'"
  by (auto simp: file_Stat_def intro: tick_same_files split: prod.splits)

lemma Table_Open_same_files:
  assumes "Table_Open path d = (r, d')"
  shows "same_files d d'"
proof -
  obtain r1 d1 where o: "os_Open path d = (r1, d1)" by fastforce
  note o1 = os_Open_same_files [OF o]
  show ?thesis
  proof (cases r1)
    case (Inl e)
    with assms o o1 show ?thesis by (simp add: Table_Open_def)
  next
    case (Inr h)
    obtain s d2 where s: "file_Stat h d1 = (s, d2)" by fastforce
    note s2 = same_files_trans [OF o1 file_Stat_same_files [OF s]]
    have "d' = d2 \<or> d' = snd (file_Close d2)"
      using assms o Inr s by (auto simp: Table_Open_def split: sum.splits if_splits)
    with s2 file_Close_same_files show ?thesis using same_files_trans by blast
  qed
qed

lemma Table_Open_file:
  assumes "table_file env compress rs path d" and "env_ok env" and "Table_Open path d = (r, d')"
  shows "\<And>t. r = Inr t \<Longrightarrow> opened env compress rs t \<and> tbl_path t = path \<and> tbl_refCount t = 1 \<and> \<not> tbl_removeOnZero t"
    and "no_faults d \<Longrightarrow> \<exists>t. r = Inr t"
proof -
  obtain f where f: "table_filter env rs = Inr f" "synced path (table_image env compress rs f) d"
    using assms(1) by (auto simp: table_file_def table_at_def)
  let ?h = "\<lparr>hdata = table_image env compress rs f, hbad = unreadable d path\<rparr>"
  obtain t0 where t0: "Open_body path ?h (length (hdata ?h)) = Inr t0" "opened env compress rs t0" "tbl_path t0 = path"
    "tbl_refCount t0 = 1" "\<not> tbl_removeOnZero t0"
    using Open_body_ok [OF assms(2) _ f(1), of ?h compress path] assms(1) f(1) by (auto simp: table_file_def healthy_def)
  obtain o1 d1 where t1: "tick d = (o1, d1)" by fastforce
  obtain o2 d2 where t2: "tick d1 = (o2, d2)" by fastforce
  have op: "os_Open path d = (if o1 = Done then Inr ?h else Inl EIO, d1)"
    using f(2) t1 by (cases o1) (auto simp: os_Open_def synced_def)
  have st: "file_Stat ?h d1 = (if o2 = Done then Inr (length (hdata ?h)) else Inl EIO, d2)"
    using t2 by (cases o2) (auto simp: file_Stat_def)
  show "\<And>t. r = Inr t \<Longrightarrow> opened env compress rs t \<and> tbl_path t = path \<and> tbl_refCount t = 1 \<and> \<not> tbl_removeOnZero t"
    using assms(3) op st t0 by (auto simp: Table_Open_def split: if_splits)
  assume "no_faults d"
  then have "o1 = Done" "o2 = Done" using t1 t2 by (auto simp: tick_no_faults)
  then have "r = Inr t0" using assms(3) op st t0(1) by (simp add: Table_Open_def)
  then show "\<exists>t. r = Inr t" by blast
qed

lemma NewIterator_file:
  assumes "table_file env compress rs path d" and "opened env compress rs t" and "tbl_path t = path"
    and "NewIterator t d = (r, d')"
  shows "\<And>it. r = Inr it \<Longrightarrow> iterating env compress rs 0 it" and "no_faults d \<Longrightarrow> \<exists>it. r = Inr it"
    and "same_files d d'"
proof -
  obtain f where f: "table_filter env rs = Inr f" "synced path (table_image env compress rs f) d"
    using assms(1) by (auto simp: table_file_def table_at_def)
  obtain o1 d1 where t1: "tick d = (o1, d1)" by fastforce
  have op: "os_Open path d = (if o1 = Done then Inr \<lparr>hdata = table_image env compress rs f, hbad = unreadable d path\<rparr> else Inl EIO, d1)"
    using f(2) t1 by (cases o1) (auto simp: os_Open_def synced_def)
  show "\<And>it. r = Inr it \<Longrightarrow> iterating env compress rs 0 it"
    using assms op by (auto simp: NewIterator_def iterating_def offset_of_def data_block_def table_file_def healthy_def
        opened_def recs_ok_def table_image_def Let_def split: if_splits)
  show "no_faults d \<Longrightarrow> \<exists>it. r = Inr it" using assms(3,4) op t1 by (auto simp: NewIterator_def tick_no_faults)
  have "d' = d1" using assms(3,4) op by (auto simp: NewIterator_def)
  then show "same_files d d'" using tick_same_files [OF t1] by simp
qed

subsection \<open>Draining an iterator\<close>

fun drain :: "env \<Rightarrow> nat \<Rightarrow> Iterator \<Rightarrow> error + Record list" where
  "drain env 0 it = Inr []"
| "drain env (Suc n) it =
     (case Iterator_Next env it of
        Inl e \<Rightarrow> Inl e
      | Inr None \<Rightarrow> Inr []
      | Inr (Some (r, it')) \<Rightarrow> (case drain env n it' of Inl e \<Rightarrow> Inl e | Inr rs \<Rightarrow> Inr (r # rs)))"

lemma drain_iterating:
  "iterating env compress rs i it \<Longrightarrow> env_ok env \<Longrightarrow> length rs - i \<le> n \<Longrightarrow> drain env n it = Inr (drop i rs)"
proof (induction n arbitrary: i it)
  case 0
  then show ?case by (simp add: iterating_def)
next
  case (Suc n)
  show ?case
  proof (cases "i < length rs")
    case True
    obtain it' where it': "Iterator_Next env it = Inr (Some (rs ! i, it'))" "iterating env compress rs (Suc i) it'"
      using Iterator_Next_nth(1) [OF Suc.prems(1,2) True] by blast
    have "drain env n it' = Inr (drop (Suc i) rs)" using Suc.prems(2,3) by (intro Suc.IH [OF it'(2)]) auto
    then show ?thesis using it'(1) by (simp add: Cons_nth_drop_Suc [OF True])
  next
    case False
    then have "i = length rs" using Suc.prems(1) by (simp add: iterating_def)
    then show ?thesis using Iterator_Next_nth(2) [OF Suc.prems(1,2)] by simp
  qed
qed

fun drain_range :: "env \<Rightarrow> nat \<Rightarrow> RangeIterator \<Rightarrow> error + Record list" where
  "drain_range env 0 it = Inr []"
| "drain_range env (Suc n) it =
     (case RangeIterator_Next env it of
        Inl e \<Rightarrow> Inl e
      | Inr (None, it') \<Rightarrow> Inr []
      | Inr (Some r, it') \<Rightarrow> (case drain_range env n it' of Inl e \<Rightarrow> Inl e | Inr rs \<Rightarrow> Inr (r # rs)))"

definition ranging :: "env \<Rightarrow> bool \<Rightarrow> Record list \<Rightarrow> Record list \<Rightarrow> RangeIterator \<Rightarrow> bool" where
  "ranging env compress rs v it \<longleftrightarrow>
     opened env compress rs (ri_t it) \<and> ri_idx it \<le> length rs \<and> v = view (ri_end it) (ri_maxSeq it) (drop (ri_idx it) rs)"

lemma RangeIterator_Next_view:
  assumes "ranging env compress rs v it" and "env_ok env"
  shows "\<exists>it'. RangeIterator_Next env it = Inr (case v of [] \<Rightarrow> None | r # _ \<Rightarrow> Some r, it') \<and> ranging env compress rs (tl v) it'"
proof -
  have it: "opened env compress rs (ri_t it)" "ri_idx it \<le> length rs" "v = view (ri_end it) (ri_maxSeq it) (drop (ri_idx it) rs)"
    using assms(1) by (auto simp: ranging_def)
  from range_next_view [OF it(1) assms(2) it(2), of "ri_end it" "ri_maxSeq it"] it show ?thesis
    by (fastforce simp: RangeIterator_Next_def ranging_def)
qed

lemma drain_ranging:
  "ranging env compress rs v it \<Longrightarrow> env_ok env \<Longrightarrow> length v \<le> n \<Longrightarrow> drain_range env n it = Inr v"
proof (induction n arbitrary: v it)
  case (Suc n)
  obtain it' where it': "RangeIterator_Next env it = Inr (case v of [] \<Rightarrow> None | r # _ \<Rightarrow> Some r, it')"
    "ranging env compress rs (tl v) it'" using RangeIterator_Next_view [OF Suc.prems(1,2)] by blast
  show ?case
  proof (cases v)
    case (Cons r v')
    then show ?thesis using Suc.IH [OF it'(2) Suc.prems(2)] Suc.prems(3) it'(1) by simp
  qed (use it'(1) in simp)
qed simp

lemma takeWhile_eq_filter_sorted:
  "sorted_wrt rec_before rs \<Longrightarrow> takeWhile (before_end b) rs = filter (before_end b) rs"
proof (induction rs)
  case (Cons r rs)
  have "\<not> before_end b x" if "x \<in> set rs" "\<not> before_end b r" for x
    using that Cons.prems by (auto simp: before_end_def rec_before_def split: option.splits)
  then have "filter (before_end b) rs = []" if "\<not> before_end b r" using that by (simp add: filter_empty_conv)
  with Cons show ?case by auto
qed simp

lemma filter_drop_sorted:
  assumes "\<And>j. j < length rs \<Longrightarrow> P (rs ! j) \<longleftrightarrow> i \<le> j"
  shows "filter P rs = drop i rs"
proof -
  have "filter P (take i rs) = []" using assms by (auto simp: filter_empty_conv in_set_conv_nth)
  moreover have "filter P (drop i rs) = drop i rs" using assms by (auto simp: filter_id_conv in_set_conv_nth)
  ultimately have "filter P (take i rs @ drop i rs) = drop i rs" by (simp only: filter_append append_Nil)
  then show ?thesis by simp
qed

lemma NewRangeIterator_ranging:
  assumes "opened env compress rs t"
  shows "ranging env compress rs (newest (filter (\<lambda>r. rec_seq r \<le> maxSeq) (filter (\<lambda>r. in_range a b (rec_key r)) rs)))
    (NewRangeIterator t a b maxSeq)"
proof -
  let ?i = "ri_idx (NewRangeIterator t a b maxSeq)"
  let ?P = "\<lambda>r. case a of None \<Rightarrow> True | Some s \<Rightarrow> s \<le> rec_key r"
  have "?i \<le> length rs \<and> drop ?i rs = filter ?P rs"
  proof (cases a)
    case (Some s)
    note S = index_search [OF assms, where key = s, OF refl]
    show ?thesis using S(1) filter_drop_sorted [of rs ?P ?i] S(2) by (simp add: NewRangeIterator_def Some)
  qed (simp add: NewRangeIterator_def)
  moreover have "sorted_wrt rec_before (drop ?i rs)" using assms by (simp add: opened_def recs_ok_def sorted_wrt_drop)
  moreover have "filter (before_end b) (filter ?P rs) = filter (\<lambda>r. in_range a b (rec_key r)) rs"
    by (auto simp: before_end_def in_range_def intro: filter_cong split: option.splits)
  ultimately show ?thesis
    using assms takeWhile_eq_filter_sorted [of "drop ?i rs" b]
    by (simp add: ranging_def view_def) (simp add: NewRangeIterator_def)
qed

section \<open>Lifetime of a shared table\<close>

text \<open>
  A table as the engine and its readers share it: the table list holds one reference until it
  retires the table (compaction) or releases it (close), and readers acquire while the list still
  holds it, which is what the engine's read lock ensures.
\<close>

record shared =
  sh_t :: Table
  sh_fs :: fs
  sh_owner :: bool
  sh_readers :: nat

inductive life_step :: "shared \<Rightarrow> shared \<Rightarrow> bool" where
  acquire: "sh_owner s \<Longrightarrow> Table_Acquire (sh_t s) = (ok, t') \<Longrightarrow>
    life_step s (s\<lparr>sh_t := t', sh_readers := (if ok then sh_readers s + 1 else sh_readers s)\<rparr>)"
| release: "0 < sh_readers s \<Longrightarrow> Table_Release (sh_t s) (sh_fs s) = (e, t', d') \<Longrightarrow>
    life_step s (s\<lparr>sh_t := t', sh_fs := d', sh_readers := sh_readers s - 1\<rparr>)"
| retire: "sh_owner s \<Longrightarrow> Table_Retire (sh_t s) (sh_fs s) = (e, t', d') \<Longrightarrow>
    life_step s (s\<lparr>sh_t := t', sh_fs := d', sh_owner := False\<rparr>)"
| close: "sh_owner s \<Longrightarrow> Table_Release (sh_t s) (sh_fs s) = (e, t', d') \<Longrightarrow>
    life_step s (s\<lparr>sh_t := t', sh_fs := d', sh_owner := False\<rparr>)"

inductive life_reach :: "shared \<Rightarrow> shared \<Rightarrow> bool" for s0 where
  start: "life_reach s0 s0"
| next_step: "life_reach s0 s \<Longrightarrow> life_step s s' \<Longrightarrow> life_reach s0 s'"

definition same_data :: "Table \<Rightarrow> Table \<Rightarrow> bool" where
  "same_data t t' \<longleftrightarrow> tbl_path t' = tbl_path t \<and> tbl_file t' = tbl_file t \<and> tbl_index t' = tbl_index t \<and> tbl_filter t' = tbl_filter t \<and>
     tbl_minKey t' = tbl_minKey t \<and> tbl_maxKey t' = tbl_maxKey t \<and> tbl_dataBlockSz t' = tbl_dataBlockSz t \<and>
     tbl_fileSize t' = tbl_fileSize t \<and> tbl_numEntries t' = tbl_numEntries t"

definition references :: "shared \<Rightarrow> int" where
  "references s = int (sh_readers s) + (if sh_owner s then 1 else 0)"

definition life_inv :: "shared \<Rightarrow> shared \<Rightarrow> bool" where
  "life_inv s0 s \<longleftrightarrow>
     same_data (sh_t s0) (sh_t s) \<and>
     tbl_refCount (sh_t s) = references s \<and> (tbl_released (sh_t s) \<longleftrightarrow> references s = 0) \<and>
     (0 < references s \<longrightarrow> fs_get (sh_fs s) (tbl_path (sh_t s0)) = fs_get (sh_fs s0) (tbl_path (sh_t s0))) \<and>
     (\<forall>q. q \<noteq> tbl_path (sh_t s0) \<longrightarrow> fs_get (sh_fs s) q = fs_get (sh_fs s0) q)"

lemma Table_Release_keeps:
  assumes "Table_Release t d = (e, t', d')"
  shows "same_data t t'" and "tbl_refCount t' = tbl_refCount t - 1"
    and "tbl_released t' \<longleftrightarrow> tbl_released t \<or> tbl_refCount t \<le> 1"
    and "1 < tbl_refCount t \<Longrightarrow> d' = d" and "frame (tbl_path t) d d'"
proof -
  have close: "frame p d d1" if "file_Close d = (x, d1)" for x d1 p using that by (rule file_Close_frame)
  have remove: "frame p d1 d2" if "os_Remove p d1 = (x, d2)" for x p d1 d2 using os_Remove_frame [of p d1] that by simp
  show "same_data t t'" "tbl_refCount t' = tbl_refCount t - 1" "tbl_released t' \<longleftrightarrow> tbl_released t \<or> tbl_refCount t \<le> 1"
    "1 < tbl_refCount t \<Longrightarrow> d' = d"
    using assms by (auto simp: Table_Release_def same_data_def Let_def split: if_splits prod.splits)
  show "frame (tbl_path t) d d'"
    using assms by (auto simp: Table_Release_def Let_def frame_refl split: if_splits prod.splits
        intro: close remove frame_trans [OF close remove])
qed

lemma same_data_trans: "same_data a b \<Longrightarrow> same_data b c \<Longrightarrow> same_data a c"
  by (simp add: same_data_def)

lemma life_inv_release:
  assumes "life_inv s0 s" and "Table_Release t d = (e, t', d')" and "same_data (sh_t s) t"
    and "tbl_refCount t = tbl_refCount (sh_t s)" and "tbl_released t = tbl_released (sh_t s)" and "d = sh_fs s"
    and "references s' = references s - 1" and "sh_t s' = t'" and "sh_fs s' = d'" and "0 < references s"
  shows "life_inv s0 s'"
proof -
  note R = Table_Release_keeps [OF assms(2)]
  have p: "tbl_path t = tbl_path (sh_t s0)" using assms(1,3) by (simp add: life_inv_def same_data_def)
  have "same_data (sh_t s0) t'" using assms(1,3) R(1) same_data_trans by (meson life_inv_def)
  then show ?thesis using assms R p by (auto simp: life_inv_def frame_def)
qed

lemma life_inv_step:
  assumes "life_inv s0 s" and "life_step s s'"
  shows "life_inv s0 s'"
  using assms(2)
proof cases
  case (acquire ok t')
  with assms(1) show ?thesis by (auto simp: life_inv_def Table_Acquire_def references_def same_data_def split: if_splits)
next
  case (release e t' d')
  with assms(1) show ?thesis
    by (intro life_inv_release [of s0 s "sh_t s" "sh_fs s" e t' d' s']) (simp_all add: references_def same_data_def)
next
  case (retire e t' d')
  with assms(1) show ?thesis
    by (intro life_inv_release [of s0 s "(sh_t s)\<lparr>tbl_removeOnZero := True\<rparr>" "sh_fs s" e t' d' s'])
      (simp_all add: Table_Retire_def references_def same_data_def)
next
  case (close e t' d')
  with assms(1) show ?thesis
    by (intro life_inv_release [of s0 s "sh_t s" "sh_fs s" e t' d' s']) (simp_all add: references_def same_data_def)
qed

lemma life_inv_reach: "life_reach s0 s \<Longrightarrow> life_inv s0 s0 \<Longrightarrow> life_inv s0 s"
  by (induction rule: life_reach.induct) (auto intro: life_inv_step)

lemma opened_same_data: "opened env compress rs t \<Longrightarrow> same_data t t' \<Longrightarrow> \<not> tbl_released t' \<Longrightarrow> opened env compress rs t'"
  by (simp add: opened_def same_data_def)

section \<open>Properties\<close>

lemma lookup_Some_iff:
  assumes "sorted_wrt rec_before rs"
  shows "lookup rs key maxSeq = Some r \<longleftrightarrow>
    r \<in> set rs \<and> visible key maxSeq r \<and> (\<forall>r' \<in> set rs. visible key maxSeq r' \<longrightarrow> rec_seq r' \<le> rec_seq r)"
  using assms
proof (induction rs)
  case (Cons a rs)
  have a: "rec_before a x" if "x \<in> set rs" for x using Cons.prems that by simp
  then have na: "a \<notin> set rs" by (auto simp: rec_before_def)
  have old: "rec_seq x < rec_seq a" if "x \<in> set rs" "visible key maxSeq x" "visible key maxSeq a" for x
    using a [OF that(1)] that(2,3) by (auto simp: rec_before_def visible_def)
  show ?case
  proof (cases "visible key maxSeq a")
    case True
    then show ?thesis using old by (auto simp: lookup_def dest: less_imp_le leD)
  next
    case False
    then show ?thesis using Cons by (auto simp: lookup_def)
  qed
qed (simp add: lookup_def)

lemma lookup_None_iff: "lookup rs key maxSeq = None \<longleftrightarrow> (\<forall>r \<in> set rs. \<not> visible key maxSeq r)"
  by (auto simp: lookup_def find_None_iff)

text \<open>A bound on the file size that holds with and without compression.\<close>

definition small_table :: "Record list \<Rightarrow> bool" where
  "small_table rs \<longleftrightarrow> sum_list (map (\<lambda>r. 29 + 2 * length (rec_key r) + length (rec_value r)) rs) + 2 ^ 30 \<le> (2 ^ 48 :: nat)"

lemma length_encode_data_le: "length (encode_data env compress r) \<le> 17 + length (rec_key r) + length (rec_value r)"
proof -
  obtain ty sv where sv: "stored_value env compress r = (ty, sv)" by fastforce
  then have "length sv \<le> length (rec_value r)"
    by (auto simp: stored_value_def compressValue_def split: if_splits option.splits prod.splits)
  then show ?thesis by (simp add: encode_data_def sv data_header_fields dataHeaderSize_def)
qed

lemma length_blocks_le:
  "length (data_block env compress rs) + length (concat (map encode_index (index_entries env compress off rs)))
     \<le> sum_list (map (\<lambda>r. 29 + 2 * length (rec_key r) + length (rec_value r)) rs)"
proof (induction rs arbitrary: off)
  case (Cons r rs)
  then have "length (data_block env compress rs) +
      length (concat (map encode_index (index_entries env compress (off + of_nat (length (encode_data env compress r))) rs)))
      \<le> sum_list (map (\<lambda>r. 29 + 2 * length (rec_key r) + length (rec_value r)) rs)" by blast
  then show ?case
    using length_encode_data_le [of env compress r] by (simp add: data_block_Cons length_encode_index)
qed (simp add: data_block_def)

lemma small_table_image:
  assumes "small_table rs" and "filter_wf f"
  shows "length (table_image env compress rs f) \<le> 2 ^ 48"
proof -
  have "(unat (numBits f) + 7) div 8 \<le> 2 ^ 32 div 8" using assms(2) by (intro div_le_mono) (simp add: filter_wf_def)
  then have "length (Filter_Encode f) \<le> 2 ^ 29 + 8" using assms(2) by (simp add: Filter_Encode_def filter_wf_def)
  then show ?thesis
    using assms(1) length_blocks_le [of env compress rs 0]
    by (simp add: table_image_def Let_def footer_fields footerSize_def small_table_def index_block_def)
qed

lemma table_at_table_file:
  assumes "env_ok env" and "table_at env compress rs path d" and "recs_ok rs" and "small_table rs" and "\<forall>i. \<not> unreadable d path i"
  shows "table_file env compress rs path d"
  using assms table_filter_ok(1) [OF assms(1,3)] small_table_image [OF assms(4)] by (simp add: table_file_def)

lemma Write_table_file:
  assumes "no_faults d" and "env_ok env" and "recs_ok rs" and "small_table rs" and "\<forall>i. \<not> unreadable d path i"
  obtains d' where "Write env path rs compress d = (None, d')" and "no_faults d'" and "table_file env compress rs path d'"
proof -
  obtain d' where w: "Write env path rs compress d = (None, d')" "no_faults d'" "table_at env compress rs path d'"
    by (rule Write_no_faults [OF assms(1-3), of path compress])
  moreover have "unreadable d' = unreadable d" using Write_outcome [OF w(1)] by simp
  ultimately have "table_file env compress rs path d'" using assms by (intro table_at_table_file) auto
  with w(1,2) show thesis by (rule that)
qed

lemma demo_small: "small_table demo_recs"
  by (simp add: small_table_def demo_recs_def)

lemma demo_readable: "\<forall>i. \<not> unreadable demo_fs p i"
  by (simp add: demo_fs_def)

text \<open>
  C17: point lookups. Write sorted records to a file, open it, and look up any key at any
  sequence bound: the result is the record of that key with the largest sequence number not above
  the bound, with its original value whether or not it was stored compressed, and nothing if
  there is none. Neither the key range check nor the Bloom filter nor the binary search loses one.
\<close>

theorem table_get_newest_visible:
  assumes "no_faults d" and "env_ok env" and "recs_ok rs" and "small_table rs" and "\<forall>i. \<not> unreadable d path i"
  shows "\<exists>d1 t d2. Write env path rs compress d = (None, d1) \<and> Table_Open path d1 = (Inr t, d2) \<and>
    (\<forall>key maxSeq. case Table_Get env t key maxSeq of
        Inl e \<Rightarrow> False
      | Inr None \<Rightarrow> \<forall>r \<in> set rs. rec_key r = key \<longrightarrow> maxSeq < rec_seq r
      | Inr (Some r) \<Rightarrow> r \<in> set rs \<and> rec_key r = key \<and> rec_seq r \<le> maxSeq \<and>
          (\<forall>r' \<in> set rs. rec_key r' = key \<and> rec_seq r' \<le> maxSeq \<longrightarrow> rec_seq r' \<le> rec_seq r))"
proof -
  obtain d1 where d1: "Write env path rs compress d = (None, d1)" "no_faults d1" "table_file env compress rs path d1"
    by (rule Write_table_file [OF assms, of compress])
  obtain r d2 where o: "Table_Open path d1 = (r, d2)" by fastforce
  then obtain t where t: "r = Inr t" "opened env compress rs t" using Table_Open_file [OF d1(3) assms(2) o] d1(2) by blast
  have srt: "sorted_wrt rec_before rs" using assms(3) by (simp add: recs_ok_def)
  have "case Table_Get env t key maxSeq of Inl e \<Rightarrow> False
      | Inr None \<Rightarrow> \<forall>r \<in> set rs. rec_key r = key \<longrightarrow> maxSeq < rec_seq r
      | Inr (Some r) \<Rightarrow> r \<in> set rs \<and> rec_key r = key \<and> rec_seq r \<le> maxSeq \<and>
          (\<forall>r' \<in> set rs. rec_key r' = key \<and> rec_seq r' \<le> maxSeq \<longrightarrow> rec_seq r' \<le> rec_seq r)" for key maxSeq
    using lookup_Some_iff [OF srt, of key maxSeq] lookup_None_iff [of rs key maxSeq]
    by (auto simp: Table_Get_lookup [OF t(2) assms(2)] visible_def not_le [symmetric] split: option.split)
  with d1(1) o t(1) show ?thesis by blast
qed

theorem table_get_newest_visible_witness:
  "\<exists>d1 t d2. Write demo_env ''t'' demo_recs True demo_fs = (None, d1) \<and> Table_Open ''t'' d1 = (Inr t, d2) \<and>
     Table_Get demo_env t [9] 5 = Inr None"
proof -
  obtain d1 t d2 where d: "Write demo_env ''t'' demo_recs True demo_fs = (None, d1)" "Table_Open ''t'' d1 = (Inr t, d2)"
    "\<forall>key maxSeq. case Table_Get demo_env t key maxSeq of Inl e \<Rightarrow> False
      | Inr None \<Rightarrow> \<forall>r \<in> set demo_recs. rec_key r = key \<longrightarrow> maxSeq < rec_seq r
      | Inr (Some r) \<Rightarrow> r \<in> set demo_recs \<and> rec_key r = key \<and> rec_seq r \<le> maxSeq \<and>
          (\<forall>r' \<in> set demo_recs. rec_key r' = key \<and> rec_seq r' \<le> maxSeq \<longrightarrow> rec_seq r' \<le> rec_seq r)"
    using table_get_newest_visible [OF demo_fs_no_faults demo_env_ok demo_recs_ok demo_small demo_readable, of "''t''" True] by blast
  from d(3) [rule_format, of "[9]" 5] have "Table_Get demo_env t [9] 5 = Inr None"
    by (auto simp: demo_recs_def split: sum.splits option.splits)
  with d(1,2) show ?thesis by blast
qed

text \<open>
  Iterating over a written table returns exactly the records it was written from, every
  version, in order, and then reports the end of the data block.
\<close>

lemma table_iterates_all_records:
  assumes "table_file env compress rs path d" and "env_ok env" and "no_faults d" and "length rs \<le> n"
  shows "\<exists>t d1 it d2. Table_Open path d = (Inr t, d1) \<and> NewIterator t d1 = (Inr it, d2) \<and> drain env n it = Inr rs"
proof -
  obtain r d1 where o: "Table_Open path d = (r, d1)" by fastforce
  then obtain t where t: "r = Inr t" "opened env compress rs t" "tbl_path t = path"
    using Table_Open_file [OF assms(1,2) o] assms(3) by blast
  have sf: "same_files d d1" by (rule Table_Open_same_files [OF o])
  then have tf: "table_file env compress rs path d1" using assms(1) by (simp add: table_file_def table_at_def synced_def same_files_def)
  obtain x d2 where i: "NewIterator t d1 = (x, d2)" by fastforce
  then obtain it where "x = Inr it" "iterating env compress rs 0 it"
    using NewIterator_file [OF tf t(2,3) i] sf assms(3) by (auto simp: same_files_def)
  with drain_iterating [of env compress rs 0 it n] assms(2,4) o t(1) i show ?thesis by auto
qed

text \<open>
  A range scan of an open table returns, for the keys of the half-open interval in ascending
  order, the newest version at or below the sequence bound, one record per key, and skips keys
  all of whose versions are newer.
\<close>

lemma table_range_scan:
  assumes "opened env compress rs t" and "env_ok env" and "length rs \<le> n"
  shows "drain_range env n (NewRangeIterator t a b maxSeq) =
    Inr (newest (filter (\<lambda>r. rec_seq r \<le> maxSeq) (filter (\<lambda>r. in_range a b (rec_key r)) rs)))"
proof -
  let ?v = "newest (filter (\<lambda>r. rec_seq r \<le> maxSeq) (filter (\<lambda>r. in_range a b (rec_key r)) rs))"
  have "length (newest xs) \<le> length xs" for xs
    by (induction xs rule: newest.induct) (auto intro: order_trans [OF _ length_dropWhile_le])
  then have "length ?v \<le> n" using assms(3) order_trans length_filter_le by meson
  then show ?thesis using drain_ranging [OF NewRangeIterator_ranging [OF assms(1)] assms(2)] by blast
qed

text \<open>
  C23: reference counting. However acquires, releases, a retire and a close interleave, as long as
  the table list or some reader holds a reference the table is not released, its file is still on
  disk, and every lookup on it still answers from the records it was written from; when the
  last reference is gone it is released.
\<close>

theorem table_lifetime_safe:
  assumes "life_reach \<lparr>sh_t = t, sh_fs = d, sh_owner = True, sh_readers = 0\<rparr> s"
    and "opened env compress rs t" and "tbl_refCount t = 1" and "env_ok env"
  shows "(sh_owner s \<or> 0 < sh_readers s \<longrightarrow> \<not> tbl_released (sh_t s) \<and>
      fs_get (sh_fs s) (tbl_path t) = fs_get d (tbl_path t) \<and>
      Table_Get env (sh_t s) key maxSeq = Inr (lookup rs key maxSeq)) \<and>
    (\<not> sh_owner s \<and> sh_readers s = 0 \<longrightarrow> tbl_released (sh_t s))"
proof -
  let ?s0 = "\<lparr>sh_t = t, sh_fs = d, sh_owner = True, sh_readers = 0\<rparr>"
  have "\<not> tbl_released t" using assms(2) by (simp add: opened_def)
  then have "life_inv ?s0 ?s0" using assms(3) by (simp add: life_inv_def same_data_def references_def)
  then have "life_inv ?s0 s" by (rule life_inv_reach [OF assms(1)])
  then have inv: "same_data t (sh_t s)" "tbl_released (sh_t s) \<longleftrightarrow> references s = 0"
    "0 < references s \<Longrightarrow> fs_get (sh_fs s) (tbl_path t) = fs_get d (tbl_path t)"
    by (auto simp: life_inv_def)
  have "0 < references s \<longleftrightarrow> sh_owner s \<or> 0 < sh_readers s" "references s = 0 \<longleftrightarrow> \<not> sh_owner s \<and> sh_readers s = 0"
    by (auto simp: references_def)
  moreover have "Table_Get env (sh_t s) key maxSeq = Inr (lookup rs key maxSeq)" if "\<not> tbl_released (sh_t s)"
    using opened_same_data [OF assms(2) inv(1) that] by (rule Table_Get_lookup [OF _ assms(4)])
  ultimately show ?thesis using inv by auto
qed

theorem table_lifetime_safe_witness:
  "\<exists>t (s :: shared). opened demo_env True demo_recs t \<and> \<not> sh_owner s \<and> sh_readers s = 1 \<and> \<not> tbl_released (sh_t s) \<and>
     Table_Get demo_env (sh_t s) [2] 9 = Inr (lookup demo_recs [2] 9)"
proof -
  obtain d where d: "no_faults d" "table_file demo_env True demo_recs ''t'' d"
    by (rule Write_table_file [OF demo_fs_no_faults demo_env_ok demo_recs_ok demo_small demo_readable])
  obtain r d1 where o: "Table_Open ''t'' d = (r, d1)" by fastforce
  obtain t where t: "opened demo_env True demo_recs t" "tbl_refCount t = 1"
    using Table_Open_file [OF d(2) demo_env_ok o] d(1) by blast
  then have nr: "\<not> tbl_released t" by (simp add: opened_def)
  let ?s0 = "\<lparr>sh_t = t, sh_fs = d, sh_owner = True, sh_readers = 0\<rparr>"
  let ?s1 = "\<lparr>sh_t = t\<lparr>tbl_refCount := 2\<rparr>, sh_fs = d, sh_owner = True, sh_readers = 1\<rparr>"
  let ?s2 = "\<lparr>sh_t = t\<lparr>tbl_refCount := 1, tbl_removeOnZero := True\<rparr>, sh_fs = d, sh_owner = False, sh_readers = 1\<rparr>"
  have "life_step ?s0 ?s1"
    using life_step.acquire [of ?s0 True "t\<lparr>tbl_refCount := 2\<rparr>"] t(2) nr by (simp add: Table_Acquire_def)
  moreover have "life_step ?s1 ?s2"
    using life_step.retire [of ?s1 None "t\<lparr>tbl_refCount := 1, tbl_removeOnZero := True\<rparr>" d]
    by (simp add: Table_Retire_def Table_Release_def)
  ultimately have "life_reach ?s0 ?s2" by (meson life_reach.intros)
  from table_lifetime_safe [OF this t(1,2) demo_env_ok, of "[2]" 9] t(1)
  have "opened demo_env True demo_recs t \<and> \<not> sh_owner ?s2 \<and> sh_readers ?s2 = 1 \<and> \<not> tbl_released (sh_t ?s2) \<and>
      Table_Get demo_env (sh_t ?s2) [2] 9 = Inr (lookup demo_recs [2] 9)" by simp
  then show ?thesis by blast
qed

text \<open>
  what Open rejects. A file shorter than a footer, or whose last four bytes are not the magic
  number, is refused with an error (never accepted, never a panic).
\<close>

theorem table_open_rejects:
  assumes "length (hdata h) < footerSize \<or>
    (healthy h \<and> Uint32 (drop (length (hdata h) - 4) (hdata h)) \<noteq> magicNumber)"
  shows "\<exists>m. Open_body path h (length (hdata h)) = Inl (EMsg m)"
proof (cases "length (hdata h) < footerSize")
  case False
  let ?n = "length (hdata h) - footerSize"
  have r: "ReadAt64 h footerSize (int (length (hdata h)) - int footerSize) = Inr (drop ?n (hdata h))"
    using False assms by (intro ReadAt64_middle [of h "take ?n (hdata h)" _ "[]"]) auto
  have "slice 40 44 (drop ?n (hdata h)) = drop (length (hdata h) - 4) (hdata h)"
    using False by (simp add: slice_def footerSize_def)
  with False assms r show ?thesis by (simp add: Open_body_def)
qed (simp add: Open_body_def)

theorem table_open_rejects_witness:
  "\<exists>m. Open_body ''t'' \<lparr>hdata = [1, 2, 3], hbad = (\<lambda>_. False)\<rparr> 3 = Inl (EMsg m)"
  using table_open_rejects [of "\<lparr>hdata = [1, 2, 3], hbad = (\<lambda>_. False)\<rparr>" "''t''"] by (simp add: footerSize_def numeral_3_eq_3)

lemma parse_index_no_panic: "parse_index buf pos acc \<noteq> Inl EPanic"
  by (induction buf pos acc rule: parse_index.induct) (subst parse_index.simps, auto simp: Let_def)

lemma read_block_panics: "read_block h off len msg = Inl EPanic \<longleftrightarrow> \<not> makeslice_ok 1 len"
  by (auto simp: read_block_def split: sum.splits)

text \<open>
  What Open does with a footer whose magic number is right: the two bounds are checked in 64-bit
  arithmetic, and of the three allocations only that of a block longer than the address space panics.
\<close>

lemma Open_body_footer:
  assumes "hdata h = body @ footer_bytes io il bo bl n" and "healthy h"
    and "uint bl \<le> 2 ^ 48" and "uint n * 32 \<le> 2 ^ 48"
  shows "Open_body path h (length (hdata h)) = Inl EPanic \<longleftrightarrow>
    io + il \<le> of_nat (length (hdata h)) \<and> bo + bl \<le> of_nat (length (hdata h)) \<and> 2 ^ 48 < uint il"
proof -
  let ?f = "footer_bytes io il bo bl n" and ?sz = "length (hdata h)"
  have sz: "?sz = length body + footerSize" using assms(1) by (simp add: footer_fields)
  then have foot: "ReadAt64 h footerSize (int ?sz - int footerSize) = Inr ?f"
    using ReadAt64_middle [of h body ?f "[]"] assms(1,2) by (simp add: footer_fields)
  have blocks: "makeslice_ok 1 bl" "makeslice_ok 32 n" "makeslice_ok 1 il \<longleftrightarrow> \<not> 2 ^ 48 < uint il"
    using assms(3,4) by (auto simp: makeslice_ok_def)
  have small: "\<not> ?sz < footerSize" using sz by simp
  note open_def = Open_body_def foot sum.case footer_fields Let_def if_not_P [OF small]
  show ?thesis
  proof (cases "2 ^ 48 < uint il")
    case True
    then have "read_block h io il msg = Inl EPanic" for msg using blocks(3) by (simp add: read_block_panics)
    with True show ?thesis unfolding open_def by (auto simp: not_less)
  next
    case False
    then have "read_block h io il msg \<noteq> Inl EPanic" "read_block h bo bl msg \<noteq> Inl EPanic" for msg
      using blocks by (simp_all add: read_block_panics)
    with False show ?thesis unfolding open_def using blocks(2) parse_index_no_panic
      by (auto split: sum.splits)
  qed
qed

text \<open>
  C24: the bounds check of Open adds offset and length in 64-bit arithmetic, which wraps. On any
  readable file that ends in a footer with the right magic number, whose filter length and entry
  count are small enough to be allocated, Open panics, instead of reporting the file as corrupt,
  exactly when the two wrapped sums lie within the file and the index is longer than the address
  space (48 bits); the index offset and length of a file of at most 2^48 bytes have then overflowed.
\<close>

theorem table_open_wrapped_footer_panics:
  assumes "hdata h = body @ footer_bytes io il bo bl n" and "healthy h" and "length (hdata h) \<le> 2 ^ 48"
    and "uint bl \<le> 2 ^ 48" and "uint n * 32 \<le> 2 ^ 48"
  shows "(Open_body path h (length (hdata h)) = Inl EPanic \<longleftrightarrow>
      io + il \<le> of_nat (length (hdata h)) \<and> bo + bl \<le> of_nat (length (hdata h)) \<and> 2 ^ 48 < uint il) \<and>
    (Open_body path h (length (hdata h)) = Inl EPanic \<longrightarrow> 2 ^ 64 \<le> uint io + uint il)"
proof -
  have "2 ^ 64 \<le> uint io + uint il" if "io + il \<le> of_nat (length (hdata h))" "2 ^ 48 < uint il"
  proof (rule ccontr)
    assume no: "\<not> ?thesis"
    then have "uint (io + il) = uint io + uint il" by (simp add: uint_word_ariths)
    moreover have "unat (io + il) \<le> length (hdata h)"
      using that(1) unfolding word_le_nat_alt unsigned_of_nat by (rule order_trans) (simp only: of_nat_id take_bit_nat_less_eq_self)
    then have "int (unat (io + il)) \<le> int (2 ^ 48)" using assms(3) unfolding of_nat_le_iff by (rule order_trans)
    then have "uint (io + il) \<le> 2 ^ 48" by (simp only: uint_nat of_nat_power of_nat_numeral)
    ultimately show False using that(2) uint_ge_0 [of io] by linarith
  qed
  with Open_body_footer [OF assms(1,2,4,5), of path] show ?thesis by blast
qed

theorem table_open_wrapped_footer_panics_witness:
  "Open_body ''t'' \<lparr>hdata = [1, 2] @ footer_bytes 0xF000000000000010 0x1000000000000000 0 0 0, hbad = (\<lambda>_. False)\<rparr> 46 = Inl EPanic"
proof -
  let ?h = "\<lparr>hdata = [1, 2] @ footer_bytes 0xF000000000000010 0x1000000000000000 0 0 0, hbad = (\<lambda>_. False)\<rparr>"
  have h: "hdata ?h = [1, 2] @ footer_bytes 0xF000000000000010 0x1000000000000000 0 0 0" "healthy ?h"
    by (simp_all add: healthy_def)
  have len: "length (hdata ?h) = 46" by (simp add: footer_fields footerSize_def)
  have "46 \<le> (2 :: nat) ^ 48" by simp
  then have small: "length (hdata ?h) \<le> 2 ^ 48" unfolding len .
  have sums: "(0xF000000000000010 + 0x1000000000000000 :: u64) \<le> of_nat (length (hdata ?h))" "(0 + 0 :: u64) \<le> of_nat (length (hdata ?h))"
    "(2 :: int) ^ 48 < uint (0x1000000000000000 :: u64)" "uint (0 :: u64) \<le> 2 ^ 48" "uint (0 :: u64) * 32 \<le> 2 ^ 48"
    unfolding len by (simp_all add: word_le_nat_alt)
  have "Open_body ''t'' ?h (length (hdata ?h)) = Inl EPanic"
    using table_open_wrapped_footer_panics [OF h small sums(4,5), of "''t''"] sums(1-3) by blast
  then show ?thesis unfolding len .
qed

end
