(* ===== verification/Merge.thy ===== *)
theory Merge
  imports Table
begin

text \<open>
  \<^verbatim>\<open>src/sstable/merge.go\<close>: the k-way merge of compaction. A heap item owns the iterator it came from
  (each iterator has at most one item in the heap), so the pointer of the source is the iterator
  itself. \<open>take_top\<close> is the pop followed by the refill that the code performs twice, \<open>gather\<close> the
  inner loop over one key, \<open>keep\<close> the retention rule, \<open>merge_loop\<close> the outer loop, \<open>Merge\<close> the call.
  The theorems show that the output is the retention rule applied group by group to the sorted
  union of the inputs, and that no reader at or above the oldest active snapshot can tell.
\<close>

section \<open>Definitions\<close>

record mergeItem =
  mi_rec :: Record
  mi_iter :: Iterator

definition mergeHeap_Less :: "mergeItem \<Rightarrow> mergeItem \<Rightarrow> bool" where
  "mergeHeap_Less a b =
     (let c = bytes_Compare (rec_key (mi_rec a)) (rec_key (mi_rec b))
      in if c \<noteq> 0 then c < 0 else rec_seq (mi_rec a) > rec_seq (mi_rec b))"

interpretation mh: lt_order mergeHeap_Less
  by unfold_locales (auto simp: mergeHeap_Less_def Let_def split: if_splits)

definition group_less :: "Record \<Rightarrow> Record \<Rightarrow> bool" where
  "group_less a b \<longleftrightarrow> rec_seq a > rec_seq b"

interpretation gs: lt_order group_less
  by unfold_locales (auto simp: group_less_def)

text \<open>Pop the top item and push its successor from the same iterator.\<close>

definition take_top :: "env \<Rightarrow> mergeItem list \<Rightarrow> error + Record \<times> mergeItem list" where
  "take_top env h =
     (let (top, h1) = heap_Pop mergeHeap_Less h
      in case Iterator_Next env (mi_iter top) of
           Inl e \<Rightarrow> Inl (EWrap ''sstable: merge: read error'' e)
         | Inr None \<Rightarrow> Inr (mi_rec top, h1)
         | Inr (Some (nrec, it)) \<Rightarrow> Inr (mi_rec top, heap_Push mergeHeap_Less h1 \<lparr>mi_rec = nrec, mi_iter = it\<rparr>))"

text \<open>The bytes an iterator has left bound the number of records it can still return.\<close>

definition rem_bytes :: "Iterator \<Rightarrow> nat" where
  "rem_bytes it = length (hdata (it_h it)) - it_rd it"

definition heap_work :: "mergeItem list \<Rightarrow> nat" where
  "heap_work h = sum_list (map (\<lambda>m. Suc (rem_bytes (mi_iter m))) h)"

lemma Iterator_Next_rem:
  assumes "Iterator_Next env it = Inr (Some (r, it'))"
  shows "rem_bytes it' < rem_bytes it"
proof -
  obtain header where h: "ReadFull (it_h it) dataHeaderSize (it_rd it) = Inr header" "it_h it' = it_h it"
    "it_rd it + dataHeaderSize \<le> it_rd it'"
    using assms by (auto simp: Iterator_Next_def Let_def split: if_splits sum.splits)
  then have "it_rd it + dataHeaderSize \<le> length (hdata (it_h it))"
    by (auto simp: ReadFull_def dataHeaderSize_def Let_def split: if_splits)
  with h(2,3) show ?thesis by (simp add: rem_bytes_def dataHeaderSize_def)
qed

lemma heap_work_mset: "heap_work h = sum_mset (image_mset (\<lambda>m. Suc (rem_bytes (mi_iter m))) (mset h))"
  by (simp add: heap_work_def sum_mset_sum_list flip: mset_map)

lemma take_top_work:
  assumes "take_top env h = Inr (r, h')" and "h \<noteq> []"
  shows "heap_work h' < heap_work h"
proof -
  obtain top h1 where p: "heap_Pop mergeHeap_Less h = (top, h1)" by fastforce
  note m = mh.heap_Pop_mset [OF assms(2) p]
  show ?thesis
  proof (cases "Iterator_Next env (mi_iter top)")
    case (Inl e)
    with assms(1) p show ?thesis by (simp add: take_top_def)
  next
    case (Inr x)
    then show ?thesis
      using assms(1) p m Iterator_Next_rem [of env "mi_iter top"]
      by (auto simp: take_top_def heap_work_mset mh.heap_Push_mset split: option.splits)
  qed
qed

function gather :: "env \<Rightarrow> bytes \<Rightarrow> mergeItem list \<Rightarrow> Record list \<Rightarrow> error + Record list \<times> mergeItem list" where
  "gather env key h grp =
     (if length h > 0 \<and> rec_key (mi_rec (h ! 0)) = key
      then case take_top env h of
             Inl e \<Rightarrow> Inl e
           | Inr (r, h') \<Rightarrow> gather env key h' (grp @ [r])
      else Inr (grp, h))"
  by pat_completeness auto
termination
  by (relation "measure (\<lambda>(env, key, h, grp). heap_work h)") (auto intro: take_top_work)

declare gather.simps [simp del]

text \<open>The versions of one key that are kept, newest first; \<open>first\<close> marks the newest.\<close>

fun keep :: "u64 \<Rightarrow> bool \<Rightarrow> bool \<Rightarrow> Record list \<Rightarrow> Record list" where
  "keep minKeepSeq isBottommost first [] = []"
| "keep minKeepSeq isBottommost first (r # rs) =
     (if first \<and> isBottommost \<and> rec_type r = TypeTombstone \<and> rec_seq r \<le> minKeepSeq then []
      else r # (if rec_seq r \<le> minKeepSeq then [] else keep minKeepSeq isBottommost False rs))"

lemma gather_work: "gather env key h grp = Inr (g, h') \<Longrightarrow> heap_work h' \<le> heap_work h"
proof (induction env key h grp rule: gather.induct)
  case (1 env key h grp)
  show ?case
  proof (cases "length h > 0 \<and> rec_key (mi_rec (h ! 0)) = key")
    case True
    then obtain r h1 where t: "take_top env h = Inr (r, h1)" "gather env key h1 (grp @ [r]) = Inr (g, h')"
      using "1.prems" by (auto simp: gather.simps [of env key h] split: sum.splits)
    from "1.IH" [OF True t(1) refl t(2)] take_top_work [OF t(1)] True show ?thesis by simp
  next
    case False
    with "1.prems" show ?thesis by (auto simp: gather.simps [of env key h] split: if_splits)
  qed
qed

function merge_loop :: "env \<Rightarrow> u64 \<Rightarrow> bool \<Rightarrow> mergeItem list \<Rightarrow> Record list \<Rightarrow> error + Record list" where
  "merge_loop env minKeepSeq isBottommost h merged =
     (if length h > 0
      then case take_top env h of
             Inl e \<Rightarrow> Inl e
           | Inr (t, h1) \<Rightarrow>
               (case gather env (rec_key t) h1 [t] of
                  Inl e \<Rightarrow> Inl e
                | Inr (grp, h2) \<Rightarrow>
                    merge_loop env minKeepSeq isBottommost h2
                      (merged @ keep minKeepSeq isBottommost True (sort_Slice group_less grp)))
      else Inr merged)"
  by pat_completeness auto
termination
  by (relation "measure (\<lambda>(env, minKeepSeq, isBottommost, h, merged). heap_work h)")
    (auto dest: gather_work take_top_work intro: le_less_trans)

declare merge_loop.simps [simp del]

fun close_iters :: "nat \<Rightarrow> fs \<Rightarrow> fs" where
  "close_iters 0 d = d"
| "close_iters (Suc n) d = close_iters n (snd (file_Close d))"

fun open_iters :: "Table list \<Rightarrow> nat \<Rightarrow> fs \<Rightarrow> (error + Iterator list) \<times> fs" where
  "open_iters [] n d = (Inr [], d)"
| "open_iters (t # ts) n d =
     (case NewIterator t d of
        (Inl e, d1) \<Rightarrow> (Inl (EWrap ''sstable: merge: opening iterator'' e), close_iters n d1)
      | (Inr it, d1) \<Rightarrow>
          (case open_iters ts (n + 1) d1 of (Inl e, d2) \<Rightarrow> (Inl e, d2) | (Inr its, d2) \<Rightarrow> (Inr (it # its), d2)))"

fun fill_heap :: "env \<Rightarrow> Iterator list \<Rightarrow> mergeItem list \<Rightarrow> error + mergeItem list" where
  "fill_heap env [] h = Inr h"
| "fill_heap env (it # its) h =
     (case Iterator_Next env it of
        Inl e \<Rightarrow> Inl (EWrap ''sstable: merge: initial read'' e)
      | Inr None \<Rightarrow> fill_heap env its h
      | Inr (Some (r, it')) \<Rightarrow> fill_heap env its (heap_Push mergeHeap_Less h \<lparr>mi_rec = r, mi_iter = it'\<rparr>))"

definition Merge :: "env \<Rightarrow> Table list \<Rightarrow> string \<Rightarrow> u64 \<Rightarrow> bool \<Rightarrow> bool \<Rightarrow> fs \<Rightarrow> error option \<times> fs" where
  "Merge env tables outPath minKeepSeq isBottommost compress d =
     (if length tables = 0 then (Some (EMsg ''sstable: cannot merge zero tables''), d)
      else case open_iters tables 0 d of
        (Inl e, d1) \<Rightarrow> (Some e, d1)
      | (Inr iters, d1) \<Rightarrow>
          (case fill_heap env iters (heap_Init mergeHeap_Less []) of
             Inl e \<Rightarrow> (Some e, close_iters (length iters) d1)
           | Inr h \<Rightarrow>
               (case merge_loop env minKeepSeq isBottommost h [] of
                  Inl e \<Rightarrow> (Some e, close_iters (length iters) d1)
                | Inr merged \<Rightarrow>
                    if length merged = 0 then (Some ErrEmptyMerge, close_iters (length iters) d1)
                    else let (e, d2) = Write env outPath merged compress d1
                         in (e, close_iters (length iters) d2))))"

section \<open>Lemmas\<close>

subsection \<open>Strictly sorted lists are determined by their elements\<close>

lemma rec_before_irrefl: "\<not> rec_before r r"
  by (simp add: rec_before_def)

lemma sorted_mset_hd:
  assumes "sorted_wrt rec_before (x # xs)" and "M = mset (x # xs)" and "y \<in># M" and "\<And>z. z \<in># M \<Longrightarrow> \<not> rec_before z y"
  shows "y = x"
proof (rule ccontr)
  assume "y \<noteq> x"
  with assms(2,3) have "y \<in> set xs" by auto
  with assms(1) have "rec_before x y" by simp
  moreover have "x \<in># M" using assms(2) by simp
  ultimately show False using assms(4) by blast
qed

lemma sorted_mset_unique:
  "sorted_wrt rec_before xs \<Longrightarrow> sorted_wrt rec_before ys \<Longrightarrow> mset xs = mset ys \<Longrightarrow> xs = ys"
proof (induction xs arbitrary: ys)
  case (Cons x xs)
  then obtain y ys' where ys: "ys = y # ys'" by (cases ys) auto
  have set: "set (x # xs) = set ys" using Cons.prems(3) by (rule mset_eq_setD)
  have "\<not> rec_before z x" if "z \<in># mset ys" for z
  proof -
    have "z = x \<or> rec_before x z" using that set Cons.prems(1) by auto
    then show ?thesis using rec_before_trans [of x z x] rec_before_irrefl by blast
  qed
  moreover have "x \<in># mset ys" using set by auto
  ultimately have "x = y" using sorted_mset_hd [of y ys' "mset ys" x] Cons.prems(2) ys by blast
  with Cons ys show ?case by simp
qed simp

subsection \<open>What the heap still holds\<close>

text \<open>The records an iterator will still return.\<close>

definition supplies :: "env \<Rightarrow> Iterator \<Rightarrow> Record list \<Rightarrow> bool" where
  "supplies env it xs \<longleftrightarrow> (\<exists>compress rs i. iterating env compress rs i it \<and> xs = drop i rs)"

lemma supplies_Next:
  assumes "supplies env it xs" and "env_ok env"
  shows "xs = [] \<Longrightarrow> Iterator_Next env it = Inr None"
    and "xs = x # xs' \<Longrightarrow> \<exists>it'. Iterator_Next env it = Inr (Some (x, it')) \<and> supplies env it' xs'"
proof -
  obtain compress rs i where it: "iterating env compress rs i it" "xs = drop i rs" using assms(1) by (auto simp: supplies_def)
  show "xs = [] \<Longrightarrow> Iterator_Next env it = Inr None"
    using it Iterator_Next_nth(2) [OF it(1) assms(2)] by (simp add: iterating_def)
  assume x: "xs = x # xs'"
  then have i: "i < length rs" using it(2) by (metis drop_all list.discI not_le)
  then have "x = rs ! i" "xs' = drop (Suc i) rs" using x it(2) by (simp_all add: Cons_nth_drop_Suc [symmetric])
  with Iterator_Next_nth(1) [OF it(1) assms(2) i] show "\<exists>it'. Iterator_Next env it = Inr (Some (x, it')) \<and> supplies env it' xs'"
    by (auto simp: supplies_def)
qed

definition remaining :: "env \<Rightarrow> Iterator \<Rightarrow> Record list" where
  "remaining env it = (case drain env (length (hdata (it_h it))) it of Inr xs \<Rightarrow> xs | Inl e \<Rightarrow> [])"

lemma length_data_block: "length rs \<le> length (data_block env compress rs)"
proof (induction rs)
  case (Cons r rs)
  have "1 \<le> length (encode_data env compress r)"
    by (cases "stored_value env compress r") (simp add: encode_data_def data_header_fields dataHeaderSize_def)
  with Cons show ?case by (simp add: data_block_Cons)
qed simp

lemma remaining_supplies:
  assumes "supplies env it xs" and "env_ok env"
  shows "remaining env it = xs"
proof -
  obtain compress rs i where it: "iterating env compress rs i it" "xs = drop i rs" using assms(1) by (auto simp: supplies_def)
  then have "length rs \<le> length (hdata (it_h it))"
    using length_data_block [of rs env compress] by (auto simp: iterating_def)
  then show ?thesis using drain_iterating [OF it(1) assms(2)] it(2) by (simp add: remaining_def)
qed

definition pending :: "env \<Rightarrow> mergeItem \<Rightarrow> Record list" where
  "pending env m = mi_rec m # remaining env (mi_iter m)"

definition heap_ok :: "env \<Rightarrow> mergeItem list \<Rightarrow> bool" where
  "heap_ok env h \<longleftrightarrow> is_heap mergeHeap_Less (length h) h \<and>
     (\<forall>m \<in> set h. supplies env (mi_iter m) (remaining env (mi_iter m)) \<and> sorted_wrt rec_before (pending env m))"

definition total :: "env \<Rightarrow> mergeItem list \<Rightarrow> Record multiset" where
  "total env h = sum_mset (image_mset (\<lambda>m. mset (pending env m)) (mset h))"

lemma in_total: "r \<in># total env h \<longleftrightarrow> (\<exists>m \<in> set h. r \<in> set (pending env m))"
  by (auto simp: total_def)

lemma mergeHeap_Less_iff: "mergeHeap_Less a b \<longleftrightarrow> rec_before (mi_rec a) (mi_rec b)"
  by (auto simp: mergeHeap_Less_def rec_before_def Let_def split: if_splits)

lemma heap_top_least:
  assumes "heap_ok env h" and "h \<noteq> []" and "r \<in># total env h"
  shows "\<not> rec_before r (mi_rec (h ! 0))"
proof
  assume r: "rec_before r (mi_rec (h ! 0))"
  obtain m where m: "m \<in> set h" "r \<in> set (pending env m)" using assms(3) by (auto simp: in_total)
  then have "r = mi_rec m \<or> rec_before (mi_rec m) r" using assms(1) by (auto simp: heap_ok_def pending_def)
  then have "rec_before (mi_rec m) (mi_rec (h ! 0))" using r rec_before_trans by blast
  moreover obtain i where "i < length h" "m = h ! i" using m(1) by (auto simp: in_set_conv_nth)
  ultimately show False
    using mh.heap_root_least [of "length h" h i] assms(1) by (simp add: heap_ok_def mergeHeap_Less_iff)
qed

lemma take_top_next:
  assumes "heap_ok env h" and "h \<noteq> []" and "env_ok env"
  shows "\<exists>h'. take_top env h = Inr (mi_rec (h ! 0), h') \<and> heap_ok env h' \<and> total env h = add_mset (mi_rec (h ! 0)) (total env h')"
proof -
  obtain m h1 where p: "heap_Pop mergeHeap_Less h = (m, h1)" by fastforce
  have ih: "is_heap mergeHeap_Less (length h) h" using assms(1) by (simp add: heap_ok_def)
  note P = mh.heap_Pop_correct [OF ih assms(2) p]
  have set: "set h = insert m (set h1)" using P(2) by (metis set_mset_add_mset_insert set_mset_mset)
  have m: "supplies env (mi_iter m) (remaining env (mi_iter m))" "sorted_wrt rec_before (pending env m)"
    and ok1: "heap_ok env h1" using assms(1) set P(3) by (auto simp: heap_ok_def)
  have tot: "total env h = mset (pending env m) + total env h1" by (simp add: total_def P(2))
  show ?thesis
  proof (cases "remaining env (mi_iter m)")
    case Nil
    then show ?thesis
      using supplies_Next(1) [OF m(1) assms(3)] p P(1) ok1 tot by (simp add: take_top_def pending_def)
  next
    case (Cons x xs)
    then obtain it' where it': "Iterator_Next env (mi_iter m) = Inr (Some (x, it'))" "supplies env it' xs"
      using supplies_Next(2) [OF m(1) assms(3)] by blast
    let ?m' = "\<lparr>mi_rec = x, mi_iter = it'\<rparr>"
    let ?h' = "heap_Push mergeHeap_Less h1 ?m'"
    have rem: "remaining env it' = xs" by (rule remaining_supplies [OF it'(2) assms(3)])
    then have pm: "pending env m = mi_rec m # pending env ?m'" using Cons by (simp add: pending_def)
    have sh: "set ?h' = insert ?m' (set h1)" by (metis mh.heap_Push_mset set_mset_add_mset_insert set_mset_mset)
    have "heap_ok env ?h'"
      using ok1 mh.heap_Push_heap [OF P(3)] sh rem it'(2) m(2) pm by (auto simp: heap_ok_def)
    moreover have "total env ?h' = mset (pending env ?m') + total env h1" by (simp add: total_def mh.heap_Push_mset)
    ultimately show ?thesis
      using it'(1) p P(1) tot pm by (simp add: take_top_def)
  qed
qed

lemma take_top_sorted:
  assumes "heap_ok env h" and "env_ok env" and "total env h = mset (x # xs)" and "sorted_wrt rec_before (x # xs)"
  shows "h \<noteq> []" and "mi_rec (h ! 0) = x" and "\<exists>h'. take_top env h = Inr (x, h') \<and> heap_ok env h' \<and> total env h' = mset xs"
proof -
  show h: "h \<noteq> []" using assms(3) by (auto simp: total_def)
  have "mi_rec (h ! 0) \<in># total env h" using h by (auto simp: in_total pending_def intro!: bexI [of _ "h ! 0"])
  then show x: "mi_rec (h ! 0) = x"
    using sorted_mset_hd [OF assms(4,3)] heap_top_least [OF assms(1) h] by blast
  from take_top_next [OF assms(1) h assms(2)] x assms(3)
  show "\<exists>h'. take_top env h = Inr (x, h') \<and> heap_ok env h' \<and> total env h' = mset xs" by auto
qed

subsection \<open>The two loops\<close>

text \<open>The retention rule applied to each run of equal keys of a sorted list.\<close>

function retain :: "u64 \<Rightarrow> bool \<Rightarrow> Record list \<Rightarrow> Record list" where
  "retain minKeepSeq isBottommost [] = []"
| "retain minKeepSeq isBottommost (r # rs) =
     keep minKeepSeq isBottommost True (r # takeWhile (\<lambda>x. rec_key x = rec_key r) rs) @
     retain minKeepSeq isBottommost (dropWhile (\<lambda>x. rec_key x = rec_key r) rs)"
  by pat_completeness auto
termination
  by (relation "measure (\<lambda>(m, b, rs). length rs)") (auto simp: length_dropWhile_le less_Suc_eq_le)

lemma gather_run:
  assumes "env_ok env"
  shows "heap_ok env h \<Longrightarrow> total env h = mset xs \<Longrightarrow> sorted_wrt rec_before xs \<Longrightarrow>
    \<exists>h'. gather env key h grp = Inr (grp @ takeWhile (\<lambda>x. rec_key x = key) xs, h') \<and> heap_ok env h' \<and>
      total env h' = mset (dropWhile (\<lambda>x. rec_key x = key) xs)"
proof (induction xs arbitrary: h grp)
  case Nil
  then have "h = []" by (auto simp: total_def pending_def)
  with Nil show ?case by (simp add: gather.simps)
next
  case (Cons x xs)
  note T = take_top_sorted [OF Cons.prems(1) assms Cons.prems(2,3)]
  show ?case
  proof (cases "rec_key x = key")
    case True
    obtain h1 where h1: "take_top env h = Inr (x, h1)" "heap_ok env h1" "total env h1 = mset xs" using T(3) by blast
    have "\<exists>h'. gather env key h1 (grp @ [x]) = Inr ((grp @ [x]) @ takeWhile (\<lambda>x. rec_key x = key) xs, h') \<and> heap_ok env h' \<and>
        total env h' = mset (dropWhile (\<lambda>x. rec_key x = key) xs)"
      using Cons.prems(3) by (intro Cons.IH [OF h1(2,3)]) simp
    with h1(1) T(1,2) True show ?thesis by (simp add: gather.simps [of env key h])
  next
    case False
    with T(2) Cons.prems show ?thesis by (simp add: gather.simps [of env key h])
  qed
qed

lemma seq_sorted:
  "sorted_wrt (\<lambda>a b. \<not> group_less b a) ys \<Longrightarrow> distinct (map rec_seq ys) \<Longrightarrow> \<forall>r \<in> set ys. rec_key r = key \<Longrightarrow>
   sorted_wrt rec_before ys"
proof (induction ys)
  case (Cons y ys)
  have "rec_before y z" if "z \<in> set ys" for z
  proof -
    have "rec_seq z \<noteq> rec_seq y" using Cons.prems(2) that by (auto simp: image_iff)
    moreover have "\<not> rec_seq y < rec_seq z" using Cons.prems(1) that by (auto simp: group_less_def)
    ultimately show ?thesis using Cons.prems(3) that by (auto simp: rec_before_def)
  qed
  with Cons show ?case by simp
qed simp

lemma sort_Slice_same:
  assumes "sorted_wrt rec_before g" and "\<forall>r \<in> set g. rec_key r = key"
  shows "sort_Slice group_less g = g"
proof (rule sorted_mset_unique [OF _ assms(1) gs.sort_Slice_mset])
  have "distinct (map rec_seq g)" using assms
    by (induction g) (fastforce simp: rec_before_def)+
  then have "distinct (map rec_seq (sort_Slice group_less g))"
    using gs.sort_Slice_mset [of g] by (metis mset_eq_imp_distinct_iff mset_map)
  then show "sorted_wrt rec_before (sort_Slice group_less g)"
    using assms(2) gs.sort_Slice_set [of g] by (intro seq_sorted [OF gs.sort_Slice_sorted]) auto
qed

lemma sorted_takeWhile: "sorted_wrt R xs \<Longrightarrow> sorted_wrt R (takeWhile P xs)"
  by (metis sorted_wrt_append takeWhile_dropWhile_id)

lemma sorted_dropWhile: "sorted_wrt R xs \<Longrightarrow> sorted_wrt R (dropWhile P xs)"
  by (metis sorted_wrt_append takeWhile_dropWhile_id)

lemma merge_loop_retain:
  assumes "env_ok env"
  shows "heap_ok env h \<Longrightarrow> total env h = mset xs \<Longrightarrow> sorted_wrt rec_before xs \<Longrightarrow>
    merge_loop env minKeepSeq isBottommost h merged = Inr (merged @ retain minKeepSeq isBottommost xs)"
proof (induction minKeepSeq isBottommost xs arbitrary: h merged rule: retain.induct)
  case (1 m b)
  then have "h = []" by (auto simp: total_def pending_def)
  then show ?case by (simp add: merge_loop.simps)
next
  case (2 m b x xs)
  note T = take_top_sorted [OF "2.prems"(1) assms "2.prems"(2,3)]
  obtain h1 where h1: "take_top env h = Inr (x, h1)" "heap_ok env h1" "total env h1 = mset xs" using T(3) by blast
  let ?g = "takeWhile (\<lambda>y. rec_key y = rec_key x) xs" and ?rest = "dropWhile (\<lambda>y. rec_key y = rec_key x) xs"
  have srt: "sorted_wrt rec_before xs" using "2.prems"(3) by simp
  obtain h2 where h2: "gather env (rec_key x) h1 [x] = Inr (x # ?g, h2)" "heap_ok env h2" "total env h2 = mset ?rest"
    using gather_run [OF assms h1(2,3) srt, of "rec_key x" "[x]"] by auto
  have "sorted_wrt rec_before (x # ?g)"
    using "2.prems"(3) sorted_takeWhile [OF srt] by (auto dest: set_takeWhileD)
  then have "sort_Slice group_less (x # ?g) = x # ?g"
    by (intro sort_Slice_same [of _ "rec_key x"]) (auto dest: set_takeWhileD)
  moreover have "merge_loop env m b h2 ms = Inr (ms @ retain m b ?rest)" for ms
    using sorted_dropWhile [OF srt] by (rule "2.IH" [OF h2(2,3)])
  ultimately show ?case
    using h1(1) h2(1) T(1) by (simp add: merge_loop.simps [of env m b h])
qed

subsection \<open>The retention rule\<close>

lemma keep_prefix: "\<exists>k. keep m b f g = take k g"
proof (induction g arbitrary: f)
  case (Cons r g)
  obtain k where "keep m b False g = take k g" using Cons by blast
  then have "keep m b f (r # g) = [] \<or> keep m b f (r # g) = [r] \<or> keep m b f (r # g) = r # take k g" by simp
  then have "keep m b f (r # g) \<in> {take 0 (r # g), take 1 (r # g), take (Suc k) (r # g)}" by auto
  then show ?case by blast
qed simp

lemma keep_subset: "set (keep m b f g) \<subseteq> set g"
  using keep_prefix [of m b f g] set_take_subset by metis

lemma retain_subset: "set (retain m b xs) \<subseteq> set xs"
proof (induction m b xs rule: retain.induct)
  case (2 m b r rs)
  have "set (keep m b True (r # takeWhile (\<lambda>x. rec_key x = rec_key r) rs)) \<subseteq> set (r # rs)"
    using keep_subset [of m b True "r # takeWhile (\<lambda>x. rec_key x = rec_key r) rs"] by (auto dest: set_takeWhileD)
  with 2 show ?case by (auto dest: set_dropWhileD simp del: keep.simps)
qed simp

lemma retain_sorted: "sorted_wrt rec_before xs \<Longrightarrow> sorted_wrt rec_before (retain m b xs)"
proof (induction m b xs rule: retain.induct)
  case (2 m b r rs)
  let ?g = "r # takeWhile (\<lambda>x. rec_key x = rec_key r) rs" and ?rest = "dropWhile (\<lambda>x. rec_key x = rec_key r) rs"
  have s: "sorted_wrt rec_before (?g @ ?rest)" using "2.prems" by simp
  obtain k where k: "keep m b True ?g = take k ?g" using keep_prefix by blast
  have "sorted_wrt rec_before (take k ?g)" using s sorted_wrt_take unfolding sorted_wrt_append by blast
  moreover have "sorted_wrt rec_before (retain m b ?rest)" using s by (intro "2.IH") (simp add: sorted_wrt_append)
  moreover have "rec_before x y" if "x \<in> set (take k ?g)" "y \<in> set (retain m b ?rest)" for x y
    using that s retain_subset [of m b ?rest] set_take_subset [of k ?g] unfolding sorted_wrt_append by blast
  ultimately show ?case unfolding retain.simps k sorted_wrt_append by blast
qed simp

lemma keep_find_older:
  "m \<le> s \<Longrightarrow> find (\<lambda>r. rec_seq r \<le> s) (keep m b False g) = find (\<lambda>r. rec_seq r \<le> s) g"
  by (induction g) auto

lemma keep_find:
  assumes "m \<le> s"
  shows "find (\<lambda>r. rec_seq r \<le> s) (keep m b True g) = find (\<lambda>r. rec_seq r \<le> s) g \<or>
    (b \<and> find (\<lambda>r. rec_seq r \<le> s) (keep m b True g) = None \<and>
     (\<exists>t g'. g = t # g' \<and> rec_type t = TypeTombstone \<and> rec_seq t \<le> m \<and> find (\<lambda>r. rec_seq r \<le> s) g = Some t))"
  using assms keep_find_older [OF assms] by (cases g) auto

lemma lookup_append_group:
  assumes "\<forall>r \<in> set g. rec_key r = k" and "\<forall>r \<in> set rest. rec_key r \<noteq> k"
  shows "lookup (g @ rest) key s = (if key = k then find (\<lambda>r. rec_seq r \<le> s) g else lookup rest key s)"
proof (cases "key = k")
  case True
  have "find (visible key s) rest = None" using assms(2) True by (auto simp: find_None_iff visible_def)
  moreover have "find (visible key s) g = find (\<lambda>r. rec_seq r \<le> s) g"
    using assms(1) True by (induction g) (auto simp: visible_def)
  ultimately show ?thesis using True by (simp add: lookup_def find_append split: option.split)
next
  case False
  then have "find (visible key s) g = None" using assms(1) by (auto simp: find_None_iff visible_def)
  with False show ?thesis by (simp add: lookup_def find_append)
qed

text \<open>
  At a sequence bound not below the oldest active snapshot the retained records answer every
  lookup like the inputs, or, in a bottommost merge, drop a tombstone that was the answer and the
  newest version of its key.
\<close>

lemma retain_lookup:
  assumes "m \<le> s" and "sorted_wrt rec_before xs"
  shows "lookup (retain m b xs) key s = lookup xs key s \<or>
    (b \<and> lookup (retain m b xs) key s = None \<and>
     (\<exists>t. lookup xs key s = Some t \<and> rec_type t = TypeTombstone \<and> (\<forall>r \<in> set xs. rec_key r = key \<longrightarrow> rec_seq r \<le> rec_seq t)))"
  using assms
proof (induction m b xs rule: retain.induct)
  case (2 m b r rs)
  let ?k = "rec_key r"
  let ?g = "r # takeWhile (\<lambda>x. rec_key x = ?k) rs" and ?rest = "dropWhile (\<lambda>x. rec_key x = ?k) rs"
  have g: "\<forall>x \<in> set ?g. rec_key x = ?k" by (auto dest: set_takeWhileD)
  have "\<forall>x \<in> set (dropWhile (\<lambda>x. rec_key x = ?k) (r # rs)). rec_key x \<noteq> ?k"
    by (rule dropWhile_key_gone [OF "2.prems"(2)]) simp
  then have rest: "\<forall>x \<in> set ?rest. rec_key x \<noteq> ?k" by (simp only: dropWhile.simps(2) simp_thms if_True)
  have rs: "r # rs = ?g @ ?rest" by simp
  have kg: "\<forall>x \<in> set (keep m b True ?g). rec_key x = ?k" using g keep_subset [of m b True ?g] by blast
  have rr: "\<forall>x \<in> set (retain m b ?rest). rec_key x \<noteq> ?k" using rest retain_subset [of m b ?rest] by blast
  have L1: "lookup (r # rs) key s = (if key = ?k then find (\<lambda>r. rec_seq r \<le> s) ?g else lookup ?rest key s)"
    using lookup_append_group [OF g rest, of key s] rs by metis
  have L2: "lookup (retain m b (r # rs)) key s =
      (if key = ?k then find (\<lambda>r. rec_seq r \<le> s) (keep m b True ?g) else lookup (retain m b ?rest) key s)"
    unfolding retain.simps by (rule lookup_append_group [OF kg rr])
  show ?case
  proof (cases "key = ?k")
    case True
    have "rec_seq x \<le> rec_seq r" if "x \<in> set (r # rs)" "rec_key x = ?k" for x
    proof -
      have "x = r \<or> rec_before r x" using that(1) "2.prems"(2) by auto
      then show ?thesis unfolding rec_before_def that(2) by auto
    qed
    moreover from keep_find [OF "2.prems"(1), of b ?g]
    have "find (\<lambda>r. rec_seq r \<le> s) (keep m b True ?g) = find (\<lambda>r. rec_seq r \<le> s) ?g \<or>
        b \<and> find (\<lambda>r. rec_seq r \<le> s) (keep m b True ?g) = None \<and> rec_type r = TypeTombstone \<and> find (\<lambda>r. rec_seq r \<le> s) ?g = Some r"
      by (auto simp del: keep.simps find.simps)
    ultimately show ?thesis unfolding L1 L2 if_P [OF True] using True by blast
  next
    case False
    have "sorted_wrt rec_before ?rest" using sorted_dropWhile "2.prems"(2) by (metis sorted_wrt.simps(2))
    moreover have "x \<in> set ?rest" if "x \<in> set (r # rs)" "rec_key x = key" for x
    proof -
      have "x \<in> set ?g \<or> x \<in> set ?rest" using that(1) unfolding rs set_append by blast
      then show ?thesis using g that(2) False by blast
    qed
    ultimately show ?thesis using "2.IH" [OF "2.prems"(1)] False unfolding L1 L2 if_not_P [OF False] by meson
  qed
qed simp

subsection \<open>The whole call\<close>

text \<open>The tables \<open>ts\<close> are open on files that hold the records \<open>rss\<close>.\<close>

definition tables_hold :: "env \<Rightarrow> fs \<Rightarrow> Table list \<Rightarrow> Record list list \<Rightarrow> bool" where
  "tables_hold env d ts rss \<longleftrightarrow>
     list_all2 (\<lambda>t rs. \<exists>c. opened env c rs t \<and> table_file env c rs (tbl_path t) d) ts rss"

lemma table_file_same: "same_files d d' \<Longrightarrow> table_file env c rs p d \<Longrightarrow> table_file env c rs p d'"
  by (simp add: table_file_def table_at_def synced_def same_files_def)

lemma tables_hold_same: "same_files d d' \<Longrightarrow> tables_hold env d ts rss \<Longrightarrow> tables_hold env d' ts rss"
  unfolding tables_hold_def by (erule list_all2_mono) (auto intro: table_file_same)

lemma close_iters_same: "same_files d (close_iters n d)"
proof (induction n arbitrary: d)
  case (Suc n)
  show ?case using same_files_trans [OF file_Close_same_files Suc] by simp
qed (simp add: same_files_refl)

lemma open_iters_ok:
  assumes "env_ok env"
  shows "tables_hold env d ts rss \<Longrightarrow> open_iters ts n d = (r, d') \<Longrightarrow>
    same_files d d' \<and> (\<forall>its. r = Inr its \<longrightarrow> list_all2 (supplies env) its rss) \<and> (no_faults d \<longrightarrow> (\<exists>its. r = Inr its))"
proof (induction ts n d arbitrary: rss r d' rule: open_iters.induct)
  case (1 n d)
  then show ?case by (auto simp: tables_hold_def same_files_refl)
next
  case (2 t ts n d)
  from "2.prems"(1) obtain rs rss' c where rss: "rss = rs # rss'" "opened env c rs t" "table_file env c rs (tbl_path t) d"
    "tables_hold env d ts rss'" by (auto simp: tables_hold_def list_all2_Cons1)
  obtain x d1 where ni: "NewIterator t d = (x, d1)" by fastforce
  note N = NewIterator_file [OF rss(3,2) refl ni]
  show ?case
  proof (cases x)
    case (Inl e)
    then have "r = Inl (EWrap ''sstable: merge: opening iterator'' e)" "d' = close_iters n d1" using "2.prems"(2) ni by auto
    with Inl N same_files_trans [OF N(3) close_iters_same] show ?thesis by auto
  next
    case (Inr it)
    obtain y d2 where oi: "open_iters ts (n + 1) d1 = (y, d2)" by fastforce
    have IH: "same_files d1 d2" "\<And>its. y = Inr its \<Longrightarrow> list_all2 (supplies env) its rss'" "no_faults d1 \<Longrightarrow> \<exists>its. y = Inr its"
      using "2.IH" [OF ni [symmetric] Inr tables_hold_same [OF N(3) rss(4)] oi] by auto
    have "supplies env it rs" using N(1) Inr unfolding supplies_def by (metis drop0)
    moreover have "r = (case y of Inl e \<Rightarrow> Inl e | Inr its \<Rightarrow> Inr (it # its))" "d' = d2"
      using "2.prems"(2) ni Inr oi by (auto split: sum.splits)
    ultimately show ?thesis
      using IH same_files_trans [OF N(3) IH(1)] N(3) rss(1) by (auto simp: same_files_def split: sum.splits)
  qed
qed

lemma fill_heap_ok:
  assumes "env_ok env"
  shows "list_all2 (supplies env) its rss \<Longrightarrow> \<forall>rs \<in> set rss. sorted_wrt rec_before rs \<Longrightarrow> heap_ok env h \<Longrightarrow>
    \<exists>h'. fill_heap env its h = Inr h' \<and> heap_ok env h' \<and> total env h' = total env h + mset (concat rss)"
proof (induction its arbitrary: rss h)
  case Nil
  then show ?case by simp
next
  case (Cons it its)
  then obtain rs rss' where rss: "rss = rs # rss'" "supplies env it rs" "list_all2 (supplies env) its rss'" by (auto simp: list_all2_Cons1)
  show ?case
  proof (cases rs)
    case Nil
    with supplies_Next(1) [OF rss(2) assms] Cons.IH [OF rss(3) _ Cons.prems(3)] Cons.prems(2) rss(1) show ?thesis by simp
  next
    case (Cons x xs)
    then obtain it' where it': "Iterator_Next env it = Inr (Some (x, it'))" "supplies env it' xs"
      using supplies_Next(2) [OF rss(2) assms] by blast
    let ?m = "\<lparr>mi_rec = x, mi_iter = it'\<rparr>"
    let ?h = "heap_Push mergeHeap_Less h ?m"
    have pm: "pending env ?m = rs" "remaining env it' = xs" using remaining_supplies [OF it'(2) assms] Cons by (simp_all add: pending_def)
    have "set ?h = insert ?m (set h)" by (metis mh.heap_Push_mset set_mset_add_mset_insert set_mset_mset)
    moreover have "is_heap mergeHeap_Less (length ?h) ?h" using Cons.prems(3) by (intro mh.heap_Push_heap) (simp add: heap_ok_def)
    ultimately have ok: "heap_ok env ?h"
      using Cons.prems(2,3) rss(1) pm it'(2) by (auto simp: heap_ok_def)
    have tot: "total env ?h = mset rs + total env h" by (simp add: total_def mh.heap_Push_mset pm(1))
    from Cons.IH [OF rss(3) _ ok] Cons.prems(2) rss(1) it'(1) tot show ?thesis by auto
  qed
qed

lemma heap_ok_empty: "heap_ok env (heap_Init mergeHeap_Less [])" "total env (heap_Init mergeHeap_Less []) = {#}"
  by (simp_all add: heap_ok_def heap_Init_def is_heap_def total_def)

lemma tables_hold_sorted: "tables_hold env d ts rss \<Longrightarrow> \<forall>rs \<in> set rss. sorted_wrt rec_before rs"
  by (auto simp: tables_hold_def list_all2_conv_all_nth in_set_conv_nth opened_def recs_ok_def)

lemma Merge_run:
  assumes "env_ok env" and "tables_hold env d ts rss" and "ts \<noteq> []"
    and "sorted_wrt rec_before xs" and "mset xs = mset (concat rss)"
    and "Merge env ts out m b compress d = (e, d')"
  obtains (unopened) "e \<noteq> None" "same_files d d'" "\<not> no_faults d"
  | (emptied) "retain m b xs = []" "e = Some ErrEmptyMerge" "same_files d d'"
  | (written) d1 d2 where "retain m b xs \<noteq> []" "same_files d d1" "Write env out (retain m b xs) compress d1 = (e, d2)" "same_files d2 d'"
proof -
  obtain r d1 where oi: "open_iters ts 0 d = (r, d1)" by fastforce
  note O = open_iters_ok [OF assms(1,2) oi]
  show thesis
  proof (cases r)
    case (Inl x)
    with assms(3,6) oi O show thesis by (intro unopened) (auto simp: Merge_def)
  next
    case (Inr its)
    then obtain h where h: "fill_heap env its (heap_Init mergeHeap_Less []) = Inr h" "heap_ok env h" "total env h = mset xs"
      using fill_heap_ok [OF assms(1) _ tables_hold_sorted [OF assms(2)] heap_ok_empty(1)] O heap_ok_empty(2) assms(5) by fastforce
    have ml: "merge_loop env m b h [] = Inr (retain m b xs)"
      using merge_loop_retain [OF assms(1) h(2,3) assms(4)] by simp
    show thesis
    proof (cases "retain m b xs = []")
      case True
      with assms(3,6) oi Inr h(1) ml have "e = Some ErrEmptyMerge" "d' = close_iters (length its) d1" by (auto simp: Merge_def)
      with True O show thesis using same_files_trans close_iters_same by (intro emptied) blast+
    next
      case False
      obtain e1 d2 where "Write env out (retain m b xs) compress d1 = (e1, d2)" by fastforce
      with False assms(3,6) oi Inr h(1) ml O show thesis
        by (intro written [of d1 d2]) (auto simp: Merge_def close_iters_same)
    qed
  qed
qed

section \<open>Properties\<close>

text \<open>What a reader gets to see: a tombstone reads as no value.\<close>

definition value_of :: "Record option \<Rightarrow> bytes option" where
  "value_of r = (case r of None \<Rightarrow> None | Some x \<Rightarrow> if rec_type x = TypeTombstone then None else Some (rec_value x))"

lemma retain_value:
  assumes "m \<le> s" and "sorted_wrt rec_before xs"
  shows "value_of (lookup (retain m b xs) key s) = value_of (lookup xs key s)"
  using retain_lookup [OF assms, of b key] by (auto simp: value_of_def)

lemma mset_take_subset: "mset (take k xs) \<subseteq># mset xs"
  by (metis append_take_drop_id mset_append mset_subset_eq_add_left)

lemma retain_mset: "mset (retain m b xs) \<subseteq># mset xs"
proof (induction m b xs rule: retain.induct)
  case (2 m b r rs)
  let ?g = "r # takeWhile (\<lambda>x. rec_key x = rec_key r) rs" and ?rest = "dropWhile (\<lambda>x. rec_key x = rec_key r) rs"
  have "mset (keep m b True ?g) \<subseteq># mset ?g" using keep_prefix [of m b True ?g] mset_take_subset by metis
  then have "mset (keep m b True ?g) + mset (retain m b ?rest) \<subseteq># mset ?g + mset ?rest"
    using 2 by (rule subset_mset.add_mono)
  moreover have "mset ?g + mset ?rest = mset (r # rs)" by (simp flip: mset_append)
  ultimately show ?case by (simp del: keep.simps)
qed simp

lemma retain_ok:
  assumes "\<forall>r \<in> set xs. rec_ok r" and "sorted_wrt rec_before xs" and "length xs \<le> 2 ^ 28" and "small_table xs" and "retain m b xs \<noteq> []"
  shows "recs_ok (retain m b xs)" and "small_table (retain m b xs)"
proof -
  have sub: "mset (retain m b xs) \<subseteq># mset xs" by (rule retain_mset)
  then have "length (retain m b xs) \<le> length xs" by (metis size_mset size_mset_mono)
  then show "recs_ok (retain m b xs)"
    using assms retain_subset [of m b xs] retain_sorted [OF assms(2)] by (auto simp: recs_ok_def)
  let ?w = "\<lambda>r. 29 + 2 * length (rec_key r) + length (rec_value r)"
  obtain M where "mset xs = mset (retain m b xs) + M" using sub by (auto simp: mset_subset_eq_exists_conv)
  then have sum: "sum_mset (image_mset ?w (mset xs)) = sum_mset (image_mset ?w (mset (retain m b xs))) + sum_mset (image_mset ?w M)" by simp
  have lists: "sum_list (map ?w ys) = sum_mset (image_mset ?w (mset ys))" for ys
    by (simp add: sum_mset_sum_list flip: mset_map)
  have "sum_list (map ?w (retain m b xs)) \<le> sum_list (map ?w xs)" unfolding lists sum by (rule le_add1)
  with assms(4) show "small_table (retain m b xs)" by (simp add: small_table_def)
qed

lemma tables_hold_rec_ok:
  assumes "tables_hold env d ts rss" and "mset xs = mset (concat rss)" and "r \<in> set xs"
  shows "rec_ok r"
proof -
  have "r \<in> set (concat rss)" using assms(2,3) mset_eq_setD by blast
  then obtain rs where "rs \<in> set rss" "r \<in> set rs" by auto
  then obtain i where i: "i < length rss" "r \<in> set (rss ! i)" using in_set_conv_nth [of rs rss] by blast
  with assms(1) show ?thesis by (auto simp: tables_hold_def list_all2_conv_all_nth opened_def recs_ok_def)
qed

text \<open>
  C16: compaction does not change what readers see. Merge open tables whose versions are
  pairwise distinct, without faults, and open the output: for every sequence bound at or above the
  oldest active snapshot and every key, a lookup in the output gives the value that the newest
  visible version over all inputs has; if every record was dropped the merge reports so and no
  key had a value. This holds with and without dropping tombstones.
\<close>

theorem merge_preserves_reads:
  assumes "env_ok env" and "tables_hold env d ts rss" and "ts \<noteq> []" and "no_faults d" and "\<forall>i. \<not> unreadable d out i"
    and "sorted_wrt rec_before xs" and "mset xs = mset (concat rss)" and "length xs \<le> 2 ^ 28" and "small_table xs"
    and "minKeepSeq \<le> s"
  shows "\<exists>e d'. Merge env ts out minKeepSeq isBottommost compress d = (e, d') \<and>
    ((e = None \<and> (\<exists>t d''. Table_Open out d' = (Inr t, d'') \<and>
        (\<forall>key. \<exists>r. Table_Get env t key s = Inr r \<and> value_of r = value_of (lookup xs key s)))) \<or>
     (e = Some ErrEmptyMerge \<and> (\<forall>key. value_of (lookup xs key s) = None)))"
proof -
  let ?k = "retain minKeepSeq isBottommost xs"
  obtain e d' where mg: "Merge env ts out minKeepSeq isBottommost compress d = (e, d')" by fastforce
  note val = retain_value [OF assms(10,6), of isBottommost]
  from assms(1,2,3,6,7) mg show ?thesis
  proof (cases rule: Merge_run)
    case unopened
    with assms(4) show ?thesis by simp
  next
    case emptied
    have "value_of (lookup xs key s) = None" for key using val [of key] emptied(1) by (simp add: lookup_def value_of_def)
    with mg emptied show ?thesis by blast
  next
    case (written d1 d2)
    have K: "recs_ok ?k" "small_table ?k"
      using retain_ok [OF _ assms(6,8,9) written(1)] tables_hold_rec_ok [OF assms(2,7)] by auto
    have d1: "no_faults d1" "\<forall>i. \<not> unreadable d1 out i" using written(2) assms(4,5) by (auto simp: same_files_def)
    have w: "e = None" "no_faults d2" "table_file env compress ?k out d2"
      using Write_table_file [OF d1(1) assms(1) K d1(2), of compress] written(3) by auto
    have d': "no_faults d'" "table_file env compress ?k out d'"
      using w table_file_same [OF written(4)] written(4) by (auto simp: same_files_def)
    obtain r d'' where o: "Table_Open out d' = (r, d'')" by fastforce
    obtain t where t: "r = Inr t" "opened env compress ?k t" using Table_Open_file [OF d'(2) assms(1) o] d'(1) by blast
    have "Table_Get env t key s = Inr (lookup ?k key s)" for key by (rule Table_Get_lookup [OF t(2) assms(1)])
    with mg w(1) o t(1) val show ?thesis by blast
  qed
qed

theorem merge_preserves_reads_witness:
  "\<exists>d ts d' t d'' r. ts \<noteq> [] \<and> Merge demo_env ts ''o'' 3 True True d = (None, d') \<and> Table_Open ''o'' d' = (Inr t, d'') \<and>
     Table_Get demo_env t [1] 3 = Inr r \<and> value_of r = Some [7, 7, 7]"
proof -
  obtain d where d: "no_faults d" "table_file demo_env True demo_recs ''t'' d" "\<forall>i. \<not> unreadable d ''o'' i"
  proof (rule Write_table_file [OF demo_fs_no_faults demo_env_ok demo_recs_ok demo_small demo_readable])
    fix d'
    assume w: "Write demo_env ''t'' demo_recs True demo_fs = (None, d')" "no_faults d'" "table_file demo_env True demo_recs ''t'' d'"
    then have "\<forall>i. \<not> unreadable d' ''o'' i" using Write_outcome [OF w(1)] demo_readable by simp
    with w show thesis by (intro that)
  qed
  obtain r d1 where o: "Table_Open ''t'' d = (r, d1)" by fastforce
  obtain t0 where t: "opened demo_env True demo_recs t0" "tbl_path t0 = ''t''" using Table_Open_file [OF d(2) demo_env_ok o] d(1) by blast
  have hold: "tables_hold demo_env d [t0] [demo_recs]" using t d(2) by (auto simp: tables_hold_def)
  have "sorted_wrt rec_before demo_recs" "length demo_recs \<le> 2 ^ 28" using demo_recs_ok by (auto simp: recs_ok_def)
  note merge_preserves_reads [OF demo_env_ok hold _ d(1,3) this(1) _ this(2) demo_small, of 3 3 True True]
  moreover have v: "value_of (lookup demo_recs [1] 3) = Some [7, 7, 7]"
    by (simp add: lookup_def demo_recs_def value_of_def visible_def TypeValue_def TypeTombstone_def)
  ultimately obtain d' t d'' where m: "Merge demo_env [t0] ''o'' 3 True True d = (None, d')" "Table_Open ''o'' d' = (Inr t, d'')"
    "\<forall>key. \<exists>r. Table_Get demo_env t key 3 = Inr r \<and> value_of r = value_of (lookup demo_recs key 3)" by force
  then show ?thesis using v by (metis list.discI)
qed

text \<open>
  Under any faults a merge leaves every file but its output and its temporary file as it was;
  the output path then holds what it held before or the complete, sorted table of the retained
  records, the latter in particular when the merge reports success.
\<close>

lemma merge_inputs_untouched:
  assumes "env_ok env" and "tables_hold env d ts rss" and "ts \<noteq> []"
    and "sorted_wrt rec_before xs" and "mset xs = mset (concat rss)"
    and "Merge env ts out minKeepSeq isBottommost compress d = (e, d')"
  shows "(\<forall>q. q \<noteq> out \<and> q \<noteq> out @ ''.tmp'' \<longrightarrow> fs_get d' q = fs_get d q) \<and>
    (table_at env compress (retain minKeepSeq isBottommost xs) out d' \<or> e \<noteq> None \<and> fs_get d' out = fs_get d out)"
  using assms
proof (cases rule: Merge_run)
  case unopened
  then show ?thesis by (simp add: same_files_def)
next
  case emptied
  then show ?thesis by (simp add: same_files_def)
next
  case (written d1 d2)
  have "table_at env compress (retain minKeepSeq isBottommost xs) out d2 \<Longrightarrow> table_at env compress (retain minKeepSeq isBottommost xs) out d'"
    using written(4) by (simp add: table_at_def synced_def same_files_def)
  with Write_outcome [OF written(3)] written(2,4) show ?thesis by (auto simp: same_files_def)
qed

end
