(* ===== verification/Engine.thy ===== *)
theory Engine
  imports Metrics Memtable Wal Merge
begin

text \<open>
  \<^verbatim>\<open>src/engine/engine.go\<close> and \<^verbatim>\<open>engine_metrics.go\<close>: the store. The \<open>Engine\<close> record has the fields of the
  struct; pointers to MemTables and to open tables are positions in two heaps, \<open>e_mems\<close> and
  \<open>e_heap\<close>, so that reference counts and pointer comparisons mean what they mean in the code. The
  rest of the record is the world: the file system, the random numbers of each skip list and the
  durations a clock measures. Every function that takes \<^verbatim>\<open>e.mu\<close> is split where it releases the lock
  (\<open>getAt_begin\<close>, \<open>getAt_read\<close>, \<open>getAt_end\<close>; \<open>flush_write\<close>, \<open>flush_commit\<close>, \<open>flush_end\<close>; \<open>compact_plan\<close>,
  \<open>compact_merge\<close>, \<open>compact_commit\<close>, \<open>compact_end\<close>), so that the pieces can be interleaved; the code's
  function is their composition. The flush channel is one queue: the first \<open>flushQueueDepth\<close> jobs
  sit in the buffer, later ones belong to writers that wait in their send. Log lines have no effect
  on the state and are left out.
\<close>

section \<open>Definitions\<close>

subsection \<open>Metrics of the engine\<close>

record engineMetrics =
  em_putTotal :: nat
  em_deleteTotal :: nat
  em_getTotal :: nat
  em_getHitTotal :: nat
  em_getMissTotal :: nat
  em_scanTotal :: nat
  em_flushTotal :: nat
  em_flushFailedTotal :: nat
  em_compactionTotal :: nat
  em_compactionFailedTotal :: nat
  em_snapshotOpenTotal :: nat
  em_memtableEntries :: nat
  em_immutableMemtables :: nat
  em_sstablesTotal :: nat
  em_sstablesPerLevel :: nat
  em_activeSnapshots :: nat
  em_writeLatency :: nat
  em_getLatency :: nat
  em_flushLatency :: nat
  em_compactionLatency :: nat

definition newEngineMetrics :: "Registry \<Rightarrow> engineMetrics \<times> Registry" where
  "newEngineMetrics r0 =
     (let (a, r1) = NewCounter ''kvstore_puts_total'' ''Total number of Put calls.'' r0;
          (b, r2) = NewCounter ''kvstore_deletes_total'' ''Total number of Delete calls.'' r1;
          (c, r3) = NewCounter ''kvstore_gets_total'' ''Total number of Get calls (including Snapshot.Get).'' r2;
          (d, r4) = NewCounter ''kvstore_get_hits_total'' ''Total number of Get calls that found a value.'' r3;
          (f, r5) = NewCounter ''kvstore_get_misses_total'' ''Total number of Get calls that found no value.'' r4;
          (g, r6) = NewCounter ''kvstore_scans_total'' ''Total number of Scan calls started (including Snapshot.Scan).'' r5;
          (h, r7) = NewCounter ''kvstore_flushes_total'' ''Total number of MemTable flushes attempted.'' r6;
          (i, r8) = NewCounter ''kvstore_flush_failures_total'' ''Total number of MemTable flushes that failed.'' r7;
          (j, r9) = NewCounter ''kvstore_compactions_total'' ''Total number of compaction passes attempted.'' r8;
          (k, r10) = NewCounter ''kvstore_compaction_failures_total'' ''Total number of compaction passes that failed.'' r9;
          (l, r11) = NewCounter ''kvstore_snapshots_opened_total'' ''Total number of snapshots opened.'' r10;
          (m, r12) = NewGauge ''kvstore_memtable_entries'' ''Current number of entries in the active MemTable.'' r11;
          (n, r13) = NewGauge ''kvstore_immutable_memtables'' ''Current number of immutable MemTables awaiting flush.'' r12;
          (p, r14) = NewGauge ''kvstore_sstables_total'' ''Current total number of on-disk SSTables across all levels.'' r13;
          (q, r15) = NewGaugeVec ''kvstore_sstables_per_level'' ''Current number of SSTables at each compaction level.'' ''level'' r14;
          (s, r16) = NewGauge ''kvstore_active_snapshots'' ''Current number of open snapshots.'' r15;
          (t, r17) = NewLatencyHistogram ''kvstore_write_duration_seconds'' ''Put/Delete call latency in seconds.'' r16;
          (u, r18) = NewLatencyHistogram ''kvstore_get_duration_seconds'' ''Get call latency in seconds.'' r17;
          (v, r19) = NewLatencyHistogram ''kvstore_flush_duration_seconds'' ''MemTable flush latency in seconds.'' r18;
          (w, r20) = NewLatencyHistogram ''kvstore_compaction_duration_seconds'' ''Compaction pass latency in seconds.'' r19
      in (\<lparr>em_putTotal = a, em_deleteTotal = b, em_getTotal = c, em_getHitTotal = d, em_getMissTotal = f, em_scanTotal = g,
           em_flushTotal = h, em_flushFailedTotal = i, em_compactionTotal = j, em_compactionFailedTotal = k,
           em_snapshotOpenTotal = l, em_memtableEntries = m, em_immutableMemtables = n, em_sstablesTotal = p,
           em_sstablesPerLevel = q, em_activeSnapshots = s, em_writeLatency = t, em_getLatency = u, em_flushLatency = v,
           em_compactionLatency = w\<rparr>, r20))"

subsection \<open>The state\<close>

record flushJob =
  fj_mt :: nat
  fj_walPath :: string

record immEntry =
  im_mt :: nat
  im_walPath :: string

record leveledTable =
  lt_level :: int
  lt_table :: nat

record Engine =
  e_dir :: string
  e_mem :: nat
  e_wal :: WAL
  e_walPath :: string
  e_imm :: "immEntry list"
  e_tables :: "leveledTable list"
  e_closed :: bool
  e_seq :: u64
  e_genCounter :: u64
  e_flushThreshold :: i64
  e_l0CompactionTrigger :: int
  e_baseLevelSizeBytes :: i64
  e_levelSizeMultiplier :: i64
  e_maxLevels :: int
  e_compress :: bool
  e_activeSnapshots :: "(u64 \<times> int) list"
  e_reg :: Registry
  e_m :: engineMetrics
  e_compactCh :: bool
  e_flushCh :: "flushJob list"
  e_stopCh :: bool
  e_mems :: "MemTable list"
  e_heap :: "Table list"
  e_fs :: fs
  e_rand :: "nat \<Rightarrow> nat \<Rightarrow> int"
  e_durs :: "nat \<Rightarrow> i64"
  e_now :: nat

definition defaultFlushThreshold :: i64 where
  "defaultFlushThreshold = 4 * 1024 * 1024"

definition defaultL0CompactionTrigger :: int where
  "defaultL0CompactionTrigger = 4"

definition defaultBaseLevelSizeBytes :: i64 where
  "defaultBaseLevelSizeBytes = 2 * 1024 * 1024"

definition defaultLevelSizeMultiplier :: i64 where
  "defaultLevelSizeMultiplier = 10"

definition defaultMaxLevels :: int where
  "defaultMaxLevels = 7"

definition flushQueueDepth :: nat where
  "flushQueueDepth = 16"

datatype EngineOption =
    WithFlushThreshold i64
  | WithL0CompactionTrigger int
  | WithBaseLevelSizeBytes i64
  | WithLevelSizeMultiplier i64
  | WithMaxLevels int
  | WithCompression bool
  | WithMetricsRegistry Registry

fun apply_option :: "EngineOption \<Rightarrow> Engine \<Rightarrow> Engine" where
  "apply_option (WithFlushThreshold n) e = e\<lparr>e_flushThreshold := n\<rparr>"
| "apply_option (WithL0CompactionTrigger n) e = e\<lparr>e_l0CompactionTrigger := n\<rparr>"
| "apply_option (WithBaseLevelSizeBytes n) e = e\<lparr>e_baseLevelSizeBytes := n\<rparr>"
| "apply_option (WithLevelSizeMultiplier n) e = e\<lparr>e_levelSizeMultiplier := n\<rparr>"
| "apply_option (WithMaxLevels n) e = e\<lparr>e_maxLevels := n\<rparr>"
| "apply_option (WithCompression b) e = e\<lparr>e_compress := b\<rparr>"
| "apply_option (WithMetricsRegistry r) e = e\<lparr>e_reg := r\<rparr>"

subsection \<open>Small steps\<close>

definition nextGen :: "Engine \<Rightarrow> u64 \<times> Engine" where
  "nextGen e = (e_genCounter e + 1, e\<lparr>e_genCounter := e_genCounter e + 1\<rparr>)"

definition Inc :: "nat \<Rightarrow> Engine \<Rightarrow> Engine" where
  "Inc p e = e\<lparr>e_reg := at_metric p (on_counter Counter_Inc) (e_reg e)\<rparr>"

definition Adjust :: "nat \<Rightarrow> i64 \<Rightarrow> Engine \<Rightarrow> Engine" where
  "Adjust p delta e = e\<lparr>e_reg := at_metric p (on_gauge (Gauge_Add delta)) (e_reg e)\<rparr>"

text \<open>\<^verbatim>\<open>h.Observe(time.Since(start))\<close>: the measured duration comes from the world.\<close>

definition Observe :: "nat \<Rightarrow> Engine \<Rightarrow> Engine" where
  "Observe p e =
     e\<lparr>e_reg := at_metric p (on_histogram (Histogram_Observe (e_durs e (e_now e)))) (e_reg e), e_now := e_now e + 1\<rparr>"

definition new_memtable :: "Engine \<Rightarrow> nat \<times> Engine" where
  "new_memtable e = (length (e_mems e), e\<lparr>e_mems := e_mems e @ [MemTable_New (e_rand e (length (e_mems e)))]\<rparr>)"

definition new_table :: "Table \<Rightarrow> Engine \<Rightarrow> nat \<times> Engine" where
  "new_table t e = (length (e_heap e), e\<lparr>e_heap := e_heap e @ [t]\<rparr>)"

definition on_fs :: "(fs \<Rightarrow> 'r \<times> fs) \<Rightarrow> Engine \<Rightarrow> 'r \<times> Engine" where
  "on_fs f e = (let (r, d) = f (e_fs e) in (r, e\<lparr>e_fs := d\<rparr>))"

definition buildRecords :: "MemTable \<Rightarrow> Record list" where
  "buildRecords mt =
     map (\<lambda>(k, v). \<lparr>rec_key = k, rec_value = ent_value v, rec_type = ent_type v, rec_seq = ent_seq v\<rparr>) (MemTable_All mt)"

definition allTablesLocked :: "Engine \<Rightarrow> nat list" where
  "allTablesLocked e = map lt_table (e_tables e)"

definition levelTablesLocked :: "int \<Rightarrow> Engine \<Rightarrow> nat list" where
  "levelTablesLocked level e = map lt_table (filter (\<lambda>lt. lt_level lt = level) (e_tables e))"

subsection \<open>Writing\<close>

definition rotate :: "Engine \<Rightarrow> error option \<times> Engine" where
  "rotate e =
     (if sint (MemTable_Size (e_mems e ! e_mem e)) < sint (e_flushThreshold e) then (None, e)
      else
        let oldMem = e_mem e; oldWAL = e_wal e; oldWALPath = e_walPath e;
            (newGen, e1) = nextGen e;
            newWALPath = walFileName (e_dir e1) newGen;
            (r, e2) = on_fs (WAL_Open newWALPath) e1
        in case r of
             Inl x \<Rightarrow> (Some (EWrap ''opening new wal'' x), e2)
           | Inr newWAL \<Rightarrow>
               let (m, e3) = new_memtable e2;
                   e4 = e3\<lparr>e_mem := m, e_wal := newWAL, e_walPath := newWALPath,
                           e_imm := e_imm e3 @ [\<lparr>im_mt = oldMem, im_walPath = oldWALPath\<rparr>]\<rparr>;
                   (c, e5) = on_fs (WAL_Close oldWAL) e4
               in (None, e5\<lparr>e_flushCh := e_flushCh e5 @ [\<lparr>fj_mt = oldMem, fj_walPath = oldWALPath\<rparr>]\<rparr>))"

text \<open>A writer that rotated waits in the channel send while this holds.\<close>

definition sender_waits :: "Engine \<Rightarrow> bool" where
  "sender_waits e \<longleftrightarrow> flushQueueDepth < length (e_flushCh e)"

definition engine_write :: "bytes \<Rightarrow> bytes \<Rightarrow> RecordType \<Rightarrow> Engine \<Rightarrow> error option \<times> Engine" where
  "engine_write key val typ e =
     (if e_closed e then (Some ErrClosed, e)
      else
        let seq = e_seq e + 1;
            e1 = e\<lparr>e_seq := seq\<rparr>;
            (r, w, d) = WAL_Append (e_wal e1) \<lparr>wr_type = typ, wr_key = key, wr_value = val, wr_seq = seq\<rparr> (e_fs e1);
            e2 = e1\<lparr>e_wal := w, e_fs := d\<rparr>
        in case r of
             Some x \<Rightarrow> (Some (EWrap ''engine: wal append failed'' x), e2)
           | None \<Rightarrow>
               let mt = e_mems e2 ! e_mem e2;
                   mt' = (if typ = RecordPut then MemTable_Put mt key val seq else MemTable_Delete mt key seq);
                   e3 = e2\<lparr>e_mems := (e_mems e2)[e_mem e2 := mt']\<rparr>
               in if sint (MemTable_Size mt') \<ge> sint (e_flushThreshold e3)
                  then let (r4, e4) = rotate e3 in (map_option (EWrap ''engine: rotating memtable'') r4, e4)
                  else (None, e3))"

definition Put :: "bytes \<Rightarrow> bytes \<Rightarrow> Engine \<Rightarrow> error option \<times> Engine" where
  "Put key val e =
     (if length key = 0 then (Some ErrEmptyKey, e)
      else let (err, e1) = engine_write key val RecordPut e
           in (err, Inc (em_putTotal (e_m e1)) (Observe (em_writeLatency (e_m e1)) e1)))"

definition Delete :: "bytes \<Rightarrow> Engine \<Rightarrow> error option \<times> Engine" where
  "Delete key e =
     (if length key = 0 then (Some ErrEmptyKey, e)
      else let (err, e1) = engine_write key [] RecordDelete e
           in (err, Inc (em_deleteTotal (e_m e1)) (Observe (em_writeLatency (e_m e1)) e1)))"

subsection \<open>Reading\<close>

definition unboundedSeq :: u64 where
  "unboundedSeq = NOT 0"

definition acquire :: "nat \<Rightarrow> Table list \<Rightarrow> Table list" where
  "acquire p ts = ts[p := snd (Table_Acquire (ts ! p))]"

definition release :: "nat \<Rightarrow> Engine \<Rightarrow> error option \<times> Engine" where
  "release p e =
     (let (r, t, d) = Table_Release (e_heap e ! p) (e_fs e) in (r, e\<lparr>e_heap := (e_heap e)[p := t], e_fs := d\<rparr>))"

definition releaseAll :: "nat list \<Rightarrow> Engine \<Rightarrow> Engine" where
  "releaseAll ps e = foldl (\<lambda>e p. snd (release p e)) e ps"

text \<open>What a reader takes along when it gives up the lock.\<close>

record reader =
  rd_mt :: nat
  rd_imm :: "immEntry list"
  rd_tables :: "nat list"

definition getAt_begin :: "Engine \<Rightarrow> (error + reader) \<times> Engine" where
  "getAt_begin e =
     (if e_closed e then (Inl ErrClosed, e)
      else let tables = allTablesLocked e
           in (Inr \<lparr>rd_mt = e_mem e, rd_imm = e_imm e, rd_tables = tables\<rparr>,
               e\<lparr>e_heap := foldl (\<lambda>h p. acquire p h) (e_heap e) tables\<rparr>))"

definition consider_rec :: "u64 \<Rightarrow> Record \<Rightarrow> Record option \<Rightarrow> Record option" where
  "consider_rec maxSeq r best =
     (if rec_seq r > maxSeq then best
      else case best of None \<Rightarrow> Some r | Some b \<Rightarrow> if rec_seq r > rec_seq b then Some r else best)"

definition consider_mem :: "MemTable \<Rightarrow> bytes \<Rightarrow> u64 \<Rightarrow> Record option \<Rightarrow> Record option" where
  "consider_mem mt key maxSeq best =
     (case MemTable_Get mt key of
        None \<Rightarrow> best
      | Some ent \<Rightarrow> consider_rec maxSeq \<lparr>rec_key = [], rec_value = ent_value ent, rec_type = ent_type ent, rec_seq = ent_seq ent\<rparr> best)"

fun get_tables :: "env \<Rightarrow> Table list \<Rightarrow> bytes \<Rightarrow> u64 \<Rightarrow> nat list \<Rightarrow> Record option \<Rightarrow> error + Record option" where
  "get_tables env heap key maxSeq [] best = Inr best"
| "get_tables env heap key maxSeq (p # ps) best =
     (case Table_Get env (heap ! p) key maxSeq of
        Inl x \<Rightarrow> Inl (EWrap ''engine: reading sstable'' x)
      | Inr None \<Rightarrow> get_tables env heap key maxSeq ps best
      | Inr (Some r) \<Rightarrow> get_tables env heap key maxSeq ps (consider_rec maxSeq r best))"

definition getAt_read :: "env \<Rightarrow> reader \<Rightarrow> bytes \<Rightarrow> u64 \<Rightarrow> Engine \<Rightarrow> error + bytes" where
  "getAt_read env rd key maxSeq e =
     (let best = consider_mem (e_mems e ! rd_mt rd) key maxSeq None;
          best = foldl (\<lambda>b i. consider_mem (e_mems e ! im_mt i) key maxSeq b) best (rev (rd_imm rd))
      in case get_tables env (e_heap e) key maxSeq (rd_tables rd) best of
           Inl x \<Rightarrow> Inl x
         | Inr None \<Rightarrow> Inl ErrNotFound
         | Inr (Some b) \<Rightarrow> if rec_type b = TypeTombstone then Inl ErrNotFound else Inr (rec_value b))"

definition getAt :: "env \<Rightarrow> bytes \<Rightarrow> u64 \<Rightarrow> Engine \<Rightarrow> (error + bytes) \<times> Engine" where
  "getAt env key maxSeq e =
     (if length key = 0 then (Inl ErrEmptyKey, e)
      else case getAt_begin e of
             (Inl x, e1) \<Rightarrow> (Inl x, e1)
           | (Inr rd, e1) \<Rightarrow> (getAt_read env rd key maxSeq e1, releaseAll (rd_tables rd) e1))"

definition recordGet :: "(error + bytes) \<Rightarrow> Engine \<Rightarrow> Engine" where
  "recordGet r e =
     (let e1 = Inc (em_getTotal (e_m e)) (Observe (em_getLatency (e_m e)) e)
      in case r of
           Inr v \<Rightarrow> Inc (em_getHitTotal (e_m e1)) e1
         | Inl x \<Rightarrow> if errors_Is x ErrNotFound then Inc (em_getMissTotal (e_m e1)) e1 else e1)"

definition Get :: "env \<Rightarrow> bytes \<Rightarrow> Engine \<Rightarrow> (error + bytes) \<times> Engine" where
  "Get env key e = (let (r, e1) = getAt env key unboundedSeq e in (r, recordGet r e1))"

subsection \<open>Snapshots\<close>

record Snapshot =
  sn_seq :: u64
  sn_closed :: bool

definition pins :: "u64 \<Rightarrow> Engine \<Rightarrow> int" where
  "pins seq e = (case map_of (e_activeSnapshots e) seq of None \<Rightarrow> 0 | Some n \<Rightarrow> n)"

definition Snapshot_load :: "Engine \<Rightarrow> error + u64" where
  "Snapshot_load e = (if e_closed e then Inl ErrClosed else Inr (e_seq e))"

definition Snapshot_register :: "u64 \<Rightarrow> Engine \<Rightarrow> Engine" where
  "Snapshot_register seq e =
     (let e1 = e\<lparr>e_activeSnapshots := AList.update seq (pins seq e + 1) (e_activeSnapshots e)\<rparr>
      in Adjust (em_activeSnapshots (e_m e1)) 1 (Inc (em_snapshotOpenTotal (e_m e1)) e1))"

definition Engine_Snapshot :: "Engine \<Rightarrow> (error + Snapshot) \<times> Engine" where
  "Engine_Snapshot e =
     (case Snapshot_load e of
        Inl x \<Rightarrow> (Inl x, e)
      | Inr seq \<Rightarrow> (Inr \<lparr>sn_seq = seq, sn_closed = False\<rparr>, Snapshot_register seq e))"

definition Snapshot_Get :: "env \<Rightarrow> Snapshot \<Rightarrow> bytes \<Rightarrow> Engine \<Rightarrow> (error + bytes) \<times> Engine" where
  "Snapshot_Get env s key e = (let (r, e1) = getAt env key (sn_seq s) e in (r, recordGet r e1))"

definition Snapshot_Close :: "Snapshot \<Rightarrow> Engine \<Rightarrow> Snapshot \<times> Engine" where
  "Snapshot_Close s e =
     (if sn_closed s then (s, e)
      else let n = pins (sn_seq s) e - 1;
               act = (if n \<le> 0 then AList.delete (sn_seq s) (e_activeSnapshots e)
                      else AList.update (sn_seq s) n (e_activeSnapshots e));
               e1 = e\<lparr>e_activeSnapshots := act\<rparr>
           in (s\<lparr>sn_closed := True\<rparr>, Adjust (em_activeSnapshots (e_m e1)) (- 1) e1))"

definition minActiveSnapshotSeq :: "Engine \<Rightarrow> u64" where
  "minActiveSnapshotSeq e = foldl (\<lambda>m (seq, n). if seq < m then seq else m) unboundedSeq (e_activeSnapshots e)"

subsection \<open>Choosing a compaction\<close>

record compactionPlan =
  cp_inputs :: "nat list"
  cp_targetLevel :: int

fun target_loop :: "i64 \<Rightarrow> nat \<Rightarrow> i64 \<Rightarrow> i64" where
  "target_loop k 0 sz = sz"
| "target_loop k (Suc n) sz = target_loop k n (sz * k)"

definition targetSizeForLevel :: "int \<Rightarrow> Engine \<Rightarrow> i64" where
  "targetSizeForLevel lvl e = target_loop (e_levelSizeMultiplier e) (nat (lvl - 1)) (e_baseLevelSizeBytes e)"

definition level_size :: "nat list \<Rightarrow> Engine \<Rightarrow> i64" where
  "level_size ps e = foldl (\<lambda>total p. total + of_int (tbl_fileSize (e_heap e ! p))) 0 ps"

fun pick_level :: "Engine \<Rightarrow> int list \<Rightarrow> compactionPlan option" where
  "pick_level e [] = None"
| "pick_level e (lvl # lvls) =
     (let levelTables = levelTablesLocked lvl e
      in if length levelTables = 0 then pick_level e lvls
         else if sint (level_size levelTables e) > sint (targetSizeForLevel lvl e)
         then Some \<lparr>cp_inputs = levelTables @ levelTablesLocked (lvl + 1) e, cp_targetLevel = lvl + 1\<rparr>
         else pick_level e lvls)"

definition pickCompactionLocked :: "Engine \<Rightarrow> compactionPlan option" where
  "pickCompactionLocked e =
     (let l0 = levelTablesLocked 0 e
      in if int (length l0) \<ge> e_l0CompactionTrigger e
         then Some \<lparr>cp_inputs = l0 @ levelTablesLocked 1 e, cp_targetLevel = 1\<rparr>
         else pick_level e [1..e_maxLevels e - 2])"

definition maybeTriggerCompaction :: "Engine \<Rightarrow> Engine" where
  "maybeTriggerCompaction e =
     (case pickCompactionLocked e of None \<Rightarrow> e | Some plan \<Rightarrow> e\<lparr>e_compactCh := True\<rparr>)"

subsection \<open>Flushing\<close>

definition write_table :: "env \<Rightarrow> Record list \<Rightarrow> string \<Rightarrow> string \<Rightarrow> Engine \<Rightarrow> (error + Table) \<times> Engine" where
  "write_table env rs werr oerr e =
     (let (gen, e1) = nextGen e;
          path = sstFileName (e_dir e1) 0 gen;
          (w, e2) = on_fs (Write env path rs (e_compress e1)) e1
      in case w of
           Some x \<Rightarrow> (Inl (EWrap werr x), e2)
         | None \<Rightarrow>
             let (r, e3) = on_fs (Table_Open path) e2
             in case r of Inl x \<Rightarrow> (Inl (EWrap oerr x), e3) | Inr t \<Rightarrow> (Inr t, e3))"

definition add_table :: "int \<Rightarrow> Table \<Rightarrow> Engine \<Rightarrow> Engine" where
  "add_table level t e =
     (let (p, e1) = new_table t e in e1\<lparr>e_tables := e_tables e1 @ [\<lparr>lt_level = level, lt_table = p\<rparr>]\<rparr>)"

definition flush_write :: "env \<Rightarrow> nat \<Rightarrow> Engine \<Rightarrow> (error + Table) \<times> Engine" where
  "flush_write env mt e =
     write_table env (buildRecords (e_mems e ! mt)) ''flush failed'' ''failed to reopen freshly-flushed sstable'' e"

fun drop_imm :: "nat \<Rightarrow> immEntry list \<Rightarrow> immEntry list" where
  "drop_imm mt [] = []"
| "drop_imm mt (i # ims) = (if im_mt i = mt then ims else i # drop_imm mt ims)"

definition flush_commit :: "nat \<Rightarrow> Table \<Rightarrow> Engine \<Rightarrow> Engine" where
  "flush_commit mt t e = (let e1 = add_table 0 t e in e1\<lparr>e_imm := drop_imm mt (e_imm e1)\<rparr>)"

definition flush_end :: "string \<Rightarrow> Engine \<Rightarrow> Engine" where
  "flush_end walPath e = maybeTriggerCompaction (snd (on_fs (WAL_Remove walPath) e))"

definition flush_metrics :: "bool \<Rightarrow> Engine \<Rightarrow> Engine" where
  "flush_metrics failed e =
     (let e1 = Inc (em_flushTotal (e_m e)) e;
          e2 = (if failed then Inc (em_flushFailedTotal (e_m e1)) e1 else e1)
      in Observe (em_flushLatency (e_m e2)) e2)"

definition doFlush :: "env \<Rightarrow> nat \<Rightarrow> string \<Rightarrow> Engine \<Rightarrow> Engine" where
  "doFlush env mt walPath e =
     (case flush_write env mt e of
        (Inl x, e1) \<Rightarrow> flush_metrics True e1
      | (Inr t, e1) \<Rightarrow> flush_metrics False (flush_end walPath (flush_commit mt t e1)))"

text \<open>One turn of the flush worker, and the drain before it exits.\<close>

definition flushWorker_turn :: "env \<Rightarrow> Engine \<Rightarrow> Engine" where
  "flushWorker_turn env e =
     (case e_flushCh e of [] \<Rightarrow> e | job # jobs \<Rightarrow> doFlush env (fj_mt job) (fj_walPath job) (e\<lparr>e_flushCh := jobs\<rparr>))"

fun flushWorker_drain :: "env \<Rightarrow> flushJob list \<Rightarrow> Engine \<Rightarrow> Engine" where
  "flushWorker_drain env [] e = e"
| "flushWorker_drain env (job # jobs) e =
     flushWorker_drain env jobs (doFlush env (fj_mt job) (fj_walPath job) (e\<lparr>e_flushCh := jobs\<rparr>))"

subsection \<open>Compaction\<close>

record compaction =
  co_inputs :: "nat list"
  co_targetLevel :: int
  co_isBottommost :: bool

definition compact_plan :: "Engine \<Rightarrow> compaction option" where
  "compact_plan e =
     map_option (\<lambda>plan. \<lparr>co_inputs = cp_inputs plan, co_targetLevel = cp_targetLevel plan,
         co_isBottommost = list_all (\<lambda>lvl. length (levelTablesLocked lvl e) = 0) [cp_targetLevel plan + 1..e_maxLevels e - 1]\<rparr>)
       (pickCompactionLocked e)"

definition compact_merge :: "env \<Rightarrow> compaction \<Rightarrow> Engine \<Rightarrow> (error option \<times> string) \<times> Engine" where
  "compact_merge env c e =
     (let minKeepSeq = minActiveSnapshotSeq e;
          (gen, e1) = nextGen e;
          outPath = sstFileName (e_dir e1) (nat (co_targetLevel c)) gen;
          (r, e2) = on_fs (Merge env (map (\<lambda>p. e_heap e1 ! p) (co_inputs c)) outPath minKeepSeq (co_isBottommost c) (e_compress e1)) e1
      in ((r, outPath), e2))"

text \<open>
  \<^verbatim>\<open>remaining := e.tables[:0]\<close> shares its array with \<^verbatim>\<open>e.tables\<close>: when the function returns early,
  \<^verbatim>\<open>e.tables\<close> still has its old length but its first elements are overwritten.
\<close>

definition remaining_tables :: "nat list \<Rightarrow> leveledTable list \<Rightarrow> leveledTable list" where
  "remaining_tables inputs ts = filter (\<lambda>lt. lt_table lt \<notin> set inputs) ts"

definition overwritten :: "leveledTable list \<Rightarrow> leveledTable list \<Rightarrow> leveledTable list" where
  "overwritten rem old = rem @ drop (length rem) old"

definition compact_commit :: "compaction \<Rightarrow> error option \<Rightarrow> string \<Rightarrow> Engine \<Rightarrow> error option \<times> Engine" where
  "compact_commit c mergeErr outPath e =
     (let rem = remaining_tables (co_inputs c) (e_tables e);
          failed = e\<lparr>e_tables := overwritten rem (e_tables e)\<rparr>
      in case mergeErr of
           None \<Rightarrow>
             (case on_fs (Table_Open outPath) failed of
                (Inl x, e1) \<Rightarrow> (Some (EWrap ''engine: reopening compacted sstable'' x), e1)
              | (Inr t, e1) \<Rightarrow> (None, add_table (co_targetLevel c) t (e1\<lparr>e_tables := rem\<rparr>)))
         | Some x \<Rightarrow>
             if errors_Is x ErrEmptyMerge then (None, e\<lparr>e_tables := rem\<rparr>)
             else (Some (EWrap ''engine: compaction merge failed'' x), failed))"

definition retire :: "nat \<Rightarrow> Engine \<Rightarrow> Engine" where
  "retire p e =
     (let (r, t, d) = Table_Retire (e_heap e ! p) (e_fs e) in e\<lparr>e_heap := (e_heap e)[p := t], e_fs := d\<rparr>)"

definition compact_end :: "compaction \<Rightarrow> Engine \<Rightarrow> Engine" where
  "compact_end c e = maybeTriggerCompaction (foldl (\<lambda>e p. retire p e) e (co_inputs c))"

definition compact_metrics :: "bool \<Rightarrow> Engine \<Rightarrow> Engine" where
  "compact_metrics failed e =
     (let e1 = Inc (em_compactionTotal (e_m e)) e;
          e2 = (if failed then Inc (em_compactionFailedTotal (e_m e1)) e1 else e1)
      in Observe (em_compactionLatency (e_m e2)) e2)"

definition runCompaction :: "env \<Rightarrow> Engine \<Rightarrow> error option \<times> Engine" where
  "runCompaction env e =
     (case compact_plan e of
        None \<Rightarrow> (None, e)
      | Some c \<Rightarrow>
          let ((mergeErr, outPath), e1) = compact_merge env c e;
              (err, e2) = compact_commit c mergeErr outPath e1
          in case err of
               Some x \<Rightarrow> (Some x, compact_metrics True e2)
             | None \<Rightarrow> (None, compact_metrics False (compact_end c e2)))"

text \<open>One turn of the compaction worker.\<close>

definition compactionLoop_turn :: "env \<Rightarrow> Engine \<Rightarrow> Engine" where
  "compactionLoop_turn env e = (if e_compactCh e then snd (runCompaction env (e\<lparr>e_compactCh := False\<rparr>)) else e)"

fun compactionLoop_turns :: "env \<Rightarrow> nat \<Rightarrow> Engine \<Rightarrow> Engine" where
  "compactionLoop_turns env 0 e = e"
| "compactionLoop_turns env (Suc n) e = compactionLoop_turns env n (compactionLoop_turn env e)"

subsection \<open>Opening and recovery\<close>

definition recover_record :: "WalRecord \<Rightarrow> MemTable \<times> u64 \<Rightarrow> error option \<times> MemTable \<times> u64" where
  "recover_record r = (\<lambda>(mt, maxSeq).
     let maxSeq = (if wr_seq r > maxSeq then wr_seq r else maxSeq)
     in if wr_type r = RecordPut then (None, MemTable_Put mt (wr_key r) (wr_value r) (wr_seq r), maxSeq)
        else if wr_type r = RecordDelete then (None, MemTable_Delete mt (wr_key r) (wr_seq r), maxSeq)
        else (Some (EMsg ''unrecognized WAL record type''), mt, maxSeq))"

fun replay_all :: "string list \<Rightarrow> MemTable \<times> u64 \<Rightarrow> fs \<Rightarrow> (error + MemTable \<times> u64) \<times> fs" where
  "replay_all [] st d = (Inr st, d)"
| "replay_all (path # paths) st d =
     (case WAL_Replay path recover_record st d of
        ((Some x, st1), d1) \<Rightarrow> (Inl (EWrap ''engine: recovering from wal'' x), d1)
      | ((None, st1), d1) \<Rightarrow> replay_all paths st1 d1)"

fun remove_all :: "string list \<Rightarrow> fs \<Rightarrow> error option \<times> fs" where
  "remove_all [] d = (None, d)"
| "remove_all (path # paths) d =
     (let (r, d1) = WAL_Remove path d
      in if r \<noteq> None \<and> r \<noteq> Some ENotExist then (map_option (EWrap ''engine: removing recovered wal'') r, d1)
         else remove_all paths d1)"

definition flush_recovered :: "env \<Rightarrow> MemTable \<Rightarrow> Engine \<Rightarrow> error option \<times> Engine" where
  "flush_recovered env mt e =
     (if MemTable_Len mt > 0
      then case write_table env (buildRecords mt) ''engine: flushing recovered memtable''
                  ''engine: reopening freshly-recovered sstable'' e of
             (Inl x, e1) \<Rightarrow> (Some x, e1)
           | (Inr t, e1) \<Rightarrow> (None, add_table 0 t e1)
      else (None, e))"

definition recoverFromWALs :: "env \<Rightarrow> string list \<Rightarrow> Engine \<Rightarrow> error option \<times> Engine" where
  "recoverFromWALs env walFiles e =
     (if length walFiles = 0 then (None, e)
      else
        let (r, e1) = on_fs (replay_all walFiles (MemTable_New (e_rand e (length (e_mems e))), 0)) e
        in case r of
             Inl x \<Rightarrow> (Some x, e1)
           | Inr (recovered, maxSeq) \<Rightarrow>
               let e2 = (if maxSeq > e_seq e1 then e1\<lparr>e_seq := maxSeq\<rparr> else e1)
               in case flush_recovered env recovered e2 of
                    (Some x, e3) \<Rightarrow> (Some x, e3)
                  | (None, e3) \<Rightarrow> on_fs (remove_all walFiles) e3)"

fun open_tables :: "sstFileInfo list \<Rightarrow> Engine \<Rightarrow> error option \<times> Engine" where
  "open_tables [] e = (None, e)"
| "open_tables (sf # sfs) e =
     (case on_fs (Table_Open (sf_path sf)) e of
        (Inl x, e1) \<Rightarrow> (Some (EWrap ''engine: opening existing sstable'' x), e1)
      | (Inr t, e1) \<Rightarrow> open_tables sfs (add_table (sf_level sf) t e1))"

definition os_MkdirAll :: "string \<Rightarrow> fs \<Rightarrow> error option \<times> fs" where
  "os_MkdirAll dir d = (let (r, d1) = tick d in (reported r, d1))"

definition blank_engine :: "string \<Rightarrow> (nat \<Rightarrow> nat \<Rightarrow> int) \<Rightarrow> (nat \<Rightarrow> i64) \<Rightarrow> fs \<Rightarrow> Engine" where
  "blank_engine dir rnd durs d =
     \<lparr>e_dir = dir, e_mem = 0, e_wal = \<lparr>wal_w = bufio_NewWriter, wal_path = []\<rparr>, e_walPath = [], e_imm = [], e_tables = [],
      e_closed = False, e_seq = 0, e_genCounter = 0, e_flushThreshold = defaultFlushThreshold,
      e_l0CompactionTrigger = defaultL0CompactionTrigger, e_baseLevelSizeBytes = defaultBaseLevelSizeBytes,
      e_levelSizeMultiplier = defaultLevelSizeMultiplier, e_maxLevels = defaultMaxLevels, e_compress = False,
      e_activeSnapshots = [], e_reg = NewRegistry, e_m = fst (newEngineMetrics NewRegistry), e_compactCh = False,
      e_flushCh = [], e_stopCh = False, e_mems = [], e_heap = [], e_fs = d, e_rand = rnd, e_durs = durs, e_now = 0\<rparr>"

definition Open_start :: "env \<Rightarrow> dir_scan \<Rightarrow> Engine \<Rightarrow> (error + Engine) \<times> fs" where
  "Open_start env s e =
     (case open_tables (ds_ssts s) (e\<lparr>e_genCounter := ds_maxGen s\<rparr>) of
        (Some x, e1) \<Rightarrow> (Inl x, e_fs e1)
      | (None, e1) \<Rightarrow>
          (case recoverFromWALs env (ds_wals s) e1 of
             (Some x, e2) \<Rightarrow> (Inl x, e_fs e2)
           | (None, e2) \<Rightarrow>
               let (newGen, e3) = nextGen e2;
                   walP = walFileName (e_dir e3) newGen;
                   (r, e4) = on_fs (WAL_Open walP) e3
               in case r of
                    Inl x \<Rightarrow> (Inl (EWrap ''engine: opening new wal'' x), e_fs e4)
                  | Inr w \<Rightarrow>
                      let (m, e5) = new_memtable e4
                      in (Inr (e5\<lparr>e_wal := w, e_walPath := walP, e_mem := m\<rparr>), e_fs e5)))"

definition Engine_Open ::
  "env \<Rightarrow> string \<Rightarrow> EngineOption list \<Rightarrow> (nat \<Rightarrow> nat \<Rightarrow> int) \<Rightarrow> (nat \<Rightarrow> i64) \<Rightarrow> fs \<Rightarrow> (error + Engine) \<times> fs" where
  "Engine_Open env dir opts rnd durs d =
     (let (r, d1) = os_MkdirAll dir d
      in case r of
           Some x \<Rightarrow> (Inl (EWrap ''engine: creating directory'' x), d1)
         | None \<Rightarrow>
             let e0 = foldl (\<lambda>e opt. apply_option opt e) (blank_engine dir rnd durs d1) opts;
                 (m, reg) = newEngineMetrics (e_reg e0);
                 e1 = e0\<lparr>e_m := m, e_reg := reg\<rparr>;
                 (s, e2) = on_fs (scanDir dir) e1
             in case s of
                  Inl x \<Rightarrow> (Inl x, e_fs e2)
                | Inr sc \<Rightarrow> Open_start env sc e2)"

subsection \<open>Closing\<close>

definition Close_begin :: "Engine \<Rightarrow> Engine" where
  "Close_begin e = e\<lparr>e_closed := True, e_stopCh := True\<rparr>"

definition final_flush :: "env \<Rightarrow> Engine \<Rightarrow> error option \<times> Engine" where
  "final_flush env e =
     (let mt = e_mems e ! e_mem e
      in if MemTable_Len mt > 0
         then case write_table env (buildRecords mt) ''engine: final flush on close failed''
                     ''engine: reopening final flushed sstable'' e of
                (Inl x, e1) \<Rightarrow> (Some x, e1)
              | (Inr t, e1) \<Rightarrow> (None, add_table 0 t e1)
         else (None, e))"

fun release_tables :: "leveledTable list \<Rightarrow> error option \<Rightarrow> Engine \<Rightarrow> error option \<times> Engine" where
  "release_tables [] firstErr e = (firstErr, e)"
| "release_tables (lt # lts) firstErr e =
     (let (r, e1) = release (lt_table lt) e
      in release_tables lts (if r \<noteq> None \<and> firstErr = None then map_option (EWrap ''engine: releasing sstable'') r else firstErr) e1)"

definition Close_end :: "env \<Rightarrow> Engine \<Rightarrow> error option \<times> Engine" where
  "Close_end env e =
     (case final_flush env e of
        (Some x, e1) \<Rightarrow> (Some x, e1)
      | (None, e1) \<Rightarrow>
          (case on_fs (WAL_Close (e_wal e1)) e1 of
             (Some x, e2) \<Rightarrow> (Some (EWrap ''engine: closing wal'' x), e2)
           | (None, e2) \<Rightarrow>
               let (r, e3) = on_fs (WAL_Remove (e_walPath e2)) e2
               in if r \<noteq> None \<and> r \<noteq> Some ENotExist
                  then (map_option (EWrap ''engine: removing final wal'') r, e3)
                  else release_tables (e_tables e3) None e3))"

text \<open>
  \<open>Close\<close> waits for both workers. The flush worker drains its queue. The compaction worker may or
  may not take a pending request before it sees the stop signal: \<open>passes\<close> is the number it takes.
\<close>

definition Engine_Close :: "env \<Rightarrow> nat \<Rightarrow> Engine \<Rightarrow> error option \<times> Engine" where
  "Engine_Close env passes e =
     (if e_closed e then (None, e)
      else let e1 = Close_begin e;
               e2 = flushWorker_drain env (e_flushCh e1) e1;
               e3 = compactionLoop_turns env passes e2
           in Close_end env e3)"

subsection \<open>Statistics\<close>

record Stats =
  st_MemTableEntries :: int
  st_ImmutableMemTables :: int
  st_SSTables :: int
  st_TablesPerLevel :: "int list"

fun count_levels :: "leveledTable list \<Rightarrow> int list \<Rightarrow> int list" where
  "count_levels [] perLevel = perLevel"
| "count_levels (lt # lts) perLevel =
     count_levels lts
       (if lt_level lt \<ge> 0 \<and> lt_level lt < int (length perLevel)
        then perLevel[nat (lt_level lt) := perLevel ! nat (lt_level lt) + 1] else perLevel)"

fun set_levels :: "nat \<Rightarrow> nat \<Rightarrow> int list \<Rightarrow> Registry \<Rightarrow> Registry" where
  "set_levels p lvl [] r = r"
| "set_levels p lvl (n # ns) r =
     set_levels p (Suc lvl) ns (at_metric p (on_gaugeVec (GaugeVec_Set (Itoa (int lvl)) (of_int n))) r)"

definition set_gauge :: "nat \<Rightarrow> i64 \<Rightarrow> Registry \<Rightarrow> Registry" where
  "set_gauge p v r = at_metric p (on_gauge (Gauge_Set v)) r"

definition Engine_Stats :: "Engine \<Rightarrow> (error + Stats) \<times> Engine" where
  "Engine_Stats e =
     (if e_maxLevels e < 0 then (Inl EPanic, e)
      else let perLevel = count_levels (e_tables e) (replicate (nat (e_maxLevels e)) 0);
               len = MemTable_Len (e_mems e ! e_mem e); m = e_m e;
               r1 = set_gauge (em_memtableEntries m) (of_nat len) (e_reg e);
               r2 = set_gauge (em_immutableMemtables m) (of_nat (length (e_imm e))) r1;
               r3 = set_gauge (em_sstablesTotal m) (of_nat (length (e_tables e))) r2;
               r4 = set_levels (em_sstablesPerLevel m) 0 perLevel r3
           in (Inr \<lparr>st_MemTableEntries = int len, st_ImmutableMemTables = int (length (e_imm e)),
                    st_SSTables = int (length (e_tables e)), st_TablesPerLevel = perLevel\<rparr>, e\<lparr>e_reg := r4\<rparr>))"

definition MetricsRegistry :: "Engine \<Rightarrow> Registry" where
  "MetricsRegistry e = e_reg e"

end
