(* ===== verification/Reads.thy ===== *)
theory Reads
  imports Engine
begin

text \<open>
  What a read of the engine returns. A reference definition, \<open>reads\<close>, scans all versions the
  store holds one by one; the theorems show that \<open>getAt\<close>, which asks the MemTable, the immutable
  MemTables and the tables with their indexes and filters, returns the same. The interface
  \<open>source\<close> is what \<open>getAt\<close> relies on: asked for a key and a bound, a source returns its newest
  version at or below the bound. It is interpreted on MemTables and on open tables.
\<close>

section \<open>Definitions\<close>

text \<open>The reference: the value of the newest version of a key not above a bound.\<close>

definition scan_version :: "bytes \<Rightarrow> u64 \<Rightarrow> Record option \<Rightarrow> Record \<Rightarrow> Record option" where
  "scan_version key q b r = (if rec_key r = key then consider_rec q r b else b)"

definition reads :: "Record list \<Rightarrow> bytes \<Rightarrow> u64 \<Rightarrow> bytes option" where
  "reads vs key q = value_of (foldl (scan_version key q) None vs)"

definition table_recs :: "env \<Rightarrow> Table \<Rightarrow> Record list" where
  "table_recs env t =
     concat (map (\<lambda>ie. case readRecordAt env t (sint (ie_offset ie)) of Inl x \<Rightarrow> [] | Inr r \<Rightarrow> [r]) (tbl_index t))"

definition mem_versions :: "Engine \<Rightarrow> Record list" where
  "mem_versions e = buildRecords (e_mems e ! e_mem e)"

definition imm_versions :: "Engine \<Rightarrow> Record list" where
  "imm_versions e = concat (map (\<lambda>i. buildRecords (e_mems e ! im_mt i)) (e_imm e))"

definition table_versions :: "env \<Rightarrow> Engine \<Rightarrow> Record list" where
  "table_versions env e = concat (map (\<lambda>p. table_recs env (e_heap e ! p)) (allTablesLocked e))"

definition versions :: "env \<Rightarrow> Engine \<Rightarrow> Record list" where
  "versions env e = mem_versions e @ imm_versions e @ table_versions env e"

text \<open>The store as a map from keys to values.\<close>

definition store :: "env \<Rightarrow> Engine \<Rightarrow> bytes \<Rightarrow> bytes option" where
  "store env e key = reads (versions env e) key unboundedSeq"

definition answer :: "bytes option \<Rightarrow> error + bytes" where
  "answer v = (case v of None \<Rightarrow> Inl ErrNotFound | Some x \<Rightarrow> Inr x)"

section \<open>The newest version\<close>

text \<open>A key with the same sequence number twice is the same record.\<close>

definition coherent :: "Record set \<Rightarrow> bool" where
  "coherent V \<longleftrightarrow> (\<forall>r \<in> V. \<forall>r' \<in> V. rec_key r = rec_key r' \<and> rec_seq r = rec_seq r' \<longrightarrow> r = r')"

definition same_version :: "Record \<Rightarrow> Record \<Rightarrow> bool" where
  "same_version a b \<longleftrightarrow> rec_value a = rec_value b \<and> rec_type a = rec_type b \<and> rec_seq a = rec_seq b"

definition newest_of :: "Record set \<Rightarrow> bytes \<Rightarrow> u64 \<Rightarrow> Record \<Rightarrow> bool" where
  "newest_of V key q x \<longleftrightarrow> x \<in> V \<and> visible key q x \<and> (\<forall>y \<in> V. visible key q y \<longrightarrow> rec_seq y \<le> rec_seq x)"

definition best_in :: "Record set \<Rightarrow> bytes \<Rightarrow> u64 \<Rightarrow> Record option \<Rightarrow> bool" where
  "best_in V key q b = (case b of None \<Rightarrow> \<forall>y \<in> V. \<not> visible key q y | Some r \<Rightarrow> \<exists>x. newest_of V key q x \<and> same_version x r)"

lemma newest_unique: "coherent V \<Longrightarrow> newest_of V key q x \<Longrightarrow> newest_of V key q y \<Longrightarrow> x = y"
  unfolding coherent_def newest_of_def visible_def by (metis order_antisym)

lemma best_in_value:
  assumes "coherent V" and "best_in V key q a" and "best_in V key q b"
  shows "value_of a = value_of b"
proof (cases a; cases b)
  fix r s
  assume ab: "a = Some r" "b = Some s"
  then obtain x y where xy: "newest_of V key q x" "same_version x r" "newest_of V key q y" "same_version y s"
    using assms(2,3) by (auto simp: best_in_def)
  have "x = y" using newest_unique [OF assms(1) xy(1,3)] .
  with xy ab show ?thesis by (auto simp: value_of_def same_version_def)
qed (use assms(2,3) in \<open>auto simp: best_in_def newest_of_def\<close>)

lemma newest_of_Un:
  assumes "newest_of V key q x" and "\<forall>y \<in> W. visible key q y \<longrightarrow> rec_seq y \<le> rec_seq x"
  shows "newest_of (V \<union> W) key q x"
  using assms by (auto simp: newest_of_def)

lemma best_in_Un:
  assumes "best_in V key q a" and "best_in W key q b"
  shows "best_in (V \<union> W) key q (case b of None \<Rightarrow> a | Some r \<Rightarrow> consider_rec q r a)"
proof (cases b)
  case None
  then show ?thesis using assms newest_of_Un [of V key q _ W] by (auto simp: best_in_def split: option.splits)
next
  case (Some r)
  then obtain x where x: "newest_of W key q x" "same_version x r" using assms(2) by (auto simp: best_in_def)
  then have q: "\<not> q < rec_seq r" by (auto simp: newest_of_def same_version_def visible_def)
  show ?thesis
  proof (cases a)
    case None
    then have "newest_of (V \<union> W) key q x" using x(1) assms(1) newest_of_Un [of W key q x V] by (auto simp: best_in_def Un_commute)
    with None Some q x(2) show ?thesis by (auto simp: best_in_def consider_rec_def)
  next
    fix s
    assume s: "a = Some s"
    then obtain y where y: "newest_of V key q y" "same_version y s" using assms(1) by (auto simp: best_in_def)
    show ?thesis
    proof (cases "rec_seq s < rec_seq r")
      case True
      then have "newest_of (V \<union> W) key q x"
        using newest_of_Un [of W key q x V] x y by (force simp: newest_of_def same_version_def Un_commute)
      with True s Some q x(2) show ?thesis by (auto simp: best_in_def consider_rec_def)
    next
      case False
      then have "newest_of (V \<union> W) key q y"
        using newest_of_Un [of V key q y W] x y by (force simp: newest_of_def same_version_def)
      with False s Some q y(2) show ?thesis by (auto simp: best_in_def consider_rec_def)
    qed
  qed
qed

lemma best_in_singleton: "best_in {r} key q (if visible key q r then Some r else None)"
  by (auto simp: best_in_def newest_of_def same_version_def)

lemma scan_version_best:
  assumes "best_in V key q b"
  shows "best_in (V \<union> set vs) key q (foldl (scan_version key q) b vs)"
  using assms
proof (induction vs arbitrary: V b)
  case (Cons r vs)
  have "best_in (V \<union> {r}) key q (scan_version key q b r)"
    using best_in_Un [OF Cons.prems best_in_singleton [of r key q]]
    by (auto simp: scan_version_def visible_def consider_rec_def split: if_splits)
  from Cons.IH [OF this] show ?case by simp
qed simp

lemma best_in_empty [simp]: "best_in {} key q None"
  by (simp add: best_in_def)

lemma reads_best:
  assumes "coherent (set vs)" and "best_in (set vs) key q b"
  shows "reads vs key q = value_of b"
  using best_in_value [OF assms(1) _ assms(2)] scan_version_best [OF best_in_empty, of vs key q] by (simp add: reads_def)

lemma best_in_reads: "\<exists>b. best_in (set vs) key q b \<and> reads vs key q = value_of b"
  using scan_version_best [OF best_in_empty, of vs key q] by (auto simp: reads_def)

section \<open>Sources of a read\<close>

locale source =
  fixes ok :: "'s \<Rightarrow> bool" and recs :: "'s \<Rightarrow> Record list" and ask :: "'s \<Rightarrow> bytes \<Rightarrow> u64 \<Rightarrow> Record option"
  assumes ask_best: "ok s \<Longrightarrow> best_in (set (recs s)) key q (ask s key q)"
begin

definition collect_best :: "bytes \<Rightarrow> u64 \<Rightarrow> Record option \<Rightarrow> 's \<Rightarrow> Record option" where
  "collect_best key q b s = (case ask s key q of None \<Rightarrow> b | Some r \<Rightarrow> consider_rec q r b)"

lemma fold_best:
  "best_in V key q b \<Longrightarrow> \<forall>s \<in> set ss. ok s \<Longrightarrow>
   best_in (V \<union> set (concat (map recs ss))) key q (foldl (collect_best key q) b ss)"
proof (induction ss arbitrary: V b)
  case (Cons s ss)
  have "best_in (V \<union> set (recs s)) key q (collect_best key q b s)"
    using best_in_Un [OF Cons.prems(1) ask_best] Cons.prems(2) by (simp add: collect_best_def)
  from Cons.IH [OF this] Cons.prems(2) show ?case by (simp add: Un_assoc)
qed simp

end

subsection \<open>MemTables\<close>

definition mem_ask :: "MemTable \<Rightarrow> bytes \<Rightarrow> u64 \<Rightarrow> Record option" where
  "mem_ask mt key q = consider_mem mt key q None"

lemma in_buildRecords:
  "mt_inv mt \<Longrightarrow> r \<in> set (buildRecords mt) \<longleftrightarrow>
     MemTable_Get mt (rec_key r) = Some \<lparr>ent_type = rec_type r, ent_value = rec_value r, ent_seq = rec_seq r\<rparr>"
proof -
  assume inv: "mt_inv mt"
  have "r \<in> set (buildRecords mt) \<longleftrightarrow> (\<exists>k v. (k, v) \<in> set (MemTable_All mt) \<and>
      r = \<lparr>rec_key = k, rec_value = ent_value v, rec_type = ent_type v, rec_seq = ent_seq v\<rparr>)"
    by (force simp: buildRecords_def)
  then show ?thesis by (cases r) (auto simp: MemTable_All_iff [OF inv])
qed

lemma mem_ask_best: "mt_inv mt \<Longrightarrow> best_in (set (buildRecords mt)) key q (mem_ask mt key q)"
proof -
  assume inv: "mt_inv mt"
  show ?thesis
  proof (cases "MemTable_Get mt key")
    case None
    then show ?thesis by (auto simp: best_in_def mem_ask_def consider_mem_def visible_def in_buildRecords [OF inv])
  next
    case (Some ent)
    let ?x = "\<lparr>rec_key = key, rec_value = ent_value ent, rec_type = ent_type ent, rec_seq = ent_seq ent\<rparr>"
    have only: "y = ?x" if "y \<in> set (buildRecords mt)" "rec_key y = key" for y
      using in_buildRecords [OF inv, of y] that Some by (intro Record.equality) auto
    have "?x \<in> set (buildRecords mt)" using Some by (simp add: in_buildRecords [OF inv])
    moreover have seq: "rec_seq y = ent_seq ent" if "y \<in> set (buildRecords mt)" "visible key q y" for y
      using only [OF that(1)] that(2) by (simp add: visible_def)
    moreover have "visible key q ?x" if "ent_seq ent \<le> q" using that by (simp add: visible_def)
    moreover have "rec_seq y \<le> rec_seq ?x" if "y \<in> set (buildRecords mt)" "visible key q y" for y
      using seq [OF that] by simp
    ultimately have new: "newest_of (set (buildRecords mt)) key q ?x" if "ent_seq ent \<le> q"
      unfolding newest_of_def using that by blast
    have old: "\<not> visible key q y" if "q < ent_seq ent" "y \<in> set (buildRecords mt)" for y
      using seq [OF that(2)] that(1) unfolding visible_def by force
    show ?thesis
    proof (cases "q < ent_seq ent")
      case True
      then have "mem_ask mt key q = None" using Some by (simp add: mem_ask_def consider_mem_def consider_rec_def)
      then show ?thesis using old [OF True] by (simp add: best_in_def)
    next
      case False
      then have ask: "mem_ask mt key q = Some (?x\<lparr>rec_key := []\<rparr>)" using Some by (simp add: mem_ask_def consider_mem_def consider_rec_def)
      moreover have "same_version ?x (?x\<lparr>rec_key := []\<rparr>)" by (simp add: same_version_def)
      moreover have "newest_of (set (buildRecords mt)) key q ?x" using new False by simp
      ultimately show ?thesis unfolding best_in_def ask option.case by blast
    qed
  qed
qed

interpretation ms: source mt_inv buildRecords mem_ask
  by unfold_locales (rule mem_ask_best)

lemma ms_collect: "ms.collect_best key q b mt = consider_mem mt key q b"
  by (auto simp: ms.collect_best_def mem_ask_def consider_mem_def consider_rec_def split: option.splits)

subsection \<open>Open tables\<close>

definition table_ok :: "env \<Rightarrow> Table \<Rightarrow> bool" where
  "table_ok env t \<longleftrightarrow> env_ok env \<and> (\<exists>c. opened env c (table_recs env t) t)"

lemma opened_table_recs:
  assumes "opened env c rs t" and "env_ok env"
  shows "table_recs env t = rs"
proof -
  have "map (\<lambda>ie. case readRecordAt env t (sint (ie_offset ie)) of Inl x \<Rightarrow> [] | Inr r \<Rightarrow> [r]) (tbl_index t) = map (\<lambda>r. [r]) rs"
    by (rule nth_equalityI) (simp_all add: opened_length [OF assms(1)] opened_index(2) [OF assms(1) _ assms(2)])
  then show ?thesis by (simp add: table_recs_def)
qed

definition table_ask :: "env \<Rightarrow> Table \<Rightarrow> bytes \<Rightarrow> u64 \<Rightarrow> Record option" where
  "table_ask env t key q = (case Table_Get env t key q of Inl x \<Rightarrow> None | Inr r \<Rightarrow> r)"

lemma table_ok_Get: "table_ok env t \<Longrightarrow> Table_Get env t key q = Inr (lookup (table_recs env t) key q)"
  using Table_Get_lookup by (auto simp: table_ok_def)

lemma lookup_best:
  assumes "sorted_wrt rec_before rs"
  shows "best_in (set rs) key q (lookup rs key q)"
proof (cases "lookup rs key q")
  case None
  then have "\<forall>y \<in> set rs. \<not> visible key q y" by (simp only: lookup_None_iff)
  with None show ?thesis by (simp add: best_in_def)
next
  case (Some r)
  then have "newest_of (set rs) key q r" using lookup_Some_iff [OF assms, of key q r] by (auto simp: newest_of_def)
  with Some show ?thesis by (auto simp: best_in_def same_version_def)
qed

lemma table_ok_sorted: "table_ok env t \<Longrightarrow> sorted_wrt rec_before (table_recs env t)"
  by (auto simp: table_ok_def opened_def recs_ok_def)

lemma table_ask_best: "table_ok env t \<Longrightarrow> best_in (set (table_recs env t)) key q (table_ask env t key q)"
  by (simp add: table_ask_def table_ok_Get lookup_best table_ok_sorted)

interpretation ts: source "table_ok env" "table_recs env" "table_ask env" for env
  by unfold_locales (rule table_ask_best)

lemma get_tables_fold:
  "\<forall>p \<in> set ps. table_ok env (heap ! p) \<Longrightarrow>
   get_tables env heap key q ps b = Inr (foldl (ts.collect_best env key q) b (map ((!) heap) ps))"
  by (induction ps arbitrary: b)
    (auto simp: ts.collect_best_def table_ask_def table_ok_Get split: option.splits)

section \<open>Reads of the engine\<close>

definition mems_ok :: "Engine \<Rightarrow> bool" where
  "mems_ok e \<longleftrightarrow> (\<forall>m \<in> set (e_mems e). mt_inv m) \<and> e_mem e < length (e_mems e) \<and> (\<forall>i \<in> set (e_imm e). im_mt i < length (e_mems e))"

definition tables_ok :: "env \<Rightarrow> Engine \<Rightarrow> bool" where
  "tables_ok env e \<longleftrightarrow> (\<forall>p \<in> set (allTablesLocked e). p < length (e_heap e) \<and> table_ok env (e_heap e ! p))"

lemma getAt_read_best:
  assumes "\<forall>m \<in> set (map ((!) (e_mems e)) (rd_mt rd # map im_mt (rd_imm rd))). mt_inv m"
    and "\<forall>p \<in> set (rd_tables rd). table_ok env (e_heap e ! p)"
    and "V = set (buildRecords (e_mems e ! rd_mt rd)) \<union> set (concat (map (\<lambda>i. buildRecords (e_mems e ! im_mt i)) (rd_imm rd))) \<union>
           set (concat (map (\<lambda>p. table_recs env (e_heap e ! p)) (rd_tables rd)))"
  shows "\<exists>b. best_in V key q b \<and> getAt_read env rd key q e = answer (value_of b)"
proof -
  let ?b1 = "consider_mem (e_mems e ! rd_mt rd) key q None"
  let ?ms = "map (\<lambda>i. e_mems e ! im_mt i) (rev (rd_imm rd))"
  let ?b2 = "foldl (\<lambda>b i. consider_mem (e_mems e ! im_mt i) key q b) ?b1 (rev (rd_imm rd))"
  let ?b3 = "foldl (ts.collect_best env key q) ?b2 (map ((!) (e_heap e)) (rd_tables rd))"
  have b1: "best_in (set (buildRecords (e_mems e ! rd_mt rd))) key q ?b1"
    using ms.ask_best [of "e_mems e ! rd_mt rd" key q] assms(1) by (simp add: mem_ask_def)
  have "?b2 = foldl (ms.collect_best key q) ?b1 ?ms" by (simp add: foldl_map ms_collect)
  moreover have "best_in (set (buildRecords (e_mems e ! rd_mt rd)) \<union> set (concat (map buildRecords ?ms))) key q (foldl (ms.collect_best key q) ?b1 ?ms)"
    using assms(1) by (intro ms.fold_best [OF b1]) auto
  ultimately have b2: "best_in (set (buildRecords (e_mems e ! rd_mt rd)) \<union> set (concat (map (\<lambda>i. buildRecords (e_mems e ! im_mt i)) (rd_imm rd)))) key q ?b2"
    by (simp add: comp_def)
  have b3: "best_in V key q ?b3"
    using ts.fold_best [OF b2, where env = env and ss = "map ((!) (e_heap e)) (rd_tables rd)"] assms(2,3) by (simp add: comp_def)
  have "getAt_read env rd key q e = answer (value_of ?b3)"
    using get_tables_fold [OF assms(2), of key q ?b2]
    by (simp add: getAt_read_def answer_def value_of_def Let_def split: option.splits)
  with b3 show ?thesis by blast
qed

subsection \<open>References of a reader\<close>

text \<open>Every listed table is open exactly on behalf of the list.\<close>

definition refs_ok :: "Engine \<Rightarrow> bool" where
  "refs_ok e \<longleftrightarrow> distinct (allTablesLocked e) \<and>
     (\<forall>p \<in> set (allTablesLocked e). p < length (e_heap e) \<and> \<not> tbl_released (e_heap e ! p) \<and> 1 \<le> tbl_refCount (e_heap e ! p))"

lemma acquire_all:
  assumes "distinct ps" and "\<forall>p \<in> set ps. p < length h \<and> \<not> tbl_released (h ! p)"
  shows "length (foldl (\<lambda>h p. acquire p h) h ps) = length h \<and>
    (\<forall>i. foldl (\<lambda>h p. acquire p h) h ps ! i = (if i \<in> set ps then (h ! i)\<lparr>tbl_refCount := tbl_refCount (h ! i) + 1\<rparr> else h ! i))"
  using assms
proof (induction ps arbitrary: h)
  case (Cons p ps)
  have nth: "acquire p h ! i = (if i = p then (h ! i)\<lparr>tbl_refCount := tbl_refCount (h ! i) + 1\<rparr> else h ! i)" for i
    using Cons.prems by (simp add: acquire_def Table_Acquire_def)
  have len: "length (acquire p h) = length h" by (simp add: acquire_def)
  have "\<forall>q \<in> set ps. q < length (acquire p h) \<and> \<not> tbl_released (acquire p h ! q)"
    using Cons.prems by (simp add: nth len)
  from Cons.IH [OF _ this] Cons.prems show ?case by (auto simp: nth len)
qed simp

lemma release_all:
  assumes "distinct ps" and "length g = length h" and "\<forall>p \<in> set ps. p < length h \<and> 1 \<le> tbl_refCount (h ! p)"
    and "\<forall>i < length h. g ! i = (if i \<in> set ps then (h ! i)\<lparr>tbl_refCount := tbl_refCount (h ! i) + 1\<rparr> else h ! i)"
  shows "releaseAll ps (e\<lparr>e_heap := g\<rparr>) = e\<lparr>e_heap := h\<rparr>"
  using assms
proof (induction ps arbitrary: g)
  case Nil
  then have "g = h" by (auto intro: nth_equalityI)
  then show ?case by (simp add: releaseAll_def)
next
  case (Cons p ps)
  have p: "p < length h" "1 \<le> tbl_refCount (h ! p)" "g ! p = (h ! p)\<lparr>tbl_refCount := tbl_refCount (h ! p) + 1\<rparr>"
    using Cons.prems by auto
  have "snd (release p (e\<lparr>e_heap := g\<rparr>)) = e\<lparr>e_heap := g[p := h ! p]\<rparr>"
    using p by (simp add: release_def Table_Release_def Let_def)
  moreover have "\<forall>i < length h. g[p := h ! p] ! i = (if i \<in> set ps then (h ! i)\<lparr>tbl_refCount := tbl_refCount (h ! i) + 1\<rparr> else h ! i)"
    using Cons.prems p(1) by (auto simp: nth_list_update)
  ultimately show ?case using Cons.IH [of "g[p := h ! p]"] Cons.prems by (simp add: releaseAll_def)
qed

lemma Acquire_data: "same_data t (t\<lparr>tbl_refCount := n\<rparr>)"
  by (simp add: same_data_def)

lemma readRecordAt_refs [simp]: "readRecordAt env (t\<lparr>tbl_refCount := n\<rparr>) off = readRecordAt env t off"
proof -
  have "table_ReadAt (t\<lparr>tbl_refCount := n\<rparr>) = table_ReadAt t" by (intro ext) (simp add: table_ReadAt_def)
  then show ?thesis unfolding readRecordAt_def by (simp only:)
qed

lemma table_recs_refs [simp]: "table_recs env (t\<lparr>tbl_refCount := n\<rparr>) = table_recs env t"
  by (simp add: table_recs_def)

lemma table_ok_refs [simp]: "table_ok env (t\<lparr>tbl_refCount := n\<rparr>) = table_ok env t"
  by (simp add: table_ok_def opened_def)

definition serving :: "env \<Rightarrow> Engine \<Rightarrow> bool" where
  "serving env e \<longleftrightarrow> \<not> e_closed e \<and> mems_ok e \<and> tables_ok env e \<and> refs_ok e \<and> coherent (set (versions env e))"

lemma getAt_serving:
  assumes "serving env e" and "key \<noteq> []"
  shows "getAt env key q e = (answer (reads (versions env e) key q), e)"
proof -
  let ?ps = "allTablesLocked e"
  let ?h = "foldl (\<lambda>h p. acquire p h) (e_heap e) ?ps"
  let ?rd = "\<lparr>rd_mt = e_mem e, rd_imm = e_imm e, rd_tables = ?ps\<rparr>"
  let ?e1 = "e\<lparr>e_heap := ?h\<rparr>"
  have S: "mems_ok e" "tables_ok env e" "distinct ?ps" "\<forall>p \<in> set ?ps. p < length (e_heap e) \<and> \<not> tbl_released (e_heap e ! p)"
    "\<forall>p \<in> set ?ps. p < length (e_heap e) \<and> 1 \<le> tbl_refCount (e_heap e ! p)" "coherent (set (versions env e))"
    using assms(1) by (auto simp: serving_def refs_ok_def)
  note A = acquire_all [OF S(3,4)]
  have tab: "table_recs env (?h ! p) = table_recs env (e_heap e ! p)" "table_ok env (?h ! p) = table_ok env (e_heap e ! p)" for p
    using A by simp_all
  have "releaseAll ?ps ?e1 = e" using release_all [OF S(3) _ S(5), of ?h e] A by simp
  then have *: "getAt env key q e = (getAt_read env ?rd key q ?e1, e)"
    using assms by (simp add: getAt_def getAt_begin_def serving_def Let_def)
  have "\<exists>b. best_in (set (versions env e)) key q b \<and> getAt_read env ?rd key q ?e1 = answer (value_of b)"
  proof (rule getAt_read_best)
    show "\<forall>m \<in> set (map ((!) (e_mems ?e1)) (rd_mt ?rd # map im_mt (rd_imm ?rd))). mt_inv m"
      using S(1) by (auto simp: mems_ok_def)
    show "\<forall>p \<in> set (rd_tables ?rd). table_ok env (e_heap ?e1 ! p)"
      using S(2) tab by (simp add: tables_ok_def)
    show "set (versions env e) = set (buildRecords (e_mems ?e1 ! rd_mt ?rd)) \<union>
        set (concat (map (\<lambda>i. buildRecords (e_mems ?e1 ! im_mt i)) (rd_imm ?rd))) \<union>
        set (concat (map (\<lambda>p. table_recs env (e_heap ?e1 ! p)) (rd_tables ?rd)))"
      unfolding versions_def mem_versions_def imm_versions_def table_versions_def by (simp add: tab Un_assoc)
  qed
  then show ?thesis using * reads_best [OF S(6)] by auto
qed

end
