(* ===== verification/Store.thy ===== *)
theory Store
  imports Reads
begin

text \<open>
  The invariant of a running engine and the writers: \<open>einv\<close> says that the MemTables are well
  formed, that every listed table is open on a file of the directory that holds its records, that
  no two versions of a key share a sequence number and none is above the counter. \<open>Put\<close>, \<open>Delete\<close>,
  rotation and flushes keep it under any faults of the file system.
\<close>

section \<open>What the file operations leave alone\<close>

lemma wrote_frame: "wrote p s d d' \<Longrightarrow> frame p d d'"
  by (simp add: wrote_def frame_def)

lemma WAL_Append_frame:
  assumes "WAL_Append w r d = (x, w', d')"
  shows "frame (wal_path w) d d'" and "wal_path w' = wal_path w"
proof -
  let ?p = "wal_path w"
  obtain n e1 b1 d1 where w1: "bufio_Write ?p (encode_record r) (wal_w w) d = ((n, e1), b1, d1)" by (metis prod.exhaust)
  obtain e2 b2 d2 where w2: "bufio_Flush ?p b1 d1 = (e2, b2, d2)" by (metis prod.exhaust)
  obtain e3 d3 where w3: "file_Sync ?p d2 = (e3, d3)" by fastforce
  have f: "frame ?p d d1" "frame ?p d1 d2" "frame ?p d2 d3"
    using bufio_Write_wrote [OF w1] bufio_Flush_wrote [OF w2] file_Sync_frame [OF w3] wrote_frame by metis+
  note f' = f frame_trans [OF f(1,2)] frame_trans [OF frame_trans [OF f(1,2)] f(3)]
  show "frame ?p d d'" "wal_path w' = ?p"
    using assms w1 w2 w3 f' by (auto simp: WAL_Append_def Let_def split: option.splits)
qed

lemma WAL_Open_frame: "WAL_Open p d = (r, d') \<Longrightarrow> frame p d d'"
  using tick_frame by (auto simp: WAL_Open_def os_OpenAppend_def frame_def Let_def split: prod.splits if_splits)

lemma WAL_Close_frame:
  assumes "WAL_Close w d = (r, d')"
  shows "frame (wal_path w) d d'"
proof -
  obtain e1 b1 d1 where w1: "bufio_Flush (wal_path w) (wal_w w) d = (e1, b1, d1)" by (metis prod.exhaust)
  obtain e2 d2 where w2: "file_Close d1 = (e2, d2)" by fastforce
  have f: "frame (wal_path w) d d1" using bufio_Flush_wrote [OF w1] wrote_frame by metis
  note f2 = frame_trans [OF f file_Close_frame [OF w2]]
  show ?thesis using assms w1 w2 f f2 by (auto simp: WAL_Close_def Let_def split: option.splits)
qed

lemma WAL_Remove_frame: "frame p d (snd (WAL_Remove p d))"
  by (simp add: WAL_Remove_def os_Remove_frame)

section \<open>File names do not collide\<close>

lemma last_names:
  "last (sstFileName dir l g) = CHR ''t''" "last (walFileName dir g) = CHR ''l''" "last (p @ ''.tmp'') = CHR ''p''"
  by (simp_all add: sstFileName_def sst_name_def walFileName_def filepath_Join_def)

lemma sst_ne_wal: "sstFileName dir l g \<noteq> walFileName dir' h"
proof
  assume "sstFileName dir l g = walFileName dir' h"
  then have "CHR ''t'' = CHR ''l''" using last_names(1) [of dir l g] last_names(2) [of dir' h] by (simp only:)
  then show False by simp
qed

lemma sst_ne_tmp: "sstFileName dir l g \<noteq> p @ ''.tmp''"
proof
  assume "sstFileName dir l g = p @ ''.tmp''"
  then have "CHR ''t'' = CHR ''p''" using last_names(1) [of dir l g] last_names(3) [of p] by (simp only:)
  then show False by simp
qed

lemma wal_ne_tmp: "walFileName dir g \<noteq> p @ ''.tmp''"
proof
  assume "walFileName dir g = p @ ''.tmp''"
  then have "CHR ''l'' = CHR ''p''" using last_names(2) [of dir g] last_names(3) [of p] by (simp only:)
  then show False by simp
qed

text \<open>Operations on tables leave the logs alone.\<close>

definition keeps_wals :: "fs \<Rightarrow> fs \<Rightarrow> bool" where
  "keeps_wals d d' \<longleftrightarrow> (\<forall>dir g. fs_get d' (walFileName dir g) = fs_get d (walFileName dir g))"

lemma keeps_wals_trans: "keeps_wals a b \<Longrightarrow> keeps_wals b c \<Longrightarrow> keeps_wals a c"
  by (simp add: keeps_wals_def)

lemma keeps_wals_same: "same_files d d' \<Longrightarrow> keeps_wals d d'"
  by (simp add: keeps_wals_def same_files_def)

lemma keeps_wals_sst:
  assumes "\<forall>q. q \<noteq> sstFileName dir l g \<and> q \<noteq> sstFileName dir l g @ ''.tmp'' \<longrightarrow> fs_get d' q = fs_get d q"
  shows "keeps_wals d d'"
  unfolding keeps_wals_def by (intro allI assms [rule_format, OF conjI [OF sst_ne_wal [symmetric] wal_ne_tmp]])

lemma sst_inj:
  assumes "sstFileName dir l g = sstFileName dir l' g'" and "l < 2 ^ 63" and "l' < 2 ^ 63"
  shows "l = l' \<and> g = g'"
proof -
  have "sst_name l g = sst_name l' g'" using assms(1) by (simp add: sstFileName_def filepath_Join_def)
  then have "Some (int l, g) = Some (int l', g')"
    using parseSSTFilename_sst_name [OF assms(2), of g] parseSSTFilename_sst_name [OF assms(3), of g'] by (simp only:)
  then show ?thesis by simp
qed

section \<open>The invariant\<close>

definition mems_inv :: "Engine \<Rightarrow> bool" where
  "mems_inv e \<longleftrightarrow> (\<forall>m \<in> set (e_mems e). mt_inv m \<and> (\<forall>r \<in> set (buildRecords m). rec_ok r)) \<and>
     e_mem e < length (e_mems e) \<and> (\<forall>i \<in> set (e_imm e). im_mt i < length (e_mems e)) \<and>
     distinct (e_mem e # map im_mt (e_imm e))"

definition table_held :: "env \<Rightarrow> fs \<Rightarrow> Table \<Rightarrow> bool" where
  "table_held env d t \<longleftrightarrow> 1 \<le> tbl_refCount t \<and> \<not> tbl_removeOnZero t \<and>
     (\<exists>c. opened env c (table_recs env t) t \<and> table_file env c (table_recs env t) (tbl_path t) d)"

definition named :: "Engine \<Rightarrow> string \<Rightarrow> bool" where
  "named e path \<longleftrightarrow> (\<exists>l g. l < 2 ^ 63 \<and> path = sstFileName (e_dir e) l g \<and> g \<le> e_genCounter e)"

definition tables_inv :: "env \<Rightarrow> Engine \<Rightarrow> bool" where
  "tables_inv env e \<longleftrightarrow> env_ok env \<and> distinct (allTablesLocked e) \<and>
     (\<forall>p \<in> set (allTablesLocked e). p < length (e_heap e) \<and> table_held env (e_fs e) (e_heap e ! p) \<and> named e (tbl_path (e_heap e ! p))) \<and>
     inj_on (\<lambda>p. tbl_path (e_heap e ! p)) (set (allTablesLocked e))"

definition seqs_inv :: "env \<Rightarrow> Engine \<Rightarrow> bool" where
  "seqs_inv env e \<longleftrightarrow> coherent (set (versions env e)) \<and> (\<forall>r \<in> set (versions env e). rec_seq r \<le> e_seq e)"

definition wal_named :: "Engine \<Rightarrow> string \<Rightarrow> bool" where
  "wal_named e path \<longleftrightarrow> (\<exists>g. path = walFileName (e_dir e) g)"

definition wals_inv :: "Engine \<Rightarrow> bool" where
  "wals_inv e \<longleftrightarrow> wal_path (e_wal e) = e_walPath e \<and> wal_named e (e_walPath e) \<and> (\<forall>j \<in> set (e_flushCh e). wal_named e (fj_walPath j))"

definition einv :: "env \<Rightarrow> Engine \<Rightarrow> bool" where
  "einv env e \<longleftrightarrow> \<not> e_closed e \<and> mems_inv e \<and> tables_inv env e \<and> seqs_inv env e \<and> wals_inv e \<and>
     (\<forall>p i. \<not> unreadable (e_fs e) p i)"

lemmas inv_defs = mems_inv_def tables_inv_def seqs_inv_def wals_inv_def wal_named_def named_def

lemma table_held_ok: "env_ok env \<Longrightarrow> table_held env d t \<Longrightarrow> table_ok env t \<and> \<not> tbl_released t \<and> 1 \<le> tbl_refCount t"
  by (auto simp: table_held_def table_ok_def intro: exI) (simp add: opened_def)

lemma einv_serving: "einv env e \<Longrightarrow> serving env e"
  unfolding einv_def serving_def mems_ok_def tables_ok_def refs_ok_def mems_inv_def tables_inv_def seqs_inv_def
  using table_held_ok by blast

text \<open>Metrics, channels and snapshots do not matter to it.\<close>

lemma versions_frame [simp]:
  "versions env (e\<lparr>e_reg := r\<rparr>) = versions env e" "versions env (e\<lparr>e_now := n\<rparr>) = versions env e"
  "versions env (e\<lparr>e_compactCh := b\<rparr>) = versions env e" "versions env (e\<lparr>e_flushCh := js\<rparr>) = versions env e"
  "versions env (e\<lparr>e_activeSnapshots := act\<rparr>) = versions env e" "versions env (e\<lparr>e_fs := d\<rparr>) = versions env e"
  "versions env (e\<lparr>e_genCounter := g\<rparr>) = versions env e" "versions env (e\<lparr>e_wal := w\<rparr>) = versions env e"
  "versions env (e\<lparr>e_seq := s\<rparr>) = versions env e"
  by (simp_all add: versions_def mem_versions_def imm_versions_def table_versions_def allTablesLocked_def)

lemma einv_frame [simp]:
  "einv env (e\<lparr>e_reg := r\<rparr>) = einv env e" "einv env (e\<lparr>e_now := n\<rparr>) = einv env e"
  "einv env (e\<lparr>e_compactCh := b\<rparr>) = einv env e" "einv env (e\<lparr>e_activeSnapshots := act\<rparr>) = einv env e"
  by (simp_all add: einv_def inv_defs allTablesLocked_def)

lemma metrics_frame [simp]:
  "einv env (Inc p e) = einv env e" "einv env (Observe p e) = einv env e" "einv env (Adjust p n e) = einv env e"
  "versions env (Inc p e) = versions env e" "versions env (Observe p e) = versions env e" "versions env (Adjust p n e) = versions env e"
  "e_seq (Inc p e) = e_seq e" "e_seq (Observe p e) = e_seq e" "e_seq (Adjust p n e) = e_seq e"
  by (simp_all add: Inc_def Observe_def Adjust_def)

section \<open>Reads after a change\<close>

lemma best_in_cong:
  assumes "\<And>r. visible key q r \<Longrightarrow> r \<in> V \<longleftrightarrow> r \<in> W" and "best_in V key q b"
  shows "best_in W key q b"
proof (cases b)
  case None
  then show ?thesis using assms by (auto simp: best_in_def)
next
  case (Some r)
  then obtain x where "newest_of V key q x" "same_version x r" using assms(2) by (auto simp: best_in_def)
  moreover from this(1) have "newest_of W key q x" using assms(1) by (auto simp: newest_of_def)
  ultimately show ?thesis using Some by (auto simp: best_in_def)
qed

lemma reads_cong:
  assumes "coherent (set ws)" and "\<And>r. visible key q r \<Longrightarrow> r \<in> set vs \<longleftrightarrow> r \<in> set ws"
  shows "reads vs key q = reads ws key q"
proof -
  obtain b where b: "best_in (set vs) key q b" "reads vs key q = value_of b" using best_in_reads by blast
  then show ?thesis using reads_best [OF assms(1) best_in_cong [OF assms(2) b(1)]] by simp
qed

lemma reads_newest:
  assumes "coherent (set vs)" and "newest_of (set vs) key q x"
  shows "reads vs key q = value_of (Some x)"
  using assms by (intro reads_best) (auto simp: best_in_def same_version_def)

section \<open>Writing\<close>

definition counters_ok :: "Engine \<Rightarrow> bool" where
  "counters_ok e \<longleftrightarrow> e_seq e < unboundedSeq \<and> e_genCounter e < unboundedSeq"

lemma word_incr: "(x :: u64) < unboundedSeq \<Longrightarrow> x < x + 1"
proof -
  assume "x < unboundedSeq"
  then have "unat x < unat (unboundedSeq :: u64)" by (simp add: word_less_nat_alt)
  moreover have "unat (unboundedSeq :: u64) = 2 ^ 64 - 1"
    by (simp add: unboundedSeq_def unsigned_minus_1_eq_mask mask_eq_exp_minus_1)
  ultimately have "unat (x + 1) = unat x + 1" by (simp add: unat_word_ariths)
  then show ?thesis by (simp add: word_less_nat_alt)
qed

text \<open>The file system may change wherever no listed table is.\<close>

definition keeps_tables :: "Engine \<Rightarrow> fs \<Rightarrow> bool" where
  "keeps_tables e d \<longleftrightarrow> unreadable d = unreadable (e_fs e) \<and>
     (\<forall>p \<in> set (allTablesLocked e). fs_get d (tbl_path (e_heap e ! p)) = fs_get (e_fs e) (tbl_path (e_heap e ! p)))"

lemma table_held_fs:
  assumes "table_held env d t" and "fs_get d' (tbl_path t) = fs_get d (tbl_path t)" and "unreadable d' = unreadable d"
  shows "table_held env d' t"
  using assms by (auto simp: table_held_def table_file_def table_at_def synced_def)

lemma einv_fs: "einv env e \<Longrightarrow> keeps_tables e d \<Longrightarrow> einv env (e\<lparr>e_fs := d\<rparr>)"
  unfolding einv_def inv_defs keeps_tables_def
  by (simp add: allTablesLocked_def) (meson table_held_fs)

lemma keeps_tables_frame [simp]:
  "keeps_tables (e\<lparr>e_genCounter := g\<rparr>) d = keeps_tables e d" "keeps_tables (e\<lparr>e_seq := s\<rparr>) d = keeps_tables e d"
  "keeps_tables (e\<lparr>e_wal := w\<rparr>) d = keeps_tables e d"
  by (simp_all add: keeps_tables_def allTablesLocked_def)

lemma frame_wal_keeps:
  assumes "einv env e" and "wal_named e p" and "frame p (e_fs e) d"
  shows "keeps_tables e d"
  using assms sst_ne_wal unfolding keeps_tables_def einv_def tables_inv_def frame_def named_def wal_named_def by metis

lemma einv_gen: "einv env e \<Longrightarrow> e_genCounter e \<le> g \<Longrightarrow> einv env (e\<lparr>e_genCounter := g\<rparr>)"
  unfolding einv_def inv_defs by (simp add: allTablesLocked_def) (meson order_trans)

lemma einv_wal:
  "einv env e \<Longrightarrow> wal_path w = e_walPath e \<Longrightarrow> einv env (e\<lparr>e_wal := w\<rparr>)"
  by (simp add: einv_def inv_defs allTablesLocked_def)

lemma einv_seq: "einv env e \<Longrightarrow> e_seq e \<le> s \<Longrightarrow> einv env (e\<lparr>e_seq := s\<rparr>)"
  by (auto simp: einv_def inv_defs allTablesLocked_def)

definition write_mem :: "RecordType \<Rightarrow> MemTable \<Rightarrow> bytes \<Rightarrow> bytes \<Rightarrow> u64 \<Rightarrow> MemTable" where
  "write_mem typ mt key val seq = (if typ = RecordPut then MemTable_Put mt key val seq else MemTable_Delete mt key seq)"

definition new_version :: "RecordType \<Rightarrow> bytes \<Rightarrow> bytes \<Rightarrow> u64 \<Rightarrow> Record" where
  "new_version typ key val seq =
     \<lparr>rec_key = key, rec_value = (if typ = RecordPut then val else []),
      rec_type = (if typ = RecordPut then TypeValue else TypeTombstone), rec_seq = seq\<rparr>"

lemma write_mem_inv: "mt_inv mt \<Longrightarrow> mt_inv (write_mem typ mt key val seq)"
  by (simp add: write_mem_def)

lemma write_mem_records:
  assumes "mt_inv mt"
  shows "set (buildRecords (write_mem typ mt key val seq)) =
    insert (new_version typ key val seq) {r \<in> set (buildRecords mt). rec_key r \<noteq> key}"
proof (rule set_eqI)
  fix r
  have "MemTable_Get (write_mem typ mt key val seq) k = (if k = key
      then Some \<lparr>ent_type = rec_type (new_version typ key val seq), ent_value = rec_value (new_version typ key val seq), ent_seq = seq\<rparr>
      else MemTable_Get mt k)" for k
    using assms by (simp add: write_mem_def new_version_def MemTable_Get_Put MemTable_Get_Delete)
  then show "r \<in> set (buildRecords (write_mem typ mt key val seq)) \<longleftrightarrow>
      r \<in> insert (new_version typ key val seq) {r \<in> set (buildRecords mt). rec_key r \<noteq> key}"
    using in_buildRecords [OF write_mem_inv [OF assms], of r "typ" key val seq] in_buildRecords [OF assms, of r]
    by (cases r) (auto simp: new_version_def)
qed

definition put_mem :: "Engine \<Rightarrow> MemTable \<Rightarrow> Engine" where
  "put_mem e mt = e\<lparr>e_mems := (e_mems e)[e_mem e := mt]\<rparr>"

lemma put_mem_versions:
  assumes "mems_inv e"
  shows "mem_versions (put_mem e mt) = buildRecords mt" "imm_versions (put_mem e mt) = imm_versions e"
    "table_versions env (put_mem e mt) = table_versions env e"
proof -
  have "im_mt i \<noteq> e_mem e" if "i \<in> set (e_imm e)" for i using assms imageI [OF that, of im_mt] by (auto simp: mems_inv_def)
  then have "map (\<lambda>i. buildRecords ((e_mems e)[e_mem e := mt] ! im_mt i)) (e_imm e) = map (\<lambda>i. buildRecords (e_mems e ! im_mt i)) (e_imm e)"
    by (intro map_cong refl) (metis nth_list_update_neq)
  from arg_cong [OF this, of concat] show "imm_versions (put_mem e mt) = imm_versions e"
    by (simp only: imm_versions_def put_mem_def Engine.simps) simp
  show "mem_versions (put_mem e mt) = buildRecords mt" using assms by (simp add: mem_versions_def put_mem_def mems_inv_def)
  show "table_versions env (put_mem e mt) = table_versions env e" by (simp add: table_versions_def put_mem_def allTablesLocked_def)
qed

text \<open>The versions besides the ones the active MemTable holds of a key.\<close>

definition other_versions :: "env \<Rightarrow> Engine \<Rightarrow> bytes \<Rightarrow> Record set" where
  "other_versions env e key =
     {r \<in> set (mem_versions e). rec_key r \<noteq> key} \<union> set (imm_versions e) \<union> set (table_versions env e)"

lemma other_versions_sub: "other_versions env e key \<subseteq> set (versions env e)"
  by (auto simp: other_versions_def versions_def)

lemma other_versions_key: "r \<in> set (versions env e) \<Longrightarrow> rec_key r \<noteq> key \<Longrightarrow> r \<in> other_versions env e key"
  by (auto simp: other_versions_def versions_def)

definition key_val_ok :: "bytes \<Rightarrow> bytes \<Rightarrow> bool" where
  "key_val_ok key val \<longleftrightarrow> key \<noteq> [] \<and> length key < 2 ^ 32 \<and> length val < 2 ^ 32"

lemma einv_put_mem:
  assumes "einv env e" and "key_val_ok key val" and "\<forall>r \<in> set (versions env e). rec_seq r < s" and "s \<le> e_seq e"
    and e'_def: "e' = put_mem e (write_mem typ (e_mems e ! e_mem e) key val s)"
  shows "einv env e'" and "set (versions env e') = insert (new_version typ key val s) (other_versions env e key)"
proof -
  let ?m = "write_mem typ (e_mems e ! e_mem e) key val s" and ?n = "new_version typ key val s"
  have M: "mems_inv e" "mt_inv (e_mems e ! e_mem e)" "e_mem e < length (e_mems e)" using assms(1) by (auto simp: einv_def mems_inv_def)
  show set: "set (versions env e') = insert ?n (other_versions env e key)"
    using put_mem_versions [OF M(1), where mt = ?m] write_mem_records [OF M(2), of "typ" key val s]
    by (simp add: versions_def e'_def other_versions_def mem_versions_def) blast
  have seqs: "rec_seq r < s" if "r \<in> other_versions env e key" for r
    using assms(3) subsetD [OF other_versions_sub that] by blast
  then have "rec_seq r \<noteq> s" if "r \<in> other_versions env e key" for r using that by fastforce
  moreover have "coherent (other_versions env e key)"
    using assms(1) other_versions_sub unfolding einv_def seqs_inv_def coherent_def by blast
  ultimately have "coherent (set (versions env e'))" unfolding set coherent_def by (auto simp: new_version_def)
  moreover have "\<forall>r \<in> set (versions env e'). rec_seq r \<le> e_seq e" unfolding set using seqs assms(4) by (force simp: new_version_def)
  ultimately have "seqs_inv env e'" by (simp add: seqs_inv_def) (simp add: e'_def put_mem_def)
  moreover have "rec_ok ?n" using assms(2) by (simp add: rec_ok_def new_version_def key_val_ok_def)
  then have "\<forall>r \<in> set (buildRecords ?m). rec_ok r" using write_mem_records [OF M(2)] M by (auto simp: mems_inv_def)
  then have "mems_inv e'" using M write_mem_inv [OF M(2)] by (auto simp: mems_inv_def e'_def put_mem_def dest: set_update_subset_insert [THEN subsetD])
  ultimately show "einv env e'" using assms(1) by (simp add: einv_def inv_defs e'_def put_mem_def allTablesLocked_def)
qed

subsection \<open>Rotation\<close>

lemma buildRecords_New [simp]: "buildRecords (MemTable_New r) = []"
  by (simp add: buildRecords_def MemTable_All_New)

text \<open>The hand-over of the active MemTable to the immutable ones, as one change of the state.\<close>

definition hand_over :: "WAL \<Rightarrow> string \<Rightarrow> Engine \<Rightarrow> Engine" where
  "hand_over w path e =
     e\<lparr>e_mems := e_mems e @ [MemTable_New (e_rand e (length (e_mems e)))], e_mem := length (e_mems e), e_wal := w, e_walPath := path,
       e_imm := e_imm e @ [\<lparr>im_mt = e_mem e, im_walPath = e_walPath e\<rparr>],
       e_flushCh := e_flushCh e @ [\<lparr>fj_mt = e_mem e, fj_walPath = e_walPath e\<rparr>]\<rparr>"

lemma hand_over_versions:
  assumes "mems_inv e"
  shows "mem_versions (hand_over w path e) = []" "imm_versions (hand_over w path e) = imm_versions e @ mem_versions e"
    "table_versions env (hand_over w path e) = table_versions env e"
proof -
  let ?ms = "e_mems e @ [MemTable_New (e_rand e (length (e_mems e)))]"
  have "map (\<lambda>i. buildRecords (?ms ! im_mt i)) (e_imm e) = map (\<lambda>i. buildRecords (e_mems e ! im_mt i)) (e_imm e)"
    using assms by (intro map_cong refl) (simp add: mems_inv_def nth_append)
  from arg_cong [OF this, of concat] show "imm_versions (hand_over w path e) = imm_versions e @ mem_versions e"
    using assms by (simp only: imm_versions_def mem_versions_def hand_over_def Engine.simps) (simp add: mems_inv_def nth_append)
  show "mem_versions (hand_over w path e) = []" by (simp add: mem_versions_def hand_over_def)
  show "table_versions env (hand_over w path e) = table_versions env e" by (simp add: table_versions_def hand_over_def allTablesLocked_def)
qed

lemma einv_hand_over:
  assumes "einv env e" and "wal_path w = path" and "wal_named e path"
  shows "einv env (hand_over w path e)" and "set (versions env (hand_over w path e)) = set (versions env e)"
proof -
  have M: "mems_inv e" using assms(1) by (simp add: einv_def)
  show set: "set (versions env (hand_over w path e)) = set (versions env e)"
    using hand_over_versions [OF M] by (auto simp: versions_def)
  have "mems_inv (hand_over w path e)" using M by (auto simp: mems_inv_def hand_over_def less_Suc_eq)
  moreover have "seqs_inv env (hand_over w path e)"
    using assms(1) unfolding seqs_inv_def set by (simp add: einv_def seqs_inv_def hand_over_def)
  ultimately show "einv env (hand_over w path e)"
    using assms by (auto simp: einv_def inv_defs hand_over_def allTablesLocked_def)
qed

lemma wal_named_frame [simp]:
  "wal_named (e\<lparr>e_genCounter := g\<rparr>) = wal_named e" "wal_named (e\<lparr>e_fs := d\<rparr>) = wal_named e"
  "wal_named (e\<lparr>e_wal := w\<rparr>) = wal_named e" "wal_named (e\<lparr>e_seq := s\<rparr>) = wal_named e"
  "wal_named (hand_over w' p e) = wal_named e"
  by (auto simp: wal_named_def hand_over_def)

lemma rotate_cases:
  assumes "rotate e = (r, e')"
  obtains (small) "r = None" "e' = e" "sint (MemTable_Size (e_mems e ! e_mem e)) < sint (e_flushThreshold e)"
  | (no_wal) x d where "r = Some (EWrap ''opening new wal'' x)" "e' = e\<lparr>e_genCounter := e_genCounter e + 1, e_fs := d\<rparr>"
      "WAL_Open (walFileName (e_dir e) (e_genCounter e + 1)) (e_fs e) = (Inl x, d)"
  | (rotated) w d c d' where "r = None" "WAL_Open (walFileName (e_dir e) (e_genCounter e + 1)) (e_fs e) = (Inr w, d)"
      "WAL_Close (e_wal e) d = (c, d')"
      "e' = hand_over w (walFileName (e_dir e) (e_genCounter e + 1)) (e\<lparr>e_genCounter := e_genCounter e + 1, e_fs := d'\<rparr>)"
proof (cases "sint (MemTable_Size (e_mems e ! e_mem e)) < sint (e_flushThreshold e)")
  case True
  with assms show thesis by (intro small) (auto simp: rotate_def)
next
  case False
  let ?p = "walFileName (e_dir e) (e_genCounter e + 1)"
  obtain x d where o: "WAL_Open ?p (e_fs e) = (x, d)" by fastforce
  show thesis
  proof (cases x)
    case (Inl y)
    with assms False o show thesis by (intro no_wal) (auto simp: rotate_def nextGen_def on_fs_def Let_def)
  next
    case (Inr w)
    obtain c d' where c: "WAL_Close (e_wal e) d = (c, d')" by fastforce
    with assms False o Inr show thesis
      by (intro rotated [of w d c d']) (auto simp: rotate_def nextGen_def on_fs_def new_memtable_def hand_over_def Let_def)
  qed
qed

lemma WAL_Open_path: "WAL_Open p d = (Inr w, d') \<Longrightarrow> wal_path w = p"
  by (auto simp: WAL_Open_def split: prod.splits option.splits)

lemma rotate_einv:
  assumes "einv env e" and "rotate e = (r, e')" and "e_genCounter e < unboundedSeq"
  shows "einv env e' \<and> set (versions env e') = set (versions env e) \<and> e_seq e' = e_seq e"
  using assms(2)
proof (cases rule: rotate_cases)
  case small
  with assms(1) show ?thesis by simp
next
  case (no_wal x d)
  let ?p = "walFileName (e_dir e) (e_genCounter e + 1)"
  have "wal_named e ?p" by (auto simp: wal_named_def)
  then have "keeps_tables e d" using frame_wal_keeps [OF assms(1) _ WAL_Open_frame [OF no_wal(3)]] by blast
  with einv_fs [OF einv_gen [OF assms(1), of "e_genCounter e + 1"], of d] word_incr [OF assms(3)] no_wal show ?thesis by simp
next
  case (rotated w d c d')
  let ?p = "walFileName (e_dir e) (e_genCounter e + 1)"
  have wn: "wal_named e ?p" "wal_named e (wal_path (e_wal e))" using assms(1) by (auto simp: wal_named_def einv_def wals_inv_def)
  have k: "keeps_tables e d" using frame_wal_keeps [OF assms(1) wn(1) WAL_Open_frame [OF rotated(2)]] .
  have "keeps_tables (e\<lparr>e_fs := d\<rparr>) d'"
    using frame_wal_keeps [OF einv_fs [OF assms(1) k], of "wal_path (e_wal e)" d'] WAL_Close_frame [OF rotated(3)] wn(2) by simp
  with k have "keeps_tables e d'" by (simp add: keeps_tables_def allTablesLocked_def)
  with einv_fs [OF einv_gen [OF assms(1), of "e_genCounter e + 1"], of d'] word_incr [OF assms(3)]
  have E: "einv env (e\<lparr>e_genCounter := e_genCounter e + 1, e_fs := d'\<rparr>)" by simp
  from einv_hand_over [OF E WAL_Open_path [OF rotated(2)]] wn(1) rotated(4) show ?thesis by (simp add: hand_over_def)
qed

subsection \<open>Put and Delete\<close>

lemma engine_write_cases:
  assumes "einv env e" and "engine_write key val typ e = (r, e')" and "key_val_ok key val" and "counters_ok e"
  obtains (refused) x where "r = Some (EWrap ''engine: wal append failed'' x)" "einv env e'"
      "versions env e' = versions env e" "e_seq e' = e_seq e + 1"
  | (applied) "einv env e'" "set (versions env e') = insert (new_version typ key val (e_seq e + 1)) (other_versions env e key)"
      "e_seq e' = e_seq e + 1" "\<forall>x. r = Some x \<longrightarrow> (\<exists>y. x = EWrap ''engine: rotating memtable'' y)"
proof -
  let ?s = "e_seq e + 1"
  let ?rec = "\<lparr>wr_type = typ, wr_key = key, wr_value = val, wr_seq = ?s\<rparr>"
  obtain x w d where a: "WAL_Append (e_wal e) ?rec (e_fs e) = (x, w, d)" by (metis prod.exhaust)
  note F = WAL_Append_frame [OF a]
  have less: "e_seq e < ?s" using assms(4) word_incr by (simp add: counters_ok_def)
  have W: "wal_named e (wal_path (e_wal e))" "wal_path w = e_walPath e"
    using assms(1) F(2) by (simp_all add: einv_def wals_inv_def)
  let ?e2 = "e\<lparr>e_seq := ?s, e_wal := w, e_fs := d\<rparr>"
  have E2: "einv env ?e2"
    using einv_fs [OF einv_wal [OF einv_seq [OF assms(1), of ?s], of w], of d] frame_wal_keeps [OF assms(1) W(1) F(1)] W(2) less by simp
  have nc: "\<not> e_closed e" using assms(1) by (simp add: einv_def)
  show thesis
  proof (cases x)
    case (Some y)
    with E2 assms(2) nc a show thesis by (intro refused [of y]) (auto simp: engine_write_def)
  next
    case None
    let ?m = "write_mem typ (e_mems e ! e_mem e) key val ?s"
    let ?e3 = "put_mem ?e2 ?m"
    have s: "\<forall>r \<in> set (versions env ?e2). rec_seq r < ?s"
      using assms(1) le_less_trans [OF _ less] by (simp add: einv_def seqs_inv_def)
    have e3: "?e3 = put_mem ?e2 (write_mem typ (e_mems ?e2 ! e_mem ?e2) key val ?s)" by simp
    have sle: "?s \<le> e_seq ?e2" by simp
    note P = einv_put_mem [OF E2 assms(3) s sle e3]
    have ov: "other_versions env ?e2 key = other_versions env e key"
      by (simp add: other_versions_def mem_versions_def imm_versions_def table_versions_def allTablesLocked_def)
    have step: "(r, e') = (if sint (MemTable_Size ?m) \<ge> sint (e_flushThreshold e)
        then let (r4, e4) = rotate ?e3 in (map_option (EWrap ''engine: rotating memtable'') r4, e4) else (None, ?e3))"
      using assms(2) [symmetric] nc a None by (simp only: engine_write_def Let_def put_mem_def if_False prod.case option.case Engine.simps flip: write_mem_def) simp
    show thesis
    proof (cases "sint (MemTable_Size ?m) \<ge> sint (e_flushThreshold e)")
      case True
      obtain r4 e4 where rot: "rotate ?e3 = (r4, e4)" by fastforce
      have "e_genCounter ?e3 < unboundedSeq" using assms(4) by (simp add: counters_ok_def put_mem_def)
      note R = rotate_einv [OF P(1) rot this]
      have "e' = e4" "r = map_option (EWrap ''engine: rotating memtable'') r4" using step True rot by simp_all
      with R P(2) ov show thesis by (intro applied) (auto simp: put_mem_def)
    next
      case False
      with P ov step show thesis by (intro applied) (simp_all add: put_mem_def)
    qed
  qed
qed

text \<open>A record above all others replaces what is visible of its key, and nothing else.\<close>

lemma reads_insert:
  assumes "coherent (set vs)" and "\<forall>r \<in> set vs. rec_seq r < s" and "set ws = insert (new_version typ key val s) A"
    and "A \<subseteq> set vs" and "{r \<in> set vs. rec_key r \<noteq> key} \<subseteq> A"
  shows "coherent (set ws)" and "s \<le> q \<Longrightarrow> reads ws key q = (if typ = RecordPut then Some val else None)"
    and "k \<noteq> key \<Longrightarrow> reads ws k q = reads vs k q"
proof -
  let ?n = "new_version typ key val s"
  have less: "rec_seq r < s" if "r \<in> A" for r using assms(2,4) that by blast
  show C: "coherent (set ws)"
    unfolding coherent_def assms(3)
  proof (intro ballI impI)
    fix r r'
    assume r: "r \<in> insert ?n A" "r' \<in> insert ?n A" and eq: "rec_key r = rec_key r' \<and> rec_seq r = rec_seq r'"
    have "rec_seq ?n = s" by (simp add: new_version_def)
    then have "r = ?n \<longleftrightarrow> r' = ?n" using r eq less [of r] less [of r'] by auto
    then show "r = r'" using r eq assms(1,4) unfolding coherent_def by blast
  qed
  have "newest_of (set ws) key q ?n" if "s \<le> q"
    unfolding assms(3) newest_of_def visible_def using that less by (auto simp: new_version_def less_imp_le)
  from reads_newest [OF C this] show "s \<le> q \<Longrightarrow> reads ws key q = (if typ = RecordPut then Some val else None)"
    by (simp add: new_version_def value_of_def TypeValue_def TypeTombstone_def)
  assume "k \<noteq> key"
  then have "r \<in> set ws \<longleftrightarrow> r \<in> set vs" if "visible k q r" for r
    using that assms(4,5) unfolding assms(3) visible_def by (auto simp: new_version_def)
  from reads_cong [OF assms(1) this] show "reads ws k q = reads vs k q" .
qed

lemma reads_write:
  assumes "einv env e" and "s > e_seq e" and "set (versions env e') = insert (new_version typ key val s) (other_versions env e key)"
  shows "s \<le> q \<Longrightarrow> reads (versions env e') key q = (if typ = RecordPut then Some val else None)"
    and "k \<noteq> key \<Longrightarrow> reads (versions env e') k q = reads (versions env e) k q"
proof -
  have C: "coherent (set (versions env e))" "\<forall>r \<in> set (versions env e). rec_seq r < s"
    using assms(1,2) by (auto simp: einv_def seqs_inv_def intro: le_less_trans)
  note R = reads_insert [OF C assms(3) other_versions_sub]
  show "s \<le> q \<Longrightarrow> reads (versions env e') key q = (if typ = RecordPut then Some val else None)"
    "k \<noteq> key \<Longrightarrow> reads (versions env e') k q = reads (versions env e) k q" using R(2,3) other_versions_key by blast+
qed

end
