(* ===== verification/Flush.thy ===== *)
theory Flush
  imports Store
begin

text \<open>
  Flushing: writing a MemTable to a new level-0 table and replacing it by that table. Under any
  faults a flush changes no read: either the table took over exactly the versions of the MemTable,
  or the MemTable and its log are still there.
\<close>

section \<open>A new table\<close>

definition table_paths :: "Engine \<Rightarrow> string set" where
  "table_paths e = (\<lambda>p. tbl_path (e_heap e ! p)) ` set (allTablesLocked e)"

definition fits :: "Record list \<Rightarrow> bool" where
  "fits rs \<longleftrightarrow> length rs \<le> 2 ^ 28 \<and> small_table rs"

lemma fresh_name:
  assumes "einv env e" and "e_genCounter e < unboundedSeq" and "l < 2 ^ 63"
  shows "sstFileName (e_dir e) l (e_genCounter e + 1) \<notin> table_paths e"
proof
  assume "sstFileName (e_dir e) l (e_genCounter e + 1) \<in> table_paths e"
  then obtain l' g where lg: "l' < 2 ^ 63" "sstFileName (e_dir e) l (e_genCounter e + 1) = sstFileName (e_dir e) l' g" "g \<le> e_genCounter e"
    using assms(1) unfolding table_paths_def einv_def tables_inv_def named_def by auto
  from sst_inj [OF lg(2) assms(3) lg(1)] lg(3) word_incr [OF assms(2)] show False by (simp add: not_less)
qed

lemma table_paths_sst: "einv env e \<Longrightarrow> p \<in> table_paths e \<Longrightarrow> \<exists>l g. p = sstFileName (e_dir e) l g"
  unfolding table_paths_def einv_def tables_inv_def named_def by blast

lemma write_keeps_tables:
  assumes "einv env e" and "path \<notin> table_paths e" and "Write env path rs c (e_fs e) = (x, d)"
  shows "keeps_tables e d"
proof -
  have "p \<noteq> path @ ''.tmp''" if "p \<in> table_paths e" for p
    using table_paths_sst [OF assms(1) that] sst_ne_tmp by metis
  moreover have "p \<noteq> path" if "p \<in> table_paths e" for p using assms(2) that by blast
  ultimately have "fs_get d p = fs_get (e_fs e) p" if "p \<in> table_paths e" for p
    using Write_outcome [OF assms(3), THEN conjunct1, rule_format] that by simp
  then show ?thesis using Write_outcome [OF assms(3)] by (simp add: keeps_tables_def table_paths_def)
qed

lemma same_files_keeps: "same_files (e_fs e) d \<Longrightarrow> keeps_tables e d"
  by (simp add: same_files_def keeps_tables_def)

lemma keeps_tables_trans: "keeps_tables e d \<Longrightarrow> keeps_tables (e\<lparr>e_fs := d\<rparr>) d' \<Longrightarrow> keeps_tables e d'"
  by (simp add: keeps_tables_def allTablesLocked_def)

text \<open>What is known of a table that was just written and opened.\<close>

definition fresh_table :: "env \<Rightarrow> Engine \<Rightarrow> Record list \<Rightarrow> Table \<Rightarrow> bool" where
  "fresh_table env e rs t \<longleftrightarrow> table_held env (e_fs e) t \<and> tbl_refCount t = 1 \<and> table_recs env t = rs \<and> named e (tbl_path t) \<and> tbl_path t \<notin> table_paths e"

lemma open_fresh:
  assumes "env_ok env" and "table_file env c rs path d" and "Table_Open path d = (r, d')"
  shows "same_files d d'" and "\<And>t. r = Inr t \<Longrightarrow> table_held env d' t \<and> tbl_refCount t = 1 \<and> table_recs env t = rs \<and> tbl_path t = path"
    and "no_faults d \<Longrightarrow> \<exists>t. r = Inr t"
proof -
  show sf: "same_files d d'" by (rule Table_Open_same_files [OF assms(3)])
  show "table_held env d' t \<and> tbl_refCount t = 1 \<and> table_recs env t = rs \<and> tbl_path t = path" if "r = Inr t" for t
  proof -
    have o: "opened env c rs t" "tbl_path t = path" "tbl_refCount t = 1" "\<not> tbl_removeOnZero t"
      using Table_Open_file(1) [OF assms(2,1,3) that] by auto
    note recs = opened_table_recs [OF o(1) assms(1)]
    have "table_file env c rs path d'" by (rule table_file_same [OF sf assms(2)])
    with o recs show ?thesis by (auto simp: table_held_def)
  qed
  show "no_faults d \<Longrightarrow> \<exists>t. r = Inr t" by (rule Table_Open_file(2) [OF assms(2,1,3)])
qed

lemma write_table_run:
  assumes "einv env e" and "e_genCounter e < unboundedSeq" and "recs_ok rs" and "small_table rs"
    and "write_table env rs m1 m2 e = (r, e')"
  obtains d where "e' = e\<lparr>e_genCounter := e_genCounter e + 1, e_fs := d\<rparr>" and "keeps_tables e d"
    and "einv env e'" and "keeps_wals (e_fs e) d" and "\<And>t. r = Inr t \<Longrightarrow> fresh_table env e' rs t" and "no_faults (e_fs e) \<Longrightarrow> no_faults d \<and> (\<exists>t. r = Inr t)"
proof -
  let ?path = "sstFileName (e_dir e) 0 (e_genCounter e + 1)"
  have fresh: "?path \<notin> table_paths e" by (rule fresh_name [OF assms(1,2)]) simp
  have eo: "env_ok env" "\<forall>p i. \<not> unreadable (e_fs e) p i" using assms(1) by (auto simp: einv_def tables_inv_def)
  obtain x d1 where w: "Write env ?path rs (e_compress e) (e_fs e) = (x, d1)" by fastforce
  note K1 = write_keeps_tables [OF assms(1) fresh w]
  have W1: "keeps_wals (e_fs e) d1" by (rule keeps_wals_sst [OF Write_outcome [OF w, THEN conjunct1]])
  have gen: "e_genCounter e \<le> e_genCounter e + 1" using word_incr [OF assms(2)] by simp
  have inv: "einv env (e\<lparr>e_genCounter := e_genCounter e + 1, e_fs := d\<rparr>)" if "keeps_tables e d" for d
    using einv_fs [OF einv_gen [OF assms(1) gen], of d] that by simp
  have nf: "x = None \<and> no_faults d1" if "no_faults (e_fs e)"
    using Write_no_faults [OF that eo(1) assms(3), of ?path "e_compress e"] w by (metis prod.inject)
  show thesis
  proof (cases x)
    case (Some y)
    then have "e' = e\<lparr>e_genCounter := e_genCounter e + 1, e_fs := d1\<rparr>" "r = Inl (EWrap m1 y)"
      using assms(5) w by (auto simp: write_table_def nextGen_def on_fs_def)
    with inv [OF K1] K1 W1 Some nf show thesis by (intro that) auto
  next
    case None
    have "table_at env (e_compress e) rs ?path d1" using Write_outcome [OF w] None by simp
    then have tf: "table_file env (e_compress e) rs ?path d1"
      using Write_outcome [OF w] eo assms(3,4) by (intro table_at_table_file) auto
    obtain z d2 where o: "Table_Open ?path d1 = (z, d2)" by fastforce
    note O = open_fresh [OF eo(1) tf o]
    have K2: "keeps_tables e d2" using keeps_tables_trans [OF K1 same_files_keeps] O(1) by simp
    have e': "e' = e\<lparr>e_genCounter := e_genCounter e + 1, e_fs := d2\<rparr>" "\<And>t. r = Inr t \<longleftrightarrow> z = Inr t"
      using assms(5) w None o by (auto simp: write_table_def nextGen_def on_fs_def split: sum.splits)
    have "no_faults d2" if "no_faults (e_fs e)" using nf [OF that] O(1) by (simp add: same_files_def)
    moreover have "fresh_table env e' rs t" if "z = Inr t" for t
    proof -
      have "named e' ?path" unfolding named_def e' by (intro exI [of _ 0] exI [of _ "e_genCounter e + 1"]) simp
      moreover have "?path \<notin> table_paths e'" using fresh by (simp add: e' table_paths_def allTablesLocked_def)
      ultimately show ?thesis using O(2) [OF that] by (simp add: fresh_table_def e')
    qed
    moreover have "keeps_wals (e_fs e) d2" by (rule keeps_wals_trans [OF W1 keeps_wals_same [OF O(1)]])
    ultimately show thesis using inv [OF K2] K2 e' nf O(3) by (intro that [of d2]) auto
  qed
qed

section \<open>Adding it to the list\<close>

lemma allTables_add [simp]: "allTablesLocked (add_table l t e) = allTablesLocked e @ [length (e_heap e)]"
  by (simp add: add_table_def new_table_def allTablesLocked_def)

lemma heap_add [simp]: "e_heap (add_table l t e) = e_heap e @ [t]"
  by (simp add: add_table_def new_table_def)

lemma add_table_fields [simp]:
  "e_mems (add_table l t e) = e_mems e" "e_mem (add_table l t e) = e_mem e" "e_imm (add_table l t e) = e_imm e"
  "e_fs (add_table l t e) = e_fs e" "e_seq (add_table l t e) = e_seq e" "e_genCounter (add_table l t e) = e_genCounter e"
  "e_dir (add_table l t e) = e_dir e" "e_closed (add_table l t e) = e_closed e" "e_wal (add_table l t e) = e_wal e"
  "e_walPath (add_table l t e) = e_walPath e" "e_flushCh (add_table l t e) = e_flushCh e"
  "e_tables (add_table l t e) = e_tables e @ [\<lparr>lt_level = l, lt_table = length (e_heap e)\<rparr>]"
  "e_maxLevels (add_table l t e) = e_maxLevels e" "e_activeSnapshots (add_table l t e) = e_activeSnapshots e"
  by (simp_all add: add_table_def new_table_def)

lemma tables_inv_ids: "tables_inv env e \<Longrightarrow> p \<in> set (allTablesLocked e) \<Longrightarrow> p < length (e_heap e)"
  by (simp add: tables_inv_def)

lemma add_table_versions:
  assumes "tables_inv env e"
  shows "table_versions env (add_table l t e) = table_versions env e @ table_recs env t"
    "mem_versions (add_table l t e) = mem_versions e" "imm_versions (add_table l t e) = imm_versions e"
proof -
  have "map (\<lambda>p. table_recs env ((e_heap e @ [t]) ! p)) (allTablesLocked e) = map (\<lambda>p. table_recs env (e_heap e ! p)) (allTablesLocked e)"
    using tables_inv_ids [OF assms] by (intro map_cong refl) (simp add: nth_append)
  from arg_cong [OF this, of concat] show "table_versions env (add_table l t e) = table_versions env e @ table_recs env t"
    unfolding table_versions_def by simp
  show "mem_versions (add_table l t e) = mem_versions e" "imm_versions (add_table l t e) = imm_versions e"
    by (simp_all add: mem_versions_def imm_versions_def)
qed

lemma add_table_tables_inv:
  assumes "tables_inv env e" and "fresh_table env e rs t"
  shows "tables_inv env (add_table l t e)"
proof -
  let ?P = "allTablesLocked e"
  have ids: "p < length (e_heap e)" if "p \<in> set ?P" for p using tables_inv_ids [OF assms(1) that] .
  have nth: "(e_heap e @ [t]) ! p = e_heap e ! p" if "p \<in> set ?P" for p using ids [OF that] by (simp add: nth_append)
  have nm: "named (add_table l t e) q = named e q" for q by (simp add: named_def)
  have T: "distinct ?P" "\<forall>p \<in> set ?P. table_held env (e_fs e) (e_heap e ! p) \<and> named e (tbl_path (e_heap e ! p))"
    "inj_on (\<lambda>p. tbl_path (e_heap e ! p)) (set ?P)" "env_ok env" using assms(1) by (auto simp: tables_inv_def)
  have new: "table_held env (e_fs e) t" "named e (tbl_path t)" "tbl_path t \<notin> table_paths e" using assms(2) by (auto simp: fresh_table_def)
  have d: "distinct (?P @ [length (e_heap e)])" using T(1) ids by fastforce
  have "inj_on (\<lambda>p. tbl_path ((e_heap e @ [t]) ! p)) (set ?P)" using T(3) nth unfolding inj_on_def by simp
  moreover have "tbl_path ((e_heap e @ [t]) ! length (e_heap e)) \<notin> (\<lambda>p. tbl_path ((e_heap e @ [t]) ! p)) ` set ?P"
    using new(3) nth unfolding table_paths_def by simp
  ultimately have "inj_on (\<lambda>p. tbl_path ((e_heap e @ [t]) ! p)) (set (?P @ [length (e_heap e)]))"
    using ids by (simp add: inj_on_insert) fastforce
  then show ?thesis unfolding tables_inv_def allTables_add heap_add nm using d T(2,4) new(1,2) nth less_SucI [OF ids] by auto
qed

lemma einv_add_table:
  assumes "einv env e" and "fresh_table env e rs t" and "set rs \<subseteq> set (versions env e)"
  shows "einv env (add_table l t e)" and "set (versions env (add_table l t e)) = set (versions env e)"
proof -
  have T: "tables_inv env e" using assms(1) by (simp add: einv_def)
  have rs: "table_recs env t = rs" using assms(2) by (simp add: fresh_table_def)
  show set: "set (versions env (add_table l t e)) = set (versions env e)"
    using add_table_versions [OF T] rs assms(3) by (auto simp: versions_def)
  show "einv env (add_table l t e)"
    using assms(1) add_table_tables_inv [OF T assms(2)] unfolding einv_def seqs_inv_def set
    by (simp add: mems_inv_def wals_inv_def wal_named_def)
qed

section \<open>The flush\<close>

lemma buildRecords_ok:
  assumes "mt_inv mt" and "\<forall>r \<in> set (buildRecords mt). rec_ok r" and "fits (buildRecords mt)" and "buildRecords mt \<noteq> []"
  shows "recs_ok (buildRecords mt)"
proof -
  have "sorted_wrt (<) (map rec_key (buildRecords mt))"
    using MemTable_All_sorted [OF assms(1)] by (simp add: buildRecords_def comp_def case_prod_beta)
  then have "sorted_wrt rec_before (buildRecords mt)"
    unfolding sorted_wrt_map by (rule sorted_wrt_mono_rel [rotated]) (simp add: rec_before_def)
  with assms show ?thesis by (simp add: recs_ok_def fits_def)
qed

lemma imm_records:
  assumes "mems_inv e" and "i \<in> set (e_imm e)"
  shows "mt_inv (e_mems e ! im_mt i)" "\<forall>r \<in> set (buildRecords (e_mems e ! im_mt i)). rec_ok r"
    "set (buildRecords (e_mems e ! im_mt i)) \<subseteq> set (imm_versions e)"
  using assms by (auto simp: mems_inv_def imm_versions_def)

lemma drop_imm_split: "i \<in> set ims \<Longrightarrow> distinct (map im_mt ims) \<Longrightarrow> set ims = insert i (set (drop_imm (im_mt i) ims))"
proof (induction ims)
  case (Cons j js)
  show ?case
  proof (cases "im_mt j = im_mt i")
    case True
    then have "i \<notin> set js" using Cons.prems(2) image_iff [of "im_mt j" im_mt "set js"] by auto
    then have "i = j" using Cons.prems(1) by simp
    then show ?thesis by simp
  next
    case False
    then have "i \<in> set js" using Cons.prems(1) by auto
    with Cons.IH Cons.prems(2) have "set js = insert i (set (drop_imm (im_mt i) js))" by simp
    then show ?thesis using False by simp blast
  qed
qed simp

lemma drop_imm_sub: "set (drop_imm m ims) \<subseteq> set ims" "distinct (map im_mt ims) \<Longrightarrow> distinct (map im_mt (drop_imm m ims))"
proof (induction ims)
  case (Cons j js)
  { case 1 show ?case using Cons by auto }
  { case 2 then show ?case using Cons by auto }
qed simp_all

lemma inv_imm [simp]:
  "tables_inv env (e\<lparr>e_imm := ims\<rparr>) = tables_inv env e" "wals_inv (e\<lparr>e_imm := ims\<rparr>) = wals_inv e"
  by (simp_all add: tables_inv_def wals_inv_def named_def wal_named_def allTablesLocked_def)

lemma flush_commit_einv:
  assumes "einv env e" and "fresh_table env e (buildRecords (e_mems e ! mt)) t" and "mt \<in> im_mt ` set (e_imm e)"
  shows "einv env (flush_commit mt t e)" and "set (versions env (flush_commit mt t e)) = set (versions env e)"
proof -
  obtain i where i: "i \<in> set (e_imm e)" "im_mt i = mt" using assms(3) by auto
  have M: "mems_inv e" "tables_inv env e" "distinct (map im_mt (e_imm e))" using assms(1) by (auto simp: einv_def mems_inv_def)
  let ?rs = "buildRecords (e_mems e ! mt)" and ?a = "add_table 0 t e"
  have sub: "set ?rs \<subseteq> set (versions env e)" using imm_records(3) [OF M(1) i(1)] i(2) by (auto simp: versions_def)
  note A = einv_add_table [OF assms(1,2) sub, of 0]
  have fc: "flush_commit mt t e = ?a\<lparr>e_imm := drop_imm mt (e_imm e)\<rparr>" by (simp add: flush_commit_def Let_def)
  have "set (imm_versions e) = set ?rs \<union> set (imm_versions (flush_commit mt t e))"
    using drop_imm_split [OF i(1) M(3)] i(2) by (simp add: imm_versions_def fc)
  moreover have "mem_versions (flush_commit mt t e) = mem_versions e"
    "table_versions env (flush_commit mt t e) = table_versions env e @ ?rs"
    using add_table_versions [OF M(2), where t = t and l = 0] assms(2)
    by (simp_all add: fc fresh_table_def mem_versions_def table_versions_def allTablesLocked_def)
  ultimately show set: "set (versions env (flush_commit mt t e)) = set (versions env e)" by (auto simp: versions_def)
  have "mems_inv (flush_commit mt t e)"
    using M(1) drop_imm_sub [where m = mt and ims = "e_imm e"] by (auto simp: mems_inv_def fc)
  then show "einv env (flush_commit mt t e)"
    using A(1) assms(1) unfolding einv_def seqs_inv_def set by (simp add: fc)
qed

lemma maybeTrigger_frame [simp]:
  "einv env (maybeTriggerCompaction e) = einv env e" "versions env (maybeTriggerCompaction e) = versions env e"
  by (simp_all add: maybeTriggerCompaction_def split: option.split)

lemma flush_end_einv:
  assumes "einv env e" and "wal_named e walPath"
  shows "einv env (flush_end walPath e)" and "versions env (flush_end walPath e) = versions env e"
proof -
  let ?d = "snd (WAL_Remove walPath (e_fs e))"
  have fe: "flush_end walPath e = maybeTriggerCompaction (e\<lparr>e_fs := ?d\<rparr>)" by (simp add: flush_end_def on_fs_def case_prod_beta)
  have "keeps_tables e ?d" by (rule frame_wal_keeps [OF assms WAL_Remove_frame])
  with einv_fs [OF assms(1)] show "einv env (flush_end walPath e)" "versions env (flush_end walPath e) = versions env e" by (simp_all add: fe)
qed

lemma flush_metrics_frame [simp]:
  "einv env (flush_metrics b e) = einv env e" "versions env (flush_metrics b e) = versions env e"
  by (simp_all add: flush_metrics_def Let_def)

lemma write_empty_fails: "write_table env [] m1 m2 e = (r, e') \<Longrightarrow> einv env e \<Longrightarrow> e_genCounter e < unboundedSeq \<Longrightarrow>
  (\<exists>x. r = Inl x) \<and> einv env e' \<and> versions env e' = versions env e"
proof -
  assume w: "write_table env [] m1 m2 e = (r, e')" and inv: "einv env e" and g: "e_genCounter e < unboundedSeq"
  let ?path = "sstFileName (e_dir e) 0 (e_genCounter e + 1)"
  obtain x d where wr: "Write env ?path [] (e_compress e) (e_fs e) = (x, d)" by fastforce
  have "x \<noteq> None" using Write_outcome [OF wr] by (auto simp: table_at_def)
  moreover have "keeps_tables e d" by (rule write_keeps_tables [OF inv fresh_name [OF inv g] wr]) simp
  ultimately show ?thesis
    using w wr einv_fs [OF einv_gen [OF inv, of "e_genCounter e + 1"], of d] word_incr [OF g]
    by (auto simp: write_table_def nextGen_def on_fs_def)
qed

lemma doFlush_einv:
  assumes "einv env e" and "e_genCounter e < unboundedSeq" and "mt \<in> im_mt ` set (e_imm e)"
    and "fits (buildRecords (e_mems e ! mt))" and "wal_named e walPath"
  shows "einv env (doFlush env mt walPath e) \<and> set (versions env (doFlush env mt walPath e)) = set (versions env e)"
proof -
  let ?rs = "buildRecords (e_mems e ! mt)"
  obtain r e1 where f: "flush_write env mt e = (r, e1)" by fastforce
  then have w: "write_table env ?rs ''flush failed'' ''failed to reopen freshly-flushed sstable'' e = (r, e1)" by (simp add: flush_write_def)
  obtain i where i: "i \<in> set (e_imm e)" "im_mt i = mt" using assms(3) by auto
  have M: "mems_inv e" using assms(1) by (simp add: einv_def)
  show ?thesis
  proof (cases "?rs = []")
    case True
    with write_empty_fails [OF w [unfolded True] assms(1,2)] f show ?thesis by (auto simp: doFlush_def)
  next
    case False
    have ok: "recs_ok ?rs" using buildRecords_ok [of "e_mems e ! mt"] imm_records [OF M i(1)] i(2) assms(4) False by simp
    have sm: "small_table ?rs" using assms(4) by (simp add: fits_def)
    obtain d where d: "e1 = e\<lparr>e_genCounter := e_genCounter e + 1, e_fs := d\<rparr>" "einv env e1"
      "\<And>t. r = Inr t \<Longrightarrow> fresh_table env e1 ?rs t" by (rule write_table_run [OF assms(1,2) ok sm w]) blast
    show ?thesis
    proof (cases r)
      case (Inl x)
      with d f show ?thesis by (simp add: doFlush_def)
    next
      case (Inr t)
      let ?c = "flush_commit mt t e1"
      have C: "einv env ?c" "set (versions env ?c) = set (versions env e1)"
        using flush_commit_einv [of env e1 mt t] d(2) d(3) [OF Inr] assms(3) d(1) by auto
      have "wal_named ?c walPath" using assms(5) by (simp add: flush_commit_def Let_def wal_named_def d(1))
      from flush_end_einv [OF C(1) this] C(2) d(1) f Inr show ?thesis by (simp add: doFlush_def)
    qed
  qed
qed

end
