(* ===== verification/Compaction.thy ===== *)
theory Compaction
  imports Flush
begin

text \<open>
  Compaction of a store whose sources are ordered by age: deeper levels hold only older versions,
  tables only older ones than the immutable MemTables, and those only older ones than the active
  MemTable. A pass then changes no read at or above the oldest active snapshot, keeps the order,
  and ends with the inputs released and their files removed.
\<close>

section \<open>Definitions\<close>

definition newer :: "Record set \<Rightarrow> Record set \<Rightarrow> bool" where
  "newer A B \<longleftrightarrow> (\<forall>a \<in> A. \<forall>b \<in> B. rec_seq b < rec_seq a)"

definition trecs :: "env \<Rightarrow> Engine \<Rightarrow> nat \<Rightarrow> Record set" where
  "trecs env e p = set (table_recs env (e_heap e ! p))"

definition irecs :: "Engine \<Rightarrow> immEntry \<Rightarrow> Record set" where
  "irecs e i = set (buildRecords (e_mems e ! im_mt i))"

definition levels_ordered :: "env \<Rightarrow> Engine \<Rightarrow> bool" where
  "levels_ordered env e \<longleftrightarrow>
     (\<forall>lt \<in> set (e_tables e). \<forall>lu \<in> set (e_tables e).
        (lt_level lt < lt_level lu \<longrightarrow> newer (trecs env e (lt_table lt)) (trecs env e (lt_table lu))) \<and>
        (lt_table lt \<noteq> lt_table lu \<longrightarrow> (\<forall>a \<in> trecs env e (lt_table lt). \<forall>b \<in> trecs env e (lt_table lu). rec_seq a \<noteq> rec_seq b)))"

definition levels_bounded :: "Engine \<Rightarrow> bool" where
  "levels_bounded e \<longleftrightarrow> (\<forall>lt \<in> set (e_tables e). 0 \<le> lt_level lt \<and> lt_level lt < e_maxLevels e) \<and>
     2 \<le> e_maxLevels e \<and> e_maxLevels e < 2 ^ 63 \<and> 1 \<le> e_l0CompactionTrigger e"

definition mems_ordered :: "env \<Rightarrow> Engine \<Rightarrow> bool" where
  "mems_ordered env e \<longleftrightarrow>
     newer (set (imm_versions e)) (set (table_versions env e)) \<and>
     newer (set (mem_versions e)) (set (imm_versions e) \<union> set (table_versions env e)) \<and>
     sorted_wrt (\<lambda>i j. newer (irecs e j) (irecs e i)) (e_imm e)"

text \<open>The flush queue and the immutable MemTables are the same, oldest first, and none is empty.\<close>

definition queue_inv :: "Engine \<Rightarrow> bool" where
  "queue_inv e \<longleftrightarrow> map fj_mt (e_flushCh e) = map im_mt (e_imm e) \<and> (\<forall>i \<in> set (e_imm e). irecs e i \<noteq> {})"

definition age_inv :: "env \<Rightarrow> Engine \<Rightarrow> bool" where
  "age_inv env e \<longleftrightarrow> levels_ordered env e \<and> levels_bounded e \<and> mems_ordered env e \<and> queue_inv e"

section \<open>Reads after a merge\<close>

lemma lookup_above:
  assumes "\<forall>r \<in> set xs. rec_seq r \<le> q" and "q \<le> q'"
  shows "lookup xs key q = lookup xs key q'"
  unfolding lookup_def using assms by (intro find_cong refl) (auto simp: visible_def)

lemma retain_lookup_seen:
  assumes "m \<le> q \<or> (\<forall>r \<in> set xs. rec_seq r \<le> q)" and "sorted_wrt rec_before xs"
  shows "lookup (retain m b xs) key q = lookup xs key q \<or>
    (b \<and> lookup (retain m b xs) key q = None \<and> (\<exists>t. lookup xs key q = Some t \<and> rec_type t = TypeTombstone))"
proof (cases "m \<le> q")
  case True
  from retain_lookup [OF this assms(2), of b key] show ?thesis by blast
next
  case False
  then have all: "\<forall>r \<in> set xs. rec_seq r \<le> q" "q \<le> m" using assms(1) by auto
  then have "\<forall>r \<in> set (retain m b xs). rec_seq r \<le> q" using retain_subset by blast
  then have "lookup (retain m b xs) key q = lookup (retain m b xs) key m" "lookup xs key q = lookup xs key m"
    using lookup_above all by blast+
  with retain_lookup [OF order_refl assms(2), of m b key] show ?thesis by auto
qed

lemma compaction_reads:
  assumes "set vs = U \<union> set xs" and "set vs' = U \<union> set (retain m b xs)" and "coherent (set vs)" and "sorted_wrt rec_before xs"
    and "m \<le> q \<or> (\<forall>r \<in> set xs. rec_seq r \<le> q)" and "b \<Longrightarrow> newer U (set xs)"
  shows "reads vs' key q = reads vs key q"
proof -
  let ?ys = "retain m b xs"
  have sub: "set vs' \<subseteq> set vs" using assms(1,2) retain_subset by blast
  then have C: "coherent (set vs')" using assms(3) unfolding coherent_def by blast
  obtain ws where ws: "set ws = {r \<in> set vs. r \<in> U}" by (metis set_filter)
  have U: "U = set ws" using ws assms(1) by auto
  obtain bo where bo: "best_in U key q bo" using best_in_reads [of ws key q] U by blast
  have bx: "best_in (set xs) key q (lookup xs key q)" "best_in (set ?ys) key q (lookup ?ys key q)"
    using lookup_best [OF assms(4)] lookup_best [OF retain_sorted [OF assms(4)]] by blast+
  have R: "reads vs key q = value_of (case lookup xs key q of None \<Rightarrow> bo | Some r \<Rightarrow> consider_rec q r bo)"
    "reads vs' key q = value_of (case lookup ?ys key q of None \<Rightarrow> bo | Some r \<Rightarrow> consider_rec q r bo)"
    using reads_best [OF assms(3), of key q] reads_best [OF C, of key q] best_in_Un [OF bo bx(1)] best_in_Un [OF bo bx(2)] assms(1,2) by simp_all
  from retain_lookup_seen [OF assms(5,4), of b key] show ?thesis
  proof
    assume "lookup ?ys key q = lookup xs key q"
    with R show ?thesis by simp
  next
    assume "b \<and> lookup ?ys key q = None \<and> (\<exists>t. lookup xs key q = Some t \<and> rec_type t = TypeTombstone)"
    then obtain t where t: b "lookup ?ys key q = None" "lookup xs key q = Some t" "rec_type t = TypeTombstone" by blast
    have tx: "t \<in> set xs" "visible key q t" using lookup_Some_iff [OF assms(4)] t(3) by auto
    show ?thesis
    proof (cases bo)
      case None
      with R t tx show ?thesis by (simp add: consider_rec_def visible_def value_of_def)
    next
      case (Some r)
      then obtain x where "x \<in> U" "same_version x r" using bo by (auto simp: best_in_def newest_of_def)
      then have "rec_seq t < rec_seq r" using assms(6) [OF t(1)] tx(1) by (auto simp: newer_def same_version_def)
      with R t Some show ?thesis by (auto simp: consider_rec_def)
    qed
  qed
qed

section \<open>The plan\<close>

lemma levelTables_set: "set (levelTablesLocked l e) = {lt_table lt | lt. lt \<in> set (e_tables e) \<and> lt_level lt = l}"
  by (auto simp: levelTablesLocked_def)

lemma levelTables_distinct: "distinct (allTablesLocked e) \<Longrightarrow> distinct (levelTablesLocked l e)"
  by (simp add: allTablesLocked_def levelTablesLocked_def distinct_map_filter)

text \<open>The tables of two adjacent levels, the upper one not empty, and the level they go to.\<close>

definition merges_level :: "Engine \<Rightarrow> int \<Rightarrow> compactionPlan \<Rightarrow> bool" where
  "merges_level e l plan \<longleftrightarrow> 0 \<le> l \<and> l + 1 < e_maxLevels e \<and> levelTablesLocked l e \<noteq> [] \<and>
     cp_inputs plan = levelTablesLocked l e @ levelTablesLocked (l + 1) e \<and> cp_targetLevel plan = l + 1"

lemma pick_level_merges:
  "pick_level e lvls = Some plan \<Longrightarrow> \<forall>l \<in> set lvls. 0 \<le> l \<and> l + 1 < e_maxLevels e \<Longrightarrow> \<exists>l. merges_level e l plan"
proof (induction lvls)
  case (Cons l lvls)
  then show ?case
    by (cases "levelTablesLocked l e = []"; cases "sint (level_size (levelTablesLocked l e) e) > sint (targetSizeForLevel l e)")
      (auto simp: merges_level_def Let_def)
qed simp

lemma pickCompaction_merges:
  assumes "pickCompactionLocked e = Some plan" and "levels_bounded e"
  shows "\<exists>l. merges_level e l plan"
proof (cases "int (length (levelTablesLocked 0 e)) \<ge> e_l0CompactionTrigger e")
  case True
  then have "levelTablesLocked 0 e \<noteq> []" using assms(2) by (auto simp: levels_bounded_def)
  with True assms have "merges_level e 0 plan" by (auto simp: pickCompactionLocked_def merges_level_def levels_bounded_def)
  then show ?thesis by blast
next
  case False
  with assms(1) have "pick_level e [1..e_maxLevels e - 2] = Some plan" by (simp add: pickCompactionLocked_def)
  then show ?thesis by (rule pick_level_merges) auto
qed

text \<open>
  What a planned pass may rely on until it commits: its inputs are listed, everything above them
  is newer, and whatever lies below is older and is known to be there.
\<close>

definition input_recs :: "env \<Rightarrow> Engine \<Rightarrow> compaction \<Rightarrow> Record set" where
  "input_recs env e c = (\<Union>p \<in> set (co_inputs c). trecs env e p)"

definition plan_ok :: "env \<Rightarrow> Engine \<Rightarrow> compaction \<Rightarrow> bool" where
  "plan_ok env e c \<longleftrightarrow>
     co_inputs c \<noteq> [] \<and> distinct (co_inputs c) \<and> set (co_inputs c) \<subseteq> set (allTablesLocked e) \<and>
     0 < co_targetLevel c \<and> co_targetLevel c < e_maxLevels e \<and>
     (\<forall>lt \<in> set (e_tables e). lt_table lt \<notin> set (co_inputs c) \<longrightarrow>
        lt_level lt < co_targetLevel c \<and> newer (trecs env e (lt_table lt)) (input_recs env e c) \<or>
        co_targetLevel c < lt_level lt \<and> newer (input_recs env e c) (trecs env e (lt_table lt)) \<and> \<not> co_isBottommost c)"

lemma compact_plan_ok:
  assumes "compact_plan e = Some c" and "tables_inv env e" and "levels_ordered env e" and "levels_bounded e"
  shows "plan_ok env e c"
proof -
  obtain plan where plan: "pickCompactionLocked e = Some plan" "co_inputs c = cp_inputs plan" "co_targetLevel c = cp_targetLevel plan"
    "co_isBottommost c = list_all (\<lambda>lvl. length (levelTablesLocked lvl e) = 0) [cp_targetLevel plan + 1..e_maxLevels e - 1]"
    using assms(1) by (auto simp: compact_plan_def)
  obtain l where l: "merges_level e l plan" using pickCompaction_merges [OF plan(1) assms(4)] by blast
  have D: "distinct (allTablesLocked e)" using assms(2) by (simp add: tables_inv_def)
  have same: "lt = lu" if "lt \<in> set (e_tables e)" "lu \<in> set (e_tables e)" "lt_table lt = lt_table lu" for lt lu
    using D that by (simp add: allTablesLocked_def distinct_map inj_on_def)
  have inp: "p \<in> set (co_inputs c) \<longleftrightarrow> (\<exists>lu \<in> set (e_tables e). lt_table lu = p \<and> (lt_level lu = l \<or> lt_level lu = l + 1))" for p
    using l by (auto simp: plan(2) merges_level_def levelTables_set)
  have "lt_level lt \<noteq> lt_level lu + 1" if "lt \<in> set (e_tables e)" "lu \<in> set (e_tables e)" "lt_table lt = lt_table lu" for lt lu
    using same [OF that] by simp
  then have "set (levelTablesLocked l e) \<inter> set (levelTablesLocked (l + 1) e) = {}" unfolding levelTables_set by force
  then have dis: "distinct (co_inputs c)"
    using l levelTables_distinct [OF D] by (simp add: plan(2) merges_level_def)
  have lvl: "co_targetLevel c = l + 1" "0 \<le> l" "l + 1 < e_maxLevels e" using l plan(3) by (auto simp: merges_level_def)
  have "lt_level lt < co_targetLevel c \<and> newer (trecs env e (lt_table lt)) (input_recs env e c) \<or>
      co_targetLevel c < lt_level lt \<and> newer (input_recs env e c) (trecs env e (lt_table lt)) \<and> \<not> co_isBottommost c"
    if lt: "lt \<in> set (e_tables e)" "lt_table lt \<notin> set (co_inputs c)" for lt
  proof -
    have "lt_level lt \<noteq> l" "lt_level lt \<noteq> l + 1" using inp lt by auto
    then consider "lt_level lt < l" | "l + 1 < lt_level lt" by linarith
    then show ?thesis
    proof cases
      case 1
      then have "newer (trecs env e (lt_table lt)) (trecs env e p)" if "p \<in> set (co_inputs c)" for p
        using assms(3) lt(1) inp that unfolding levels_ordered_def by fastforce
      then show ?thesis using 1 lvl(1) by (auto simp: newer_def input_recs_def)
    next
      case 2
      have "newer (trecs env e p) (trecs env e (lt_table lt))" if p: "p \<in> set (co_inputs c)" for p
      proof -
        obtain lu where "lu \<in> set (e_tables e)" "lt_table lu = p" "lt_level lu < lt_level lt" using inp p 2 by force
        with assms(3) lt(1) show ?thesis unfolding levels_ordered_def by blast
      qed
      moreover have "levelTablesLocked (lt_level lt) e \<noteq> []" using lt(1) levelTables_set [of "lt_level lt" e] by fastforce
      moreover have "lt_level lt < e_maxLevels e" using assms(4) lt(1) by (auto simp: levels_bounded_def)
      ultimately show ?thesis using 2 lvl(1) plan(3,4) by (auto simp: newer_def input_recs_def list_all_iff)
    qed
  qed
  moreover have "co_inputs c \<noteq> []" using l by (simp add: plan(2) merges_level_def)
  moreover have "set (co_inputs c) \<subseteq> set (allTablesLocked e)" using inp unfolding allTablesLocked_def by auto
  ultimately show ?thesis using dis lvl by (auto simp: plan_ok_def)
qed

section \<open>The merge\<close>

interpretation rb: lt_order rec_before
  by unfold_locales (auto simp: rec_before_def)

definition distinct_versions :: "Record list \<Rightarrow> bool" where
  "distinct_versions rs \<longleftrightarrow> distinct (map (\<lambda>r. (rec_key r, rec_seq r)) rs)"

lemma rec_before_total: "(rec_key a, rec_seq a) \<noteq> (rec_key b, rec_seq b) \<Longrightarrow> \<not> rec_before b a \<Longrightarrow> rec_before a b"
  by (auto simp: rec_before_def)

lemma sorted_versions:
  assumes "distinct_versions rs"
  obtains xs where "sorted_wrt rec_before xs" and "mset xs = mset rs"
proof -
  let ?xs = "sort_Slice rec_before rs" and ?f = "\<lambda>r. (rec_key r, rec_seq r)"
  have m: "mset ?xs = mset rs" by (rule rb.sort_Slice_mset)
  then have "mset (map ?f ?xs) = mset (map ?f rs)" by simp
  then have "distinct (map ?f ?xs)" using assms mset_eq_imp_distinct_iff unfolding distinct_versions_def by blast
  then have "sorted_wrt rec_before ?xs"
    using rb.sort_Slice_sorted [of rs] rec_before_total by (auto simp: sorted_wrt_iff_nth_less distinct_conv_nth)
  then show thesis by (rule that [OF _ m])
qed

lemma sorted_distinct_versions: "sorted_wrt rec_before rs \<Longrightarrow> distinct_versions rs"
  by (induction rs) (auto simp: distinct_versions_def rec_before_def)

lemma concat_distinct_versions:
  "\<forall>rs \<in> set rss. distinct_versions rs \<Longrightarrow>
   (\<And>i j. i < j \<Longrightarrow> j < length rss \<Longrightarrow> \<forall>a \<in> set (rss ! i). \<forall>b \<in> set (rss ! j). rec_seq a \<noteq> rec_seq b) \<Longrightarrow>
   distinct_versions (concat rss)"
proof (induction rss)
  case Nil
  then show ?case by (simp add: distinct_versions_def)
next
  case (Cons rs rss)
  have "distinct_versions (concat rss)"
  proof (rule Cons.IH)
    show "\<forall>rs \<in> set rss. distinct_versions rs" using Cons.prems(1) by simp
    show "\<forall>a \<in> set (rss ! i). \<forall>b \<in> set (rss ! j). rec_seq a \<noteq> rec_seq b" if "i < j" "j < length rss" for i j
      using Cons.prems(2) [of "Suc i" "Suc j"] that by simp
  qed
  moreover have "rec_seq a \<noteq> rec_seq b" if a: "a \<in> set rs" and b: "b \<in> set (concat rss)" for a b
  proof -
    obtain ss where "ss \<in> set rss" "b \<in> set ss" using b by auto
    then obtain j where "j < length rss" "b \<in> set (rss ! j)" by (metis in_set_conv_nth)
    with Cons.prems(2) [of 0 "Suc j"] a show ?thesis by simp
  qed
  ultimately show ?case using Cons.prems(1) by (fastforce simp: distinct_versions_def)
qed

lemma inputs_hold:
  assumes "tables_inv env e" and "set ps \<subseteq> set (allTablesLocked e)"
  shows "tables_hold env (e_fs e) (map (\<lambda>p. e_heap e ! p) ps) (map (\<lambda>p. table_recs env (e_heap e ! p)) ps)"
  using assms by (auto simp: tables_hold_def list_all2_map1 list_all2_map2 list.rel_refl_strong tables_inv_def table_held_def
      intro!: list.rel_refl_strong)

lemma listed: "p \<in> set (allTablesLocked e) \<Longrightarrow> \<exists>lt \<in> set (e_tables e). lt_table lt = p"
  by (auto simp: allTablesLocked_def)

lemma plan_sorted:
  assumes "tables_inv env e" and "levels_ordered env e" and "plan_ok env e c"
  obtains xs where "sorted_wrt rec_before xs"
    and "mset xs = mset (concat (map (\<lambda>p. table_recs env (e_heap e ! p)) (co_inputs c)))" and "set xs = input_recs env e c"
proof -
  let ?g = "\<lambda>p. table_recs env (e_heap e ! p)" and ?I = "co_inputs c"
  have sub: "set ?I \<subseteq> set (allTablesLocked e)" "distinct ?I" using assms(3) by (auto simp: plan_ok_def)
  have "distinct_versions (concat (map ?g ?I))"
  proof (rule concat_distinct_versions)
    show "\<forall>rs \<in> set (map ?g ?I). distinct_versions rs"
      using tables_hold_sorted [OF inputs_hold [OF assms(1) sub(1)]] sorted_distinct_versions by auto
    show "\<forall>a \<in> set (map ?g ?I ! i). \<forall>b \<in> set (map ?g ?I ! j). rec_seq a \<noteq> rec_seq b" if "i < j" "j < length (map ?g ?I)" for i j
    proof -
      have ij: "?I ! i \<noteq> ?I ! j" "?I ! i \<in> set ?I" "?I ! j \<in> set ?I" using that sub(2) by (auto simp: distinct_conv_nth)
      obtain lt where lt: "lt \<in> set (e_tables e)" "lt_table lt = ?I ! i" using listed [of "?I ! i" e] ij(2) sub(1) by blast
      obtain lu where lu: "lu \<in> set (e_tables e)" "lt_table lu = ?I ! j" using listed [of "?I ! j" e] ij(3) sub(1) by blast
      note lt lu
      with ij(1) assms(2) show ?thesis using that(1) that(2) unfolding levels_ordered_def trecs_def by simp
    qed
  qed
  then obtain xs where xs: "sorted_wrt rec_before xs" "mset xs = mset (concat (map ?g ?I))" by (rule sorted_versions)
  moreover have "set xs = input_recs env e c" using mset_eq_setD [OF xs(2)] by (auto simp: input_recs_def trecs_def)
  ultimately show thesis by (rule that)
qed

lemma sum_list_sub:
  assumes "mset xs \<subseteq># mset ys"
  shows "sum_list (map f xs) \<le> (sum_list (map f ys) :: nat)"
proof -
  obtain zs where "mset ys = mset xs + zs" using assms by (metis subset_mset.le_iff_add)
  then have "sum_mset (image_mset f (mset ys)) = sum_mset (image_mset f (mset xs)) + sum_mset (image_mset f zs)" by simp
  then show ?thesis by (simp add: sum_mset_sum_list flip: mset_map)
qed

lemma fits_mono:
  assumes "mset xs \<subseteq># mset ys" and "fits ys"
  shows "fits xs"
  using sum_list_sub [OF assms(1), of "\<lambda>r. 29 + 2 * length (rec_key r) + length (rec_value r)"] size_mset_mono [OF assms(1)] assms(2)
  by (simp add: fits_def small_table_def)

lemma concat_submset:
  assumes "distinct ps" and "distinct qs" and "set ps \<subseteq> set qs"
  shows "mset (concat (map g ps)) \<subseteq># mset (concat (map g qs))"
proof -
  have "mset ps \<subseteq># mset qs" using assms by (intro mset_subset_eqI) (auto simp: distinct_count_atmost_1)
  then obtain M where "mset qs = mset ps + M" by (auto simp: mset_subset_eq_exists_conv)
  moreover have "mset (concat (map g zs)) = sum_mset (image_mset (\<lambda>p. mset (g p)) (mset zs))" for zs
    by (induction zs) auto
  ultimately show ?thesis by simp
qed

lemma input_fits:
  assumes "tables_inv env e" and "plan_ok env e c" and "fits (versions env e)"
    and "mset xs = mset (concat (map (\<lambda>p. table_recs env (e_heap e ! p)) (co_inputs c)))"
  shows "fits xs"
proof (rule fits_mono [OF _ assms(3)])
  have "mset xs \<subseteq># mset (table_versions env e)"
    unfolding assms(4) table_versions_def using assms(1,2) by (intro concat_submset) (auto simp: tables_inv_def plan_ok_def)
  also have "\<dots> \<subseteq># mset (versions env e)" by (simp add: versions_def)
  finally show "mset xs \<subseteq># mset (versions env e)" .
qed

text \<open>The states a merge without faults can end in.\<close>

definition merged :: "env \<Rightarrow> Engine \<Rightarrow> compaction \<Rightarrow> Record list \<Rightarrow> error option \<Rightarrow> string \<Rightarrow> fs \<Rightarrow> bool" where
  "merged env e c ys r out d \<longleftrightarrow>
     (r = Some ErrEmptyMerge \<and> ys = [] \<and> fs_get d out = fs_get (e_fs e) out \<or> r = None \<and> table_file env (e_compress e) ys out d) \<and>
     out = sstFileName (e_dir e) (nat (co_targetLevel c)) (e_genCounter e + 1) \<and> no_faults d \<and> keeps_tables e d \<and> keeps_wals (e_fs e) d \<and>
     (\<forall>q. q \<noteq> out \<and> q \<noteq> out @ ''.tmp'' \<longrightarrow> fs_get d q = fs_get (e_fs e) q)"

lemma no_faults_same: "same_files d d' \<Longrightarrow> no_faults d \<Longrightarrow> no_faults d'"
  by (simp add: same_files_def)

lemma Merge_no_faults:
  assumes "env_ok env" and "tables_hold env d ts rss" and "ts \<noteq> []" and "sorted_wrt rec_before xs" and "mset xs = mset (concat rss)"
    and "no_faults d" and "fits xs" and "\<forall>i. \<not> unreadable d out i" and "Merge env ts out m b z d = (r, d')"
  shows "no_faults d' \<and> (\<forall>q. q \<noteq> out \<and> q \<noteq> out @ ''.tmp'' \<longrightarrow> fs_get d' q = fs_get d q) \<and> unreadable d' = unreadable d \<and>
    (r = Some ErrEmptyMerge \<and> retain m b xs = [] \<and> fs_get d' out = fs_get d out \<or> r = None \<and> table_file env z (retain m b xs) out d')"
  using assms(1-5,9)
proof (cases rule: Merge_run)
  case unopened
  with assms(6) show ?thesis by blast
next
  case emptied
  with no_faults_same assms(6) show ?thesis by (simp add: same_files_def)
next
  case (written d1 d2)
  let ?ys = "retain m b xs"
  have xs: "\<forall>r \<in> set xs. rec_ok r" using tables_hold_rec_ok [OF assms(2,5)] by blast
  have ok: "recs_ok ?ys" "small_table ?ys"
    using retain_ok [OF xs assms(4)] assms(7) written(1) by (auto simp: fits_def)
  have n1: "no_faults d1" "\<forall>i. \<not> unreadable d1 out i"
    using no_faults_same [OF written(2) assms(6)] written(2) assms(8) by (simp_all add: same_files_def)
  obtain d3 where "Write env out ?ys z d1 = (None, d3)" "no_faults d3" "table_file env z ?ys out d3"
    by (rule Write_table_file [OF n1(1) assms(1) ok n1(2)])
  then have W: "r = None" "no_faults d2" "table_file env z ?ys out d2" using written(3) by auto
  have "table_file env z ?ys out d'" by (rule table_file_same [OF written(4) W(3)])
  then show ?thesis
    using W(1,2) no_faults_same [OF written(4)] Write_outcome [OF written(3)] written(2,4) by (simp add: same_files_def)
qed

lemma compact_merge_run:
  assumes "einv env e" and "levels_ordered env e" and "plan_ok env e c" and "fits (versions env e)" and "no_faults (e_fs e)"
    and "e_genCounter e < unboundedSeq" and "e_maxLevels e < 2 ^ 63"
    and "compact_merge env c e = ((r, out), e1)" and "m = minActiveSnapshotSeq e"
  obtains xs d where "sorted_wrt rec_before xs" and "set xs = input_recs env e c"
    and "mset xs = mset (concat (map (\<lambda>p. table_recs env (e_heap e ! p)) (co_inputs c)))"
    and "e1 = e\<lparr>e_genCounter := e_genCounter e + 1, e_fs := d\<rparr>" and "merged env e c (retain m (co_isBottommost c) xs) r out d"
proof -
  have T: "tables_inv env e" "env_ok env" "\<forall>i. \<not> unreadable (e_fs e) p i" for p using assms(1) by (auto simp: einv_def tables_inv_def)
  obtain xs where xs: "sorted_wrt rec_before xs"
    "mset xs = mset (concat (map (\<lambda>p. table_recs env (e_heap e ! p)) (co_inputs c)))" "set xs = input_recs env e c"
    by (rule plan_sorted [OF T(1) assms(2,3)])
  let ?out = "sstFileName (e_dir e) (nat (co_targetLevel c)) (e_genCounter e + 1)"
  have I: "set (co_inputs c) \<subseteq> set (allTablesLocked e)" "co_inputs c \<noteq> []" "0 < co_targetLevel c" "co_targetLevel c < e_maxLevels e"
    using assms(3) by (auto simp: plan_ok_def)
  obtain x d where mg: "Merge env (map (\<lambda>p. e_heap e ! p) (co_inputs c)) ?out m (co_isBottommost c) (e_compress e) (e_fs e) = (x, d)" by fastforce
  have ne: "map (\<lambda>p. e_heap e ! p) (co_inputs c) \<noteq> []" using I(2) by simp
  note M = Merge_no_faults [OF T(2) inputs_hold [OF T(1) I(1)] ne xs(1,2) assms(5) input_fits [OF T(1) assms(3,4) xs(2)] T(3) mg]
  have fresh: "?out \<notin> table_paths e" using fresh_name [OF assms(1,6), of "nat (co_targetLevel c)"] I(3,4) assms(7) by simp
  have "fs_get d p = fs_get (e_fs e) p" if "p \<in> table_paths e" for p
    using M fresh that table_paths_sst [OF assms(1) that] sst_ne_tmp by metis
  then have "keeps_tables e d" using M by (simp add: keeps_tables_def table_paths_def)
  moreover have "keeps_wals (e_fs e) d" by (rule keeps_wals_sst [OF M [THEN conjunct2, THEN conjunct1]])
  ultimately have "merged env e c (retain m (co_isBottommost c) xs) r out d" "e1 = e\<lparr>e_genCounter := e_genCounter e + 1, e_fs := d\<rparr>"
    using M mg assms(8,9) by (auto simp: merged_def compact_merge_def nextGen_def on_fs_def Let_def minActiveSnapshotSeq_def)
  with xs show thesis by (intro that) auto
qed

end
