(* ===== verification/Passes.thy ===== *)
theory Passes
  imports Compaction
begin

text \<open>
  A compaction pass from its plan to its end: the commit that swaps the inputs for the output, the
  retirement of the inputs, and the pass as a whole, which changes no read at or above the oldest
  active snapshot and keeps the invariants of the engine.
\<close>

section \<open>Committing\<close>

lemma einv_add_new:
  assumes "einv env e" and "fresh_table env e rs t" and "coherent (set (versions env e) \<union> set rs)" and "\<forall>r \<in> set rs. rec_seq r \<le> e_seq e"
  shows "einv env (add_table l t e)" and "set (versions env (add_table l t e)) = set (versions env e) \<union> set rs"
proof -
  have T: "tables_inv env e" using assms(1) by (simp add: einv_def)
  have rs: "table_recs env t = rs" using assms(2) by (simp add: fresh_table_def)
  show set: "set (versions env (add_table l t e)) = set (versions env e) \<union> set rs"
    using add_table_versions [OF T] rs by (auto simp: versions_def)
  show "einv env (add_table l t e)"
    using assms(1,3,4) add_table_tables_inv [OF T assms(2)] unfolding einv_def seqs_inv_def set
    by (auto simp: mems_inv_def wals_inv_def wal_named_def)
qed

lemma remaining_set: "set (allTablesLocked (e\<lparr>e_tables := remaining_tables ps (e_tables e)\<rparr>)) = set (allTablesLocked e) - set ps"
  by (auto simp: allTablesLocked_def remaining_tables_def)

lemma einv_remaining:
  assumes "einv env e"
  shows "einv env (e\<lparr>e_tables := remaining_tables ps (e_tables e)\<rparr>)"
    and "set (versions env (e\<lparr>e_tables := remaining_tables ps (e_tables e)\<rparr>)) \<subseteq> set (versions env e)"
    and "table_paths (e\<lparr>e_tables := remaining_tables ps (e_tables e)\<rparr>) \<subseteq> table_paths e"
proof -
  let ?e = "e\<lparr>e_tables := remaining_tables ps (e_tables e)\<rparr>"
  note S = remaining_set [where e = e and ps = ps]
  show sub: "set (versions env ?e) \<subseteq> set (versions env e)"
    using S by (auto simp: versions_def mem_versions_def imm_versions_def table_versions_def)
  show "table_paths ?e \<subseteq> table_paths e" using S by (auto simp: table_paths_def)
  have "distinct (allTablesLocked ?e)" using assms by (simp add: einv_def tables_inv_def allTablesLocked_def remaining_tables_def distinct_map_filter)
  moreover have "inj_on (\<lambda>p. tbl_path (e_heap e ! p)) (set (allTablesLocked e) - set ps)"
    using assms by (auto simp: einv_def tables_inv_def intro: inj_on_diff)
  ultimately have "tables_inv env ?e" using assms S by (simp add: einv_def tables_inv_def named_def)
  moreover have "coherent (set (versions env ?e))" using assms sub unfolding einv_def seqs_inv_def coherent_def by blast
  ultimately show "einv env ?e" using assms sub by (auto simp: einv_def seqs_inv_def mems_inv_def wals_inv_def wal_named_def)
qed

text \<open>The versions that are not inputs of a pass.\<close>

definition kept_versions :: "env \<Rightarrow> compaction \<Rightarrow> Engine \<Rightarrow> Record set" where
  "kept_versions env c e = set (versions env (e\<lparr>e_tables := remaining_tables (co_inputs c) (e_tables e)\<rparr>))"

lemma versions_split:
  assumes "set (co_inputs c) \<subseteq> set (allTablesLocked e)"
  shows "set (versions env e) = kept_versions env c e \<union> input_recs env e c"
proof -
  let ?e = "e\<lparr>e_tables := remaining_tables (co_inputs c) (e_tables e)\<rparr>"
  have "set (table_versions env e) = set (table_versions env ?e) \<union> input_recs env e c"
    using remaining_set [where e = e and ps = "co_inputs c"] assms by (auto simp: table_versions_def input_recs_def trecs_def)
  then show ?thesis by (auto simp: kept_versions_def versions_def mem_versions_def imm_versions_def)
qed

lemma kept_newer:
  assumes "plan_ok env e c" and "mems_ordered env e" and "co_isBottommost c"
  shows "newer (kept_versions env c e) (input_recs env e c)"
proof -
  let ?e = "e\<lparr>e_tables := remaining_tables (co_inputs c) (e_tables e)\<rparr>"
  have inp: "input_recs env e c \<subseteq> set (table_versions env e)"
    using assms(1) by (auto simp: plan_ok_def input_recs_def trecs_def table_versions_def)
  have "newer (trecs env e p) (input_recs env e c)" if p: "p \<in> set (allTablesLocked e) - set (co_inputs c)" for p
  proof -
    obtain lt where "lt \<in> set (e_tables e)" "lt_table lt = p" using listed [of p e] p by blast
    with p assms(1,3) show ?thesis by (auto simp: plan_ok_def)
  qed
  then have "newer (set (table_versions env ?e)) (input_recs env e c)"
    using remaining_set [where e = e and ps = "co_inputs c"] by (auto simp: newer_def table_versions_def trecs_def)
  moreover have "mem_versions ?e = mem_versions e" "imm_versions ?e = imm_versions e" by (simp_all add: mem_versions_def imm_versions_def)
  ultimately show ?thesis using assms(2) inp unfolding kept_versions_def versions_def mems_ordered_def newer_def by auto
qed

text \<open>What a commit leaves: the remaining tables and, unless the merge was empty, the output.\<close>

definition committed :: "env \<Rightarrow> Engine \<Rightarrow> compaction \<Rightarrow> Record list \<Rightarrow> fs \<Rightarrow> Engine \<Rightarrow> bool" where
  "committed env e c ys d e' \<longleftrightarrow>
     (let e0 = e\<lparr>e_tables := remaining_tables (co_inputs c) (e_tables e), e_fs := d\<rparr>
      in ys = [] \<and> e' = e0 \<or> (\<exists>t. fresh_table env e0 ys t \<and> tbl_path t \<notin> table_paths e \<and> e' = add_table (co_targetLevel c) t e0))"

lemma compact_commit_run:
  assumes "einv env e" and "no_faults (e_fs e)" and "compact_commit c r out e = (err, e')" and "named e out" and "out \<notin> table_paths e"
    and "r = Some ErrEmptyMerge \<and> ys = [] \<or> r = None \<and> table_file env z ys out (e_fs e)"
  obtains d where "err = None" and "same_files (e_fs e) d" and "committed env e c ys d e'"
    and "e_heap e' = e_heap e \<and> r \<noteq> None \<or> e_heap e' \<noteq> e_heap e \<and> tbl_path (last (e_heap e')) = out"
proof -
  let ?rem = "remaining_tables (co_inputs c) (e_tables e)"
  have eo: "env_ok env" using assms(1) by (simp add: einv_def tables_inv_def)
  from assms(6) show thesis
  proof
    assume r: "r = Some ErrEmptyMerge \<and> ys = []"
    then have "err = None" "e' = e\<lparr>e_tables := ?rem\<rparr>" using assms(3) by (auto simp: compact_commit_def)
    with r show thesis by (intro that [of "e_fs e"]) (simp_all add: committed_def same_files_refl)
  next
    assume r: "r = None \<and> table_file env z ys out (e_fs e)"
    obtain x d where o: "Table_Open out (e_fs e) = (x, d)" by fastforce
    note O = open_fresh [OF eo conjunct2 [OF r] o]
    obtain t where t: "x = Inr t" using O(3) assms(2) by blast
    let ?e0 = "e\<lparr>e_tables := ?rem, e_fs := d\<rparr>"
    have "table_paths ?e0 \<subseteq> table_paths e" using einv_remaining(3) [OF assms(1), of "co_inputs c"] by (simp add: table_paths_def allTablesLocked_def)
    then have "fresh_table env ?e0 ys t" using O(2) [OF t] assms(4,5) by (auto simp: fresh_table_def named_def)
    moreover have "err = None" "e' = add_table (co_targetLevel c) t ?e0"
      using assms(3) r o t by (auto simp: compact_commit_def on_fs_def add_table_def new_table_def Let_def)
    moreover have "tbl_path t \<notin> table_paths e" using O(2) [OF t] assms(5) by simp
    ultimately show thesis using O(1) O(2) [OF t] r by (intro that [of d]) (auto simp: committed_def Let_def)
  qed
qed

lemma committed_einv:
  assumes "einv env e" and "committed env e c ys d e'" and "same_files (e_fs e) d" and "set ys \<subseteq> input_recs env e c"
    and "set (co_inputs c) \<subseteq> set (allTablesLocked e)"
  shows "einv env e'" and "set (versions env e') = kept_versions env c e \<union> set ys"
proof -
  let ?e0 = "e\<lparr>e_tables := remaining_tables (co_inputs c) (e_tables e), e_fs := d\<rparr>"
  have E0: "einv env ?e0"
    using einv_fs [OF einv_remaining(1) [OF assms(1)], of "co_inputs c" d] assms(3) same_files_keeps by simp
  have V0: "set (versions env ?e0) = kept_versions env c e" by (simp add: kept_versions_def)
  have sub: "set (versions env ?e0) \<union> set ys \<subseteq> set (versions env e)" using versions_split [OF assms(5)] V0 assms(4) by auto
  then have C: "coherent (set (versions env ?e0) \<union> set ys)" "\<forall>r \<in> set ys. rec_seq r \<le> e_seq e"
    using assms(1) unfolding einv_def seqs_inv_def coherent_def by blast+
  from assms(2) consider "ys = []" "e' = ?e0" | t where "fresh_table env ?e0 ys t" "e' = add_table (co_targetLevel c) t ?e0"
    by (auto simp: committed_def Let_def)
  then have "einv env e' \<and> set (versions env e') = kept_versions env c e \<union> set ys"
  proof cases
    case 1
    then show ?thesis using E0 V0 by simp
  next
    case (2 t)
    have "\<forall>r \<in> set ys. rec_seq r \<le> e_seq ?e0" using C(2) by simp
    from einv_add_new [OF E0 2(1) C(1) this, of "co_targetLevel c"] show ?thesis unfolding 2(2) V0 by blast
  qed
  then show "einv env e'" "set (versions env e') = kept_versions env c e \<union> set ys" by blast+
qed

lemma filter_split_mset:
  assumes "distinct xs" and "distinct ys" and "set ys = {x \<in> set xs. \<not> P x}"
  shows "mset (concat (map g xs)) = mset (concat (map g (filter P xs))) + mset (concat (map g ys))"
proof -
  have "mset ys = mset (filter (\<lambda>x. \<not> P x) xs)"
    using assms set_eq_iff_mset_eq_distinct [of ys "filter (\<lambda>x. \<not> P x) xs"] by simp
  then have p: "mset xs = mset (filter P xs) + mset ys" using multiset_partition [of "mset xs" P] by simp
  have c: "mset (concat (map g zs)) = sum_mset (image_mset (\<lambda>p. mset (g p)) (mset zs))" for zs
    by (induction zs) auto
  have "sum_mset (image_mset (\<lambda>p. mset (g p)) (mset xs)) =
    sum_mset (image_mset (\<lambda>p. mset (g p)) (mset (filter P xs))) + sum_mset (image_mset (\<lambda>p. mset (g p)) (mset ys))"
    by (subst p) simp
  then show ?thesis by (simp only: c)
qed

lemma committed_mset:
  assumes "einv env e" and "committed env e c ys d e'" and "same_files (e_fs e) d" and "distinct (co_inputs c)"
    and "set (co_inputs c) \<subseteq> set (allTablesLocked e)"
  shows "mset (versions env e') + mset (concat (map (\<lambda>p. table_recs env (e_heap e ! p)) (co_inputs c))) = mset (versions env e) + mset ys"
proof -
  let ?e0 = "e\<lparr>e_tables := remaining_tables (co_inputs c) (e_tables e), e_fs := d\<rparr>" and ?g = "\<lambda>p. table_recs env (e_heap e ! p)"
  have D: "distinct (allTablesLocked e)" using assms(1) by (simp add: einv_def tables_inv_def)
  have E0: "tables_inv env ?e0"
    using einv_fs [OF einv_remaining(1) [OF assms(1)], of "co_inputs c" d] assms(3) same_files_keeps by (simp add: einv_def)
  have A0: "allTablesLocked ?e0 = filter (\<lambda>p. p \<notin> set (co_inputs c)) (allTablesLocked e)"
    by (simp add: allTablesLocked_def remaining_tables_def filter_map comp_def)
  have "mset (table_versions env e) = mset (table_versions env ?e0) + mset (concat (map ?g (co_inputs c)))"
    unfolding table_versions_def A0 using filter_split_mset [OF D assms(4), of "\<lambda>p. p \<notin> set (co_inputs c)" ?g] assms(5) by auto
  moreover have "mset (versions env e') = mset (versions env ?e0) + mset ys"
    using assms(2) add_table_versions [OF E0] by (auto simp: committed_def Let_def versions_def fresh_table_def)
  ultimately show ?thesis by (simp add: versions_def mem_versions_def imm_versions_def)
qed

lemma newer_sub: "newer A B \<Longrightarrow> A' \<subseteq> A \<Longrightarrow> B' \<subseteq> B \<Longrightarrow> newer A' B'"
  by (auto simp: newer_def)

lemma newer_apart: "newer A B \<or> newer B A \<Longrightarrow> a \<in> A \<Longrightarrow> b \<in> B \<Longrightarrow> rec_seq a \<noteq> rec_seq b"
  unfolding newer_def by (metis less_irrefl)

text \<open>The part of the age invariant that speaks of the tables, for a list of levels and contents.\<close>

definition apart :: "int \<times> nat \<times> Record set \<Rightarrow> int \<times> nat \<times> Record set \<Rightarrow> bool" where
  "apart x y \<longleftrightarrow> (fst x < fst y \<longrightarrow> newer (snd (snd x)) (snd (snd y))) \<and>
     (fst (snd x) \<noteq> fst (snd y) \<longrightarrow> (\<forall>a \<in> snd (snd x). \<forall>b \<in> snd (snd y). rec_seq a \<noteq> rec_seq b))"

definition ages :: "(int \<times> nat \<times> Record set) list \<Rightarrow> bool" where
  "ages ts \<longleftrightarrow> (\<forall>x \<in> set ts. \<forall>y \<in> set ts. apart x y)"

definition age_list :: "env \<Rightarrow> Engine \<Rightarrow> (int \<times> nat \<times> Record set) list" where
  "age_list env e = map (\<lambda>lt. (lt_level lt, lt_table lt, trecs env e (lt_table lt))) (e_tables e)"

lemma levels_ordered_ages: "levels_ordered env e \<longleftrightarrow> ages (age_list env e)"
  by (simp add: levels_ordered_def ages_def age_list_def apart_def)

lemma age_list_add:
  assumes "\<forall>lt \<in> set (e_tables e). lt_table lt < length (e_heap e)"
  shows "age_list env (add_table l t e) = age_list env e @ [(l, length (e_heap e), set (table_recs env t))]"
  using assms by (auto simp: age_list_def trecs_def nth_append)

lemma ages_sub: "ages ts \<Longrightarrow> set ts' \<subseteq> set ts \<Longrightarrow> ages ts'"
  unfolding ages_def by blast

lemma ages_add:
  assumes "ages ts" and "\<And>x. x \<in> set ts \<Longrightarrow> fst x < l \<and> newer (snd (snd x)) A \<or> l < fst x \<and> newer A (snd (snd x))"
  shows "ages (ts @ [(l, p, A)])"
proof -
  have "apart x (l, p, A)" "apart (l, p, A) x" if "x \<in> set ts" for x
    using assms(2) [OF that] newer_apart unfolding apart_def by auto
  then show ?thesis using assms(1) by (auto simp: ages_def apart_def)
qed

lemma tables_ids: "tables_inv env e \<Longrightarrow> \<forall>lt \<in> set (e_tables e). lt_table lt < length (e_heap e)"
  by (auto simp: tables_inv_def allTablesLocked_def)

lemma committed_ages:
  assumes "einv env e" and "levels_ordered env e" and "plan_ok env e c" and "committed env e c ys d e'" and "set ys \<subseteq> input_recs env e c"
  shows "levels_ordered env e'"
proof -
  let ?e0 = "e\<lparr>e_tables := remaining_tables (co_inputs c) (e_tables e), e_fs := d\<rparr>"
  have sub: "set (age_list env ?e0) \<subseteq> set (age_list env e)" by (auto simp: age_list_def remaining_tables_def trecs_def)
  then have A0: "ages (age_list env ?e0)" using assms(2) ages_sub unfolding levels_ordered_ages by blast
  have ids: "\<forall>lt \<in> set (e_tables ?e0). lt_table lt < length (e_heap ?e0)"
    using tables_ids [of env e] assms(1) by (auto simp: einv_def remaining_tables_def)
  from assms(4) consider "e' = ?e0" | t where "fresh_table env ?e0 ys t" "e' = add_table (co_targetLevel c) t ?e0"
    by (auto simp: committed_def Let_def)
  then show ?thesis
  proof cases
    case 1
    with A0 show ?thesis by (simp add: levels_ordered_ages)
  next
    case (2 t)
    have "ages (age_list env ?e0 @ [(co_targetLevel c, length (e_heap ?e0), set ys)])"
    proof (rule ages_add [OF A0])
      fix x
      assume "x \<in> set (age_list env ?e0)"
      then obtain lt where lt: "lt \<in> set (e_tables e)" "lt_table lt \<notin> set (co_inputs c)"
        "x = (lt_level lt, lt_table lt, trecs env e (lt_table lt))"
        by (auto simp: age_list_def remaining_tables_def trecs_def)
      then have "fst x < co_targetLevel c \<and> newer (snd (snd x)) (input_recs env e c) \<or> co_targetLevel c < fst x \<and> newer (input_recs env e c) (snd (snd x))"
        using assms(3) by (auto simp: plan_ok_def)
      then show "fst x < co_targetLevel c \<and> newer (snd (snd x)) (set ys) \<or> co_targetLevel c < fst x \<and> newer (set ys) (snd (snd x))"
        using newer_sub [OF _ order_refl assms(5)] newer_sub [OF _ assms(5) order_refl] by blast
    qed
    moreover have "table_recs env t = ys" using 2(1) by (simp add: fresh_table_def)
    ultimately show ?thesis using age_list_add [OF ids, of env "co_targetLevel c" t] 2(2) by (simp add: levels_ordered_ages)
  qed
qed

lemma committed_age_inv:
  assumes "einv env e" and "age_inv env e" and "plan_ok env e c" and "committed env e c ys d e'" and "set ys \<subseteq> input_recs env e c"
    and "same_files (e_fs e) d"
  shows "age_inv env e'"
proof -
  let ?e0 = "e\<lparr>e_tables := remaining_tables (co_inputs c) (e_tables e), e_fs := d\<rparr>"
  have L: "levels_ordered env e'" using committed_ages [OF assms(1) _ assms(3-5)] assms(2) by (simp add: age_inv_def)
  from assms(4) have cs: "e' = ?e0 \<or> (\<exists>t. table_recs env t = ys \<and> e' = add_table (co_targetLevel c) t ?e0)"
    by (auto simp: committed_def Let_def fresh_table_def)
  then have B: "levels_bounded e'" using assms(2,3) by (auto simp: age_inv_def levels_bounded_def plan_ok_def remaining_tables_def add_table_def new_table_def)
  have same: "mem_versions e' = mem_versions e" "imm_versions e' = imm_versions e" "e_imm e' = e_imm e" "irecs e' = irecs e" "e_flushCh e' = e_flushCh e"
    using cs by (auto simp: mem_versions_def imm_versions_def irecs_def)
  have inp: "input_recs env e c \<subseteq> set (table_versions env e)"
    using assms(3) by (auto simp: plan_ok_def input_recs_def trecs_def table_versions_def)
  have t0: "set (table_versions env ?e0) \<subseteq> set (table_versions env e)"
    by (auto simp: table_versions_def allTablesLocked_def remaining_tables_def)
  have "einv env ?e0" using einv_fs [OF einv_remaining(1) [OF assms(1)], of "co_inputs c" d] assms(6) same_files_keeps by simp
  then have T0: "tables_inv env ?e0" by (simp add: einv_def)
  have "set (table_versions env e') \<subseteq> set (table_versions env ?e0) \<union> set ys"
    using cs add_table_versions(1) [OF T0] by auto
  then have "set (table_versions env e') \<subseteq> set (table_versions env e)" using t0 assms(5) inp by blast
  then show ?thesis
    using assms(2) L B newer_sub unfolding age_inv_def mems_ordered_def queue_inv_def same by (meson Un_mono order_refl)
qed

section \<open>Retiring the inputs\<close>

lemma Release_no_faults: "Table_Release t d = (r, t', d') \<Longrightarrow> no_faults d \<Longrightarrow> no_faults d'"
  by (auto simp: Table_Release_def file_Close_def os_Remove_def tick_no_faults Let_def split: if_splits prod.splits option.splits)

definition retired :: "Engine \<Rightarrow> Engine \<Rightarrow> nat list \<Rightarrow> bool" where
  "retired e e' ps \<longleftrightarrow> (\<exists>h d. e' = e\<lparr>e_heap := h, e_fs := d\<rparr> \<and> length h = length (e_heap e) \<and>
     (\<forall>i. i \<notin> set ps \<longrightarrow> h ! i = e_heap e ! i) \<and> (\<forall>i < length h. tbl_path (h ! i) = tbl_path (e_heap e ! i)) \<and> unreadable d = unreadable (e_fs e) \<and>
     (\<forall>q. q \<notin> (\<lambda>p. tbl_path (e_heap e ! p)) ` set ps \<longrightarrow> fs_get d q = fs_get (e_fs e) q) \<and> (no_faults (e_fs e) \<longrightarrow> no_faults d))"

lemma retire_one: "p < length (e_heap e) \<Longrightarrow> retired e (retire p e) [p]"
proof -
  assume p: "p < length (e_heap e)"
  let ?t = "(e_heap e ! p)\<lparr>tbl_removeOnZero := True\<rparr>"
  obtain r t' d where R: "Table_Release ?t (e_fs e) = (r, t', d)" by (metis prod.exhaust)
  note K = Table_Release_keeps [OF R]
  have "retire p e = e\<lparr>e_heap := (e_heap e)[p := t'], e_fs := d\<rparr>" using R by (simp add: retire_def Table_Retire_def)
  moreover have "tbl_path t' = tbl_path (e_heap e ! p)" using K(1) by (simp add: same_data_def)
  ultimately show ?thesis
    using p K(5) Release_no_faults [OF R]
    by (auto simp: retired_def frame_def nth_list_update intro!: exI [of _ "(e_heap e)[p := t']"] exI [of _ d])
qed

lemma retiredE:
  assumes "retired e e' ps"
  obtains h d where "e' = e\<lparr>e_heap := h, e_fs := d\<rparr>" "length h = length (e_heap e)" "\<forall>i. i \<notin> set ps \<longrightarrow> h ! i = e_heap e ! i"
    "\<forall>i < length h. tbl_path (h ! i) = tbl_path (e_heap e ! i)" "unreadable d = unreadable (e_fs e)"
    "\<forall>q. q \<notin> (\<lambda>p. tbl_path (e_heap e ! p)) ` set ps \<longrightarrow> fs_get d q = fs_get (e_fs e) q" "no_faults (e_fs e) \<longrightarrow> no_faults d"
  using assms unfolding retired_def by blast

lemma retired_trans:
  assumes "retired e e1 [p]" and "retired e1 e2 ps" and "\<forall>i \<in> set ps. i < length (e_heap e)"
  shows "retired e e2 (p # ps)"
  using assms(1)
proof (rule retiredE)
  fix h d
  assume h: "e1 = e\<lparr>e_heap := h, e_fs := d\<rparr>" "length h = length (e_heap e)" "\<forall>i. i \<notin> set [p] \<longrightarrow> h ! i = e_heap e ! i"
    "\<forall>i < length h. tbl_path (h ! i) = tbl_path (e_heap e ! i)" "unreadable d = unreadable (e_fs e)"
    "\<forall>q. q \<notin> (\<lambda>p. tbl_path (e_heap e ! p)) ` set [p] \<longrightarrow> fs_get d q = fs_get (e_fs e) q" "no_faults (e_fs e) \<longrightarrow> no_faults d"
  obtain h2 d2 where h2: "e2 = e1\<lparr>e_heap := h2, e_fs := d2\<rparr>" "length h2 = length (e_heap e1)" "\<forall>i. i \<notin> set ps \<longrightarrow> h2 ! i = e_heap e1 ! i"
    "\<forall>i < length h2. tbl_path (h2 ! i) = tbl_path (e_heap e1 ! i)" "unreadable d2 = unreadable (e_fs e1)"
    "\<forall>q. q \<notin> (\<lambda>p. tbl_path (e_heap e1 ! p)) ` set ps \<longrightarrow> fs_get d2 q = fs_get (e_fs e1) q" "no_faults (e_fs e1) \<longrightarrow> no_faults d2"
    using assms(2) by (rule retiredE)
  have e1: "e_heap e1 = h" "e_fs e1 = d" by (simp_all add: h(1))
  have img: "(\<lambda>p. tbl_path (h ! p)) ` set ps = (\<lambda>p. tbl_path (e_heap e ! p)) ` set ps"
    using h(2,4) assms(3) by (intro image_cong refl) simp
  have "\<forall>q. q \<notin> (\<lambda>p. tbl_path (e_heap e ! p)) ` set (p # ps) \<longrightarrow> fs_get d2 q = fs_get (e_fs e) q"
    using h(6) h2(6) unfolding e1 img by simp
  moreover have "\<forall>i. i \<notin> set (p # ps) \<longrightarrow> h2 ! i = e_heap e ! i" using h(3) h2(3) unfolding e1 by simp
  moreover have "\<forall>i < length h2. tbl_path (h2 ! i) = tbl_path (e_heap e ! i)" using h(4) h2(2,4) unfolding e1 by simp
  ultimately show ?thesis unfolding retired_def
    using h(1,2,5,7) h2(1,2,5,7) unfolding e1 by (intro exI [of _ h2] exI [of _ d2]) simp
qed

lemma retire_all: "\<forall>i \<in> set ps. i < length (e_heap e) \<Longrightarrow> retired e (foldl (\<lambda>e p. retire p e) e ps) ps"
proof (induction ps arbitrary: e)
  case Nil
  show ?case by (auto simp: retired_def intro!: exI [of _ "e_heap e"] exI [of _ "e_fs e"])
next
  case (Cons p ps)
  have one: "retired e (retire p e) [p]" using Cons.prems by (intro retire_one) simp
  then have "length (e_heap (retire p e)) = length (e_heap e)" by (auto simp: retired_def)
  then have "retired (retire p e) (foldl (\<lambda>e p. retire p e) (retire p e) ps) ps" using Cons.prems by (intro Cons.IH) simp
  from retired_trans [OF one this] Cons.prems show ?case by simp
qed

lemma retired_inv:
  assumes "retired e e' ps" and "einv env e" and "set ps \<inter> set (allTablesLocked e) = {}"
    and "(\<lambda>p. tbl_path (e_heap e ! p)) ` set ps \<inter> table_paths e = {}"
  shows "einv env e'" and "versions env e' = versions env e" and "age_inv env e' = age_inv env e"
proof -
  obtain h d where h: "e' = e\<lparr>e_heap := h, e_fs := d\<rparr>" "length h = length (e_heap e)" "\<forall>i. i \<notin> set ps \<longrightarrow> h ! i = e_heap e ! i"
    "unreadable d = unreadable (e_fs e)"
    "\<forall>q. q \<notin> (\<lambda>p. tbl_path (e_heap e ! p)) ` set ps \<longrightarrow> fs_get d q = fs_get (e_fs e) q"
    using assms(1) unfolding retired_def by blast
  have same: "h ! p = e_heap e ! p" if "p \<in> set (allTablesLocked e)" for p using h(3) assms(3) that by blast
  have ids: "allTablesLocked e' = allTablesLocked e" by (simp add: h(1) allTablesLocked_def)
  have "keeps_tables e d" using h(4,5) assms(4) by (auto simp: keeps_tables_def table_paths_def)
  from einv_fs [OF assms(2) this] have E: "einv env (e\<lparr>e_fs := d\<rparr>)" .
  have tv: "table_versions env e' = table_versions env e"
    unfolding table_versions_def ids using same by (simp add: h(1) cong: map_cong)
  have mv: "mem_versions e' = mem_versions e" "imm_versions e' = imm_versions e" by (simp_all add: h(1) mem_versions_def imm_versions_def)
  show V: "versions env e' = versions env e" by (simp add: versions_def tv mv)
  have "inj_on (\<lambda>p. tbl_path (h ! p)) (set (allTablesLocked e)) = inj_on (\<lambda>p. tbl_path (e_heap e ! p)) (set (allTablesLocked e))"
    using same by (intro inj_on_cong) simp
  then have "tables_inv env e'" using E same unfolding einv_def tables_inv_def ids by (simp add: h(1,2) named_def allTablesLocked_def)
  then show "einv env e'" using E V by (simp add: einv_def seqs_inv_def) (simp add: h(1) mems_inv_def wals_inv_def wal_named_def)
  have "trecs env e' (lt_table lt) = trecs env e (lt_table lt)" if "lt \<in> set (e_tables e)" for lt
    using same [of "lt_table lt"] that by (simp add: trecs_def h(1) allTablesLocked_def)
  then have "levels_ordered env e' = levels_ordered env e" unfolding levels_ordered_def by (simp add: h(1))
  moreover have "irecs e' = irecs e" by (simp add: h(1) irecs_def [abs_def])
  ultimately show "age_inv env e' = age_inv env e"
    by (simp add: age_inv_def mems_ordered_def tv mv queue_inv_def) (simp add: h(1) levels_bounded_def)
qed

lemma retired_wals:
  assumes "retired e e' ps" and "\<forall>p \<in> set ps. \<exists>dir l g. tbl_path (e_heap e ! p) = sstFileName dir l g"
  shows "keeps_wals (e_fs e) (e_fs e')"
  using assms(1)
proof (rule retiredE)
  fix h d
  assume e': "e' = e\<lparr>e_heap := h, e_fs := d\<rparr>" and q: "\<forall>q. q \<notin> (\<lambda>p. tbl_path (e_heap e ! p)) ` set ps \<longrightarrow> fs_get d q = fs_get (e_fs e) q"
  have "walFileName dir g \<notin> (\<lambda>p. tbl_path (e_heap e ! p)) ` set ps" for dir g
  proof
    assume "walFileName dir g \<in> (\<lambda>p. tbl_path (e_heap e ! p)) ` set ps"
    then obtain p where "p \<in> set ps" "walFileName dir g = tbl_path (e_heap e ! p)" by blast
    with assms(2) sst_ne_wal [symmetric] show False by metis
  qed
  with q show ?thesis by (simp add: keeps_wals_def e')
qed

section \<open>The whole pass\<close>

lemma trecs_frame [simp]:
  "trecs env (e\<lparr>e_fs := d\<rparr>) = trecs env e" "trecs env (e\<lparr>e_genCounter := g\<rparr>) = trecs env e"
  "irecs (e\<lparr>e_fs := d\<rparr>) = irecs e" "irecs (e\<lparr>e_genCounter := g\<rparr>) = irecs e"
  by (simp_all add: trecs_def [abs_def] irecs_def [abs_def])

lemma age_inv_frame [simp]:
  "age_inv env (e\<lparr>e_reg := r\<rparr>) = age_inv env e" "age_inv env (e\<lparr>e_now := n\<rparr>) = age_inv env e"
  "age_inv env (e\<lparr>e_compactCh := b\<rparr>) = age_inv env e" "age_inv env (e\<lparr>e_activeSnapshots := act\<rparr>) = age_inv env e"
  "age_inv env (e\<lparr>e_fs := d\<rparr>) = age_inv env e" "age_inv env (e\<lparr>e_genCounter := g\<rparr>) = age_inv env e"
  "age_inv env (e\<lparr>e_wal := w\<rparr>) = age_inv env e" "age_inv env (e\<lparr>e_seq := s\<rparr>) = age_inv env e"
  by (simp_all add: age_inv_def levels_ordered_def levels_bounded_def mems_ordered_def queue_inv_def trecs_def irecs_def
      mem_versions_def imm_versions_def table_versions_def allTablesLocked_def)

lemma age_inv_metrics [simp]:
  "age_inv env (Inc p e) = age_inv env e" "age_inv env (Observe p e) = age_inv env e" "age_inv env (Adjust p n e) = age_inv env e"
  "age_inv env (maybeTriggerCompaction e) = age_inv env e" "age_inv env (compact_metrics b e) = age_inv env e"
  "age_inv env (flush_metrics b e) = age_inv env e"
  by (simp_all add: Inc_def Observe_def Adjust_def maybeTriggerCompaction_def compact_metrics_def flush_metrics_def Let_def split: option.split)

lemma compact_metrics_frame [simp]:
  "einv env (compact_metrics b e) = einv env e" "versions env (compact_metrics b e) = versions env e"
  "e_fs (compact_metrics b e) = e_fs e" "e_seq (compact_metrics b e) = e_seq e" "e_activeSnapshots (compact_metrics b e) = e_activeSnapshots e"
  by (simp_all add: compact_metrics_def Inc_def Observe_def Let_def)

lemma maybeTrigger_fields [simp]:
  "e_fs (maybeTriggerCompaction e) = e_fs e" "e_seq (maybeTriggerCompaction e) = e_seq e"
  "e_activeSnapshots (maybeTriggerCompaction e) = e_activeSnapshots e"
  by (simp_all add: maybeTriggerCompaction_def split: option.split)

lemma plan_ok_frame: "plan_ok env (e\<lparr>e_genCounter := g, e_fs := d\<rparr>) c = plan_ok env e c"
  "input_recs env (e\<lparr>e_genCounter := g, e_fs := d\<rparr>) c = input_recs env e c"
  "kept_versions env c (e\<lparr>e_genCounter := g, e_fs := d\<rparr>) = kept_versions env c e"
  by (simp_all add: plan_ok_def input_recs_def kept_versions_def versions_def mem_versions_def imm_versions_def table_versions_def
      allTablesLocked_def)

lemma inputs_gone:
  assumes "einv env e" and "committed env e c ys d e'" and "set (co_inputs c) \<subseteq> set (allTablesLocked e)"
  shows "\<forall>i \<in> set (co_inputs c). i < length (e_heap e')" and "set (co_inputs c) \<inter> set (allTablesLocked e') = {}"
    and "(\<lambda>p. tbl_path (e_heap e' ! p)) ` set (co_inputs c) \<inter> table_paths e' = {}"
    and "\<forall>p \<in> set (co_inputs c). \<exists>dir l g. tbl_path (e_heap e' ! p) = sstFileName dir l g"
proof -
  let ?I = "set (co_inputs c)" and ?e0 = "e\<lparr>e_tables := remaining_tables (co_inputs c) (e_tables e), e_fs := d\<rparr>"
  have ids: "p < length (e_heap e)" if "p \<in> set (allTablesLocked e)" for p using assms(1) that by (simp add: einv_def tables_inv_def)
  have inj: "inj_on (\<lambda>p. tbl_path (e_heap e ! p)) (set (allTablesLocked e))" using assms(1) by (simp add: einv_def tables_inv_def)
  have A0: "set (allTablesLocked ?e0) = set (allTablesLocked e) - ?I"
    using remaining_set [where e = e and ps = "co_inputs c"] by (simp add: allTablesLocked_def)
  then have P0: "(\<lambda>p. tbl_path (e_heap e ! p)) ` ?I \<inter> table_paths ?e0 = {}"
    using inj assms(3) unfolding table_paths_def inj_on_def by auto
  from assms(2) consider "e' = ?e0" | t where "tbl_path t \<notin> table_paths e" "e' = add_table (co_targetLevel c) t ?e0"
    by (auto simp: committed_def Let_def fresh_table_def)
  then have "(\<forall>i \<in> ?I. i < length (e_heap e')) \<and> ?I \<inter> set (allTablesLocked e') = {} \<and>
      (\<lambda>p. tbl_path (e_heap e' ! p)) ` ?I \<inter> table_paths e' = {}"
  proof cases
    case 1
    then show ?thesis using A0 P0 ids assms(3) by auto
  next
    case (2 t)
    note new = 2(1)
    have nth: "(e_heap e @ [t]) ! p = e_heap e ! p" if "p \<in> set (allTablesLocked e)" for p using ids [OF that] by (simp add: nth_append)
    have I: "p \<in> set (allTablesLocked e)" if "p \<in> ?I" for p using assms(3) that by blast
    have tp: "table_paths e' = insert (tbl_path t) (table_paths ?e0)"
      using A0 nth by (auto simp: table_paths_def 2(2))
    have img: "(\<lambda>p. tbl_path (e_heap e' ! p)) ` ?I = (\<lambda>p. tbl_path (e_heap e ! p)) ` ?I"
      using nth [OF I] by (intro image_cong refl) (simp add: 2(2))
    have "tbl_path t \<notin> (\<lambda>p. tbl_path (e_heap e ! p)) ` ?I" using new I unfolding table_paths_def by blast
    then have "(\<lambda>p. tbl_path (e_heap e' ! p)) ` ?I \<inter> table_paths e' = {}" using P0 unfolding tp img by auto
    moreover have "?I \<inter> set (allTablesLocked e') = {}" using A0 ids I by (fastforce simp: 2(2))
    ultimately show ?thesis using ids I by (auto simp: 2(2) less_SucI)
  qed
  then show "\<forall>i \<in> ?I. i < length (e_heap e')" "?I \<inter> set (allTablesLocked e') = {}"
    "(\<lambda>p. tbl_path (e_heap e' ! p)) ` ?I \<inter> table_paths e' = {}" by blast+
  have nth: "e_heap e' ! p = e_heap e ! p" if "p \<in> ?I" for p
    using assms(2,3) ids that by (auto simp: committed_def Let_def nth_append)
  have "\<exists>dir l g. tbl_path (e_heap e ! p) = sstFileName dir l g" if "p \<in> ?I" for p
    using assms(1,3) that unfolding einv_def tables_inv_def named_def by blast
  then show "\<forall>p \<in> ?I. \<exists>dir l g. tbl_path (e_heap e' ! p) = sstFileName dir l g" using nth by simp
qed

text \<open>The merge and the commit of a pass.\<close>

lemma compact_pass_run:
  assumes "einv env e" and "age_inv env e" and "no_faults (e_fs e)" and "fits (versions env e)" and "e_genCounter e < unboundedSeq"
    and "compact_plan e = Some c" and "compact_merge env c e = ((r, out), e1)" and "compact_commit c r out e1 = (err, e2)" and "m = minActiveSnapshotSeq e"
  obtains xs d d2 where "plan_ok env e c" and "sorted_wrt rec_before xs" and "set xs = input_recs env e c"
    and "mset xs = mset (concat (map (\<lambda>p. table_recs env (e_heap e ! p)) (co_inputs c)))"
    and "e1 = e\<lparr>e_genCounter := e_genCounter e + 1, e_fs := d\<rparr>" and "merged env e c (retain m (co_isBottommost c) xs) r out d" and "einv env e1"
    and "err = None" and "same_files (e_fs e1) d2" and "committed env e1 c (retain m (co_isBottommost c) xs) d2 e2"
    and "e_heap e2 = e_heap e1 \<and> r \<noteq> None \<or> e_heap e2 \<noteq> e_heap e1 \<and> tbl_path (last (e_heap e2)) = out"
proof -
  have A: "levels_ordered env e" "levels_bounded e" "mems_ordered env e" "tables_inv env e"
    using assms(1,2) by (auto simp: age_inv_def einv_def)
  have P: "plan_ok env e c" by (rule compact_plan_ok [OF assms(6) A(4,1,2)])
  then have I: "0 < co_targetLevel c" "co_targetLevel c < e_maxLevels e" by (auto simp: plan_ok_def)
  have ml: "e_maxLevels e < 2 ^ 63" using A(2) by (simp add: levels_bounded_def)
  obtain xs d where xs: "sorted_wrt rec_before xs" "set xs = input_recs env e c"
    and ms: "mset xs = mset (concat (map (\<lambda>p. table_recs env (e_heap e ! p)) (co_inputs c)))"
    and e1: "e1 = e\<lparr>e_genCounter := e_genCounter e + 1, e_fs := d\<rparr>" and mg: "merged env e c (retain m (co_isBottommost c) xs) r out d"
    by (rule compact_merge_run [OF assms(1) A(1) P assms(4,3,5) ml assms(7,9)])
  let ?ys = "retain m (co_isBottommost c) xs"
  have K: "keeps_tables e d" "no_faults d" "out = sstFileName (e_dir e) (nat (co_targetLevel c)) (e_genCounter e + 1)"
    "r = Some ErrEmptyMerge \<and> ?ys = [] \<or> r = None \<and> table_file env (e_compress e) ?ys out d" using mg by (auto simp: merged_def)
  have gen: "e_genCounter e \<le> e_genCounter e + 1" using word_incr [OF assms(5)] by simp
  have E1: "einv env e1" unfolding e1 using einv_fs [OF einv_gen [OF assms(1) gen], of d] K(1) by simp
  have tl: "nat (co_targetLevel c) < 2 ^ 63" using I ml by simp
  have nm: "named e1 out" "out \<notin> table_paths e1" "no_faults (e_fs e1)"
    "r = Some ErrEmptyMerge \<and> ?ys = [] \<or> r = None \<and> table_file env (e_compress e) ?ys out (e_fs e1)"
    using K fresh_name [OF assms(1,5) tl] tl by (auto simp: e1 named_def table_paths_def allTablesLocked_def)
  obtain d2 where "err = None" "same_files (e_fs e1) d2" "committed env e1 c ?ys d2 e2" "e_heap e2 = e_heap e1 \<and> r \<noteq> None \<or> e_heap e2 \<noteq> e_heap e1 \<and> tbl_path (last (e_heap e2)) = out"
    by (rule compact_commit_run [OF E1 nm(3) assms(8) nm(1,2,4)])
  with P xs ms e1 mg E1 show thesis by (rule that)
qed

lemma compact_pass:
  assumes "einv env e" and "age_inv env e" and "no_faults (e_fs e)" and "fits (versions env e)" and "e_genCounter e < unboundedSeq"
    and "compact_plan e = Some c" and "compact_merge env c e = ((r, out), e1)" and "compact_commit c r out e1 = (err, e2)" and "e3 = compact_end c e2"
  shows "err = None" and "einv env e3" and "age_inv env e3" and "no_faults (e_fs e3)" and "e_seq e3 = e_seq e"
    and "e_activeSnapshots e3 = e_activeSnapshots e" and "keeps_wals (e_fs e) (e_fs e3)" and "set (versions env e3) \<subseteq> set (versions env e)"
    and "mset (versions env e3) \<subseteq># mset (versions env e)"
    and "\<And>key q. minActiveSnapshotSeq e \<le> q \<or> e_seq e \<le> q \<Longrightarrow> reads (versions env e3) key q = reads (versions env e) key q"
proof -
  let ?m = "minActiveSnapshotSeq e" and ?b = "co_isBottommost c"
  have A: "levels_ordered env e" "levels_bounded e" "mems_ordered env e" "tables_inv env e"
    using assms(1,2) by (auto simp: age_inv_def einv_def)
  obtain xs d d2 where P: "plan_ok env e c" and xs: "sorted_wrt rec_before xs" "set xs = input_recs env e c"
    and ms: "mset xs = mset (concat (map (\<lambda>p. table_recs env (e_heap e ! p)) (co_inputs c)))"
    and e1: "e1 = e\<lparr>e_genCounter := e_genCounter e + 1, e_fs := d\<rparr>" and mg: "merged env e c (retain ?m ?b xs) r out d" and E1: "einv env e1"
    and C: "err = None" "same_files (e_fs e1) d2" "committed env e1 c (retain ?m ?b xs) d2 e2"
    by (rule compact_pass_run [OF assms(1-8) refl])
  let ?ys = "retain ?m ?b xs"
  have I: "set (co_inputs c) \<subseteq> set (allTablesLocked e)" using P by (auto simp: plan_ok_def)
  have W: "keeps_wals (e_fs e) d" and nf: "no_faults (e_fs e1)" using mg by (simp_all add: merged_def e1)
  have A1: "age_inv env e1" "plan_ok env e1 c" "set ?ys \<subseteq> input_recs env e1 c" "set (co_inputs c) \<subseteq> set (allTablesLocked e1)"
    using assms(2) P retain_subset [of ?m ?b xs] xs(2) I by (simp_all add: e1 plan_ok_frame) (simp add: allTablesLocked_def)
  note E2 = committed_einv [OF E1 C(3,2) A1(3,4)]
  have A2: "age_inv env e2" by (rule committed_age_inv [OF E1 A1(1,2) C(3) A1(3) C(2)])
  have F2: "e_fs e2 = d2" "e_seq e2 = e_seq e" "e_activeSnapshots e2 = e_activeSnapshots e"
    using C(3) by (auto simp: committed_def Let_def e1)
  note G = inputs_gone [OF E1 C(3) A1(4)]
  let ?r = "foldl (\<lambda>e p. retire p e) e2 (co_inputs c)"
  note R = retire_all [OF G(1)]
  note R' = retired_inv [OF R E2(1) G(2,3)]
  have n2: "no_faults (e_fs ?r)" "e_seq ?r = e_seq e" "e_activeSnapshots ?r = e_activeSnapshots e"
    using R no_faults_same [OF C(2) nf] F2 by (auto elim!: retiredE)
  have "keeps_wals d2 (e_fs ?r)" by (rule retired_wals [OF R G(4), unfolded F2])
  then have W3: "keeps_wals (e_fs e) (e_fs ?r)"
    using keeps_wals_trans [OF keeps_wals_trans [OF W]] keeps_wals_same [OF C(2)] by (simp add: e1)
  have e3: "e3 = maybeTriggerCompaction ?r" using assms(9) by (simp add: compact_end_def)
  show "err = None" by (rule C(1))
  show "einv env e3" "age_inv env e3" "no_faults (e_fs e3)" "e_seq e3 = e_seq e" "e_activeSnapshots e3 = e_activeSnapshots e"
    "keeps_wals (e_fs e) (e_fs e3)"
    using R' A2 n2 W3 by (simp_all add: e3)
  have V3: "set (versions env e3) = kept_versions env c e \<union> set ?ys" using R'(2) E2(2) by (simp add: e3 e1 plan_ok_frame)
  have V: "set (versions env e) = kept_versions env c e \<union> set xs" using versions_split [OF I] xs(2) by simp
  have cm: "mset (versions env e3) + mset xs = mset (versions env e) + mset ?ys"
    using committed_mset [OF E1 C(3,2) _ A1(4)] P ms R'(2) by (simp add: e3 e1 plan_ok_def)
  have "mset (versions env e3) + mset xs \<subseteq># mset (versions env e) + mset xs"
    unfolding cm using retain_mset [of ?m ?b xs] by simp
  then show "mset (versions env e3) \<subseteq># mset (versions env e)" by simp
  show "set (versions env e3) \<subseteq> set (versions env e)" using V V3 retain_subset [of ?m ?b xs] by auto
  show "reads (versions env e3) key q = reads (versions env e) key q" if q: "?m \<le> q \<or> e_seq e \<le> q" for key q
  proof (rule compaction_reads [OF V V3 _ xs(1)])
    show "coherent (set (versions env e))" using assms(1) by (simp add: einv_def seqs_inv_def)
    show "?m \<le> q \<or> (\<forall>r \<in> set xs. rec_seq r \<le> q)"
      using q V assms(1) order_trans unfolding einv_def seqs_inv_def by blast
    show "?b \<Longrightarrow> newer (kept_versions env c e) (set xs)" using kept_newer [OF P A(3)] xs(2) by simp
  qed
qed

end
