(* ===== verification/Run.thy ===== *)
theory Run
  imports Passes
begin

text \<open>
  The store over time. \<open>calm\<close> is the invariant of an engine whose file system does not fail: the
  engine's own invariant, the order of the sources by age, and a usable log. Every operation keeps
  it, so in any interleaving of writes, reads, snapshots, flushes and compaction passes a read
  returns what a plain map would, and a snapshot what the map was.
\<close>

section \<open>Definitions\<close>

definition wal_ready :: "Engine \<Rightarrow> bool" where
  "wal_ready e \<longleftrightarrow> bw_err (wal_w (e_wal e)) = None \<and> bw_buf (wal_w (e_wal e)) = [] \<and> fs_get (e_fs e) (e_walPath e) \<noteq> None"

definition gen_wal :: "Engine \<Rightarrow> string \<Rightarrow> bool" where
  "gen_wal e p \<longleftrightarrow> (\<exists>g \<le> e_genCounter e. p = walFileName (e_dir e) g)"

definition queue_wals :: "Engine \<Rightarrow> bool" where
  "queue_wals e \<longleftrightarrow> gen_wal e (e_walPath e) \<and> (\<forall>j \<in> set (e_flushCh e). fj_walPath j \<noteq> e_walPath e \<and> gen_wal e (fj_walPath j))"

definition calm :: "env \<Rightarrow> Engine \<Rightarrow> bool" where
  "calm env e \<longleftrightarrow> einv env e \<and> age_inv env e \<and> no_faults (e_fs e) \<and> wal_ready e \<and> queue_wals e"

text \<open>No operation draws more than one generation number.\<close>

definition next_gen :: "Engine \<Rightarrow> Engine \<Rightarrow> bool" where
  "next_gen e e' \<longleftrightarrow> e_genCounter e' = e_genCounter e \<or> e_genCounter e' = e_genCounter e + 1"

definition roomy :: "env \<Rightarrow> Engine \<Rightarrow> bool" where
  "roomy env e \<longleftrightarrow> counters_ok e \<and> fits (versions env e)"

section \<open>Writing\<close>

lemma wal_inj: "walFileName dir g = walFileName dir h \<Longrightarrow> g = h"
proof -
  assume "walFileName dir g = walFileName dir h"
  then have "zero_pad 20 (unat g) = zero_pad 20 (unat h)" by (simp add: walFileName_def filepath_Join_def)
  from arg_cong [OF this, of ParseUint] show "g = h" using gen_bound [of g] gen_bound [of h] by (simp add: ParseUint_zero_pad)
qed

lemma gen_wal_mono: "gen_wal e p \<Longrightarrow> e_genCounter e \<le> e_genCounter e' \<Longrightarrow> e_dir e' = e_dir e \<Longrightarrow> gen_wal e' p"
  by (auto simp: gen_wal_def intro: order_trans)

lemma age_put_mem:
  assumes "age_inv env e" and "mems_inv e" and "\<forall>r \<in> set (versions env e). rec_seq r < s"
  shows "age_inv env (put_mem e (write_mem typ (e_mems e ! e_mem e) key val s))"
proof -
  let ?m = "write_mem typ (e_mems e ! e_mem e) key val s" and ?n = "new_version typ key val s"
  let ?e = "put_mem e ?m"
  have mt: "mt_inv (e_mems e ! e_mem e)" using assms(2) by (auto simp: mems_inv_def)
  note V = put_mem_versions [OF assms(2), where mt = ?m]
  have mem: "set (mem_versions ?e) \<subseteq> insert ?n (set (mem_versions e))"
    using write_mem_records [OF mt, of "typ" key val s] V(1) by (auto simp: mem_versions_def)
  have "newer (insert ?n (set (mem_versions e))) (set (imm_versions e) \<union> set (table_versions env e))"
    using assms(1,3) by (auto simp: age_inv_def mems_ordered_def newer_def new_version_def versions_def)
  then have N: "newer (set (mem_versions ?e)) (set (imm_versions e) \<union> set (table_versions env e))"
    using newer_sub [OF _ mem order_refl] by blast
  have "irecs ?e i = irecs e i" if "i \<in> set (e_imm e)" for i
  proof -
    have "im_mt i \<noteq> e_mem e" using assms(2) imageI [OF that, of im_mt] by (auto simp: mems_inv_def)
    then show ?thesis by (simp add: irecs_def put_mem_def)
  qed
  then have I: "sorted_wrt (\<lambda>i j. newer (irecs ?e j) (irecs ?e i)) (e_imm e) \<longleftrightarrow> sorted_wrt (\<lambda>i j. newer (irecs e j) (irecs e i)) (e_imm e)"
    "(\<forall>i \<in> set (e_imm e). irecs ?e i \<noteq> {}) \<longleftrightarrow> (\<forall>i \<in> set (e_imm e). irecs e i \<noteq> {})"
    by (auto intro: sorted_wrt_mono_rel [rotated])
  have F: "trecs env ?e = trecs env e" "e_tables ?e = e_tables e" "e_imm ?e = e_imm e" "e_flushCh ?e = e_flushCh e"
    "e_maxLevels ?e = e_maxLevels e" "e_l0CompactionTrigger ?e = e_l0CompactionTrigger e"
    by (simp_all add: put_mem_def trecs_def [abs_def])
  show ?thesis
    using assms(1) N I unfolding age_inv_def levels_ordered_def levels_bounded_def mems_ordered_def queue_inv_def F V(2,3) by blast
qed

lemma age_hand_over:
  assumes "age_inv env e" and "mems_inv e" and "mem_versions e \<noteq> []"
  shows "age_inv env (hand_over w path e)"
proof -
  let ?e = "hand_over w path e" and ?i = "\<lparr>im_mt = e_mem e, im_walPath = e_walPath e\<rparr>"
  note V = hand_over_versions [OF assms(2), where w = w and path = path]
  have old: "irecs ?e i = irecs e i" if "i \<in> set (e_imm e)" for i
    using assms(2) that by (auto simp: irecs_def hand_over_def mems_inv_def nth_append)
  have new: "irecs ?e ?i = set (mem_versions e)" using assms(2) by (simp add: irecs_def hand_over_def mem_versions_def mems_inv_def nth_append)
  have M: "mems_ordered env e" "queue_inv e" using assms(1) by (auto simp: age_inv_def)
  have "newer (set (mem_versions e)) (irecs e i)" if "i \<in> set (e_imm e)" for i
  proof -
    have "irecs e i \<subseteq> set (imm_versions e) \<union> set (table_versions env e)" using that by (auto simp: irecs_def imm_versions_def)
    with M(1) newer_sub [OF _ order_refl] show ?thesis unfolding mems_ordered_def by blast
  qed
  moreover have "sorted_wrt (\<lambda>i j. newer (irecs ?e j) (irecs ?e i)) (e_imm e)"
    using M(1) old by (auto simp: mems_ordered_def intro: sorted_wrt_mono_rel [rotated])
  ultimately have "sorted_wrt (\<lambda>i j. newer (irecs ?e j) (irecs ?e i)) (e_imm e @ [?i])"
    using old new by (simp add: sorted_wrt_append)
  moreover have imm: "e_imm ?e = e_imm e @ [?i]" "e_flushCh ?e = e_flushCh e @ [\<lparr>fj_mt = e_mem e, fj_walPath = e_walPath e\<rparr>]"
    by (simp_all add: hand_over_def)
  moreover have "newer (set (imm_versions e @ mem_versions e)) (set (table_versions env e))"
    using M(1) by (auto simp: mems_ordered_def newer_def)
  moreover have "queue_inv ?e" using M(2) old new assms(3) by (simp add: queue_inv_def imm)
  moreover have "levels_ordered env ?e" "levels_bounded ?e"
    using assms(1) by (auto simp: age_inv_def levels_ordered_def levels_bounded_def hand_over_def trecs_def)
  ultimately show ?thesis by (simp add: age_inv_def mems_ordered_def V) (simp add: newer_def)
qed

lemma WAL_Open_no_faults: "no_faults d \<Longrightarrow> \<exists>d'. WAL_Open p d = (Inr \<lparr>wal_w = bufio_NewWriter, wal_path = p\<rparr>, d') \<and> no_faults d' \<and> fs_get d' p \<noteq> None"
  by (auto simp: WAL_Open_def os_OpenAppend_def tick_no_faults)

lemma WAL_Close_no_faults:
  "no_faults d \<Longrightarrow> bw_err (wal_w w) = None \<Longrightarrow> bw_buf (wal_w w) = [] \<Longrightarrow> \<exists>d'. WAL_Close w d = (None, d') \<and> no_faults d' \<and> same_files d d'"
  by (simp add: WAL_Close_def bufio_Flush_def file_Close_def tick_no_faults same_files_def)

lemma rotate_calm:
  assumes "calm env e" and "e_genCounter e < unboundedSeq" and "mem_versions e \<noteq> []" and "rotate e = (r, e')"
  shows "r = None \<and> calm env e' \<and> mset (versions env e') = mset (versions env e) \<and> next_gen e e'"
  using assms(4)
proof (cases rule: rotate_cases)
  case small
  with assms(1) show ?thesis by (simp add: next_gen_def)
next
  case (no_wal x d)
  with WAL_Open_no_faults [of "e_fs e"] assms(1) show ?thesis by (metis calm_def old.sum.distinct(2) prod.inject)
next
  case (rotated w d c d')
  let ?p = "walFileName (e_dir e) (e_genCounter e + 1)"
  let ?e1 = "e\<lparr>e_genCounter := e_genCounter e + 1, e_fs := d'\<rparr>"
  have C: "einv env e" "age_inv env e" "no_faults (e_fs e)" "wal_ready e" "queue_wals e" using assms(1) by (auto simp: calm_def)
  have w: "w = \<lparr>wal_w = bufio_NewWriter, wal_path = ?p\<rparr>" "no_faults d" "fs_get d ?p \<noteq> None"
    using WAL_Open_no_faults [OF C(3), of ?p] rotated(2) by auto
  have d': "no_faults d'" "same_files d d'" using WAL_Close_no_faults [OF w(2), of "e_wal e"] C(4) rotated(3) by (auto simp: wal_ready_def)
  have E: "einv env e'" using rotate_einv [OF C(1) assms(4,2)] by blast
  have M: "mems_inv e" using C(1) by (simp add: einv_def)
  have A: "age_inv env e'"
    unfolding rotated(4) using C(2) M assms(3) by (intro age_hand_over) (simp_all add: mems_inv_def mem_versions_def)
  have new: "fj_walPath j \<noteq> ?p" if "j \<in> set (e_flushCh e) \<or> fj_walPath j = e_walPath e" for j
  proof -
    have "gen_wal e (fj_walPath j)" using C(5) that by (auto simp: queue_wals_def)
    then obtain g where "g \<le> e_genCounter e" "fj_walPath j = walFileName (e_dir e) g" by (auto simp: gen_wal_def)
    with wal_inj [of "e_dir e" g "e_genCounter e + 1"] word_incr [OF assms(2)] show ?thesis by force
  qed
  have gen: "gen_wal e' p" if "gen_wal e p" for p
    using that word_incr [OF assms(2)] by (auto simp: gen_wal_def rotated(4) hand_over_def intro: order_trans less_imp_le)
  have "gen_wal e' ?p" by (auto simp: gen_wal_def rotated(4) hand_over_def)
  then have "queue_wals e'" using C(5) new gen by (auto simp: queue_wals_def rotated(4) hand_over_def) (metis flushJob.select_convs(2))
  moreover have "wal_ready e'" using w d' by (simp add: wal_ready_def rotated(4) hand_over_def bufio_NewWriter_def same_files_def)
  moreover have "no_faults (e_fs e')" using d' by (simp add: rotated(4) hand_over_def)
  moreover have "mset (versions env e') = mset (versions env e)" "next_gen e e'"
    using hand_over_versions [of ?e1] M
    by (simp_all add: rotated(4) versions_def next_gen_def mems_inv_def mem_versions_def imm_versions_def table_versions_def allTablesLocked_def)
      (simp add: hand_over_def)
  ultimately show ?thesis using E A rotated(1) by (simp add: calm_def)
qed

lemma mset_put_sorted: "mset (put_sorted k v xs) \<subseteq># add_mset (k, v) (mset xs)"
proof -
  have "mset (takeWhile (\<lambda>e. fst e < k) xs) + mset (dropWhile (\<lambda>e. fst e \<le> k) xs) \<subseteq># mset xs"
  proof (induction xs)
    case (Cons x xs)
    have "mset (dropWhile (\<lambda>e. fst e \<le> k) xs) \<subseteq># mset xs" by (metis mset_append mset_subset_eq_add_right takeWhile_dropWhile_id)
    with Cons show ?case by (auto intro: subset_mset.order_trans)
  qed simp
  then show ?thesis by (simp add: put_sorted_def)
qed

lemma write_mem_mset:
  assumes "mt_inv mt"
  shows "mset (buildRecords (write_mem typ mt key val seq)) \<subseteq># add_mset (new_version typ key val seq) (mset (buildRecords mt))"
proof -
  let ?f = "\<lambda>(k, v). \<lparr>rec_key = k, rec_value = ent_value v, rec_type = ent_type v, rec_seq = ent_seq v\<rparr>"
  obtain ent where e: "MemTable_All (write_mem typ mt key val seq) = put_sorted key ent (MemTable_All mt)" "?f (key, ent) = new_version typ key val seq"
    using MemTable_All_Put [OF assms, of key val seq] MemTable_All_Delete [OF assms, of key seq]
    by (cases "typ = RecordPut") (simp_all add: write_mem_def new_version_def)
  from image_mset_subseteq_mono [OF mset_put_sorted [of key ent "MemTable_All mt"], of ?f] e show ?thesis
    by (simp add: buildRecords_def)
qed

lemma engine_write_run:
  assumes "calm env e" and "engine_write key val typ e = (r, e')"
  obtains w d where "WAL_Append (e_wal e) \<lparr>wr_type = typ, wr_key = key, wr_value = val, wr_seq = e_seq e + 1\<rparr> (e_fs e) = (None, w, d)"
    and "bw_err (wal_w w) = None" and "bw_buf (wal_w w) = []" and "no_faults d" and "fs_get d (e_walPath e) \<noteq> None"
    and "(r, e') = (if sint (MemTable_Size (write_mem typ (e_mems e ! e_mem e) key val (e_seq e + 1))) \<ge> sint (e_flushThreshold e)
      then let (r4, e4) = rotate (put_mem (e\<lparr>e_seq := e_seq e + 1, e_wal := w, e_fs := d\<rparr>) (write_mem typ (e_mems e ! e_mem e) key val (e_seq e + 1)))
        in (map_option (EWrap ''engine: rotating memtable'') r4, e4)
      else (None, put_mem (e\<lparr>e_seq := e_seq e + 1, e_wal := w, e_fs := d\<rparr>) (write_mem typ (e_mems e ! e_mem e) key val (e_seq e + 1))))"
proof -
  let ?rec = "\<lparr>wr_type = typ, wr_key = key, wr_value = val, wr_seq = e_seq e + 1\<rparr>"
  have C: "einv env e" "no_faults (e_fs e)" "wal_ready e" using assms(1) by (auto simp: calm_def)
  have wp: "wal_path (e_wal e) = e_walPath e" using C(1) by (auto simp: einv_def wals_inv_def)
  obtain f where f: "fs_get (e_fs e) (wal_path (e_wal e)) = Some f" using C(3) wp(1) by (auto simp: wal_ready_def)
  obtain w d where a: "WAL_Append (e_wal e) ?rec (e_fs e) = (None, w, d)" "bw_err (wal_w w) = None" "bw_buf (wal_w w) = []"
    "no_faults d" "fs_get d (e_walPath e) \<noteq> None"
    using WAL_Append_no_faults [OF C(2) _ _ f, of ?rec] C(3) wp(1) by (auto simp: wal_ready_def)
  have nc: "\<not> e_closed e" using C(1) by (simp add: einv_def)
  show thesis
    by (rule that [OF a], insert assms(2) [symmetric] nc a(1))
      (simp only: engine_write_def Let_def put_mem_def if_False prod.case option.case Engine.simps flip: write_mem_def, simp)
qed

text \<open>The append and the MemTable, before a rotation.\<close>

lemma append_calm:
  assumes "calm env e" and "counters_ok e" and "key_val_ok key val"
    and "WAL_Append (e_wal e) \<lparr>wr_type = typ, wr_key = key, wr_value = val, wr_seq = e_seq e + 1\<rparr> (e_fs e) = (None, w, d)"
    and "e' = put_mem (e\<lparr>e_seq := e_seq e + 1, e_wal := w, e_fs := d\<rparr>) (write_mem typ (e_mems e ! e_mem e) key val (e_seq e + 1))"
  shows "calm env e'" and "set (versions env e') = insert (new_version typ key val (e_seq e + 1)) (other_versions env e key)"
proof -
  let ?s = "e_seq e + 1"
  let ?rec = "\<lparr>wr_type = typ, wr_key = key, wr_value = val, wr_seq = ?s\<rparr>"
  have C: "einv env e" "age_inv env e" "no_faults (e_fs e)" "wal_ready e" "queue_wals e" using assms(1) by (auto simp: calm_def)
  have wp: "wal_path (e_wal e) = e_walPath e" "wal_named e (wal_path (e_wal e))" using C(1) by (auto simp: einv_def wals_inv_def)
  obtain f where f: "fs_get (e_fs e) (wal_path (e_wal e)) = Some f" using C(4) wp(1) by (auto simp: wal_ready_def)
  have a: "bw_err (wal_w w) = None" "bw_buf (wal_w w) = []" "no_faults d" "fs_get d (e_walPath e) \<noteq> None"
    using WAL_Append_no_faults [OF C(3) _ _ f, of ?rec] C(4) wp(1) assms(4) by (auto simp: wal_ready_def)
  note F = WAL_Append_frame [OF assms(4)]
  have less: "e_seq e < ?s" using assms(2) word_incr by (simp add: counters_ok_def)
  let ?e2 = "e\<lparr>e_seq := ?s, e_wal := w, e_fs := d\<rparr>"
  have E2: "einv env ?e2"
    using einv_fs [OF einv_wal [OF einv_seq [OF C(1), of ?s], of w], of d] frame_wal_keeps [OF C(1) wp(2) F(1)] F(2) wp(1) less by simp
  have s: "\<forall>r \<in> set (versions env ?e2). rec_seq r < ?s" using C(1) le_less_trans [OF _ less] by (simp add: einv_def seqs_inv_def)
  have e3: "e' = put_mem ?e2 (write_mem typ (e_mems ?e2 ! e_mem ?e2) key val ?s)" by (simp add: assms(5))
  have sle: "?s \<le> e_seq ?e2" by simp
  note P = einv_put_mem [OF E2 assms(3) s sle e3]
  have M2: "mems_inv ?e2" using E2 by (simp add: einv_def)
  have A3: "age_inv env e'" using age_put_mem [OF _ M2 s, of "typ" key val] C(2) by (simp add: assms(5))
  show "calm env e'" using P(1) A3 a C(5) by (simp add: calm_def wal_ready_def queue_wals_def gen_wal_def put_mem_def assms(5))
  have "other_versions env ?e2 key = other_versions env e key"
    by (simp add: other_versions_def mem_versions_def imm_versions_def table_versions_def allTablesLocked_def)
  with P(2) show "set (versions env e') = insert (new_version typ key val ?s) (other_versions env e key)" by simp
qed

lemma engine_write_calm:
  assumes "calm env e" and "counters_ok e" and "key_val_ok key val" and "engine_write key val typ e = (r, e')"
  shows "r = None" and "calm env e'" and "e_seq e' = e_seq e + 1" and "e_activeSnapshots e' = e_activeSnapshots e"
    and "set (versions env e') = insert (new_version typ key val (e_seq e + 1)) (other_versions env e key)"
    and "mset (versions env e') \<subseteq># add_mset (new_version typ key val (e_seq e + 1)) (mset (versions env e))" and "next_gen e e'"
proof -
  let ?s = "e_seq e + 1"
  let ?rec = "\<lparr>wr_type = typ, wr_key = key, wr_value = val, wr_seq = ?s\<rparr>"
  have C: "einv env e" "age_inv env e" "no_faults (e_fs e)" "wal_ready e" "queue_wals e" using assms(1) by (auto simp: calm_def)
  obtain w d where a: "WAL_Append (e_wal e) ?rec (e_fs e) = (None, w, d)" "bw_err (wal_w w) = None" "bw_buf (wal_w w) = []"
    "no_faults d" "fs_get d (e_walPath e) \<noteq> None" and step: "(r, e') = (if sint (MemTable_Size (write_mem typ (e_mems e ! e_mem e) key val ?s)) \<ge> sint (e_flushThreshold e)
      then let (r4, e4) = rotate (put_mem (e\<lparr>e_seq := ?s, e_wal := w, e_fs := d\<rparr>) (write_mem typ (e_mems e ! e_mem e) key val ?s))
        in (map_option (EWrap ''engine: rotating memtable'') r4, e4)
      else (None, put_mem (e\<lparr>e_seq := ?s, e_wal := w, e_fs := d\<rparr>) (write_mem typ (e_mems e ! e_mem e) key val ?s)))"
    by (rule engine_write_run [OF assms(1,4)])
  let ?e2 = "e\<lparr>e_seq := ?s, e_wal := w, e_fs := d\<rparr>" and ?m = "write_mem typ (e_mems e ! e_mem e) key val ?s"
  let ?e3 = "put_mem ?e2 ?m"
  note P = append_calm [OF assms(1-3) a(1) refl]
  have M2: "mems_inv ?e2" using C(1) by (simp add: einv_def mems_inv_def)
  obtain r4 e4 where rot: "rotate ?e3 = (r4, e4)" by fastforce
  have g: "e_genCounter ?e3 < unboundedSeq" using assms(2) by (simp add: counters_ok_def put_mem_def)
  have mt: "mt_inv (e_mems e ! e_mem e)" using M2 by (auto simp: mems_inv_def)
  have "new_version typ key val ?s \<in> set (mem_versions ?e3)"
    using put_mem_versions(1) [OF M2, of ?m] write_mem_records [OF mt, of "typ" key val ?s] by simp
  then have "mem_versions ?e3 \<noteq> []" by auto
  note R = rotate_calm [OF P(1) g this rot] rotate_einv [OF P(1) [unfolded calm_def, THEN conjunct1] rot g]
  have snap: "e_activeSnapshots e4 = e_activeSnapshots ?e3"
    using rot by (cases rule: rotate_cases) (simp_all add: hand_over_def)
  have ms: "mset (versions env ?e3) \<subseteq># add_mset (new_version typ key val ?s) (mset (versions env e))"
    using write_mem_mset [OF mt, of "typ" key val ?s] put_mem_versions [OF M2, where mt = ?m]
    by (simp add: versions_def mem_versions_def imm_versions_def table_versions_def allTablesLocked_def flip: add_mset_add_single)
  have g3: "next_gen ?e3 x = next_gen e x" for x by (simp add: next_gen_def put_mem_def)
  have "r = None \<and> calm env e' \<and> e_seq e' = ?s \<and> e_activeSnapshots e' = e_activeSnapshots e \<and> set (versions env e') = set (versions env ?e3) \<and>
    mset (versions env e') = mset (versions env ?e3) \<and> next_gen e e'"
    using step R rot snap P(1) g3 by (auto simp: put_mem_def next_gen_def split: if_splits)
  with P(2) ms show "r = None" "calm env e'" "e_seq e' = ?s" "e_activeSnapshots e' = e_activeSnapshots e"
    "set (versions env e') = insert (new_version typ key val ?s) (other_versions env e key)"
    "mset (versions env e') \<subseteq># add_mset (new_version typ key val ?s) (mset (versions env e))" "next_gen e e'" by simp_all
qed

section \<open>Flushing\<close>

lemma ages_add_newest:
  assumes "ages ts" and "\<And>x. x \<in> set ts \<Longrightarrow> 0 \<le> fst x \<and> newer A (snd (snd x))"
  shows "ages (ts @ [(0, p, A)])"
proof -
  have "apart x (0, p, A)" "apart (0, p, A) x" if "x \<in> set ts" for x
    using assms(2) [OF that] newer_apart unfolding apart_def by auto
  then show ?thesis using assms(1) by (auto simp: ages_def apart_def)
qed

lemma age_flush_commit:
  assumes "einv env e" and "fresh_table env e (buildRecords (e_mems e ! fj_mt job)) t"
    and "levels_ordered env e" and "levels_bounded e" and "mems_ordered env e"
    and "e_imm e = i # ims" and "im_mt i = fj_mt job" and "map fj_mt (e_flushCh e) = map im_mt ims" and "\<forall>i \<in> set ims. irecs e i \<noteq> {}"
  shows "age_inv env (flush_commit (fj_mt job) t e)"
proof -
  let ?e = "flush_commit (fj_mt job) t e" and ?rs = "buildRecords (e_mems e ! fj_mt job)"
  have T: "tables_inv env e" using assms(1) by (simp add: einv_def)
  have fc: "?e = (add_table 0 t e)\<lparr>e_imm := ims\<rparr>" using assms(6,7) by (simp add: flush_commit_def Let_def)
  have rs: "table_recs env t = ?rs" using assms(2) by (simp add: fresh_table_def)
  have irs: "irecs e i = set ?rs" using assms(7) by (simp add: irecs_def)
  have iv: "set (imm_versions e) = set ?rs \<union> set (imm_versions ?e)" using assms(6,7) by (simp add: imm_versions_def fc)
  have tv: "set (table_versions env ?e) = set (table_versions env e) \<union> set ?rs" "mem_versions ?e = mem_versions e"
    using add_table_versions [OF T, where t = t and l = 0] rs
    by (simp_all add: fc table_versions_def mem_versions_def allTablesLocked_def)
  have N: "newer (set (imm_versions e)) (set (table_versions env e))"
    "newer (set (mem_versions e)) (set (imm_versions e) \<union> set (table_versions env e))"
    "\<forall>j \<in> set ims. newer (irecs e j) (irecs e i)" "sorted_wrt (\<lambda>i j. newer (irecs e j) (irecs e i)) ims"
    using assms(5,6) by (simp_all add: mems_ordered_def)
  have ir: "irecs ?e = irecs e" by (simp add: fc irecs_def [abs_def])
  have "newer (set (imm_versions ?e)) (set ?rs)"
    using N(3) irs by (auto simp: newer_def imm_versions_def fc irecs_def)
  moreover have "newer (set (imm_versions ?e)) (set (table_versions env e))" using newer_sub [OF N(1)] iv by blast
  ultimately have "newer (set (imm_versions ?e)) (set (table_versions env ?e))" unfolding tv by (auto simp: newer_def)
  moreover have "newer (set (mem_versions ?e)) (set (imm_versions ?e) \<union> set (table_versions env ?e))"
    unfolding tv using newer_sub [OF N(2)] iv by (metis Un_assoc Un_commute order_refl)
  ultimately have M: "mems_ordered env ?e" using N(4) by (simp add: mems_ordered_def ir) (simp add: fc)
  have "newer (set ?rs) (trecs env e (lt_table lt))" if "lt \<in> set (e_tables e)" for lt
    using that N(1) iv by (auto simp: newer_def table_versions_def trecs_def allTablesLocked_def)
  then have "ages (age_list env e @ [(0, length (e_heap e), set ?rs)])"
    using assms(3,4) by (intro ages_add_newest) (auto simp: levels_ordered_ages age_list_def levels_bounded_def)
  moreover have "age_list env ?e = age_list env (add_table 0 t e)" by (simp add: fc age_list_def trecs_def)
  ultimately have "levels_ordered env ?e" using age_list_add [OF tables_ids [OF T], of env 0 t] rs by (simp add: levels_ordered_ages)
  moreover have "levels_bounded ?e" using assms(4) by (auto simp: levels_bounded_def fc add_table_def new_table_def)
  moreover have "queue_inv ?e" using assms(8,9) by (simp add: queue_inv_def ir) (simp add: fc)
  ultimately show ?thesis using M by (simp add: age_inv_def)
qed

lemma no_faults_remove: "no_faults d \<Longrightarrow> no_faults (snd (WAL_Remove p d))"
  by (auto simp: WAL_Remove_def os_Remove_def tick_no_faults split: option.splits)

lemma flush_end_fs: "e_fs (flush_end p e) = snd (WAL_Remove p (e_fs e))" "age_inv env (flush_end p e) = age_inv env e"
  "e_walPath (flush_end p e) = e_walPath e" "e_wal (flush_end p e) = e_wal e" "e_flushCh (flush_end p e) = e_flushCh e"
  "e_genCounter (flush_end p e) = e_genCounter e" "e_dir (flush_end p e) = e_dir e" "e_seq (flush_end p e) = e_seq e"
  "e_activeSnapshots (flush_end p e) = e_activeSnapshots e"
  by (simp_all add: flush_end_def on_fs_def case_prod_beta maybeTriggerCompaction_def split: option.split)

lemma flush_metrics_fields [simp]:
  "e_fs (flush_metrics b e) = e_fs e" "e_walPath (flush_metrics b e) = e_walPath e" "e_wal (flush_metrics b e) = e_wal e"
  "e_flushCh (flush_metrics b e) = e_flushCh e" "e_genCounter (flush_metrics b e) = e_genCounter e" "e_dir (flush_metrics b e) = e_dir e"
  "e_seq (flush_metrics b e) = e_seq e" "e_activeSnapshots (flush_metrics b e) = e_activeSnapshots e"
  by (simp_all add: flush_metrics_def Inc_def Observe_def Let_def)

lemma flush_commit_fields [simp]:
  "e_fs (flush_commit mt t e) = e_fs e" "e_walPath (flush_commit mt t e) = e_walPath e" "e_wal (flush_commit mt t e) = e_wal e"
  "e_flushCh (flush_commit mt t e) = e_flushCh e" "e_genCounter (flush_commit mt t e) = e_genCounter e" "e_dir (flush_commit mt t e) = e_dir e"
  "e_seq (flush_commit mt t e) = e_seq e" "e_activeSnapshots (flush_commit mt t e) = e_activeSnapshots e"
  by (simp_all add: flush_commit_def Let_def)

lemma wal_ready_keeps:
  assumes "wal_ready e" and "keeps_wals (e_fs e) d" and "gen_wal e (e_walPath e)"
  shows "fs_get d (e_walPath e) \<noteq> None"
  using assms by (auto simp: wal_ready_def keeps_wals_def gen_wal_def)

lemma imm_fits: "fits (versions env e) \<Longrightarrow> i \<in> set (e_imm e) \<Longrightarrow> fits (buildRecords (e_mems e ! im_mt i))"
proof (rule fits_mono)
  assume "i \<in> set (e_imm e)"
  then obtain xs ys where "e_imm e = xs @ i # ys" using split_list by fastforce
  then show "mset (buildRecords (e_mems e ! im_mt i)) \<subseteq># mset (versions env e)"
    by (simp add: versions_def imm_versions_def)
qed

text \<open>A turn of the flush worker with a job to do.\<close>

lemma flush_turn_run:
  assumes "calm env e" and "roomy env e" and "e_flushCh e = job # jobs"
  obtains i ims t d e2 where "e_imm e = i # ims" and "im_mt i = fj_mt job" and "map im_mt ims = map fj_mt jobs" and "\<forall>i \<in> set ims. irecs e i \<noteq> {}"
    and "e2 = e\<lparr>e_flushCh := jobs, e_genCounter := e_genCounter e + 1, e_fs := d\<rparr>" and "einv env e2" and "keeps_wals (e_fs e) d" and "no_faults d"
    and "fresh_table env e2 (buildRecords (e_mems e ! fj_mt job)) t"
    and "write_table env (buildRecords (e_mems e ! fj_mt job)) ''flush failed'' ''failed to reopen freshly-flushed sstable'' (e\<lparr>e_flushCh := jobs\<rparr>) = (Inr t, e2)"
    and "flushWorker_turn env e = flush_metrics False (flush_end (fj_walPath job) (flush_commit (fj_mt job) t e2))"
proof -
  let ?e1 = "e\<lparr>e_flushCh := jobs\<rparr>" and ?rs = "buildRecords (e_mems e ! fj_mt job)"
  have C: "einv env e" "age_inv env e" "no_faults (e_fs e)" using assms(1) by (auto simp: calm_def)
  obtain i ims where i: "e_imm e = i # ims" "im_mt i = fj_mt job" "map im_mt ims = map fj_mt jobs" "\<forall>i \<in> set ims. irecs e i \<noteq> {}" "irecs e i \<noteq> {}"
    using C(2) assms(3) by (cases "e_imm e") (auto simp: age_inv_def queue_inv_def)
  have E1: "einv env ?e1" using C(1) assms(3) by (auto simp: einv_def mems_inv_def tables_inv_def named_def allTablesLocked_def seqs_inv_def wals_inv_def wal_named_def)
  have M: "mems_inv e" using C(1) by (simp add: einv_def)
  have fit: "fits ?rs" using imm_fits [of env e i] assms(2) i by (simp add: roomy_def)
  have ne: "?rs \<noteq> []" using i(2,5) by (auto simp: irecs_def)
  have ok: "recs_ok ?rs" using buildRecords_ok [of "e_mems e ! fj_mt job"] imm_records [OF M, of i] i fit ne by simp
  have sm: "small_table ?rs" using fit by (simp add: fits_def)
  have g: "e_genCounter ?e1 < unboundedSeq" using assms(2) by (simp add: roomy_def counters_ok_def)
  obtain r e2 where w: "write_table env ?rs ''flush failed'' ''failed to reopen freshly-flushed sstable'' ?e1 = (r, e2)" by fastforce
  obtain d where d: "e2 = ?e1\<lparr>e_genCounter := e_genCounter ?e1 + 1, e_fs := d\<rparr>" "einv env e2" "keeps_wals (e_fs ?e1) d"
    "\<And>t. r = Inr t \<Longrightarrow> fresh_table env e2 ?rs t" "no_faults (e_fs ?e1) \<Longrightarrow> no_faults d \<and> (\<exists>t. r = Inr t)"
    by (rule write_table_run [OF E1 g ok sm w]) blast
  obtain t where t: "r = Inr t" "no_faults d" using d(5) C(3) by auto
  show thesis
    using d(1-3) d(4) [OF t(1)] t w assms(3) i(1-4)
    by (intro that [of i ims e2 d t]) (simp_all add: flushWorker_turn_def doFlush_def flush_write_def)
qed

lemma flush_turn_calm:
  assumes "calm env e" and "roomy env e" and "e' = flushWorker_turn env e"
  shows "calm env e'" and "mset (versions env e') = mset (versions env e)" and "e_seq e' = e_seq e"
    and "e_activeSnapshots e' = e_activeSnapshots e" and "e_flushCh e' = tl (e_flushCh e)" and "next_gen e e'"
    and "mem_versions e' = mem_versions e" and "e_maxLevels e' = e_maxLevels e" and "length (e_tables e') \<le> Suc (length (e_tables e))"
proof -
  have C: "einv env e" "age_inv env e" "no_faults (e_fs e)" "wal_ready e" "queue_wals e" using assms(1) by (auto simp: calm_def)
  have "calm env e' \<and> mset (versions env e') = mset (versions env e) \<and> e_seq e' = e_seq e \<and> e_activeSnapshots e' = e_activeSnapshots e \<and>
    e_flushCh e' = tl (e_flushCh e) \<and> next_gen e e' \<and> mem_versions e' = mem_versions e \<and>
    e_maxLevels e' = e_maxLevels e \<and> length (e_tables e') \<le> Suc (length (e_tables e))"
  proof (cases "e_flushCh e")
    case Nil
    with assms(1,3) show ?thesis by (simp add: flushWorker_turn_def next_gen_def)
  next
    case (Cons job jobs)
    let ?rs = "buildRecords (e_mems e ! fj_mt job)"
    obtain i ims t d e2 where i: "e_imm e = i # ims" "im_mt i = fj_mt job" "map im_mt ims = map fj_mt jobs" "\<forall>i \<in> set ims. irecs e i \<noteq> {}"
      and d: "e2 = e\<lparr>e_flushCh := jobs, e_genCounter := e_genCounter e + 1, e_fs := d\<rparr>" "einv env e2" "keeps_wals (e_fs e) d" "no_faults d"
        "fresh_table env e2 ?rs t"
      and turn: "flushWorker_turn env e = flush_metrics False (flush_end (fj_walPath job) (flush_commit (fj_mt job) t e2))"
      by (rule flush_turn_run [OF assms(1,2) Cons])
    have g: "e_genCounter e < unboundedSeq" using assms(2) by (simp add: roomy_def counters_ok_def)
    let ?e3 = "flush_commit (fj_mt job) t e2"
    have mems2: "e_mems e2 = e_mems e" "e_imm e2 = e_imm e" by (simp_all add: d(1))
    have F: "fresh_table env e2 (buildRecords (e_mems e2 ! fj_mt job)) t" using d(5) mems2 by simp
    have imm: "fj_mt job \<in> im_mt ` set (e_imm e2)" using i by (simp add: mems2)
    note E3 = flush_commit_einv [OF d(2) F imm]
    have L: "levels_ordered env e2" "levels_bounded e2" "mems_ordered env e2"
      using C(2) by (simp_all add: d(1) age_inv_def levels_ordered_def levels_bounded_def mems_ordered_def trecs_def irecs_def
          mem_versions_def imm_versions_def table_versions_def allTablesLocked_def)
    have A3: "age_inv env ?e3"
      by (rule age_flush_commit [OF d(2) F L]) (use i in \<open>simp_all add: d(1) irecs_def\<close>)
    have q: "fj_walPath job \<noteq> e_walPath e" "gen_wal e (fj_walPath job)" "gen_wal e (e_walPath e)"
      "\<forall>j \<in> set jobs. fj_walPath j \<noteq> e_walPath e \<and> gen_wal e (fj_walPath j)" using C(5) Cons by (auto simp: queue_wals_def)
    have wn: "wal_named ?e3 (fj_walPath job)" using q(2) by (auto simp: wal_named_def gen_wal_def d(1))
    let ?e4 = "flush_end (fj_walPath job) ?e3"
    note E4 = flush_end_einv [OF E3(1) wn]
    have e': "e' = flush_metrics False ?e4"
      using assms(3) turn by simp
    have fs: "fs_get d (e_walPath e) \<noteq> None" using wal_ready_keeps [OF C(4) _ q(3)] d(3) by simp
    have "fs_get (snd (WAL_Remove (fj_walPath job) d)) (e_walPath e) = fs_get d (e_walPath e)"
      using WAL_Remove_frame [of "fj_walPath job" d] q(1) by (simp add: frame_def)
    then have "wal_ready e'" using C(4) fs by (simp add: wal_ready_def e' flush_end_fs d(1))
    moreover have "e_genCounter e \<le> e_genCounter e'" "e_dir e' = e_dir e"
      using word_incr [of "e_genCounter e"] g by (simp_all add: e' flush_end_fs d(1))
    then have "gen_wal e' p" if "gen_wal e p" for p using gen_wal_mono that by blast
    then have "queue_wals e'" using q by (simp add: queue_wals_def) (simp add: e' flush_end_fs d(1))
    moreover have "no_faults (e_fs e')" using no_faults_remove [OF d(4)] by (simp add: e' flush_end_fs d(1))
    ultimately have "calm env e'" using E4(1) A3 by (simp add: calm_def e' flush_end_fs)
    moreover have "mset (versions env ?e3) = mset (versions env e2)"
    proof -
      have T: "tables_inv env e2" using d(2) by (simp add: einv_def)
      have fc: "?e3 = (add_table 0 t e2)\<lparr>e_imm := ims\<rparr>" using i(1,2) mems2 by (simp add: flush_commit_def Let_def)
      have "table_recs env t = ?rs" using d(5) by (simp add: fresh_table_def)
      then show ?thesis
        using add_table_versions [OF T, where t = t and l = 0] i(1,2) mems2
        by (simp add: fc versions_def table_versions_def mem_versions_def imm_versions_def allTablesLocked_def)
    qed
    then have "mset (versions env e') = mset (versions env e)" using E4(2) by (simp add: e' d(1))
    moreover have "mem_versions e' = mem_versions e" "e_maxLevels e' = e_maxLevels e" "length (e_tables e') \<le> Suc (length (e_tables e))"
      by (simp_all add: e' flush_end_def on_fs_def case_prod_beta maybeTriggerCompaction_def flush_metrics_def flush_commit_def Let_def
          Inc_def Observe_def d(1) mem_versions_def split: option.split)
    ultimately show ?thesis using Cons by (simp add: e' flush_end_fs d(1) next_gen_def)
  qed
  then show "calm env e'" "mset (versions env e') = mset (versions env e)" "e_seq e' = e_seq e" "e_activeSnapshots e' = e_activeSnapshots e"
    "e_flushCh e' = tl (e_flushCh e)" "next_gen e e'"
    "mem_versions e' = mem_versions e" "e_maxLevels e' = e_maxLevels e" "length (e_tables e') \<le> Suc (length (e_tables e))" by blast+
qed

section \<open>Compaction\<close>

text \<open>The fields a pass never touches.\<close>

definition same_log :: "Engine \<Rightarrow> Engine \<Rightarrow> bool" where
  "same_log e e' \<longleftrightarrow> e_wal e' = e_wal e \<and> e_walPath e' = e_walPath e \<and> e_flushCh e' = e_flushCh e \<and> e_dir e' = e_dir e \<and>
     e_mems e' = e_mems e \<and> e_mem e' = e_mem e \<and> e_imm e' = e_imm e"

lemma same_log_refl: "same_log e e"
  by (simp add: same_log_def)

lemma same_log_trans: "same_log a b \<Longrightarrow> same_log b c \<Longrightarrow> same_log a c"
  by (simp add: same_log_def)

lemma retire_log: "same_log e (foldl (\<lambda>e p. retire p e) e ps) \<and> e_genCounter (foldl (\<lambda>e p. retire p e) e ps) = e_genCounter e"
  by (induction ps arbitrary: e) (simp_all add: same_log_def retire_def case_prod_beta)

lemma commit_log:
  "compact_commit c r out e = (err, e') \<Longrightarrow> same_log e e' \<and> e_genCounter e' = e_genCounter e"
  by (auto simp: compact_commit_def same_log_def on_fs_def Let_def split: option.splits sum.splits prod.splits if_splits)

lemma merge_log:
  "compact_merge env c e = (x, e') \<Longrightarrow> same_log e e' \<and> e_genCounter e' = e_genCounter e + 1"
  by (auto simp: compact_merge_def same_log_def on_fs_def nextGen_def Let_def split: prod.splits)

lemma end_log: "same_log e (compact_end c e) \<and> e_genCounter (compact_end c e) = e_genCounter e"
  using retire_log [of e "co_inputs c"] by (auto simp: compact_end_def maybeTriggerCompaction_def same_log_def split: option.splits)

lemma runCompaction_calm:
  assumes "calm env e" and "roomy env e" and "runCompaction env e = (err, e')"
  shows "err = None" and "calm env e'" and "e_seq e' = e_seq e" and "e_activeSnapshots e' = e_activeSnapshots e"
    and "mset (versions env e') \<subseteq># mset (versions env e)" and "next_gen e e'"
    and "\<And>key q. minActiveSnapshotSeq e \<le> q \<or> e_seq e \<le> q \<Longrightarrow> reads (versions env e') key q = reads (versions env e) key q"
proof -
  have C: "einv env e" "age_inv env e" "no_faults (e_fs e)" "wal_ready e" "queue_wals e" using assms(1) by (auto simp: calm_def)
  have R: "fits (versions env e)" "e_genCounter e < unboundedSeq" using assms(2) by (auto simp: roomy_def counters_ok_def)
  have "err = None \<and> calm env e' \<and> e_seq e' = e_seq e \<and> e_activeSnapshots e' = e_activeSnapshots e \<and>
    mset (versions env e') \<subseteq># mset (versions env e) \<and> next_gen e e' \<and>
    (\<forall>key q. minActiveSnapshotSeq e \<le> q \<or> e_seq e \<le> q \<longrightarrow> reads (versions env e') key q = reads (versions env e) key q)"
  proof (cases "compact_plan e")
    case None
    with assms(1,3) R(1) show ?thesis by (simp add: runCompaction_def next_gen_def)
  next
    case (Some c)
    obtain r out e1 where m: "compact_merge env c e = ((r, out), e1)" by (metis prod.exhaust)
    obtain er e2 where k: "compact_commit c r out e1 = (er, e2)" by fastforce
    let ?e3 = "compact_end c e2"
    note P = compact_pass [OF C(1-3) R Some m k refl]
    have e': "err = None" "e' = compact_metrics False ?e3" using assms(3) Some m k P(1) by (simp_all add: runCompaction_def)
    have log: "same_log e ?e3" "e_genCounter ?e3 = e_genCounter e + 1"
      using merge_log [OF m] commit_log [OF k] end_log [of e2 c] same_log_trans by metis+
    have cm: "same_log ?e3 e'" "e_genCounter e' = e_genCounter ?e3" "e_fs e' = e_fs ?e3"
      by (simp_all add: e'(2) compact_metrics_def Inc_def Observe_def same_log_def Let_def)
    note L = same_log_trans [OF log(1) cm(1)]
    have le: "e_genCounter e \<le> e_genCounter e'" "e_dir e' = e_dir e" using log(2) cm(2) word_incr [OF R(2)] L by (simp_all add: same_log_def)
    have gw: "gen_wal e' p" if "gen_wal e p" for p using gen_wal_mono [OF that le] .
    have "queue_wals e'" using C(5) gw L by (simp add: queue_wals_def same_log_def)
    moreover have "wal_ready e'"
      using C(4) wal_ready_keeps [OF C(4) P(7)] C(5) L cm(3) by (simp add: wal_ready_def queue_wals_def same_log_def)
    ultimately have "calm env e'" using P(2-4) cm(3) by (simp add: calm_def e'(2))
    moreover have "next_gen e e'" using log(2) cm(2) by (simp add: next_gen_def)
    ultimately show ?thesis using P(5,6,8-10) e' by simp
  qed
  then show "err = None" "calm env e'" "e_seq e' = e_seq e" "e_activeSnapshots e' = e_activeSnapshots e"
    "mset (versions env e') \<subseteq># mset (versions env e)" "next_gen e e'"
    "\<And>key q. minActiveSnapshotSeq e \<le> q \<or> e_seq e \<le> q \<Longrightarrow> reads (versions env e') key q = reads (versions env e) key q" by blast+
qed

lemma calm_frame [simp]:
  "calm env (e\<lparr>e_reg := r\<rparr>) = calm env e" "calm env (e\<lparr>e_now := n\<rparr>) = calm env e" "calm env (e\<lparr>e_compactCh := b\<rparr>) = calm env e"
  "calm env (e\<lparr>e_activeSnapshots := act\<rparr>) = calm env e"
  by (simp_all add: calm_def wal_ready_def queue_wals_def gen_wal_def)

lemma calm_metrics [simp]:
  "calm env (Inc p e) = calm env e" "calm env (Observe p e) = calm env e" "calm env (Adjust p n e) = calm env e"
  by (simp_all add: Inc_def Observe_def Adjust_def)

lemma compaction_turn_calm:
  assumes "calm env e" and "roomy env e" and "e' = compactionLoop_turn env e"
  shows "calm env e'" and "e_seq e' = e_seq e" and "e_activeSnapshots e' = e_activeSnapshots e"
    and "mset (versions env e') \<subseteq># mset (versions env e)" and "next_gen e e'"
    and "\<And>key q. minActiveSnapshotSeq e \<le> q \<or> e_seq e \<le> q \<Longrightarrow> reads (versions env e') key q = reads (versions env e) key q"
proof -
  let ?e = "e\<lparr>e_compactCh := False\<rparr>"
  obtain err e1 where r: "runCompaction env ?e = (err, e1)" by fastforce
  have "calm env ?e" "roomy env ?e" using assms(1,2) by (simp_all add: roomy_def counters_ok_def)
  note R = runCompaction_calm [OF this r]
  have m: "minActiveSnapshotSeq ?e = minActiveSnapshotSeq e" "next_gen ?e e' = next_gen e e'" "next_gen e e"
    by (simp_all add: minActiveSnapshotSeq_def next_gen_def)
  have "e' = e \<or> e' = e1" using assms(3) r by (simp add: compactionLoop_turn_def)
  with R m assms(1) show "calm env e'" "e_seq e' = e_seq e" "e_activeSnapshots e' = e_activeSnapshots e"
    "mset (versions env e') \<subseteq># mset (versions env e)" "next_gen e e'"
    "\<And>key q. minActiveSnapshotSeq e \<le> q \<or> e_seq e \<le> q \<Longrightarrow> reads (versions env e') key q = reads (versions env e) key q" by auto
qed

end
