(* ===== verification/Startup.thy ===== *)
theory Startup
  imports Run
begin

text \<open>Opening a directory with no files in it: the store starts empty and its invariant holds.\<close>

definition blank_like :: "string \<Rightarrow> fs \<Rightarrow> Engine \<Rightarrow> bool" where
  "blank_like dir d e \<longleftrightarrow> e_dir e = dir \<and> e_fs e = d \<and> e_imm e = [] \<and> e_tables e = [] \<and> \<not> e_closed e \<and> e_flushCh e = [] \<and>
     e_mems e = [] \<and> e_heap e = [] \<and> e_seq e = 0 \<and> e_genCounter e = 0 \<and> e_activeSnapshots e = []"

lemma blank_options: "blank_like dir d e \<Longrightarrow> blank_like dir d (foldl (\<lambda>e opt. apply_option opt e) e opts)"
proof (induction opts arbitrary: e)
  case (Cons opt opts)
  have "blank_like dir d (apply_option opt e)" using Cons.prems by (cases opt) (simp_all add: blank_like_def)
  from Cons.IH [OF this] show ?case by simp
qed simp

text \<open>The configuration the options leave.\<close>

definition configured :: "EngineOption list \<Rightarrow> Engine" where
  "configured opts = foldl (\<lambda>e opt. apply_option opt e) (blank_engine [] (\<lambda>_ _. 0) (\<lambda>_. 0) \<lparr>files = [], sched = (\<lambda>_. Done), clock = 0, down = False, unreadable = (\<lambda>_ _. False)\<rparr>) opts"

definition levels_config :: "Engine \<Rightarrow> int \<times> int \<times> i64" where
  "levels_config e = (e_maxLevels e, e_l0CompactionTrigger e, e_flushThreshold e)"

lemma options_config: "levels_config a = levels_config b \<Longrightarrow>
  levels_config (foldl (\<lambda>e opt. apply_option opt e) a opts) = levels_config (foldl (\<lambda>e opt. apply_option opt e) b opts)"
proof (induction opts arbitrary: a b)
  case (Cons opt opts)
  have "levels_config (apply_option opt a) = levels_config (apply_option opt b)" using Cons.prems by (cases opt) (simp_all add: levels_config_def)
  from Cons.IH [OF this] show ?case by simp
qed simp

lemma scanDir_empty:
  "no_faults d \<Longrightarrow> dir_names dir d = [] \<Longrightarrow>
   scanDir dir d = (Inr \<lparr>ds_wals = [], ds_ssts = [], ds_maxGen = 0\<rparr>, d\<lparr>clock := clock d + 1\<rparr>)"
  by (simp add: scanDir_def os_ReadDir_def tick_no_faults sort_Slice_def)

lemma dir_names_clock [simp]: "dir_names dir (d\<lparr>clock := c\<rparr>) = dir_names dir d"
  by (simp add: dir_names_def)

lemma calm_fresh:
  assumes "blank_like dir d e" and "env_ok env" and "no_faults d" and "\<forall>p i. \<not> unreadable d p i"
    and "2 \<le> e_maxLevels e" and "e_maxLevels e < 2 ^ 63" and "1 \<le> e_l0CompactionTrigger e"
    and "WAL_Open (walFileName dir 1) d = (Inr w, d')"
    and "e' = e\<lparr>e_genCounter := 1, e_fs := d', e_mems := [MemTable_New r], e_wal := w, e_walPath := walFileName dir 1, e_mem := 0\<rparr>"
  shows "calm env e'" and "versions env e' = []" and "e_seq e' = 0" and "e_genCounter e' = 1"
proof -
  have w: "w = \<lparr>wal_w = bufio_NewWriter, wal_path = walFileName dir 1\<rparr>" "no_faults d'" "fs_get d' (walFileName dir 1) \<noteq> None"
    using WAL_Open_no_faults [OF assms(3), of "walFileName dir 1"] assms(8) by auto
  have u: "unreadable d' = unreadable d" using WAL_Open_frame [OF assms(8)] by (simp add: frame_def)
  note B = assms(1) [unfolded blank_like_def]
  show v: "versions env e' = []" "e_seq e' = 0" "e_genCounter e' = 1"
    using B by (simp_all add: versions_def mem_versions_def imm_versions_def table_versions_def allTablesLocked_def assms(9))
  have "einv env e'"
    unfolding einv_def using B assms(2,4) v(1) w(1) u
    by (auto simp: mems_inv_def tables_inv_def seqs_inv_def wals_inv_def wal_named_def coherent_def allTablesLocked_def assms(9))
  moreover have "age_inv env e'"
    using B assms(5-7) by (simp add: age_inv_def levels_ordered_def levels_bounded_def mems_ordered_def queue_inv_def newer_def
        imm_versions_def mem_versions_def table_versions_def allTablesLocked_def assms(9))
  moreover have "wal_ready e'" using w by (simp add: wal_ready_def assms(9) bufio_NewWriter_def)
  moreover have "queue_wals e'" using B by (auto simp: queue_wals_def gen_wal_def assms(9))
  ultimately show "calm env e'" using w(2) by (simp add: calm_def assms(9))
qed

lemma Engine_Open_empty:
  assumes "no_faults d" and "\<forall>p i. \<not> unreadable d p i" and "env_ok env" and "dir_names dir d = []"
    and "2 \<le> e_maxLevels (configured opts)" and "e_maxLevels (configured opts) < 2 ^ 63" and "1 \<le> e_l0CompactionTrigger (configured opts)"
  obtains e d' where "Engine_Open env dir opts rnd durs d = (Inr e, d')" and "calm env e" and "versions env e = []" and "e_seq e = 0" and "e_genCounter e = 1"
    and "MemTable_Size (e_mems e ! e_mem e) = 0" and "e_imm e = []" and "e_tables e = []" and "e_flushThreshold e = e_flushThreshold (configured opts)"
    and "e_maxLevels e = e_maxLevels (configured opts)"
proof -
  let ?d1 = "d\<lparr>clock := clock d + 1\<rparr>"
  let ?e0 = "foldl (\<lambda>e opt. apply_option opt e) (blank_engine dir rnd durs ?d1) opts"
  obtain m reg where nm: "newEngineMetrics (e_reg ?e0) = (m, reg)" by fastforce
  have B0: "blank_like dir ?d1 ?e0" by (rule blank_options) (simp add: blank_like_def blank_engine_def)
  have cfg: "levels_config ?e0 = levels_config (configured opts)"
    unfolding configured_def by (rule options_config) (simp add: levels_config_def blank_engine_def)
  let ?d2 = "d\<lparr>clock := clock d + 2\<rparr>"
  let ?e2 = "?e0\<lparr>e_m := m, e_reg := reg, e_fs := ?d2\<rparr>"
  have B2: "blank_like dir ?d2 ?e2" using B0 by (simp add: blank_like_def)
  obtain w d' where w: "WAL_Open (walFileName dir 1) ?d2 = (Inr w, d')" using WAL_Open_no_faults [of ?d2 "walFileName dir 1"] assms(1) by auto
  let ?e = "?e2\<lparr>e_genCounter := 1, e_fs := d', e_mems := [MemTable_New (e_rand ?e2 0)], e_wal := w, e_walPath := walFileName dir 1, e_mem := 0\<rparr>"
  have sc: "scanDir dir ?d1 = (Inr \<lparr>ds_wals = [], ds_ssts = [], ds_maxGen = 0\<rparr>, ?d2)" using scanDir_empty [of ?d1 dir] assms(1,4) by simp
  have "Engine_Open env dir opts rnd durs d = (Inr ?e, d')"
    using B0 nm sc w assms(1)
    by (simp add: Engine_Open_def os_MkdirAll_def tick_no_faults on_fs_def blank_like_def Open_start_def recoverFromWALs_def nextGen_def new_memtable_def Let_def)
  moreover have "calm env ?e" "versions env ?e = []" "e_seq ?e = 0" "e_genCounter ?e = 1"
    using calm_fresh [OF B2 assms(3) _ _ _ _ _ w refl] assms cfg by (simp_all add: levels_config_def)
  moreover have "MemTable_Size (e_mems ?e ! e_mem ?e) = 0" "e_imm ?e = []" "e_tables ?e = []" "e_flushThreshold ?e = e_flushThreshold (configured opts)"
    "e_maxLevels ?e = e_maxLevels (configured opts)"
    using B0 cfg by (simp_all add: MemTable_Size_def MemTable_New_def blank_like_def levels_config_def)
  ultimately show thesis by (rule that)
qed

end
