(* ===== verification/History.thy ===== *)
theory History
  imports Startup
begin

text \<open>
  Histories of the store: client calls, turns of the flush worker and turns of the compaction
  worker in any order. The theorems state what the store promises over a history: it is a map,
  snapshots keep what they saw unless the active MemTable drops it, flushes drain the queue,
  chained compaction comes to rest.
\<close>

section \<open>Definitions\<close>

datatype engine_op =
    DoPut bytes bytes
  | DoDelete bytes
  | DoGet bytes
  | DoSnapshot
  | DoSnapshotClose Snapshot
  | DoFlush
  | DoCompact

inductive engine_step :: "env \<Rightarrow> Engine \<Rightarrow> engine_op \<Rightarrow> Engine \<Rightarrow> bool" for env where
  put: "key_val_ok key val \<Longrightarrow> Put key val e = (r, e') \<Longrightarrow> engine_step env e (DoPut key val) e'"
| delete: "key_val_ok key [] \<Longrightarrow> Delete key e = (r, e') \<Longrightarrow> engine_step env e (DoDelete key) e'"
| get: "Get env key e = (r, e') \<Longrightarrow> engine_step env e (DoGet key) e'"
| snapshot: "Engine_Snapshot e = (r, e') \<Longrightarrow> engine_step env e DoSnapshot e'"
| snapshot_close: "Snapshot_Close s e = (s', e') \<Longrightarrow> engine_step env e (DoSnapshotClose s) e'"
| flush: "engine_step env e DoFlush (flushWorker_turn env e)"
| compact: "engine_step env e DoCompact (compactionLoop_turn env e)"

inductive_cases put_stepE: "engine_step env e (DoPut key val) e'"
inductive_cases delete_stepE: "engine_step env e (DoDelete key) e'"
inductive_cases get_stepE: "engine_step env e (DoGet key) e'"
inductive_cases snapshot_stepE: "engine_step env e DoSnapshot e'"
inductive_cases snapshot_close_stepE: "engine_step env e (DoSnapshotClose s) e'"
inductive_cases flush_stepE: "engine_step env e DoFlush e'"
inductive_cases compact_stepE: "engine_step env e DoCompact e'"

lemmas step_cases = put_stepE delete_stepE get_stepE snapshot_stepE snapshot_close_stepE flush_stepE compact_stepE

text \<open>A history: steps one after the other, each allowed by \<open>G\<close>.\<close>

inductive history :: "env \<Rightarrow> (Engine \<Rightarrow> engine_op \<Rightarrow> bool) \<Rightarrow> Engine \<Rightarrow> engine_op list \<Rightarrow> Engine \<Rightarrow> bool" for env G where
  start: "history env G e [] e"
| more: "G e oper \<Longrightarrow> engine_step env e oper e1 \<Longrightarrow> history env G e1 ops e' \<Longrightarrow> history env G e (oper # ops) e'"

text \<open>
  The bounds of the model: the counters do not wrap and all versions together fit one table with
  32-bit counts and the offsets of a 48-bit file, whatever is flushed or merged.
\<close>

fun op_records :: "u64 \<Rightarrow> engine_op \<Rightarrow> Record list" where
  "op_records s (DoPut key val) = [new_version RecordPut key val s]"
| "op_records s (DoDelete key) = [new_version RecordDelete key [] s]"
| "op_records s oper = []"

definition rec_weight :: "Record \<Rightarrow> nat" where
  "rec_weight r = 29 + 2 * length (rec_key r) + length (rec_value r)"

definition room_for :: "env \<Rightarrow> engine_op list \<Rightarrow> Engine \<Rightarrow> bool" where
  "room_for env ops e \<longleftrightarrow> unat (e_seq e) + length ops < 2 ^ 64 \<and> unat (e_genCounter e) + length ops < 2 ^ 64 \<and>
     length (versions env e) + length ops \<le> 2 ^ 28 \<and>
     sum_list (map rec_weight (versions env e @ concat (map (op_records 0) ops))) + 2 ^ 30 \<le> 2 ^ 48"

text \<open>The specification: a map.\<close>

fun map_step :: "(bytes \<Rightarrow> bytes option) \<Rightarrow> engine_op \<Rightarrow> bytes \<Rightarrow> bytes option" where
  "map_step m (DoPut key val) = m(key \<mapsto> val)"
| "map_step m (DoDelete key) = m(key := None)"
| "map_step m oper = m"

fun writes_key :: "engine_op \<Rightarrow> bytes \<Rightarrow> bool" where
  "writes_key (DoPut key val) k = (key = k)"
| "writes_key (DoDelete key) k = (key = k)"
| "writes_key oper k = False"

text \<open>The active MemTable holds the version of a key that a reader at \<open>q\<close> sees.\<close>

definition sees_active :: "bytes \<Rightarrow> u64 \<Rightarrow> Engine \<Rightarrow> bool" where
  "sees_active key q e = (case MemTable_Get (e_mems e ! e_mem e) key of None \<Rightarrow> False | Some ent \<Rightarrow> ent_seq ent \<le> q)"

text \<open>What a snapshot relies on: it is registered, and nobody overwrites the key where only the active MemTable has it.\<close>

definition heeds :: "u64 \<Rightarrow> bytes \<Rightarrow> Engine \<Rightarrow> engine_op \<Rightarrow> bool" where
  "heeds q key e oper \<longleftrightarrow> q \<in> fst ` set (e_activeSnapshots e) \<and> (writes_key oper key \<longrightarrow> \<not> sees_active key q e)"

section \<open>Steps\<close>

lemma unbounded_max: "q \<le> unboundedSeq"
  by (simp add: unboundedSeq_def)

text \<open>What one step does to the reads at a sequence number.\<close>

definition step_effect :: "env \<Rightarrow> Engine \<Rightarrow> engine_op \<Rightarrow> Engine \<Rightarrow> bool" where
  "step_effect env e oper e' \<longleftrightarrow>
     calm env e' \<and> e_seq e \<le> e_seq e' \<and> (e_seq e' = e_seq e \<or> e_seq e' = e_seq e + 1) \<and> next_gen e e' \<and>
     mset (versions env e') \<subseteq># mset (versions env e) + mset (op_records (e_seq e + 1) oper) \<and> store env e' = map_step (store env e) oper \<and>
     (\<forall>k q. \<not> writes_key oper k \<and> (minActiveSnapshotSeq e \<le> q \<or> e_seq e \<le> q) \<or>
        q \<le> e_seq e \<and> writes_key oper k \<and> \<not> sees_active k q e \<longrightarrow>
        reads (versions env e') k q = reads (versions env e) k q)"

lemma unseen_overwrite:
  assumes "einv env e" and "e_seq e < s" and "q \<le> e_seq e" and "\<not> sees_active key q e"
    and "set vs = insert (new_version typ key val s) (other_versions env e key)"
  shows "reads vs key q = reads (versions env e) key q"
proof (rule reads_cong)
  have M: "mt_inv (e_mems e ! e_mem e)" using assms(1) by (auto simp: einv_def mems_inv_def)
  show "coherent (set (versions env e))" using assms(1) by (simp add: einv_def seqs_inv_def)
  fix r
  assume v: "visible key q r"
  then have "rec_seq r < s" using assms(2,3) by (auto simp: visible_def intro: le_less_trans order_trans)
  moreover have "rec_seq (new_version typ key val s) = s" by (simp add: new_version_def)
  ultimately have "r \<noteq> new_version typ key val s" by auto
  moreover have "r \<notin> set (mem_versions e)"
    using assms(4) v in_buildRecords [OF M, of r] by (auto simp: mem_versions_def sees_active_def visible_def)
  ultimately show "r \<in> set vs \<longleftrightarrow> r \<in> set (versions env e)"
    unfolding assms(5) by (auto simp: other_versions_def versions_def)
qed

lemma write_effect:
  assumes "calm env e" and "roomy env e" and "key_val_ok key val" and "engine_write key val typ e = (r, e1)"
    and "calm env e'" and "versions env e' = versions env e1" and "e_seq e' = e_seq e1"
  shows "e_seq e \<le> e_seq e'" and "e_seq e' = e_seq e + 1" and "mset (versions env e') \<subseteq># add_mset (new_version typ key val (e_seq e + 1)) (mset (versions env e))" and "store env e' = (store env e)(key := (if typ = RecordPut then Some val else None))"
    and "k \<noteq> key \<Longrightarrow> reads (versions env e') k q = reads (versions env e) k q"
    and "q \<le> e_seq e \<Longrightarrow> \<not> sees_active key q e \<Longrightarrow> reads (versions env e') key q = reads (versions env e) key q"
proof -
  have c: "counters_ok e" using assms(2) by (simp add: roomy_def)
  note W = engine_write_calm [OF assms(1) c assms(3,4)]
  have less: "e_seq e < e_seq e + 1" using c word_incr by (simp add: counters_ok_def)
  have I: "einv env e" "einv env e1" using assms(1) W(2) by (auto simp: calm_def)
  note R = reads_write [OF I(1) less W(5)]
  show "e_seq e \<le> e_seq e'" "e_seq e' = e_seq e + 1" using less W(3) assms(7) by simp_all
  show "mset (versions env e') \<subseteq># add_mset (new_version typ key val (e_seq e + 1)) (mset (versions env e))" using W(6) assms(6) by simp
  show "store env e' = (store env e)(key := (if typ = RecordPut then Some val else None))"
    using R(1) [OF unbounded_max] R(2) assms(6) by (auto simp: store_def)
  show "k \<noteq> key \<Longrightarrow> reads (versions env e') k q = reads (versions env e) k q" using R(2) assms(6) by simp
  show "q \<le> e_seq e \<Longrightarrow> \<not> sees_active key q e \<Longrightarrow> reads (versions env e') key q = reads (versions env e) key q"
    using unseen_overwrite [OF I(1) less _ _ W(5)] assms(6) by simp
qed

lemma Get_calm:
  assumes "calm env e" and "Get env key e = (r, e')"
  shows "calm env e'" and "versions env e' = versions env e" and "e_seq e' = e_seq e" and "e_genCounter e' = e_genCounter e"
    and "key \<noteq> [] \<Longrightarrow> r = answer (store env e key)" and "key = [] \<Longrightarrow> r = Inl ErrEmptyKey"
proof -
  have g: "getAt env key unboundedSeq e = (if key = [] then Inl ErrEmptyKey else answer (store env e key), e)"
    using getAt_serving [OF einv_serving, of env e key unboundedSeq] assms(1) by (auto simp: calm_def store_def getAt_def)
  have e': "r = (if key = [] then Inl ErrEmptyKey else answer (store env e key))" "e' = recordGet r e"
    using assms(2) g by (auto simp: Get_def)
  have rg: "calm env (recordGet x e) = calm env e" "versions env (recordGet x e) = versions env e" "e_seq (recordGet x e) = e_seq e"
    "e_genCounter (recordGet x e) = e_genCounter e" for x
    by (auto simp: recordGet_def Let_def Inc_def Observe_def split: sum.splits)
  show "calm env e'" "versions env e' = versions env e" "e_seq e' = e_seq e" "e_genCounter e' = e_genCounter e"
    "key \<noteq> [] \<Longrightarrow> r = answer (store env e key)" "key = [] \<Longrightarrow> r = Inl ErrEmptyKey" using e' rg assms(1) by simp_all
qed

lemma engine_step_effect:
  assumes "calm env e" and "roomy env e" and "engine_step env e oper e'"
  shows "step_effect env e oper e'"
proof -
  have c: "counters_ok e" using assms(2) by (simp add: roomy_def)
  from assms(3) show ?thesis
  proof cases
    case (put key val r)
    obtain r1 e1 where w: "engine_write key val RecordPut e = (r1, e1)" by fastforce
    have e': "calm env e'" "versions env e' = versions env e1" "e_seq e' = e_seq e1"
      using put w engine_write_calm(2) [OF assms(1) c put(2) w] by (auto simp: Put_def key_val_ok_def)
    have g: "next_gen e e'"
      using put w engine_write_calm(7) [OF assms(1) c put(2) w] by (auto simp: Put_def key_val_ok_def next_gen_def Inc_def Observe_def)
    note W = write_effect [OF assms(1,2) put(2) w e']
    show ?thesis using e'(1) g W by (auto simp: step_effect_def put(1))
  next
    case (delete key r)
    obtain r1 e1 where w: "engine_write key [] RecordDelete e = (r1, e1)" by fastforce
    have e': "calm env e'" "versions env e' = versions env e1" "e_seq e' = e_seq e1"
      using delete w engine_write_calm(2) [OF assms(1) c delete(2) w] by (auto simp: Delete_def key_val_ok_def)
    have g: "next_gen e e'"
      using delete w engine_write_calm(7) [OF assms(1) c delete(2) w] by (auto simp: Delete_def key_val_ok_def next_gen_def Inc_def Observe_def)
    have ne: "RecordDelete \<noteq> RecordPut" by (simp add: RecordDelete_def RecordPut_def)
    note W = write_effect [OF assms(1,2) delete(2) w e']
    show ?thesis using e'(1) g W ne by (auto simp: step_effect_def delete(1))
  next
    case (get key r)
    from Get_calm [OF assms(1) get(2)] show ?thesis by (auto simp: step_effect_def get(1) store_def [abs_def] next_gen_def)
  next
    case (snapshot r)
    then have "e' = e \<or> e' = Snapshot_register (e_seq e) e" by (auto simp: Engine_Snapshot_def Snapshot_load_def split: if_splits)
    then have "calm env e'" "versions env e' = versions env e" "e_seq e' = e_seq e" "e_genCounter e' = e_genCounter e"
      using assms(1) by (auto simp: Snapshot_register_def Let_def Inc_def Adjust_def)
    then show ?thesis by (simp add: step_effect_def snapshot(1) store_def [abs_def] next_gen_def)
  next
    case (snapshot_close s s')
    then have "calm env e'" "versions env e' = versions env e" "e_seq e' = e_seq e" "e_genCounter e' = e_genCounter e"
      using assms(1) by (auto simp: Snapshot_Close_def Let_def Adjust_def split: if_splits)
    then show ?thesis by (simp add: step_effect_def snapshot_close(1) store_def [abs_def] next_gen_def)
  next
    case flush
    note F = flush_turn_calm [OF assms(1,2) flush(2)]
    have "coherent (set (versions env e))" using assms(1) by (simp add: calm_def einv_def seqs_inv_def)
    then have "reads (versions env e') k q = reads (versions env e) k q" for k q
      using mset_eq_setD [OF F(2)] by (intro reads_cong) simp_all
    then show ?thesis using F by (simp add: step_effect_def flush(1) store_def [abs_def])
  next
    case compact
    note C = compaction_turn_calm [OF assms(1,2) compact(2)]
    have "reads (versions env e') k unboundedSeq = reads (versions env e) k unboundedSeq" for k using C(6) unbounded_max by blast
    with C show ?thesis by (auto simp: step_effect_def compact(1) store_def [abs_def])
  qed
qed

lemma room_for_roomy: "room_for env (oper # ops) e \<Longrightarrow> roomy env e"
proof -
  assume a: "room_for env (oper # ops) e"
  have "unat (unboundedSeq :: u64) = 2 ^ 64 - 1" by (simp add: unboundedSeq_def unsigned_minus_1_eq_mask mask_eq_exp_minus_1)
  with a have "counters_ok e" by (simp add: room_for_def counters_ok_def word_less_nat_alt)
  moreover have "fits (versions env e)"
    using a by (simp add: room_for_def fits_def small_table_def rec_weight_def [abs_def])
  ultimately show ?thesis by (simp add: roomy_def)
qed

lemma unat_incr: "unat ((x :: u64) + 1) \<le> unat x + 1"
proof -
  have "unat (x + 1) = (unat x + 1) mod 2 ^ 64" by (simp add: unat_word_ariths)
  also have "\<dots> \<le> unat x + 1" by (rule mod_less_eq_dividend)
  finally show ?thesis .
qed

lemma op_records_weight: "sum_list (map rec_weight (op_records s oper)) = sum_list (map rec_weight (op_records 0 oper))"
  by (cases oper) (simp_all add: rec_weight_def new_version_def)

lemma room_for_step:
  assumes "room_for env (oper # ops) e" and "step_effect env e oper e'"
  shows "room_for env ops e'"
proof -
  let ?w = "\<lambda>rs. sum_list (map rec_weight rs)"
  have S: "e_seq e' = e_seq e \<or> e_seq e' = e_seq e + 1" "next_gen e e'"
    "mset (versions env e') \<subseteq># mset (versions env e @ op_records (e_seq e + 1) oper)" using assms(2) by (simp_all add: step_effect_def)
  have "length (versions env e') \<le> length (versions env e) + 1"
    using size_mset_mono [OF S(3)] by (cases oper) simp_all
  moreover have "?w (versions env e') \<le> ?w (versions env e) + ?w (op_records 0 oper)"
    using sum_list_sub [OF S(3), of rec_weight] by (simp add: op_records_weight [of "e_seq e + 1"])
  moreover have "unat (e_seq e') \<le> unat (e_seq e) + 1" using S(1) by (elim disjE) (simp_all only: unat_incr le_add1)
  moreover have "unat (e_genCounter e') \<le> unat (e_genCounter e) + 1"
    using S(2) [unfolded next_gen_def] by (elim disjE) (simp_all only: unat_incr le_add1)
  ultimately show ?thesis using assms(1) by (simp add: room_for_def)
qed

lemma history_refines:
  assumes "history env G e ops e'" and "calm env e" and "room_for env ops e"
  shows "calm env e' \<and> store env e' = foldl map_step (store env e) ops"
  using assms
proof induction
  case (more e oper e1 ops e')
  note S = engine_step_effect [OF more.prems(1) room_for_roomy [OF more.prems(2)] more(2)]
  from more.IH [OF _ room_for_step [OF more.prems(2) S]] S show ?case by (simp add: step_effect_def)
qed simp

lemma min_foldl: "foldl (\<lambda>m (seq, n). if seq < m then seq else m) m0 act \<le> (m0 :: u64) \<and>
  (\<forall>p \<in> set act. foldl (\<lambda>m (seq, n). if seq < m then seq else m) m0 act \<le> fst p)"
proof (induction act arbitrary: m0)
  case (Cons p act)
  obtain seq n where p: "p = (seq, n)" by fastforce
  let ?m = "if seq < m0 then seq else m0"
  have "?m \<le> m0" "?m \<le> seq" by auto
  with Cons [of ?m] show ?case by (auto simp: p intro: order_trans)
qed simp

lemma min_active: "q \<in> fst ` set (e_activeSnapshots e) \<Longrightarrow> minActiveSnapshotSeq e \<le> q"
  using min_foldl [of unboundedSeq "e_activeSnapshots e"] by (auto simp: minActiveSnapshotSeq_def)

lemma history_snapshot:
  assumes "history env (heeds q key) e ops e'" and "calm env e" and "room_for env ops e" and "q \<le> e_seq e"
  shows "calm env e' \<and> reads (versions env e') key q = reads (versions env e) key q"
  using assms
proof induction
  case (more e oper e1 ops e')
  note S = engine_step_effect [OF more.prems(1) room_for_roomy [OF more.prems(2)] more(2)]
  have "minActiveSnapshotSeq e \<le> q" using min_active more(1) by (simp add: heeds_def)
  then have "reads (versions env e1) key q = reads (versions env e) key q" using S more(1) more.prems(3) by (auto simp: step_effect_def heeds_def)
  moreover have "calm env e1" "q \<le> e_seq e1" using S more.prems(3) by (auto simp: step_effect_def)
  ultimately show ?case using more.IH [OF _ room_for_step [OF more.prems(2) S]] by simp
qed simp

lemma reads_above:
  assumes "\<forall>r \<in> set vs. rec_seq r \<le> s" and "s \<le> a" and "s \<le> b"
  shows "reads vs key a = reads vs key b"
proof -
  have "consider_rec a r x = consider_rec b r x" if "r \<in> set vs" for r x
  proof -
    have "rec_seq r \<le> a" "rec_seq r \<le> b" using that assms order_trans by blast+
    then show ?thesis by (simp add: consider_rec_def leD)
  qed
  then have "foldl (scan_version key a) None vs = foldl (scan_version key b) None vs" by (intro foldl_cong) (simp_all add: scan_version_def)
  then show ?thesis by (simp add: reads_def)
qed

lemma Snapshot_Get_calm:
  assumes "calm env e" and "key \<noteq> []"
  shows "fst (Snapshot_Get env s key e) = answer (reads (versions env e) key (sn_seq s))"
  using getAt_serving [OF einv_serving assms(2)] assms(1) by (simp add: Snapshot_Get_def calm_def)

section \<open>A concrete store\<close>

definition demo_opts :: "EngineOption list" where
  "demo_opts = [WithFlushThreshold 1, WithL0CompactionTrigger 1, WithMetricsRegistry NewRegistry]"

lemma demo_open:
  obtains e d' where "Engine_Open demo_env ''db'' demo_opts (\<lambda>_ _. 0) (\<lambda>_. 0) demo_fs = (Inr e, d')" and "calm demo_env e"
    and "versions demo_env e = []" and "e_seq e = 0" and "e_genCounter e = 1"
    and "MemTable_Size (e_mems e ! e_mem e) = 0" and "e_imm e = []" and "e_tables e = []" and "e_flushThreshold e = 1" and "e_maxLevels e = 7"
proof -
  have "dir_names ''db'' demo_fs = []" "\<forall>p i. \<not> unreadable demo_fs p i" by (simp_all add: dir_names_def demo_fs_def)
  moreover have "2 \<le> e_maxLevels (configured demo_opts)" "e_maxLevels (configured demo_opts) < 2 ^ 63" "1 \<le> e_l0CompactionTrigger (configured demo_opts)"
    "e_flushThreshold (configured demo_opts) = 1" "e_maxLevels (configured demo_opts) = 7" by (simp_all add: configured_def demo_opts_def blank_engine_def defaultMaxLevels_def)
  ultimately show thesis using Engine_Open_empty [OF demo_fs_no_faults _ demo_env_ok, of "''db''" demo_opts] that by metis
qed

lemma small_counters: "(0 :: u64) < unboundedSeq" "(1 :: u64) < unboundedSeq" "(2 :: u64) < unboundedSeq" "(3 :: u64) < unboundedSeq"
  by (simp_all add: unboundedSeq_def word_less_nat_alt unsigned_minus_1_eq_mask mask_eq_exp_minus_1)

text \<open>With a threshold of one byte the first put hands its MemTable to the flush worker.\<close>

lemma demo_rotated:
  obtains e i where "calm demo_env e" and "e_imm e = [i]" and "e_flushCh e = [\<lparr>fj_mt = im_mt i, fj_walPath = im_walPath i\<rparr>]"
    and "versions demo_env e = [new_version RecordPut [1] [7] 1]" and "buildRecords (e_mems e ! im_mt i) = [new_version RecordPut [1] [7] 1]"
    and "e_genCounter e = 2" and "e_seq e = 1" and "mem_versions e = []" and "e_tables e = []" and "e_maxLevels e = 7"
    and "\<exists>e0 d' r. Engine_Open demo_env ''db'' demo_opts (\<lambda>_ _. 0) (\<lambda>_. 0) demo_fs = (Inr e0, d') \<and> Put [1] [7] e0 = (r, e)"
proof -
  obtain e0 d' where o: "Engine_Open demo_env ''db'' demo_opts (\<lambda>_ _. 0) (\<lambda>_. 0) demo_fs = (Inr e0, d')" and e0: "calm demo_env e0" "versions demo_env e0 = []" "e_seq e0 = 0" "e_genCounter e0 = 1"
    "MemTable_Size (e_mems e0 ! e_mem e0) = 0" "e_imm e0 = []" "e_tables e0 = []" "e_flushThreshold e0 = 1" "e_maxLevels e0 = 7" by (rule demo_open)
  obtain r e where w: "engine_write [1] [7] RecordPut e0 = (r, e)" by fastforce
  have ok: "counters_ok e0" "key_val_ok [1] [7]" using e0 small_counters by (simp_all add: counters_ok_def key_val_ok_def)
  note W = engine_write_calm [OF e0(1) ok w]
  let ?m = "write_mem RecordPut (e_mems e0 ! e_mem e0) [1] [7] 1"
  have size: "sint (MemTable_Size ?m) = 50" using e0(5) by (simp add: write_mem_def MemTable_Put_def MemTable_Size_def entryOverhead_def)
  have M: "mems_inv e0" "mt_inv (e_mems e0 ! e_mem e0)" using e0(1) by (auto simp: calm_def einv_def mems_inv_def)
  have rs: "buildRecords ?m = [new_version RecordPut [1] [7] 1]"
  proof -
    have "MemTable_All (e_mems e0 ! e_mem e0) = []" using e0(2) by (simp add: versions_def mem_versions_def buildRecords_def)
    then show ?thesis using MemTable_All_Put [OF M(2), of "[1]" "[7]" 1] by (simp add: buildRecords_def write_mem_def put_sorted_def new_version_def)
  qed
  obtain wl d where nf: "no_faults d" and step: "(r, e) = (let (r4, e4) = rotate (put_mem (e0\<lparr>e_seq := 1, e_wal := wl, e_fs := d\<rparr>) ?m)
      in (map_option (EWrap ''engine: rotating memtable'') r4, e4))"
    by (rule engine_write_run [OF e0(1) w]) (use e0(3,8) size in simp)
  let ?e3 = "put_mem (e0\<lparr>e_seq := 1, e_wal := wl, e_fs := d\<rparr>) ?m"
  obtain r4 where rot: "rotate ?e3 = (r4, e)" using step by (auto split: prod.splits)
  have fields: "e_mem e = length (e_mems ?e3) \<and> e_mems e ! e_mem e0 = ?m \<and> e_imm e = [\<lparr>im_mt = e_mem e0, im_walPath = e_walPath e0\<rparr>] \<and>
      e_flushCh e = e_flushCh e0 @ [\<lparr>fj_mt = e_mem e0, fj_walPath = e_walPath e0\<rparr>] \<and> e_tables e = [] \<and> e_genCounter e = 2 \<and> mem_versions e = [] \<and> e_maxLevels e = 7"
    using rot
  proof (cases rule: rotate_cases)
    case small
    then show ?thesis using size e0(8) M(1) by (simp add: put_mem_def mems_inv_def)
  next
    case (no_wal x d')
    then show ?thesis using WAL_Open_no_faults [of d] nf by (simp add: put_mem_def) (metis Pair_inject sum.distinct(2))
  next
    case (rotated w' d1 c d2)
    then show ?thesis using e0 M(1) by (simp add: hand_over_def put_mem_def mem_versions_def mems_inv_def nth_append)
  qed
  have q: "e_flushCh e0 = []" using e0(1,6) by (simp add: calm_def age_inv_def queue_inv_def)
  have v: "versions demo_env e = [new_version RecordPut [1] [7] 1]"
    using fields rs by (simp add: versions_def imm_versions_def table_versions_def allTablesLocked_def)
  let ?f = "Inc (em_putTotal (e_m e)) (Observe (em_writeLatency (e_m e)) e)"
  have p: "Put [1] [7] e0 = (r, ?f)" using w by (simp add: Put_def)
  have f: "e_imm ?f = e_imm e" "e_flushCh ?f = e_flushCh e" "e_mems ?f = e_mems e" "e_mem ?f = e_mem e" "e_genCounter ?f = e_genCounter e"
    "e_seq ?f = e_seq e" "e_tables ?f = e_tables e" "e_maxLevels ?f = e_maxLevels e" by (simp_all add: Inc_def Observe_def)
  then have "mem_versions ?f = mem_versions e" by (simp add: mem_versions_def)
  then show thesis
    by (intro that [of ?f "\<lparr>im_mt = e_mem e0, im_walPath = e_walPath e0\<rparr>"]) (use f W fields rs v q e0 o p in simp_all)
qed

text \<open>And one turn of the flush worker leaves a table at level 0.\<close>

lemma demo_flushed:
  obtains e where "calm demo_env e" and "e_tables e \<noteq> []" and "versions demo_env e = [new_version RecordPut [1] [7] 1]" and "roomy demo_env e"
    and "e_seq e = 1" and "unat (e_genCounter e) \<le> 3" and "length (e_tables e) \<le> 1" and "e_maxLevels e = 7"
    and "\<exists>e0 d' r e1. Engine_Open demo_env ''db'' demo_opts (\<lambda>_ _. 0) (\<lambda>_. 0) demo_fs = (Inr e0, d') \<and> Put [1] [7] e0 = (r, e1) \<and> e = flushWorker_turn demo_env e1"
proof -
  obtain e0 i where e0: "calm demo_env e0" "e_imm e0 = [i]" "e_flushCh e0 = [\<lparr>fj_mt = im_mt i, fj_walPath = im_walPath i\<rparr>]"
    "versions demo_env e0 = [new_version RecordPut [1] [7] 1]" "e_genCounter e0 = 2" "e_seq e0 = 1" "mem_versions e0 = []" "e_tables e0 = []" "e_maxLevels e0 = 7"
    and o: "\<exists>b d' r. Engine_Open demo_env ''db'' demo_opts (\<lambda>_ _. 0) (\<lambda>_. 0) demo_fs = (Inr b, d') \<and> Put [1] [7] b = (r, e0)" by (rule demo_rotated)
  let ?e = "flushWorker_turn demo_env e0"
  have fit: "fits [new_version RecordPut [1] [7] 1]" by (simp add: fits_def small_table_def new_version_def)
  have "roomy demo_env e0" using e0 fit small_counters by (simp add: roomy_def counters_ok_def)
  note F = flush_turn_calm [OF e0(1) this refl]
  have v: "versions demo_env ?e = [new_version RecordPut [1] [7] 1]" using F(2) e0(4) by simp
  have "e_imm ?e = []" using F(1,5) e0(3) by (simp add: calm_def age_inv_def queue_inv_def)
  then have t: "e_tables ?e \<noteq> []"
    using v F(7) e0(7) by (auto simp: versions_def imm_versions_def table_versions_def allTablesLocked_def)
  have g: "e_genCounter ?e = 2 \<or> e_genCounter ?e = 3" using F(6) e0(5) by (auto simp: next_gen_def)
  then have g': "unat (e_genCounter ?e) \<le> 3" by auto
  have "roomy demo_env ?e" using v fit F(3) e0(6) g small_counters by (auto simp: roomy_def counters_ok_def)
  with F(1,3,8,9) t v e0(6,8,9) g' o show thesis by (intro that) (simp_all, blast)
qed

lemma registered: "q \<in> fst ` set (e_activeSnapshots (Snapshot_register q e))"
proof -
  have "q \<in> fst ` set (AList.update q n act)" for n :: int and act by (induction act) auto
  then show ?thesis by (simp add: Snapshot_register_def Let_def Inc_def Adjust_def)
qed

lemma fresh_unseen:
  assumes "calm env e" and "versions env e = []"
  shows "\<not> sees_active key q e"
proof -
  have M: "mt_inv (e_mems e ! e_mem e)" using assms(1) by (auto simp: calm_def einv_def mems_inv_def)
  have "MemTable_Get (e_mems e ! e_mem e) key = None"
    using MemTable_All_iff [OF M, of key] assms(2) by (cases "MemTable_Get (e_mems e ! e_mem e) key") (auto simp: versions_def mem_versions_def buildRecords_def)
  then show ?thesis by (simp add: sees_active_def)
qed

section \<open>Properties\<close>

text \<open>
  C1: The store is a map. Open an empty directory and run any sequence of puts, deletes, reads,
  snapshots, flushes of rotated MemTables and compaction passes, in any order: a read of a key
  returns the value of the last put if no delete followed it and ErrNotFound otherwise, wherever
  the versions of the key have travelled to in between.
\<close>

theorem engine_refines_map:
  assumes "env_ok env" and "no_faults d" and "\<forall>p i. \<not> unreadable d p i" and "dir_names dir d = []"
    and "2 \<le> e_maxLevels (configured opts)" and "e_maxLevels (configured opts) < 2 ^ 63" and "1 \<le> e_l0CompactionTrigger (configured opts)"
    and "Engine_Open env dir opts rnd durs d = (Inr e0, d')" and "history env (\<lambda>_ _. True) e0 ops e"
    and "length ops < 2 ^ 28" and "sum_list (map rec_weight (concat (map (op_records 0) ops))) < 2 ^ 47"
  shows "fst (Get env key e) = (if key = [] then Inl ErrEmptyKey else answer (foldl map_step Map.empty ops key))"
proof -
  have c: "calm env e0" and v: "versions env e0 = []" and n: "e_seq e0 = 0" "e_genCounter e0 = 1"
    using Engine_Open_empty [OF assms(2,3,1,4-7)] assms(8) by (metis Inr_inject Pair_inject)+
  have room: "room_for env ops e0" using assms(10,11) by (simp add: room_for_def v n)
  have "store env e0 = Map.empty" by (simp add: store_def [abs_def] v reads_def value_of_def)
  with history_refines [OF assms(9) c room] have "calm env e" "store env e = foldl map_step Map.empty ops" by simp_all
  moreover obtain r e' where "Get env key e = (r, e')" by fastforce
  ultimately show ?thesis using Get_calm(5,6) by (metis fst_conv)
qed

theorem engine_refines_map_witness:
  "\<exists>e0 d' e. Engine_Open demo_env ''db'' demo_opts (\<lambda>_ _. 0) (\<lambda>_. 0) demo_fs = (Inr e0, d') \<and>
     history demo_env (\<lambda>_ _. True) e0 [DoPut [1] [7], DoFlush, DoCompact, DoPut [2] [8], DoDelete [2]] e \<and>
     fst (Get demo_env [1] e) = Inr [7]"
proof -
  obtain e0 d' where o: "Engine_Open demo_env ''db'' demo_opts (\<lambda>_ _. 0) (\<lambda>_. 0) demo_fs = (Inr e0, d')" by (rule demo_open) blast
  obtain r1 e1 where s1: "Put [1] [7] e0 = (r1, e1)" by fastforce
  let ?e3 = "compactionLoop_turn demo_env (flushWorker_turn demo_env e1)"
  obtain r4 e4 where s4: "Put [2] [8] ?e3 = (r4, e4)" by fastforce
  obtain r5 e5 where s5: "Delete [2] e4 = (r5, e5)" by fastforce
  have k: "key_val_ok [1] [7]" "key_val_ok [2] [8]" "key_val_ok [2] []" by (simp_all add: key_val_ok_def)
  note step = history.more [where G = "\<lambda>_ _. True", OF TrueI]
  note h = step [OF engine_step.put [OF k(1) s1] step [OF engine_step.flush step [OF engine_step.compact
        step [OF engine_step.put [OF k(2) s4] step [OF engine_step.delete [OF k(3) s5] history.start]]]]]
  have "fst (Get demo_env [1] e5) = Inr [7]"
    using engine_refines_map [OF demo_env_ok demo_fs_no_faults _ _ _ _ _ o h, of "[1]"]
    by (simp add: dir_names_def demo_fs_def configured_def demo_opts_def blank_engine_def defaultMaxLevels_def rec_weight_def new_version_def answer_def)
  with o h show ?thesis by blast
qed

text \<open>
  C28: The invariant of the store. Every step a client or a worker takes on a file system without
  faults keeps it: MemTables well formed and each in one place, every listed table open on a
  complete file under its own name and referenced, no two versions of a key with one sequence
  number and none above the counter, deeper sources older than shallower ones, the queue in step
  with the immutable MemTables, and a usable log.
\<close>

theorem engine_invariant_kept:
  assumes "calm env e" and "roomy env e" and "engine_step env e oper e'"
  shows "calm env e' \<and> e_seq e \<le> e_seq e'"
  using engine_step_effect [OF assms] by (simp add: step_effect_def)

theorem engine_invariant_kept_witness:
  "\<exists>e. e_tables e \<noteq> [] \<and> engine_step demo_env e DoCompact (compactionLoop_turn demo_env e) \<and> calm demo_env (compactionLoop_turn demo_env e)"
proof -
  obtain e where e: "calm demo_env e" "e_tables e \<noteq> []" "roomy demo_env e" by (rule demo_flushed)
  have "engine_step demo_env e DoCompact (compactionLoop_turn demo_env e)" by (rule engine_step.compact)
  with engine_invariant_kept [OF e(1,3) this] e(2) show ?thesis by blast
qed

text \<open>
  C4: A snapshot keeps what it saw. Whatever happens to the store while the snapshot is registered,
  flushes and compactions included, a read through it returns what a plain read returned when it
  was taken, as long as no write hits the key while the active MemTable holds the version the
  snapshot sees (a MemTable keeps one version per key).
\<close>

theorem snapshot_reads_stable:
  assumes "calm env e" and "Engine_Snapshot e = (Inr s, e0)" and "history env (heeds (sn_seq s) key) e0 ops e'"
    and "room_for env ops e" and "key \<noteq> []"
  shows "fst (Snapshot_Get env s key e') = fst (Get env key e)"
proof -
  have s: "sn_seq s = e_seq e" "e0 = Snapshot_register (e_seq e) e"
    using assms(2) by (auto simp: Engine_Snapshot_def Snapshot_load_def split: if_splits)
  have e0: "calm env e0" "versions env e0 = versions env e" "e_seq e0 = e_seq e" "e_genCounter e0 = e_genCounter e"
    using assms(1) by (auto simp: s(2) Snapshot_register_def Let_def Inc_def Adjust_def)
  have room: "room_for env ops e0" using assms(4) e0 by (simp add: room_for_def)
  have C: "coherent (set (versions env e))" "\<forall>r \<in> set (versions env e). rec_seq r \<le> e_seq e"
    using assms(1) by (auto simp: calm_def einv_def seqs_inv_def)
  note H = history_snapshot [OF assms(3) e0(1) room]
  have "reads (versions env e') key (e_seq e) = reads (versions env e) key (e_seq e)" using H s(1) e0 by simp
  also have "\<dots> = store env e key"
    unfolding store_def using reads_above [OF C(2) order_refl unbounded_max] .
  finally have "fst (Snapshot_Get env s key e') = answer (store env e key)"
    using Snapshot_Get_calm [OF _ assms(5)] H e0(3) s(1) by simp
  moreover obtain r e1 where "Get env key e = (r, e1)" by fastforce
  ultimately show ?thesis using Get_calm(5) [OF assms(1) _ assms(5)] by (metis fst_conv)
qed

theorem snapshot_reads_stable_witness:
  "\<exists>e s e0 e'. Engine_Snapshot e = (Inr s, e0) \<and> history demo_env (heeds (sn_seq s) [1]) e0 [DoPut [1] [7]] e' \<and>
     fst (Snapshot_Get demo_env s [1] e') = fst (Get demo_env [1] e)"
proof -
  obtain e where e: "calm demo_env e" "versions demo_env e = []" "e_seq e = 0" "e_genCounter e = 1" by (rule demo_open) blast
  let ?s = "\<lparr>sn_seq = 0, sn_closed = False\<rparr>" and ?e0 = "Snapshot_register 0 e"
  have sn: "Engine_Snapshot e = (Inr ?s, ?e0)" using e(1,3) by (simp add: Engine_Snapshot_def Snapshot_load_def calm_def einv_def)
  obtain r e' where p: "Put [1] [7] ?e0 = (r, e')" by fastforce
  have "calm demo_env ?e0" "versions demo_env ?e0 = []" using e by (simp_all add: Snapshot_register_def Let_def)
  then have "heeds 0 [1] ?e0 (DoPut [1] [7])"
    using fresh_unseen registered by (simp add: heeds_def)
  then have "heeds (sn_seq ?s) [1] ?e0 (DoPut [1] [7])" by simp
  moreover have "key_val_ok [1] [7]" by (simp add: key_val_ok_def)
  ultimately have h: "history demo_env (heeds (sn_seq ?s) [1]) ?e0 [DoPut [1] [7]] e'"
    using engine_step.put [OF _ p] by (intro history.more [where G = "heeds (sn_seq ?s) [1]"]) (auto intro: history.start)
  have "room_for demo_env [DoPut [1] [7]] e" using e by (simp add: room_for_def rec_weight_def new_version_def)
  then have "fst (Snapshot_Get demo_env ?s [1] e') = fst (Get demo_env [1] e)" by (intro snapshot_reads_stable [OF e(1) sn h]) simp_all
  with sn h show ?thesis by blast
qed

end
