(* ===== verification/Guarantees.thy ===== *)
theory Guarantees
  imports History
begin

text \<open>
  What each operation of the engine guarantees on its own: reads agree with a scan of all versions,
  writes and flushes under any faults of the file system, compaction passes, the workers' progress,
  the targets of the levels, the statistics; and the cases where the engine does less than its
  comments say.
\<close>

section \<open>Reads, writes and flushes\<close>

text \<open>
  C5: A point read returns what a scan of all versions finds. Asked for a key and a sequence bound,
  the engine consults the active MemTable, the immutable ones newest first and every table through
  its bloom filter, key range and index; the answer is the value of the newest version at or below
  the bound among all records the store holds, ErrNotFound if that is a tombstone or there is none,
  and every table is released again.
\<close>

theorem get_equals_scan:
  assumes "einv env e" and "key \<noteq> []"
  shows "getAt env key q e = (answer (reads (versions env e) key q), e)"
  by (rule getAt_serving [OF einv_serving [OF assms(1)] assms(2)])

theorem get_equals_scan_witness:
  "\<exists>e. e_tables e \<noteq> [] \<and> getAt demo_env [1] 3 e = (Inr [7], e)"
proof -
  obtain e where e: "calm demo_env e" "e_tables e \<noteq> []" "versions demo_env e = [new_version RecordPut [1] [7] 1]" by (rule demo_flushed)
  then have "einv demo_env e" by (simp add: calm_def)
  with e(2,3) get_equals_scan [of demo_env e "[1]" 3] show ?thesis
    by (auto simp: reads_def scan_version_def consider_rec_def new_version_def value_of_def answer_def TypeValue_def TypeTombstone_def)
qed

text \<open>
  C29: A put under any faults. Whatever the file system does, the invariant of the engine survives.
  If the append to the log fails the store is unchanged; in every other case the key has its new
  value, also when an error of the rotation that follows is reported. No other key changes.
\<close>

theorem put_under_faults:
  assumes "einv env e" and "counters_ok e" and "key_val_ok key val" and "Put key val e = (r, e')"
  shows "einv env e' \<and>
    store env e' = (case r of Some (EWrap msg x) \<Rightarrow> if msg = ''engine: wal append failed'' then store env e else (store env e)(key \<mapsto> val)
                    | _ \<Rightarrow> (store env e)(key \<mapsto> val))"
proof -
  obtain r1 e1 where w: "engine_write key val RecordPut e = (r1, e1)" by fastforce
  have ne: "key \<noteq> []" using assms(3) by (simp add: key_val_ok_def)
  have e': "r = r1" "einv env e' = einv env e1" "store env e' = store env e1"
    using assms(4) w ne by (auto simp: Put_def store_def [abs_def])
  have less: "e_seq e < e_seq e + 1" using assms(2) word_incr by (simp add: counters_ok_def)
  from assms(1) w assms(3,2) show ?thesis
  proof (cases rule: engine_write_cases)
    case (refused x)
    then show ?thesis using e' by (simp add: store_def [abs_def])
  next
    case applied
    note R = reads_write [OF assms(1) less applied(2)]
    have "store env e1 = (store env e)(key \<mapsto> val)" using R(1) [OF unbounded_max] R(2) by (auto simp: store_def)
    moreover have "r1 = None \<or> (\<exists>y. r1 = Some (EWrap ''engine: rotating memtable'' y))" using applied(4) by (cases r1) auto
    ultimately show ?thesis using e' applied(1) by auto
  qed
qed

theorem put_under_faults_witness:
  "\<exists>e r e'. Put [1] [7] e = (r, e') \<and> sched (e_fs e) = (\<lambda>_. Fail 0) \<and> einv demo_env e'"
proof -
  obtain e where e: "calm demo_env e" "e_seq e = 0" "e_genCounter e = 1" "versions demo_env e = []" by (rule demo_open) blast
  let ?d = "(e_fs e)\<lparr>sched := (\<lambda>_. Fail 0)\<rparr>"
  let ?e = "e\<lparr>e_fs := ?d\<rparr>"
  have "keeps_tables e ?d" by (simp add: keeps_tables_def fs_get_def)
  then have i: "einv demo_env ?e" using e(1) by (intro einv_fs) (simp_all add: calm_def)
  obtain r e' where p: "Put [1] [7] ?e = (r, e')" by fastforce
  have "counters_ok ?e" "key_val_ok [1] [7]" using e small_counters by (simp_all add: counters_ok_def key_val_ok_def)
  from put_under_faults [OF i this p] p show ?thesis by (intro exI [of _ ?e] exI [of _ r] exI [of _ e']) simp
qed

text \<open>
  C30: A flush changes no read. Whatever fails while the records of an immutable MemTable are written
  to a table, the table is opened and listed, the MemTable dropped and its log removed, every read
  of every key at every sequence number returns the same before and after, and the engine's
  invariant holds.
\<close>

theorem flush_changes_no_read:
  assumes "einv env e" and "e_genCounter e < unboundedSeq" and "i \<in> set (e_imm e)"
    and "fits (buildRecords (e_mems e ! im_mt i))" and "wal_named e (im_walPath i)" and "key \<noteq> []"
    and "e' = doFlush env (im_mt i) (im_walPath i) e"
  shows "einv env e' \<and> fst (getAt env key q e') = fst (getAt env key q e)"
proof -
  have F: "einv env e'" "set (versions env e') = set (versions env e)"
    using doFlush_einv [OF assms(1,2) _ assms(4,5)] assms(3,7) by auto
  have "reads (versions env e') key q = reads (versions env e) key q"
    using assms(1) F(2) by (intro reads_cong) (simp_all add: einv_def seqs_inv_def)
  with F(1) getAt_serving [OF einv_serving [OF F(1)] assms(6)] getAt_serving [OF einv_serving [OF assms(1)] assms(6)]
  show ?thesis by simp
qed

theorem flush_changes_no_read_witness:
  "\<exists>e i. e_imm e = [i] \<and> sched (e_fs e) = (\<lambda>n. if n = 3 then Fail 5 else Done) \<and> clock (e_fs e) = 0 \<and>
     einv demo_env (doFlush demo_env (im_mt i) (im_walPath i) e) \<and>
     fst (getAt demo_env [1] 1 (doFlush demo_env (im_mt i) (im_walPath i) e)) = fst (getAt demo_env [1] 1 e)"
proof -
  obtain e i where e: "calm demo_env e" "e_imm e = [i]" "e_flushCh e = [\<lparr>fj_mt = im_mt i, fj_walPath = im_walPath i\<rparr>]"
    "versions demo_env e = [new_version RecordPut [1] [7] 1]" "buildRecords (e_mems e ! im_mt i) = [new_version RecordPut [1] [7] 1]"
    "e_genCounter e = 2" "e_seq e = 1" by (rule demo_rotated)
  let ?d = "(e_fs e)\<lparr>sched := (\<lambda>n. if n = 3 then Fail 5 else Done), clock := 0\<rparr>"
  let ?e = "e\<lparr>e_fs := ?d\<rparr>"
  have "keeps_tables e ?d" by (simp add: keeps_tables_def fs_get_def)
  then have inv: "einv demo_env ?e" using e(1) by (intro einv_fs) (simp_all add: calm_def)
  have w: "wal_named ?e (im_walPath i)" using e(1,3) by (simp add: calm_def einv_def wals_inv_def)
  have fit: "fits (buildRecords (e_mems ?e ! im_mt i))" using e(5) by (simp add: fits_def small_table_def new_version_def)
  have g: "e_genCounter ?e < unboundedSeq" using e(6) small_counters by simp
  have i: "i \<in> set (e_imm ?e)" using e(2) by simp
  from flush_changes_no_read [OF inv g i fit w _ refl, of "[1]" 1] e(2) show ?thesis
    by (intro exI [of _ ?e] exI [of _ i]) simp
qed

section \<open>Compaction\<close>

text \<open>
  C15: A compaction pass changes no read that counts. Without faults a pass succeeds, and every read
  at or above the oldest open snapshot, the unbounded reads of the store included, returns the same
  before and after it, although versions no reader needs and, at the bottom, tombstones are gone.
  The invariant of the store holds again and the pass adds no version.
\<close>

theorem compaction_changes_no_read:
  assumes "calm env e" and "roomy env e" and "runCompaction env e = (err, e')" and "minActiveSnapshotSeq e \<le> q" and "key \<noteq> []"
  shows "err = None \<and> calm env e' \<and> fst (getAt env key q e') = fst (getAt env key q e) \<and>
    mset (versions env e') \<subseteq># mset (versions env e)"
proof -
  note R = runCompaction_calm [OF assms(1-3)]
  have "einv env e" "einv env e'" using assms(1) R(2) by (simp_all add: calm_def)
  then have "fst (getAt env key q e') = fst (getAt env key q e)"
    using R(7) [of q key] assms(4) getAt_serving [OF einv_serving assms(5)] by simp
  with R show ?thesis by simp
qed

theorem compaction_changes_no_read_witness:
  "\<exists>e err e'. e_tables e \<noteq> [] \<and> runCompaction demo_env e = (err, e') \<and> err = None \<and>
     fst (getAt demo_env [1] unboundedSeq e') = fst (getAt demo_env [1] unboundedSeq e)"
proof -
  obtain e where e: "calm demo_env e" "e_tables e \<noteq> []" "roomy demo_env e" by (rule demo_flushed)
  obtain err e' where p: "runCompaction demo_env e = (err, e')" by fastforce
  with e p compaction_changes_no_read [OF e(1,3) p, of unboundedSeq "[1]"] unbounded_max show ?thesis by auto
qed

section \<open>Progress of the workers\<close>

lemma drain_calm:
  assumes "calm env e" and "e_flushCh e = jobs" and "e_seq e < unboundedSeq" and "unat (e_genCounter e) + length jobs < 2 ^ 64" and "fits (versions env e)"
    and "e' = flushWorker_drain env jobs e"
  shows "calm env e' \<and> e_flushCh e' = [] \<and> mset (versions env e') = mset (versions env e) \<and> e_seq e' = e_seq e"
  using assms
proof (induction jobs arbitrary: e)
  case (Cons job jobs)
  let ?e = "flushWorker_turn env e"
  have room: "roomy env e"
    using Cons.prems(3-5) by (simp add: roomy_def counters_ok_def word_less_nat_alt unboundedSeq_def unsigned_minus_1_eq_mask mask_eq_exp_minus_1)
  note F = flush_turn_calm [OF Cons.prems(1) room refl]
  have turn: "?e = doFlush env (fj_mt job) (fj_walPath job) (e\<lparr>e_flushCh := jobs\<rparr>)" using Cons.prems(2) by (simp add: flushWorker_turn_def)
  have "unat (e_genCounter ?e) \<le> unat (e_genCounter e) + 1" using F(6) [unfolded next_gen_def] by (elim disjE) (simp_all only: unat_incr le_add1)
  moreover have "fits (versions env ?e)" using fits_mono [OF _ Cons.prems(5)] F(2) by simp
  moreover have "e_flushCh ?e = jobs" using F(5) Cons.prems(2) by simp
  ultimately have "calm env e' \<and> e_flushCh e' = [] \<and> mset (versions env e') = mset (versions env ?e) \<and> e_seq e' = e_seq ?e"
    using Cons.prems F(1,3) turn by (intro Cons.IH) simp_all
  with F(2,3) show ?case by simp
qed simp

text \<open>
  C31: The flush worker empties its queue. From any state of the invariant, taking the queued jobs
  one after the other ends with an empty queue, no immutable MemTable left, no writer waiting to
  hand one over, and exactly the versions that were there before.
\<close>

theorem flush_queue_drains:
  assumes "calm env e" and "e_seq e < unboundedSeq" and "unat (e_genCounter e) + length (e_flushCh e) < 2 ^ 64" and "fits (versions env e)"
    and "e' = flushWorker_drain env (e_flushCh e) e"
  shows "e_flushCh e' = [] \<and> e_imm e' = [] \<and> \<not> sender_waits e' \<and> mset (versions env e') = mset (versions env e)"
proof -
  note D = drain_calm [OF assms(1) refl assms(2-5)]
  then have "queue_inv e'" "e_flushCh e' = []" by (simp_all add: calm_def age_inv_def)
  then have "e_imm e' = []" by (simp add: queue_inv_def)
  with D show ?thesis by (simp add: sender_waits_def)
qed

theorem flush_queue_drains_witness:
  "\<exists>e. length (e_flushCh e) = 1 \<and> e_imm (flushWorker_drain demo_env (e_flushCh e) e) = []"
proof -
  obtain e i where e: "calm demo_env e" "e_imm e = [i]" "e_flushCh e = [\<lparr>fj_mt = im_mt i, fj_walPath = im_walPath i\<rparr>]"
    "versions demo_env e = [new_version RecordPut [1] [7] 1]" "e_genCounter e = 2" "e_seq e = 1" by (rule demo_rotated)
  have "fits (versions demo_env e)" using e(4) by (simp add: fits_def small_table_def new_version_def)
  moreover have "e_seq e < unboundedSeq" "unat (e_genCounter e) + length (e_flushCh e) < 2 ^ 64" using e(3,5,6) small_counters by simp_all
  ultimately have "e_imm (flushWorker_drain demo_env (e_flushCh e) e) = []" using flush_queue_drains [OF e(1) _ _ _ refl] by simp
  with e(3) show ?thesis by (intro exI [of _ e]) simp
qed

subsection \<open>Chained compaction\<close>

text \<open>How far the tables still are from the deepest level.\<close>

definition level_debt :: "Engine \<Rightarrow> nat" where
  "level_debt e = sum_list (map (\<lambda>lt. nat (e_maxLevels e - lt_level lt)) (e_tables e))"

lemma retire_tables: "e_tables (foldl (\<lambda>e p. retire p e) e ps) = e_tables e \<and> e_maxLevels (foldl (\<lambda>e p. retire p e) e ps) = e_maxLevels e \<and>
  e_compactCh (foldl (\<lambda>e p. retire p e) e ps) = e_compactCh e"
  by (induction ps arbitrary: e) (simp_all add: retire_def case_prod_beta)

lemma commit_tables:
  assumes "compact_commit c r out e = (None, e')"
  shows "e_maxLevels e' = e_maxLevels e" and "e_compactCh e' = e_compactCh e" and
    "e_tables e' = remaining_tables (co_inputs c) (e_tables e) \<or>
     (\<exists>p. e_tables e' = remaining_tables (co_inputs c) (e_tables e) @ [\<lparr>lt_level = co_targetLevel c, lt_table = p\<rparr>])"
  using assms by (auto simp: compact_commit_def on_fs_def add_table_def new_table_def Let_def split: option.splits sum.splits prod.splits if_splits)

lemma merge_tables:
  "compact_merge env c e = (x, e') \<Longrightarrow> e_tables e' = e_tables e \<and> e_maxLevels e' = e_maxLevels e \<and> e_compactCh e' = e_compactCh e"
  by (auto simp: compact_merge_def on_fs_def nextGen_def Let_def split: prod.splits)

lemma debt_less:
  assumes "lt \<in> set ts" and "P lt" and "lt_level lt < l" and "l < m"
  shows "sum_list (map (\<lambda>lt. nat (m - lt_level lt)) (filter (\<lambda>lt. \<not> P lt) ts)) + nat (m - l) < sum_list (map (\<lambda>lt. nat (m - lt_level lt)) ts)"
proof -
  let ?f = "\<lambda>lt. nat (m - lt_level lt)"
  have "sum_list (map ?f ts) = sum_list (map ?f (filter P ts)) + sum_list (map ?f (filter (\<lambda>lt. \<not> P lt) ts))" by (induction ts) auto
  moreover have "?f lt \<le> sum_list (map ?f (filter P ts))" using assms(1,2) by (intro member_le_sum_list) auto
  ultimately show ?thesis using assms(3,4) by linarith
qed

lemma pick_cong:
  assumes "e_tables e1 = e_tables e2" and "e_heap e1 = e_heap e2" and "e_baseLevelSizeBytes e1 = e_baseLevelSizeBytes e2"
    and "e_levelSizeMultiplier e1 = e_levelSizeMultiplier e2" and "e_maxLevels e1 = e_maxLevels e2" and "e_l0CompactionTrigger e1 = e_l0CompactionTrigger e2"
  shows "pickCompactionLocked e1 = pickCompactionLocked e2"
proof -
  have "pick_level e1 ls = pick_level e2 ls" for ls
    using assms by (induction ls) (simp_all add: levelTablesLocked_def level_size_def targetSizeForLevel_def Let_def)
  then show ?thesis using assms by (simp add: pickCompactionLocked_def levelTablesLocked_def Let_def)
qed

lemma pick_frame [simp]:
  "pickCompactionLocked (e\<lparr>e_compactCh := b\<rparr>) = pickCompactionLocked e" "pickCompactionLocked (e\<lparr>e_reg := r\<rparr>) = pickCompactionLocked e"
  "pickCompactionLocked (e\<lparr>e_now := n\<rparr>) = pickCompactionLocked e"
  by (rule pick_cong; simp)+

lemma turn_progress:
  assumes "calm env e" and "roomy env e" and "e_compactCh e" and "e' = compactionLoop_turn env e"
  shows "e_compactCh e' \<longleftrightarrow> pickCompactionLocked e' \<noteq> None" and "pickCompactionLocked e = None \<or> level_debt e' < level_debt e"
proof -
  let ?e = "e\<lparr>e_compactCh := False\<rparr>"
  obtain err x where run: "runCompaction env ?e = (err, x)" by fastforce
  have x: "e' = x" using assms(3,4) run by (simp add: compactionLoop_turn_def)
  have C: "calm env ?e" "roomy env ?e" using assms(1,2) by (simp_all add: roomy_def counters_ok_def)
  note R = runCompaction_calm [OF C run]
  have "(e_compactCh e' \<longleftrightarrow> pickCompactionLocked e' \<noteq> None) \<and> (pickCompactionLocked e = None \<or> level_debt e' < level_debt e)"
  proof (cases "compact_plan ?e")
    case None
    then have "pickCompactionLocked e = None" by (simp add: compact_plan_def)
    moreover have "e' = ?e" using run None x by (simp add: runCompaction_def)
    ultimately show ?thesis by simp
  next
    case (Some c)
    obtain r out e1 where m: "compact_merge env c ?e = ((r, out), e1)" by (metis prod.exhaust)
    obtain er e2 where k: "compact_commit c r out e1 = (er, e2)" by fastforce
    have er: "er = None" "e' = compact_metrics False (compact_end c e2)"
      using run Some m k R(1) x by (auto simp: runCompaction_def split: option.splits)
    let ?e3 = "foldl (\<lambda>e p. retire p e) e2 (co_inputs c)"
    have tr: "e_compactCh (maybeTriggerCompaction y) \<longleftrightarrow> pickCompactionLocked (maybeTriggerCompaction y) \<noteq> None" if "\<not> e_compactCh y" for y
      using that by (simp add: maybeTriggerCompaction_def split: option.split)
    note T = merge_tables [OF m] commit_tables [OF k [unfolded er(1)]] retire_tables [of e2 "co_inputs c"]
    have ch: "\<not> e_compactCh ?e3" using T by simp
    have "e_compactCh e' \<longleftrightarrow> pickCompactionLocked e' \<noteq> None"
      using tr [OF ch] by (simp add: er(2) compact_end_def compact_metrics_def Inc_def Observe_def Let_def)
    moreover have "level_debt e' < level_debt e"
    proof -
      obtain plan where plan: "pickCompactionLocked e = Some plan" "co_inputs c = cp_inputs plan" "co_targetLevel c = cp_targetLevel plan"
        using Some by (auto simp: compact_plan_def)
      have "levels_bounded e" using assms(1) by (simp add: calm_def age_inv_def)
      then obtain l where l: "merges_level e l plan" using pickCompaction_merges [OF plan(1)] by blast
      then have tl: "co_targetLevel c = l + 1" "l + 1 < e_maxLevels e" and "levelTablesLocked l e \<noteq> []" "set (levelTablesLocked l e) \<subseteq> set (co_inputs c)"
        using plan(2,3) by (auto simp: merges_level_def)
      then obtain lt where lt: "lt \<in> set (e_tables e)" "lt_table lt \<in> set (co_inputs c)" "lt_level lt = l"
        by (auto simp: levelTablesLocked_def filter_empty_conv)
      note D = debt_less [where P = "\<lambda>lt. lt_table lt \<in> set (co_inputs c)", OF lt(1,2) _ tl(2)]
      have "e_tables e' = e_tables e2" "e_maxLevels e' = e_maxLevels e"
        using T by (simp_all add: er(2) compact_end_def compact_metrics_def maybeTriggerCompaction_def Inc_def Observe_def Let_def split: option.split)
      then show ?thesis using D T(4) tl(1) lt(3) T(1) by (auto simp: level_debt_def remaining_tables_def)
    qed
    ultimately show ?thesis by simp
  qed
  then show "e_compactCh e' \<longleftrightarrow> pickCompactionLocked e' \<noteq> None" "pickCompactionLocked e = None \<or> level_debt e' < level_debt e" by blast+
qed

lemma turn_keeps_store:
  assumes "calm env e" and "roomy env e" and "e' = compactionLoop_turn env e"
  shows "store env e' = store env e" and "fits (versions env e')"
proof -
  note C = compaction_turn_calm [OF assms]
  show "store env e' = store env e" using C(6) [OF disjI1 [OF unbounded_max]] by (simp add: store_def [abs_def])
  show "fits (versions env e')" using fits_mono [OF C(4)] assms(2) by (simp add: roomy_def)
qed

text \<open>
  C32: Chained compaction comes to rest. Once a compaction is requested, the worker's passes, each of
  which may request the next, end after at most one more than the debt of the tables (the sum of
  their distances from the deepest level), which every pass with work to do lowers: then no request is
  pending, level 0 has fewer tables than its trigger and every level is within its target size, and
  the store holds what it held.
\<close>

theorem compaction_comes_to_rest:
  assumes "calm env e" and "e_seq e < unboundedSeq" and "unat (e_genCounter e) + level_debt e + 1 < 2 ^ 64" and "fits (versions env e)" and "e_compactCh e"
  shows "\<exists>n \<le> Suc (level_debt e). \<not> e_compactCh (compactionLoop_turns env n e) \<and>
    pickCompactionLocked (compactionLoop_turns env n e) = None \<and> store env (compactionLoop_turns env n e) = store env e"
  using assms
proof (induction "level_debt e" arbitrary: e rule: less_induct)
  case less
  let ?e = "compactionLoop_turn env e"
  have room: "roomy env e"
    using less.prems(2-4) by (simp add: roomy_def counters_ok_def word_less_nat_alt unboundedSeq_def unsigned_minus_1_eq_mask mask_eq_exp_minus_1)
  note P = turn_progress [OF less.prems(1) room less.prems(5) refl] and C = compaction_turn_calm [OF less.prems(1) room refl]
    and K = turn_keeps_store [OF less.prems(1) room refl]
  show ?case
  proof (cases "e_compactCh ?e")
    case False
    with P(1) K(1) show ?thesis by (intro exI [of _ 1]) simp
  next
    case True
    have d: "level_debt ?e < level_debt e"
    proof (rule ccontr)
      assume "\<not> level_debt ?e < level_debt e"
      then have "pickCompactionLocked e = None" using P(2) by blast
      then have "?e = e\<lparr>e_compactCh := False\<rparr>" using less.prems(5) by (simp add: compactionLoop_turn_def runCompaction_def compact_plan_def)
      with True show False by simp
    qed
    have "unat (e_genCounter ?e) \<le> unat (e_genCounter e) + 1" using C(5) [unfolded next_gen_def] by (elim disjE) (simp_all only: unat_incr le_add1)
    then have "unat (e_genCounter ?e) + level_debt ?e + 1 < 2 ^ 64" using d less.prems(3) by linarith
    then obtain n where n: "n \<le> Suc (level_debt ?e)" "\<not> e_compactCh (compactionLoop_turns env n ?e)"
      "pickCompactionLocked (compactionLoop_turns env n ?e) = None" "store env (compactionLoop_turns env n ?e) = store env ?e"
      using less.hyps [OF d C(1)] C(2) less.prems(2) K(2) True by auto
    then show ?thesis using d K(1) by (intro exI [of _ "Suc n"]) simp
  qed
qed

theorem compaction_comes_to_rest_witness:
  "\<exists>e n. e_compactCh e \<and> e_tables e \<noteq> [] \<and> \<not> e_compactCh (compactionLoop_turns demo_env n e) \<and>
     pickCompactionLocked (compactionLoop_turns demo_env n e) = None"
proof -
  obtain e where e: "calm demo_env e" "e_tables e \<noteq> []" "versions demo_env e = [new_version RecordPut [1] [7] 1]" "roomy demo_env e"
    "e_seq e = 1" "unat (e_genCounter e) \<le> 3" "length (e_tables e) \<le> 1" "e_maxLevels e = 7" by (rule demo_flushed)
  let ?e = "e\<lparr>e_compactCh := True\<rparr>"
  have p: "calm demo_env ?e" "e_seq ?e < unboundedSeq" "fits (versions demo_env ?e)" "e_compactCh ?e"
    using e small_counters by (simp_all add: roomy_def)
  obtain lt where lt: "e_tables e = [lt]" using e(2,7) by (cases "e_tables e") auto
  moreover have "0 \<le> lt_level lt" using e(1) lt by (simp add: calm_def age_inv_def levels_bounded_def)
  ultimately have "unat (e_genCounter ?e) + level_debt ?e + 1 < 2 ^ 64" using e(6,8) by (simp add: level_debt_def)
  from compaction_comes_to_rest [OF p(1,2) this p(3,4)] e(2) show ?thesis by (intro exI [of _ ?e]) auto
qed

section \<open>Targets of the levels\<close>

lemma target_loop_power: "target_loop k n sz = sz * k ^ n"
  by (induction n arbitrary: sz) (simp_all add: algebra_simps)

text \<open>
  C33: The target size of a level. It is the base size times the multiplier once per level above
  the first, in 64-bit arithmetic: with the defaults exact up to level 13, wrapped to barely more than that
  of level 13 at level 14 and negative at level 16, where every pass would find the level too large.
\<close>

theorem target_size_of_level:
  "targetSizeForLevel lvl e = e_baseLevelSizeBytes e * e_levelSizeMultiplier e ^ nat (lvl - 1) \<and>
   (e_baseLevelSizeBytes e = defaultBaseLevelSizeBytes \<and> e_levelSizeMultiplier e = defaultLevelSizeMultiplier \<longrightarrow>
     (1 \<le> lvl \<and> lvl \<le> 13 \<longrightarrow> sint (targetSizeForLevel lvl e) = 2097152 * 10 ^ nat (lvl - 1)) \<and>
     (lvl = 14 \<longrightarrow> sint (targetSizeForLevel lvl e) = 2524775926290448384) \<and> (lvl = 16 \<longrightarrow> sint (targetSizeForLevel lvl e) < 0))"
proof -
  have t: "targetSizeForLevel lvl e = e_baseLevelSizeBytes e * e_levelSizeMultiplier e ^ nat (lvl - 1)"
    by (simp add: targetSizeForLevel_def target_loop_power)
  have "sint (2097152 * 10 ^ nat (lvl - 1) :: i64) = 2097152 * 10 ^ nat (lvl - 1)" if "1 \<le> lvl" "lvl \<le> 13"
  proof -
    have "(10 :: int) ^ nat (lvl - 1) \<le> 10 ^ 12" using that by (intro power_increasing) simp_all
    then have "(2097152 * 10 ^ nat (lvl - 1) :: int) < 2 ^ 63" by simp
    then have "sint (of_int (2097152 * 10 ^ nat (lvl - 1)) :: i64) = 2097152 * 10 ^ nat (lvl - 1)" by (intro sint_bucket) simp_all
    then show ?thesis by simp
  qed
  then show ?thesis using t by (auto simp: defaultBaseLevelSizeBytes_def defaultLevelSizeMultiplier_def)
qed

theorem target_size_of_level_witness:
  "sint (targetSizeForLevel 13 (blank_engine ''db'' (\<lambda>_ _. 0) (\<lambda>_. 0) demo_fs)) = 2097152000000000000 \<and>
   sint (targetSizeForLevel 16 (blank_engine ''db'' (\<lambda>_ _. 0) (\<lambda>_. 0) demo_fs)) < 0"
proof -
  let ?e = "blank_engine ''db'' (\<lambda>_ _. 0) (\<lambda>_. 0) demo_fs"
  have "e_baseLevelSizeBytes ?e = defaultBaseLevelSizeBytes" "e_levelSizeMultiplier ?e = defaultLevelSizeMultiplier"
    by (simp_all add: blank_engine_def)
  with target_size_of_level [of 13 ?e] target_size_of_level [of 16 ?e] show ?thesis by force
qed

section \<open>Statistics\<close>

lemma count_levels_nth:
  "length (count_levels lts ns) = length ns \<and>
   (\<forall>l < length ns. count_levels lts ns ! l = ns ! l + int (length (filter (\<lambda>lt. lt_level lt = int l) lts)))"
proof (induction lts arbitrary: ns)
  case (Cons lt lts)
  let ?ns = "if lt_level lt \<ge> 0 \<and> lt_level lt < int (length ns) then ns[nat (lt_level lt) := ns ! nat (lt_level lt) + 1] else ns"
  have "length ?ns = length ns" by simp
  moreover have "?ns ! l = ns ! l + (if lt_level lt = int l then 1 else 0)" if "l < length ns" for l
    using that by (auto simp: nth_list_update)
  ultimately show ?case using Cons.IH [of ?ns] by (auto simp: Let_def)
qed simp

lemma count_levels_sum:
  "\<forall>lt \<in> set lts. 0 \<le> lt_level lt \<and> lt_level lt < int (length ns) \<Longrightarrow> sum_list (count_levels lts ns) = sum_list ns + int (length lts)"
proof (induction lts arbitrary: ns)
  case (Cons lt lts)
  then have l: "nat (lt_level lt) < length ns" by auto
  let ?ns = "ns[nat (lt_level lt) := ns ! nat (lt_level lt) + 1]"
  have "sum_list (ns[k := ns ! k + 1]) = sum_list ns + 1" if "k < length ns" for k using that
    by (induction ns arbitrary: k) (auto split: nat.splits)
  then have "sum_list ?ns = sum_list ns + 1" using l by blast
  with Cons.IH [of ?ns] Cons.prems show ?case by simp
qed simp

text \<open>
  What Stats reports. Per level it counts the tables of that level, the counts add up to the
  reported number of tables, the entries are those of the active MemTable, and the call changes
  nothing but the gauges.
\<close>

lemma stats_count_tables:
  assumes "calm env e" and "Engine_Stats e = (r, e')"
  shows "\<exists>st. r = Inr st \<and> length (st_TablesPerLevel st) = nat (e_maxLevels e) \<and>
    (\<forall>l < nat (e_maxLevels e). st_TablesPerLevel st ! l = int (length (levelTablesLocked (int l) e))) \<and>
    sum_list (st_TablesPerLevel st) = st_SSTables st \<and> st_SSTables st = int (length (allTablesLocked e)) \<and>
    st_MemTableEntries st = int (length (mem_versions e)) \<and> st_ImmutableMemTables st = int (length (e_imm e)) \<and>
    e' = e\<lparr>e_reg := e_reg e'\<rparr>"
proof -
  have L: "\<forall>lt \<in> set (e_tables e). 0 \<le> lt_level lt \<and> lt_level lt < e_maxLevels e" "2 \<le> e_maxLevels e"
    using assms(1) by (auto simp: calm_def age_inv_def levels_bounded_def)
  have M: "mt_inv (e_mems e ! e_mem e)" using assms(1) by (auto simp: calm_def einv_def mems_inv_def)
  let ?z = "replicate (nat (e_maxLevels e)) 0 :: int list"
  have "sum_list (count_levels (e_tables e) ?z) = int (length (e_tables e))"
    using count_levels_sum [of "e_tables e" ?z] L by (simp add: sum_list_replicate)
  moreover have "MemTable_Len (e_mems e ! e_mem e) = length (mem_versions e)" using MemTable_Len_All [OF M] by (simp add: mem_versions_def buildRecords_def)
  ultimately show ?thesis
    using assms(2) [symmetric] L(2) count_levels_nth [of "e_tables e" ?z] by (simp add: Engine_Stats_def Let_def levelTablesLocked_def allTablesLocked_def)
qed

section \<open>Metric handles\<close>

datatype metric_kind = KCounter | KGauge | KGaugeVec | KHistogram

fun kind_of :: "metric \<Rightarrow> metric_kind" where
  "kind_of (MCounter c) = KCounter"
| "kind_of (MGauge g) = KGauge"
| "kind_of (MGaugeVec g) = KGaugeVec"
| "kind_of (MHistogram h) = KHistogram"

definition has_kind :: "metric_kind \<Rightarrow> Registry \<Rightarrow> nat \<Rightarrow> bool" where
  "has_kind k r p \<longleftrightarrow> p < length r \<and> kind_of (r ! p) = k"

text \<open>The handles in the order of the registry.\<close>

definition handles :: "engineMetrics \<Rightarrow> nat list" where
  "handles m = [em_putTotal m, em_deleteTotal m, em_getTotal m, em_getHitTotal m, em_getMissTotal m, em_scanTotal m, em_flushTotal m,
     em_flushFailedTotal m, em_compactionTotal m, em_compactionFailedTotal m, em_snapshotOpenTotal m, em_memtableEntries m,
     em_immutableMemtables m, em_sstablesTotal m, em_sstablesPerLevel m, em_activeSnapshots m, em_writeLatency m, em_getLatency m,
     em_flushLatency m, em_compactionLatency m]"

definition handle_kinds :: "metric_kind list" where
  "handle_kinds = replicate 11 KCounter @ [KGauge, KGauge, KGauge, KGaugeVec, KGauge] @ replicate 4 KHistogram"

lemma newEngineMetrics_registry:
  "\<exists>ms. snd (newEngineMetrics r) = r @ ms \<and> map kind_of ms = handle_kinds \<and> handles (fst (newEngineMetrics r)) = [length r..<length r + 20]"
  unfolding newEngineMetrics_def NewCounter_def NewGauge_def NewGaugeVec_def NewLatencyHistogram_def register_def Let_def prod.case fst_conv snd_conv
    append_assoc handles_def engineMetrics.simps length_append
  by (rule exI, intro conjI, rule refl, simp only: append_Cons append_Nil list.map kind_of.simps handle_kinds_def, simp_all add: eval_nat_numeral upt_rec)

text \<open>
  Every handle of the engine's metrics has its type. The handles the engine keeps point to
  twenty different metrics of the registry, each of the kind the engine uses it as, so an update
  through a handle never lands on a metric of another kind; metrics that were in a shared registry
  before are untouched.
\<close>

lemma metric_handles_typed:
  "(case newEngineMetrics r of (m, r') \<Rightarrow>
     take (length r) r' = r \<and> distinct (handles m) \<and> list_all2 (\<lambda>k p. has_kind k r' p) handle_kinds (handles m))"
proof -
  obtain m r' where mr: "newEngineMetrics r = (m, r')" by fastforce
  then obtain ms where ms: "r' = r @ ms" "map kind_of ms = handle_kinds" "handles m = [length r..<length r + 20]"
    using newEngineMetrics_registry [of r] by auto
  have len: "length ms = 20" using arg_cong [OF ms(2), of length] by (simp add: handle_kinds_def)
  have "has_kind (handle_kinds ! i) r' (handles m ! i)" if "i < 20" for i
    using that len by (simp add: ms(1,3) has_kind_def nth_append flip: ms(2))
  then have "list_all2 (\<lambda>k p. has_kind k r' p) handle_kinds (handles m)"
    by (simp add: list_all2_conv_all_nth ms(3) handle_kinds_def)
  then show ?thesis using ms mr by simp
qed

section \<open>Where the engine does less than its comments say\<close>

lemma active_only_reads:
  assumes "einv env e" and "MemTable_Get (e_mems e ! e_mem e) key = Some \<lparr>ent_type = TypeValue, ent_value = v, ent_seq = n\<rparr>"
    and "\<forall>r \<in> set (imm_versions e) \<union> set (table_versions env e). rec_key r \<noteq> key"
  shows "reads (versions env e) key (e_seq e) = Some v"
proof -
  have M: "mt_inv (e_mems e ! e_mem e)" using assms(1) by (auto simp: einv_def mems_inv_def)
  let ?x = "\<lparr>rec_key = key, rec_value = v, rec_type = TypeValue, rec_seq = n\<rparr>"
  have x: "?x \<in> set (versions env e)" using in_buildRecords [OF M, of ?x] assms(2) by (simp add: versions_def mem_versions_def)
  have only: "y = ?x" if "y \<in> set (versions env e)" "rec_key y = key" for y
  proof -
    have "y \<in> set (mem_versions e)" using that assms(3) by (auto simp: versions_def)
    then have "MemTable_Get (e_mems e ! e_mem e) key = Some \<lparr>ent_type = rec_type y, ent_value = rec_value y, ent_seq = rec_seq y\<rparr>"
      using in_buildRecords [OF M, of y] that(2) by (simp add: mem_versions_def)
    with assms(2) that(2) show ?thesis by (intro Record.equality) simp_all
  qed
  have "n \<le> e_seq e" using assms(1) x by (auto simp: einv_def seqs_inv_def)
  moreover have "rec_seq y \<le> rec_seq ?x" if "y \<in> set (versions env e)" "visible key (e_seq e) y" for y
    using only [OF that(1)] that(2) by (simp add: visible_def)
  ultimately have "newest_of (set (versions env e)) key (e_seq e) ?x"
    using x unfolding newest_of_def by (simp add: visible_def [of _ _ ?x])
  then show ?thesis
    using reads_newest [of "versions env e"] assms(1) by (simp add: einv_def seqs_inv_def value_of_def TypeValue_def TypeTombstone_def)
qed

text \<open>
  C34: A snapshot can lose a key. If the version a new snapshot sees is only in the active MemTable,
  one later put of the key makes a read through the snapshot miss it: it finds neither the value
  it had seen nor the newer one, because the MemTable keeps a single version and that is now above
  the snapshot.
\<close>

theorem snapshot_loses_overwritten_key:
  assumes "calm env e" and "counters_ok e" and "key_val_ok key val"
    and "MemTable_Get (e_mems e ! e_mem e) key = Some \<lparr>ent_type = TypeValue, ent_value = v, ent_seq = n\<rparr>"
    and "\<forall>r \<in> set (imm_versions e) \<union> set (table_versions env e). rec_key r \<noteq> key"
    and "Engine_Snapshot e = (Inr s, e1)" and "Put key val e1 = (r, e2)"
  shows "fst (Snapshot_Get env s key e1) = Inr v \<and> fst (Snapshot_Get env s key e2) = Inl ErrNotFound \<and> fst (Get env key e2) = Inr val"
proof -
  have s: "sn_seq s = e_seq e" "e1 = Snapshot_register (e_seq e) e"
    using assms(6) by (auto simp: Engine_Snapshot_def Snapshot_load_def split: if_splits)
  have ne: "key \<noteq> []" using assms(3) by (simp add: key_val_ok_def)
  have e1: "calm env e1" "counters_ok e1" "versions env e1 = versions env e" "e_seq e1 = e_seq e" "other_versions env e1 key = other_versions env e key"
    using assms(1,2)
    by (auto simp: s(2) Snapshot_register_def Let_def counters_ok_def Inc_def Adjust_def other_versions_def mem_versions_def imm_versions_def table_versions_def allTablesLocked_def)
  obtain r' e' where w: "engine_write key val RecordPut e1 = (r', e')" by fastforce
  note W = engine_write_calm [OF e1(1,2) assms(3) w]
  have e2: "calm env e2" "versions env e2 = versions env e'" using assms(7) w ne W(2) by (auto simp: Put_def)
  have less: "e_seq e1 < e_seq e1 + 1" using e1(2) word_incr by (simp add: counters_ok_def)
  have I: "einv env e" "einv env e1" "einv env e'" using assms(1) e1(1) W(2) by (auto simp: calm_def)
  note R = reads_write [OF I(2) less W(5)]
  have "reads (versions env e2) key unboundedSeq = Some val" using R(1) [OF unbounded_max] e2(2) by simp
  moreover obtain rg eg where g: "Get env key e2 = (rg, eg)" by fastforce
  ultimately have get: "fst (Get env key e2) = Inr val" using Get_calm(5) [OF e2(1) g ne] by (simp add: store_def answer_def)
  have "reads (versions env e) key (e_seq e) = Some v" by (rule active_only_reads [OF I(1) assms(4,5)])
  then have before: "fst (Snapshot_Get env s key e1) = Inr v" using Snapshot_Get_calm [OF e1(1) ne, of s] s(1) e1(3) by (simp add: answer_def)
  have "\<not> visible key (e_seq e) y" if "y \<in> set (versions env e2)" for y
  proof -
    have "y = new_version RecordPut key val (e_seq e + 1) \<or> y \<in> other_versions env e key" using that W(5) e1(4,5) e2(2) by auto
    then show ?thesis
    proof
      assume "y = new_version RecordPut key val (e_seq e + 1)"
      then have "rec_seq y = e_seq e + 1" by (simp add: new_version_def)
      with less e1(4) show ?thesis by (simp add: visible_def not_le)
    next
      assume "y \<in> other_versions env e key"
      then have "rec_key y \<noteq> key" using assms(5) unfolding other_versions_def by blast
      then show ?thesis by (simp add: visible_def)
    qed
  qed
  then have "reads (versions env e2) key (e_seq e) = None"
    using reads_best [of "versions env e2" key "e_seq e" None] e2(1) by (simp add: best_in_def value_of_def calm_def einv_def seqs_inv_def)
  then have "fst (Snapshot_Get env s key e2) = Inl ErrNotFound" using Snapshot_Get_calm [OF e2(1) ne, of s] s(1) by (simp add: answer_def)
  with get before show ?thesis by simp
qed

lemma default_config:
  "2 \<le> e_maxLevels (configured [])" "e_maxLevels (configured []) < 2 ^ 63" "1 \<le> e_l0CompactionTrigger (configured [])"
  "e_flushThreshold (configured []) = 4194304"
  by (simp_all add: configured_def blank_engine_def defaultMaxLevels_def defaultL0CompactionTrigger_def defaultFlushThreshold_def)

text \<open>With the default threshold the first put stays in the active MemTable.\<close>

lemma demo_written:
  obtains e where "calm demo_env e" and "counters_ok e" and "MemTable_Get (e_mems e ! e_mem e) [1] = Some \<lparr>ent_type = TypeValue, ent_value = [7], ent_seq = 1\<rparr>"
    and "imm_versions e = []" and "table_versions demo_env e = []"
proof -
  have "dir_names ''db'' demo_fs = []" "\<forall>p i. \<not> unreadable demo_fs p i" by (simp_all add: dir_names_def demo_fs_def)
  then obtain e0 where e0: "calm demo_env e0" "e_seq e0 = 0" "e_genCounter e0 = 1" "MemTable_Size (e_mems e0 ! e_mem e0) = 0"
    "e_imm e0 = []" "e_tables e0 = []" "e_flushThreshold e0 = 4194304"
    using Engine_Open_empty [OF demo_fs_no_faults _ demo_env_ok, of "''db''" "[]"] default_config by metis
  obtain r e where w: "engine_write [1] [7] RecordPut e0 = (r, e)" by fastforce
  have ok: "counters_ok e0" "key_val_ok [1] [7]" using e0 small_counters by (simp_all add: counters_ok_def key_val_ok_def)
  have M: "e_mem e0 < length (e_mems e0)" "mt_inv (e_mems e0 ! e_mem e0)" using e0(1) by (auto simp: calm_def einv_def mems_inv_def)
  let ?m = "write_mem RecordPut (e_mems e0 ! e_mem e0) [1] [7] 1"
  have "sint (MemTable_Size ?m) = 50" using e0(4) by (simp add: write_mem_def MemTable_Put_def MemTable_Size_def entryOverhead_def)
  then obtain wl d where e: "e = put_mem (e0\<lparr>e_seq := 1, e_wal := wl, e_fs := d\<rparr>) ?m"
    by - (rule engine_write_run [OF e0(1) w], use e0(2,7) in simp)
  have "MemTable_Get (e_mems e ! e_mem e) [1] = Some \<lparr>ent_type = TypeValue, ent_value = [7], ent_seq = 1\<rparr>"
    using MemTable_Get_Put [OF M(2)] M(1) by (simp add: e put_mem_def write_mem_def)
  moreover have "imm_versions e = []" "table_versions demo_env e = []" "counters_ok e"
    using e0 small_counters by (simp_all add: e put_mem_def imm_versions_def table_versions_def allTablesLocked_def counters_ok_def)
  ultimately show thesis using that engine_write_calm(2) [OF e0(1) ok w] by blast
qed

theorem snapshot_loses_overwritten_key_witness:
  "\<exists>e s e1 r e2. Engine_Snapshot e = (Inr s, e1) \<and> Put [1] [8] e1 = (r, e2) \<and>
     fst (Snapshot_Get demo_env s [1] e1) = Inr [7] \<and> fst (Snapshot_Get demo_env s [1] e2) = Inl ErrNotFound"
proof -
  obtain e where e: "calm demo_env e" "counters_ok e" "MemTable_Get (e_mems e ! e_mem e) [1] = Some \<lparr>ent_type = TypeValue, ent_value = [7], ent_seq = 1\<rparr>"
    "imm_versions e = []" "table_versions demo_env e = []" by (rule demo_written)
  have sn: "Engine_Snapshot e = (Inr \<lparr>sn_seq = e_seq e, sn_closed = False\<rparr>, Snapshot_register (e_seq e) e)"
    using e(1) by (simp add: Engine_Snapshot_def Snapshot_load_def calm_def einv_def)
  obtain r e2 where p: "Put [1] [8] (Snapshot_register (e_seq e) e) = (r, e2)" by fastforce
  have "key_val_ok [1] [8]" by (simp add: key_val_ok_def)
  from snapshot_loses_overwritten_key [OF e(1,2) this e(3) _ sn p] e(4,5) sn p show ?thesis by fastforce
qed

text \<open>
  The tables an array loses when the elements that satisfy \<open>P\<close> are moved to its front and the
  rest of it is left as it was: those without \<open>P\<close> among the overwritten elements. There is one
  exactly when an element without \<open>P\<close> stands before one with \<open>P\<close>.
\<close>

lemma overwritten_missing:
  assumes "distinct ts" and "lt \<in> set ts"
  shows "lt \<notin> set (overwritten (filter P ts) ts) \<longleftrightarrow> \<not> P lt \<and> lt \<in> set (take (length (filter P ts)) ts)"
proof -
  let ?k = "length (filter P ts)"
  have "set (take ?k ts) \<inter> set (drop ?k ts) = {}" using assms(1) by (rule set_take_disj_set_drop_if_distinct) simp
  moreover have "set (take ?k ts) \<union> set (drop ?k ts) = set ts" by (metis append_take_drop_id set_append)
  ultimately show ?thesis using assms(2) by (auto simp: overwritten_def)
qed

lemma prefix_all_filter:
  "(\<forall>y \<in> set (take (length (filter P ts)) ts). P y) \<longleftrightarrow> (\<forall>i j. i < j \<and> j < length ts \<and> P (ts ! j) \<longrightarrow> P (ts ! i))"
  (is "?l \<longleftrightarrow> ?r")
proof
  let ?k = "length (filter P ts)"
  assume ?l
  then have "filter P (take ?k ts) = take ?k ts" by (rule filter_True)
  then have "length (filter P (drop ?k ts)) = 0"
    using arg_cong [OF filter_append [of P "take ?k ts" "drop ?k ts"], of length] by simp
  then have none: "\<forall>y \<in> set (drop ?k ts). \<not> P y" unfolding length_0_conv filter_empty_conv .
  have "\<not> P (ts ! j)" if "?k \<le> j" "j < length ts" for j
    using bspec [OF none nth_mem [of "j - ?k" "drop ?k ts"]] that by simp
  moreover have "P (ts ! i)" if "i < ?k" for i
    using bspec [OF \<open>?l\<close> nth_mem [of i "take ?k ts"]] that length_filter_le [of P ts] by simp
  ultimately show ?r by (metis less_trans not_le)
next
  let ?k = "length (filter P ts)"
  assume r: ?r
  show ?l
  proof (rule ccontr)
    assume "\<not> ?l"
    then obtain i where i: "i < ?k" "\<not> P (ts ! i)" by (auto simp: in_set_conv_nth)
    have "\<forall>y \<in> set (drop i ts). \<not> P y"
    proof -
      have "\<not> P (ts ! (i + m))" if "i + m < length ts" for m using r [rule_format, of i "i + m"] i(2) that by (cases m) auto
      then show ?thesis by (auto simp: in_set_conv_nth)
    qed
    then have "filter P ts = filter P (take i ts)" using filter_append [of P "take i ts" "drop i ts"] by simp
    then have "?k \<le> i" using length_filter_le [of P "take i ts"] by simp
    with i(1) show False by simp
  qed
qed

lemma compact_commit_failed_tables:
  assumes "compact_commit c mergeErr out e = (Some err, e')"
  shows "e_tables e' = overwritten (remaining_tables (co_inputs c) (e_tables e)) (e_tables e)"
  using assms by (cases mergeErr) (auto simp: compact_commit_def on_fs_def Let_def split: prod.splits sum.splits if_splits)

text \<open>
  C35: A compaction that fails to commit corrupts the table list. The filtered list has then already
  been written over the array of the old one: the list keeps its length, and the tables missing from
  it are the inputs of the pass among its first elements, as many as there are tables that are not
  inputs. A table is missing exactly when an input is listed before a table that is not one; its
  records are then invisible to reads although nothing was merged.
\<close>

theorem failed_merge_drops_table:
  assumes "distinct (e_tables e)" and "compact_commit c mergeErr out e = (Some err, e')"
  shows "length (e_tables e') = length (e_tables e) \<and>
    (\<forall>lt \<in> set (e_tables e). lt \<notin> set (e_tables e') \<longleftrightarrow>
       lt_table lt \<in> set (co_inputs c) \<and> lt \<in> set (take (length (remaining_tables (co_inputs c) (e_tables e))) (e_tables e))) \<and>
    (set (e_tables e) \<noteq> set (e_tables e') \<longleftrightarrow>
       (\<exists>i j. i < j \<and> j < length (e_tables e) \<and> lt_table (e_tables e ! i) \<in> set (co_inputs c) \<and> lt_table (e_tables e ! j) \<notin> set (co_inputs c)))"
proof -
  let ?P = "\<lambda>lt. lt_table lt \<notin> set (co_inputs c)" and ?ts = "e_tables e"
  have ts': "e_tables e' = overwritten (filter ?P ?ts) ?ts"
    using compact_commit_failed_tables [OF assms(2)] by (simp add: remaining_tables_def)
  have "set (e_tables e') \<subseteq> set ?ts" using set_drop_subset [of _ ?ts] by (auto simp: ts' overwritten_def)
  then have "set ?ts \<noteq> set (e_tables e') \<longleftrightarrow> (\<exists>lt \<in> set ?ts. lt \<notin> set (e_tables e'))" by blast
  also have "\<dots> \<longleftrightarrow> \<not> (\<forall>y \<in> set (take (length (filter ?P ?ts)) ?ts). ?P y)"
    using overwritten_missing [OF assms(1), of _ ?P] set_take_subset [of "length (filter ?P ?ts)" ?ts] unfolding ts' by blast
  finally show ?thesis
    using overwritten_missing [OF assms(1), of _ ?P] length_filter_le [of ?P ?ts]
    unfolding prefix_all_filter ts' remaining_tables_def by (auto simp: overwritten_def)
qed

theorem failed_merge_drops_table_witness:
  "\<exists>e e' err. e_tables e = [\<lparr>lt_level = 0, lt_table = 0\<rparr>, \<lparr>lt_level = 2, lt_table = 1\<rparr>] \<and>
     compact_commit \<lparr>co_inputs = [0], co_targetLevel = 1, co_isBottommost = False\<rparr> (Some (EMsg ''read'')) ''o'' e = (Some err, e') \<and>
     \<lparr>lt_level = 0, lt_table = 0\<rparr> \<notin> set (e_tables e') \<and> \<lparr>lt_level = 2, lt_table = 1\<rparr> \<in> set (e_tables e')"
proof -
  let ?e = "(blank_engine ''db'' (\<lambda>_ _. 0) (\<lambda>_. 0) demo_fs)\<lparr>e_tables := [\<lparr>lt_level = 0, lt_table = 0\<rparr>, \<lparr>lt_level = 2, lt_table = 1\<rparr>]\<rparr>"
  let ?c = "\<lparr>co_inputs = [0], co_targetLevel = 1, co_isBottommost = False\<rparr>"
  obtain err e' where c: "compact_commit ?c (Some (EMsg ''read'')) ''o'' ?e = (Some err, e')"
    by (simp add: compact_commit_def Let_def)
  have "distinct (e_tables ?e)" by simp
  note failed_merge_drops_table [OF this c]
  moreover have "e_tables ?e = [\<lparr>lt_level = 0, lt_table = 0\<rparr>, \<lparr>lt_level = 2, lt_table = 1\<rparr>]" by simp
  ultimately show ?thesis using c by (intro exI [of _ ?e] exI [of _ e'] exI [of _ err]) (simp add: remaining_tables_def)
qed

lemma open_tables_seq: "open_tables sfs e = (r, e') \<Longrightarrow> e_seq e' = e_seq e"
  by (induction sfs arbitrary: e) (auto simp: on_fs_def add_table_def new_table_def Let_def split: prod.splits sum.splits)

lemma options_seq: "e_seq (foldl (\<lambda>e opt. apply_option opt e) e opts) = e_seq e"
proof (induction opts arbitrary: e)
  case (Cons opt opts)
  moreover have "e_seq (apply_option opt e) = e_seq e" by (cases opt) simp_all
  ultimately show ?case by simp
qed simp

text \<open>
  Opening a directory that holds tables and no log, which is what a clean Close leaves, restarts
  the sequence numbers at zero, whatever the tables hold: the sequence numbers of their records are
  never read. Later writes get numbers below those of older records and lose against them.
\<close>

lemma open_without_log_forgets_sequence:
  assumes "Engine_Open env dir opts rnd durs d = (Inr e, d')" and "scanDir dir (snd (os_MkdirAll dir d)) = (Inr sc, d2)" and "ds_wals sc = []"
  shows "e_seq e = 0"
proof -
  obtain r1 d1 where mk: "os_MkdirAll dir d = (r1, d1)" by fastforce
  with assms(1) have "r1 = None" by (cases r1) (auto simp: Engine_Open_def)
  let ?e0 = "foldl (\<lambda>e opt. apply_option opt e) (blank_engine dir rnd durs d1) opts"
  obtain m reg where nm: "newEngineMetrics (e_reg ?e0) = (m, reg)" by fastforce
  let ?e2 = "?e0\<lparr>e_m := m, e_reg := reg, e_fs := d2\<rparr>"
  have fs: "e_fs ?e0 = d1"
    using blank_options [of dir d1 "blank_engine dir rnd durs d1" opts] by (simp add: blank_like_def blank_engine_def)
  then have o: "Open_start env sc ?e2 = (Inr e, d')"
    using assms(1,2) mk \<open>r1 = None\<close> nm by (simp add: Engine_Open_def on_fs_def Let_def)
  obtain r3 e3 where ot: "open_tables (ds_ssts sc) (?e2\<lparr>e_genCounter := ds_maxGen sc\<rparr>) = (r3, e3)" by fastforce
  have "e_seq e3 = 0" using open_tables_seq [OF ot] options_seq [of "blank_engine dir rnd durs d1" opts] by (simp add: blank_engine_def)
  with o ot assms(3) show ?thesis
    by (cases r3) (auto simp: Open_start_def recoverFromWALs_def nextGen_def on_fs_def new_memtable_def Let_def split: prod.splits sum.splits)
qed

end
