(* ===== verification/Scan.thy ===== *)
theory Scan
  imports History
begin

text \<open>
  The range scans of \<^verbatim>\<open>src/engine/engine.go\<close>: \<open>scanSource\<close> with its two kinds of source, the heap of
  the sources' heads, \<open>ScanIterator_Next\<close>, \<open>scanAt\<close> and its callers. A source belongs to the one heap
  item that came from it, so the item carries the source. After an error the popped source is gone
  from the heap, as in the code. The interface \<open>stream\<close> is what the merge relies on: a source
  returns the elements of a list one by one. It is interpreted on MemTable slices, on table ranges
  and on the sources of the engine. The theorem shows that a scan returns exactly the live keys
  of the interval, in order, each with the value a point read returns.
\<close>

section \<open>Definitions\<close>

subsection \<open>Sources\<close>

function memSlice_next :: "(bytes \<times> Entry) list \<Rightarrow> u64 \<Rightarrow> nat \<Rightarrow> (bytes \<times> Record) option \<times> nat" where
  "memSlice_next entries maxSeq idx =
     (if idx < length entries
      then let kv = entries ! idx
           in if ent_seq (snd kv) \<le> maxSeq
              then (Some (fst kv, \<lparr>rec_key = [], rec_value = ent_value (snd kv), rec_type = ent_type (snd kv), rec_seq = ent_seq (snd kv)\<rparr>), idx + 1)
              else memSlice_next entries maxSeq (idx + 1)
      else (None, idx))"
  by pat_completeness auto
termination
  by (relation "measure (\<lambda>(entries, maxSeq, idx). length entries - idx)") auto

declare memSlice_next.simps [simp del]

record memSliceSource =
  ms_entries :: "(bytes \<times> Entry) list"
  ms_idx :: nat
  ms_maxSeq :: u64

definition memSliceSource_next :: "memSliceSource \<Rightarrow> (error + (bytes \<times> Record) option) \<times> memSliceSource" where
  "memSliceSource_next s = (let (r, idx) = memSlice_next (ms_entries s) (ms_maxSeq s) (ms_idx s) in (Inr r, s\<lparr>ms_idx := idx\<rparr>))"

definition sstableRangeSource_next :: "env \<Rightarrow> RangeIterator \<Rightarrow> (error + (bytes \<times> Record) option) \<times> RangeIterator" where
  "sstableRangeSource_next env ri =
     (case RangeIterator_Next env ri of
        Inl x \<Rightarrow> (Inl x, ri)
      | Inr (None, ri') \<Rightarrow> (Inr None, ri')
      | Inr (Some r, ri') \<Rightarrow> (Inr (Some (rec_key r, r)), ri'))"

datatype scanSource = MemSlice memSliceSource | SstRange RangeIterator

fun source_next :: "env \<Rightarrow> scanSource \<Rightarrow> (error + (bytes \<times> Record) option) \<times> scanSource" where
  "source_next env (MemSlice s) = map_prod id MemSlice (memSliceSource_next s)"
| "source_next env (SstRange ri) = map_prod id SstRange (sstableRangeSource_next env ri)"

subsection \<open>The heap\<close>

record scanHeapItem =
  si_key :: bytes
  si_rec :: Record
  si_src :: scanSource

definition scanHeap_Less :: "scanHeapItem \<Rightarrow> scanHeapItem \<Rightarrow> bool" where
  "scanHeap_Less a b =
     (let c = bytes_Compare (si_key a) (si_key b)
      in if c \<noteq> 0 then c < 0 else rec_seq (si_rec a) > rec_seq (si_rec b))"

interpretation sh: lt_order scanHeap_Less
  by unfold_locales (auto simp: scanHeap_Less_def Let_def bytes_Compare_less bytes_Compare_eq split: if_splits)

text \<open>Pop the top item and push the next one of its source.\<close>

definition pull :: "env \<Rightarrow> scanHeapItem list \<Rightarrow> (error + bytes \<times> Record) \<times> scanHeapItem list" where
  "pull env h =
     (let (top, h1) = heap_Pop scanHeap_Less h
      in case source_next env (si_src top) of
           (Inl x, src) \<Rightarrow> (Inl x, h1)
         | (Inr None, src) \<Rightarrow> (Inr (si_key top, si_rec top), h1)
         | (Inr (Some (k, r)), src) \<Rightarrow>
             (Inr (si_key top, si_rec top), heap_Push scanHeap_Less h1 \<lparr>si_key = k, si_rec = r, si_src = src\<rparr>))"

text \<open>What a source has left bounds the number of elements it can still return.\<close>

fun source_left :: "scanSource \<Rightarrow> nat" where
  "source_left (MemSlice s) = length (ms_entries s) - ms_idx s"
| "source_left (SstRange ri) = length (tbl_index (ri_t ri)) - ri_idx ri"

definition scan_work :: "scanHeapItem list \<Rightarrow> nat" where
  "scan_work h = sum_list (map (\<lambda>m. Suc (source_left (si_src m))) h)"

lemma memSlice_next_left: "memSlice_next es q i = (Some x, j) \<Longrightarrow> i < j \<and> j \<le> length es"
proof (induction es q i rule: memSlice_next.induct)
  case (1 es q i)
  then show ?case by (subst (asm) (2) memSlice_next.simps) (auto simp: Let_def split: if_splits)
qed

lemma range_next_left: "range_next env t b q i = Inr (Some r, j) \<Longrightarrow> i < j \<and> i < length (tbl_index t)"
proof (induction env t b q i rule: range_next.induct)
  case (1 env t b q i)
  show ?case
  proof (cases "i < length (tbl_index t)")
    case True
    then obtain k f where g: "group_scan env t (ie_key (tbl_index t ! i)) q i None = Inr (k, f)"
      "(case f of Some r' \<Rightarrow> Inr (Some r', k) | None \<Rightarrow> range_next env t b q k) = Inr (Some r, j)"
      "\<not> (case b of None \<Rightarrow> False | Some b \<Rightarrow> bytes_Compare (ie_key (tbl_index t ! i)) b \<ge> 0)"
      using "1.prems" by (subst (asm) range_next.simps) (auto simp: Let_def split: if_splits sum.splits)
    have "i < k" by (rule group_scan_progress [OF g(1) True])
    then show ?thesis using g True "1.IH" [OF True refl g(3) g(1) refl] by (cases f) auto
  next
    case False
    then show ?thesis using "1.prems" by (simp add: range_next.simps)
  qed
qed

lemma source_next_left: "source_next env s = (Inr (Some x), s') \<Longrightarrow> source_left s' < source_left s"
proof (cases s)
  case (MemSlice m)
  assume "source_next env s = (Inr (Some x), s')"
  then show ?thesis
    using MemSlice memSlice_next_left [of "ms_entries m" "ms_maxSeq m" "ms_idx m"]
    by (fastforce simp: memSliceSource_next_def split: prod.splits)
next
  case (SstRange ri)
  assume a: "source_next env s = (Inr (Some x), s')"
  then obtain r ri' where "RangeIterator_Next env ri = Inr (Some r, ri')" "s' = SstRange ri'"
    using SstRange by (auto simp: sstableRangeSource_next_def split: sum.splits prod.splits option.splits)
  then show ?thesis using SstRange range_next_left [of env "ri_t ri" "ri_end ri" "ri_maxSeq ri" "ri_idx ri"]
    by (auto simp: RangeIterator_Next_def split: sum.splits)
qed

lemma scan_work_mset: "scan_work h = sum_mset (image_mset (\<lambda>m. Suc (source_left (si_src m))) (mset h))"
  by (simp add: scan_work_def sum_mset_sum_list flip: mset_map)

lemma pull_work:
  assumes "pull env h = (Inr x, h')" and "h \<noteq> []"
  shows "scan_work h' < scan_work h"
proof -
  obtain m h1 where p: "heap_Pop scanHeap_Less h = (m, h1)" by fastforce
  note M = sh.heap_Pop_mset [OF assms(2) p]
  obtain r src where n: "source_next env (si_src m) = (r, src)" by fastforce
  show ?thesis
    using assms(1) p n M source_next_left [of env "si_src m" _ src]
    by (auto simp: pull_def scan_work_mset sh.heap_Push_mset split: sum.splits option.splits)
qed

text \<open>The inner loop: the other heads with the same key.\<close>

function scan_dups :: "env \<Rightarrow> bytes \<Rightarrow> Record \<Rightarrow> scanHeapItem list \<Rightarrow> (error + Record) \<times> scanHeapItem list" where
  "scan_dups env key best h =
     (if length h > 0 \<and> si_key (h ! 0) = key
      then case pull env h of
             (Inl x, h1) \<Rightarrow> (Inl x, h1)
           | (Inr (k, r), h1) \<Rightarrow> scan_dups env key (if rec_seq r > rec_seq best then r else best) h1
      else (Inr best, h))"
  by pat_completeness auto
termination
  by (relation "measure (\<lambda>(env, key, best, h). scan_work h)") (auto intro: pull_work [OF sym])

declare scan_dups.simps [simp del]

lemma scan_dups_work: "scan_dups env key best h = (Inr b, h') \<Longrightarrow> scan_work h' \<le> scan_work h"
proof (induction env key best h rule: scan_dups.induct)
  case (1 env key best h)
  show ?case
  proof (cases "length h > 0 \<and> si_key (h ! 0) = key")
    case True
    then obtain k r h1 where t: "pull env h = (Inr (k, r), h1)" "scan_dups env key (if rec_seq r > rec_seq best then r else best) h1 = (Inr b, h')"
      using "1.prems" by (auto simp: scan_dups.simps [of env key best h] split: prod.splits sum.splits)
    have "scan_work h' \<le> scan_work h1" by (rule "1.IH" [OF True t(1) [symmetric] refl refl]) (rule t(2))
    moreover have "scan_work h1 < scan_work h" using pull_work [OF t(1)] True by simp
    ultimately show ?thesis by simp
  next
    case False
    with "1.prems" show ?thesis by (auto simp: scan_dups.simps [of env key best h] split: if_splits)
  qed
qed

text \<open>The outer loop: keys whose newest version is a tombstone are skipped.\<close>

function scan_best :: "env \<Rightarrow> scanHeapItem list \<Rightarrow> (error + (bytes \<times> Record) option) \<times> scanHeapItem list" where
  "scan_best env h =
     (if length h > 0
      then case pull env h of
             (Inl x, h1) \<Rightarrow> (Inl x, h1)
           | (Inr (key, r), h1) \<Rightarrow>
               (case scan_dups env key r h1 of
                  (Inl x, h2) \<Rightarrow> (Inl x, h2)
                | (Inr best, h2) \<Rightarrow>
                    if rec_type best = TypeTombstone then scan_best env h2
                    else (Inr (Some (key, best)), h2))
      else (Inr None, h))"
  by pat_completeness auto
termination
  by (relation "measure (\<lambda>(env, h). scan_work h)") (auto dest!: scan_dups_work [OF sym] pull_work [OF sym] intro: le_less_trans)

declare scan_best.simps [simp del]

text \<open>
  The value of the record that was found, as the slice the iterator returns: \<open>None\<close> is nil. An empty
  value is nil in a MemTable, which copies it with \<^verbatim>\<open>append([]byte(nil), value...)\<close>, and a slice of
  length 0 in a table, where it is cut from the body that was read. The records of a MemTable source
  are those without a key.
\<close>

definition value_slice :: "Record \<Rightarrow> bytes option" where
  "value_slice r = (if rec_value r = [] \<and> rec_key r = [] then None else Some (rec_value r))"

definition slice_bytes :: "bytes option \<Rightarrow> bytes" where
  "slice_bytes v = (case v of None \<Rightarrow> [] | Some b \<Rightarrow> b)"

lemma slice_bytes_value [simp]: "slice_bytes (value_slice r) = rec_value r"
  by (simp add: slice_bytes_def value_slice_def)

text \<open>The same for a caller that does not tell nil from empty.\<close>

definition scan_next :: "env \<Rightarrow> scanHeapItem list \<Rightarrow> (error + (bytes \<times> bytes) option) \<times> scanHeapItem list" where
  "scan_next env h = apfst (map_sum id (map_option (apsnd rec_value))) (scan_best env h)"

lemma scan_next_simps:
  "scan_next env h =
     (if length h > 0
      then case pull env h of
             (Inl x, h1) \<Rightarrow> (Inl x, h1)
           | (Inr (key, r), h1) \<Rightarrow>
               (case scan_dups env key r h1 of
                  (Inl x, h2) \<Rightarrow> (Inl x, h2)
                | (Inr best, h2) \<Rightarrow>
                    if rec_type best = TypeTombstone then scan_next env h2
                    else (Inr (Some (key, rec_value best)), h2))
      else (Inr None, h))"
  by (subst (1) scan_next_def, subst scan_best.simps) (simp add: scan_next_def split: prod.split sum.split)

subsection \<open>The iterator and its callers\<close>

record ScanIterator =
  it_heap :: "scanHeapItem list"
  it_tables :: "nat list"
  it_closed :: bool

definition ScanIterator_NextSlice :: "env \<Rightarrow> ScanIterator \<Rightarrow> (error + (bytes \<times> bytes option) option) \<times> ScanIterator" where
  "ScanIterator_NextSlice env it =
     (let (r, h) = scan_best env (it_heap it) in (map_sum id (map_option (apsnd value_slice)) r, it\<lparr>it_heap := h\<rparr>))"

definition ScanIterator_Next :: "env \<Rightarrow> ScanIterator \<Rightarrow> (error + (bytes \<times> bytes) option) \<times> ScanIterator" where
  "ScanIterator_Next env it = (let (r, h) = scan_next env (it_heap it) in (r, it\<lparr>it_heap := h\<rparr>))"

lemma ScanIterator_Next_slice:
  "ScanIterator_Next env it = apfst (map_sum id (map_option (apsnd slice_bytes))) (ScanIterator_NextSlice env it)"
  by (auto simp: ScanIterator_Next_def ScanIterator_NextSlice_def scan_next_def Let_def sum.map_comp option.map_comp comp_def
      map_prod_def apsnd_def intro!: sum.map_cong option.map_cong split: prod.splits)

definition ScanIterator_Close :: "ScanIterator \<Rightarrow> Engine \<Rightarrow> ScanIterator \<times> Engine" where
  "ScanIterator_Close it e =
     (if it_closed it then (it, e) else (it\<lparr>it_closed := True\<rparr>, releaseAll (it_tables it) e))"

definition pushSource :: "env \<Rightarrow> scanSource \<Rightarrow> scanHeapItem list \<Rightarrow> error + scanHeapItem list" where
  "pushSource env src h =
     (case source_next env src of
        (Inl x, src') \<Rightarrow> Inl x
      | (Inr None, src') \<Rightarrow> Inr h
      | (Inr (Some (k, r)), src') \<Rightarrow> Inr (heap_Push scanHeap_Less h \<lparr>si_key = k, si_rec = r, si_src = src'\<rparr>))"

fun pushAll :: "env \<Rightarrow> (string \<times> scanSource) list \<Rightarrow> scanHeapItem list \<Rightarrow> error + scanHeapItem list" where
  "pushAll env [] h = Inr h"
| "pushAll env ((msg, src) # srcs) h =
     (case pushSource env src h of Inl x \<Rightarrow> Inl (EWrap msg x) | Inr h' \<Rightarrow> pushAll env srcs h')"

definition scan_sources :: "bytes option \<Rightarrow> bytes option \<Rightarrow> u64 \<Rightarrow> reader \<Rightarrow> Engine \<Rightarrow> (string \<times> scanSource) list" where
  "scan_sources start end maxSeq rd e =
     (''engine: scanning memtable'', MemSlice \<lparr>ms_entries = MemTable_Range (e_mems e ! rd_mt rd) start end, ms_idx = 0, ms_maxSeq = maxSeq\<rparr>) #
     map (\<lambda>i. (''engine: scanning immutable memtable'',
            MemSlice \<lparr>ms_entries = MemTable_Range (e_mems e ! im_mt i) start end, ms_idx = 0, ms_maxSeq = maxSeq\<rparr>)) (rd_imm rd) @
     map (\<lambda>p. (''engine: scanning sstable'', SstRange (NewRangeIterator (e_heap e ! p) start end maxSeq))) (rd_tables rd)"

definition scanAt :: "env \<Rightarrow> bytes option \<Rightarrow> bytes option \<Rightarrow> u64 \<Rightarrow> Engine \<Rightarrow> (error + ScanIterator) \<times> Engine" where
  "scanAt env start end maxSeq e =
     (case getAt_begin e of
        (Inl x, e1) \<Rightarrow> (Inl x, e1)
      | (Inr rd, e1) \<Rightarrow>
          (case pushAll env (scan_sources start end maxSeq rd e1) (heap_Init scanHeap_Less []) of
             Inl x \<Rightarrow> (Inl x, releaseAll (rd_tables rd) e1)
           | Inr h \<Rightarrow> (Inr \<lparr>it_heap = h, it_tables = rd_tables rd, it_closed = False\<rparr>, e1)))"

definition Engine_Scan :: "env \<Rightarrow> bytes option \<Rightarrow> bytes option \<Rightarrow> Engine \<Rightarrow> (error + ScanIterator) \<times> Engine" where
  "Engine_Scan env start end e = scanAt env start end unboundedSeq (Inc (em_scanTotal (e_m e)) e)"

definition Snapshot_Scan :: "env \<Rightarrow> Snapshot \<Rightarrow> bytes option \<Rightarrow> bytes option \<Rightarrow> Engine \<Rightarrow> (error + ScanIterator) \<times> Engine" where
  "Snapshot_Scan env s start end e = scanAt env start end (sn_seq s) (Inc (em_scanTotal (e_m e)) e)"

section \<open>Sources as streams\<close>

locale stream =
  fixes nxt :: "'s \<Rightarrow> (error + 'x option) \<times> 's" and yields :: "'s \<Rightarrow> 'x list \<Rightarrow> bool"
  assumes nxt_Nil: "yields s [] \<Longrightarrow> \<exists>s'. nxt s = (Inr None, s')"
    and nxt_Cons: "yields s (x # xs) \<Longrightarrow> \<exists>s'. nxt s = (Inr (Some x), s') \<and> yields s' xs"
begin

primrec collect :: "nat \<Rightarrow> 's \<Rightarrow> 'x list" where
  "collect 0 s = []"
| "collect (Suc n) s = (case nxt s of (Inr (Some x), s') \<Rightarrow> x # collect n s' | _ \<Rightarrow> [])"

lemma collect_yields: "yields s xs \<Longrightarrow> length xs \<le> n \<Longrightarrow> collect n s = xs"
proof (induction n arbitrary: s xs)
  case (Suc n)
  show ?case
  proof (cases xs)
    case Nil
    with nxt_Nil [of s] Suc.prems show ?thesis by auto
  next
    case (Cons x xs')
    with nxt_Cons [of s x xs'] Suc.prems obtain s' where "nxt s = (Inr (Some x), s')" "yields s' xs'" by auto
    with Suc Cons show ?thesis by simp
  qed
qed simp

end

definition slice_pair :: "bytes \<times> Entry \<Rightarrow> bytes \<times> Record" where
  "slice_pair kv = (fst kv, \<lparr>rec_key = [], rec_value = ent_value (snd kv), rec_type = ent_type (snd kv), rec_seq = ent_seq (snd kv)\<rparr>)"

definition slice_yields :: "memSliceSource \<Rightarrow> (bytes \<times> Record) list \<Rightarrow> bool" where
  "slice_yields s xs \<longleftrightarrow> xs = map slice_pair (filter (\<lambda>kv. ent_seq (snd kv) \<le> ms_maxSeq s) (drop (ms_idx s) (ms_entries s)))"

lemma memSlice_next_view:
  "fst (memSlice_next es q i) = (case filter (\<lambda>kv. ent_seq (snd kv) \<le> q) (drop i es) of [] \<Rightarrow> None | kv # kvs \<Rightarrow> Some (slice_pair kv)) \<and>
   filter (\<lambda>kv. ent_seq (snd kv) \<le> q) (drop (snd (memSlice_next es q i)) es) = tl (filter (\<lambda>kv. ent_seq (snd kv) \<le> q) (drop i es))"
proof (induction es q i rule: memSlice_next.induct)
  case (1 es q i)
  show ?case
  proof (cases "i < length es")
    case True
    then have d: "drop i es = es ! i # drop (Suc i) es" by (simp add: Cons_nth_drop_Suc)
    show ?thesis
    proof (cases "ent_seq (snd (es ! i)) \<le> q")
      case le: True
      have "memSlice_next es q i = (Some (slice_pair (es ! i)), i + 1)"
        using True le by (simp add: memSlice_next.simps [of es q i] slice_pair_def Let_def)
      then show ?thesis using le by (simp add: d)
    next
      case False
      have "memSlice_next es q i = memSlice_next es q (i + 1)" using True False by (simp add: memSlice_next.simps [of es q i] Let_def)
      then show ?thesis using "1.IH" [OF True refl False] False by (simp add: d)
    qed
  next
    case False
    then show ?thesis by (simp add: memSlice_next.simps [of es q i])
  qed
qed

interpretation sl: stream memSliceSource_next slice_yields
proof
  fix s :: memSliceSource and x and xs :: "(bytes \<times> Record) list"
  note V = memSlice_next_view [of "ms_entries s" "ms_maxSeq s" "ms_idx s"]
  show "\<exists>s'. memSliceSource_next s = (Inr None, s')" if "slice_yields s []"
  proof -
    have f: "filter (\<lambda>kv. ent_seq (snd kv) \<le> ms_maxSeq s) (drop (ms_idx s) (ms_entries s)) = []" using that by (simp add: slice_yields_def)
    have "fst (memSlice_next (ms_entries s) (ms_maxSeq s) (ms_idx s)) = None" using V unfolding f by simp
    then show ?thesis by (cases "memSlice_next (ms_entries s) (ms_maxSeq s) (ms_idx s)") (simp add: memSliceSource_next_def)
  qed
  show "\<exists>s'. memSliceSource_next s = (Inr (Some x), s') \<and> slice_yields s' xs" if y: "slice_yields s (x # xs)"
  proof -
    obtain kv kvs where k: "filter (\<lambda>kv. ent_seq (snd kv) \<le> ms_maxSeq s) (drop (ms_idx s) (ms_entries s)) = kv # kvs" "x = slice_pair kv" "xs = map slice_pair kvs"
      using y by (auto simp: slice_yields_def)
    obtain r j where n: "memSlice_next (ms_entries s) (ms_maxSeq s) (ms_idx s) = (r, j)" by fastforce
    with V k have "r = Some x" "filter (\<lambda>kv. ent_seq (snd kv) \<le> ms_maxSeq s) (drop j (ms_entries s)) = kvs" by auto
    with n k(3) show ?thesis by (simp add: memSliceSource_next_def slice_yields_def)
  qed
qed

definition range_yields :: "env \<Rightarrow> RangeIterator \<Rightarrow> (bytes \<times> Record) list \<Rightarrow> bool" where
  "range_yields env ri xs \<longleftrightarrow> env_ok env \<and> (\<exists>c rs v. ranging env c rs v ri \<and> xs = map (\<lambda>r. (rec_key r, r)) v)"

interpretation tr: stream "sstableRangeSource_next env" "range_yields env" for env
proof
  fix ri x and xs :: "(bytes \<times> Record) list"
  show "\<exists>ri'. sstableRangeSource_next env ri = (Inr None, ri')" if "range_yields env ri []"
    using that RangeIterator_Next_view [of env _ _ "[]" ri] by (fastforce simp: range_yields_def sstableRangeSource_next_def)
  show "\<exists>ri'. sstableRangeSource_next env ri = (Inr (Some x), ri') \<and> range_yields env ri' xs" if "range_yields env ri (x # xs)"
    using that RangeIterator_Next_view [of env _ _ _ ri] by (fastforce simp: range_yields_def sstableRangeSource_next_def)
qed

fun source_yields :: "env \<Rightarrow> scanSource \<Rightarrow> (bytes \<times> Record) list \<Rightarrow> bool" where
  "source_yields env (MemSlice s) xs = slice_yields s xs"
| "source_yields env (SstRange ri) xs = range_yields env ri xs"

interpretation ss: stream "source_next env" "source_yields env" for env
proof
  fix s x and xs :: "(bytes \<times> Record) list"
  show "\<exists>s'. source_next env s = (Inr None, s')" if "source_yields env s []"
    using that sl.nxt_Nil tr.nxt_Nil by (cases s) fastforce+
  show "\<exists>s'. source_next env s = (Inr (Some x), s') \<and> source_yields env s' xs" if "source_yields env s (x # xs)"
    using that sl.nxt_Cons [of _ x xs] tr.nxt_Cons [of env _ x xs] by (cases s) (fastforce dest: sl.nxt_Cons tr.nxt_Cons)+
qed

lemma newest_length: "length (newest xs) \<le> length xs"
  by (induction xs rule: newest.induct) (auto intro: order_trans [OF _ length_dropWhile_le])

lemma view_length: "length (view b q rs) \<le> length rs"
  unfolding view_def by (meson newest_length length_filter_le length_takeWhile_le order_trans)

lemma source_yields_left: "source_yields env s xs \<Longrightarrow> length xs \<le> source_left s"
proof (cases s)
  case (MemSlice m)
  assume "source_yields env s xs"
  then show ?thesis using MemSlice length_filter_le [of _ "drop (ms_idx m) (ms_entries m)"] by (auto simp: slice_yields_def)
next
  case (SstRange ri)
  assume "source_yields env s xs"
  then obtain c rs v where "ranging env c rs v ri" "length xs = length v" using SstRange by (auto simp: range_yields_def)
  then show ?thesis
    using SstRange view_length [of "ri_end ri" "ri_maxSeq ri" "drop (ri_idx ri) rs"] opened_length [of env c rs "ri_t ri"] by (auto simp: ranging_def)
qed

text \<open>What a source will still return.\<close>

definition rest :: "env \<Rightarrow> scanSource \<Rightarrow> (bytes \<times> Record) list" where
  "rest env s = ss.collect env (source_left s) s"

lemma rest_yields: "source_yields env s xs \<Longrightarrow> rest env s = xs"
  unfolding rest_def by (rule ss.collect_yields) (auto intro: source_yields_left)

section \<open>The merge of the sources\<close>

definition pending :: "env \<Rightarrow> scanHeapItem \<Rightarrow> (bytes \<times> Record) list" where
  "pending env m = (si_key m, si_rec m) # rest env (si_src m)"

definition item_ok :: "env \<Rightarrow> scanHeapItem \<Rightarrow> bool" where
  "item_ok env m \<longleftrightarrow> source_yields env (si_src m) (rest env (si_src m)) \<and> sorted_wrt (<) (map fst (pending env m))"

definition scan_ok :: "env \<Rightarrow> scanHeapItem list \<Rightarrow> bool" where
  "scan_ok env h \<longleftrightarrow> is_heap scanHeap_Less (length h) h \<and> (\<forall>m \<in> set h. item_ok env m)"

definition held :: "env \<Rightarrow> scanHeapItem list \<Rightarrow> (bytes \<times> Record) multiset" where
  "held env h = sum_mset (image_mset (\<lambda>m. mset (pending env m)) (mset h))"

lemma in_held: "x \<in># held env h \<longleftrightarrow> (\<exists>m \<in> set h. x \<in> set (pending env m))"
  by (auto simp: held_def)

lemma push_ok:
  assumes "scan_ok env h" and "item_ok env m"
  shows "scan_ok env (heap_Push scanHeap_Less h m)" and "held env (heap_Push scanHeap_Less h m) = mset (pending env m) + held env h"
proof -
  have "set (heap_Push scanHeap_Less h m) = insert m (set h)" by (metis sh.heap_Push_mset set_mset_add_mset_insert set_mset_mset)
  then show "scan_ok env (heap_Push scanHeap_Less h m)" using assms sh.heap_Push_heap by (auto simp: scan_ok_def)
  show "held env (heap_Push scanHeap_Less h m) = mset (pending env m) + held env h" by (simp add: held_def sh.heap_Push_mset)
qed

lemma item_next:
  assumes "item_ok env m"
  shows "rest env (si_src m) = [] \<Longrightarrow> \<exists>s'. source_next env (si_src m) = (Inr None, s')"
    and "rest env (si_src m) = (k, r) # xs \<Longrightarrow> \<exists>s'. source_next env (si_src m) = (Inr (Some (k, r)), s') \<and>
      item_ok env \<lparr>si_key = k, si_rec = r, si_src = s'\<rparr> \<and> pending env m = (si_key m, si_rec m) # pending env \<lparr>si_key = k, si_rec = r, si_src = s'\<rparr>"
proof -
  have y: "source_yields env (si_src m) (rest env (si_src m))" and srt: "sorted_wrt (<) (map fst (pending env m))"
    using assms by (auto simp: item_ok_def)
  show "rest env (si_src m) = [] \<Longrightarrow> \<exists>s'. source_next env (si_src m) = (Inr None, s')" using y ss.nxt_Nil by simp
  assume c: "rest env (si_src m) = (k, r) # xs"
  with y ss.nxt_Cons obtain s' where s': "source_next env (si_src m) = (Inr (Some (k, r)), s')" "source_yields env s' xs" by fastforce
  have "rest env s' = xs" by (rule rest_yields [OF s'(2)])
  then show "\<exists>s'. source_next env (si_src m) = (Inr (Some (k, r)), s') \<and>
      item_ok env \<lparr>si_key = k, si_rec = r, si_src = s'\<rparr> \<and> pending env m = (si_key m, si_rec m) # pending env \<lparr>si_key = k, si_rec = r, si_src = s'\<rparr>"
    using s' srt c by (auto simp: item_ok_def pending_def)
qed

lemma pull_ok:
  assumes "scan_ok env h" and "h \<noteq> []"
  obtains h' where "pull env h = (Inr (si_key (h ! 0), si_rec (h ! 0)), h')" and "scan_ok env h'"
    and "held env h = add_mset (si_key (h ! 0), si_rec (h ! 0)) (held env h')"
proof -
  obtain m h1 where p: "heap_Pop scanHeap_Less h = (m, h1)" by fastforce
  have ih: "is_heap scanHeap_Less (length h) h" using assms(1) by (simp add: scan_ok_def)
  note P = sh.heap_Pop_correct [OF ih assms(2) p]
  have set: "set h = insert m (set h1)" using P(2) by (metis set_mset_add_mset_insert set_mset_mset)
  have m: "item_ok env m" and ok1: "scan_ok env h1" using assms(1) set P(3) by (auto simp: scan_ok_def)
  have tot: "held env h = mset (pending env m) + held env h1" by (simp add: held_def P(2))
  show thesis
  proof (cases "rest env (si_src m)")
    case Nil
    then show thesis using item_next(1) [OF m] p P(1) ok1 tot by (intro that [of h1]) (auto simp: pull_def pending_def)
  next
    case (Cons x xs)
    obtain k r where "x = (k, r)" by fastforce
    with item_next(2) [OF m] Cons obtain s' where s': "source_next env (si_src m) = (Inr (Some (k, r)), s')"
      "item_ok env \<lparr>si_key = k, si_rec = r, si_src = s'\<rparr>" "pending env m = (si_key m, si_rec m) # pending env \<lparr>si_key = k, si_rec = r, si_src = s'\<rparr>" by blast
    note Q = push_ok [OF ok1 s'(2)]
    show thesis using p P(1) s' Q tot by (intro that [of "heap_Push scanHeap_Less h1 \<lparr>si_key = k, si_rec = r, si_src = s'\<rparr>"]) (auto simp: pull_def)
  qed
qed

lemma scanHeap_Less_iff: "scanHeap_Less a b \<longleftrightarrow> si_key a < si_key b \<or> si_key a = si_key b \<and> rec_seq (si_rec b) < rec_seq (si_rec a)"
  by (auto simp: scanHeap_Less_def Let_def bytes_Compare_less bytes_Compare_eq)

lemma top_least:
  assumes "scan_ok env h" and "h \<noteq> []" and "(k, r) \<in># held env h"
  shows "si_key (h ! 0) \<le> k"
proof -
  obtain m where m: "m \<in> set h" "(k, r) \<in> set (pending env m)" using assms(3) by (auto simp: in_held)
  have "sorted_wrt (<) (map fst (pending env m))" using assms(1) m(1) by (auto simp: scan_ok_def item_ok_def)
  then have "si_key m \<le> k" using m(2) by (auto simp: pending_def)
  moreover obtain i where "i < length h" "m = h ! i" using m(1) by (auto simp: in_set_conv_nth)
  then have "\<not> scanHeap_Less m (h ! 0)" using sh.heap_root_least [of "length h" h i] assms(1) by (simp add: scan_ok_def)
  ultimately show ?thesis unfolding scanHeap_Less_iff by auto
qed

lemma held_Nil: "held env h = {#} \<longleftrightarrow> h = []"
  by (cases h) (auto simp: held_def pending_def)

lemma scan_dups_ok:
  assumes "scan_ok env h" and "\<forall>x \<in># held env h. key \<le> fst x"
  shows "\<exists>b h' G. scan_dups env key best h = (Inr b, h') \<and> scan_ok env h' \<and> held env h = G + held env h' \<and>
    (\<forall>x \<in># G. fst x = key) \<and> (\<forall>x \<in># held env h'. key < fst x) \<and>
    b \<in> insert best (snd ` set_mset G) \<and> rec_seq best \<le> rec_seq b \<and> (\<forall>x \<in># G. rec_seq (snd x) \<le> rec_seq b)"
  using assms
proof (induction "scan_work h" arbitrary: h best rule: less_induct)
  case less
  show ?case
  proof (cases "h \<noteq> [] \<and> si_key (h ! 0) = key")
    case True
    then obtain h1 where p: "pull env h = (Inr (key, si_rec (h ! 0)), h1)" "scan_ok env h1" "held env h = add_mset (key, si_rec (h ! 0)) (held env h1)"
      using pull_ok [OF less.prems(1)] by metis
    let ?r = "si_rec (h ! 0)" and ?b = "if rec_seq (si_rec (h ! 0)) > rec_seq best then si_rec (h ! 0) else best"
    have w: "scan_work h1 < scan_work h" using pull_work [OF p(1)] True by blast
    have ge: "\<forall>x \<in># held env h1. key \<le> fst x" using less.prems(2) p(3) by simp
    obtain b h' G where I: "scan_dups env key ?b h1 = (Inr b, h')" "scan_ok env h'" "held env h1 = G + held env h'"
      "\<forall>x \<in># G. fst x = key" "\<forall>x \<in># held env h'. key < fst x" "b \<in> insert ?b (snd ` set_mset G)" "rec_seq ?b \<le> rec_seq b"
      "\<forall>x \<in># G. rec_seq (snd x) \<le> rec_seq b"
      using less.hyps [OF w p(2) ge, where best = ?b] by (elim exE conjE) (rule that, assumption+)
    have "scan_dups env key best h = (Inr b, h')" using True p(1) I(1) by (simp add: scan_dups.simps [of env key best h])
    moreover have "held env h = add_mset (key, ?r) G + held env h'" using p(3) I(3) by simp
    moreover have "rec_seq best \<le> rec_seq b" "rec_seq ?r \<le> rec_seq b" using I(7) by (auto split: if_splits)
    moreover have "b \<in> insert best (snd ` set_mset (add_mset (key, ?r) G))" using I(6) by (auto split: if_splits)
    ultimately show ?thesis using I(2,4,5,8) by (intro exI [of _ b] exI [of _ h'] exI [of _ "add_mset (key, ?r) G"]) auto
  next
    case False
    then have d: "scan_dups env key best h = (Inr best, h)" by (auto simp: scan_dups.simps [of env key best h])
    have "key < k" if x: "(k, r) \<in># held env h" for k r
    proof -
      have "h \<noteq> []" using x held_Nil [of env h] by auto
      then have "(si_key (h ! 0), si_rec (h ! 0)) \<in># held env h" by (auto simp: in_held pending_def intro!: bexI [of _ "h ! 0"])
      with less.prems(2) have "key \<le> si_key (h ! 0)" by force
      moreover have "si_key (h ! 0) \<le> k" by (rule top_least [OF less.prems(1) \<open>h \<noteq> []\<close> x])
      ultimately show ?thesis using False \<open>h \<noteq> []\<close> by auto
    qed
    with d less.prems(1) show ?thesis by (intro exI [of _ best] exI [of _ h] exI [of _ "{#}"]) auto
  qed
qed

text \<open>The newest pair of a key; pairs of one key and sequence number agree on the value.\<close>

definition top_of :: "(bytes \<times> Record) multiset \<Rightarrow> bytes \<Rightarrow> Record \<Rightarrow> bool" where
  "top_of M k r \<longleftrightarrow> (k, r) \<in># M \<and> (\<forall>r'. (k, r') \<in># M \<longrightarrow> rec_seq r' \<le> rec_seq r)"

definition agreeing :: "(bytes \<times> Record) multiset \<Rightarrow> bool" where
  "agreeing M \<longleftrightarrow> (\<forall>k r r'. (k, r) \<in># M \<and> (k, r') \<in># M \<and> rec_seq r = rec_seq r' \<longrightarrow> value_of (Some r) = value_of (Some r'))"

definition live :: "(bytes \<times> Record) multiset \<Rightarrow> bytes \<Rightarrow> bytes \<Rightarrow> bool" where
  "live M k v \<longleftrightarrow> (\<exists>r. top_of M k r \<and> value_of (Some r) = Some v)"

lemma top_value: "agreeing M \<Longrightarrow> top_of M k r \<Longrightarrow> top_of M k r' \<Longrightarrow> value_of (Some r) = value_of (Some r')"
  unfolding agreeing_def top_of_def by (metis order_antisym)

lemma live_iff: "agreeing M \<Longrightarrow> top_of M k r \<Longrightarrow> live M k v \<longleftrightarrow> value_of (Some r) = Some v"
  unfolding live_def using top_value by metis

lemma live_split:
  assumes "\<forall>x \<in># G. fst x = key" and "k \<noteq> key"
  shows "live (G + M) k v \<longleftrightarrow> live M k v"
proof -
  have "(k, r) \<in># G + M \<longleftrightarrow> (k, r) \<in># M" for r using assms by auto
  then show ?thesis by (simp add: live_def top_of_def)
qed

text \<open>One key leaves the heap.\<close>

lemma scan_group:
  assumes "scan_ok env h" and "h \<noteq> []" and "agreeing (held env h)"
  obtains key r h1 b h2 G where "pull env h = (Inr (key, r), h1)" and "scan_dups env key r h1 = (Inr b, h2)" and "scan_ok env h2"
    and "held env h = G + held env h2" and "\<forall>x \<in># G. fst x = key" and "\<forall>x \<in># held env h2. key < fst x" and "G \<noteq> {#}"
    and "\<And>v. live (held env h) key v \<longleftrightarrow> value_of (Some b) = Some v"
proof -
  obtain h1 where p: "pull env h = (Inr (si_key (h ! 0), si_rec (h ! 0)), h1)" "scan_ok env h1"
    "held env h = add_mset (si_key (h ! 0), si_rec (h ! 0)) (held env h1)" by (rule pull_ok [OF assms(1,2)])
  let ?k = "si_key (h ! 0)" and ?r = "si_rec (h ! 0)"
  have "?k \<le> fst x" if "x \<in># held env h1" for x using top_least [OF assms(1,2), of "fst x" "snd x"] that p(3) by simp
  then have ge: "\<forall>x \<in># held env h1. ?k \<le> fst x" by blast
  obtain b h2 G where D: "scan_dups env ?k ?r h1 = (Inr b, h2)" "scan_ok env h2" "held env h1 = G + held env h2"
    "\<forall>x \<in># G. fst x = ?k" "\<forall>x \<in># held env h2. ?k < fst x" "b \<in> insert ?r (snd ` set_mset G)" "rec_seq ?r \<le> rec_seq b"
    "\<forall>x \<in># G. rec_seq (snd x) \<le> rec_seq b" using scan_dups_ok [OF p(2) ge, where best = ?r] by blast
  let ?G = "add_mset (?k, ?r) G"
  have H: "held env h = ?G + held env h2" using p(3) D(3) by simp
  have in_G: "(?k, r) \<in># held env h \<longleftrightarrow> (?k, r) \<in># ?G" for r using H D(5) by auto
  moreover have "(?k, b) \<in># ?G" using D(4,6) by force
  moreover have "rec_seq r \<le> rec_seq b" if "(?k, r) \<in># ?G" for r using that D(7,8) by auto
  ultimately have "top_of (held env h) ?k b" by (simp add: top_of_def)
  then have "live (held env h) ?k v \<longleftrightarrow> value_of (Some b) = Some v" for v by (rule live_iff [OF assms(3)])
  with p(1) D(1,2,4,5) H show thesis by (intro that [of ?k ?r h1 b h2 ?G]) auto
qed

lemma agreeing_sub: "agreeing (G + M) \<Longrightarrow> agreeing M"
  by (auto simp: agreeing_def)

lemma scan_next_ok:
  assumes "scan_ok env h" and "agreeing (held env h)"
  shows "(\<exists>h'. scan_next env h = (Inr None, h') \<and> (\<forall>k v. \<not> live (held env h) k v)) \<or>
    (\<exists>k v h' G. scan_next env h = (Inr (Some (k, v)), h') \<and> scan_ok env h' \<and> held env h = G + held env h' \<and> G \<noteq> {#} \<and>
       live (held env h) k v \<and> (\<forall>x \<in># G. fst x \<le> k) \<and> (\<forall>x \<in># held env h'. k < fst x) \<and>
       (\<forall>k' v'. live (held env h) k' v' \<longrightarrow> k' = k \<or> live (held env h') k' v'))"
  using assms
proof (induction "scan_work h" arbitrary: h rule: less_induct)
  case less
  show ?case
  proof (cases "h = []")
    case True
    then have "scan_next env h = (Inr None, h)" "\<not> live (held env h) k v" for k v
      by (simp_all add: scan_next_simps [of env "[]"] live_def top_of_def held_def)
    then show ?thesis by blast
  next
    case False
    obtain key r h1 b h2 G where g: "pull env h = (Inr (key, r), h1)" "scan_dups env key r h1 = (Inr b, h2)" "scan_ok env h2"
      "held env h = G + held env h2" "\<forall>x \<in># G. fst x = key" "\<forall>x \<in># held env h2. key < fst x" "G \<noteq> {#}"
      "\<And>v. live (held env h) key v \<longleftrightarrow> value_of (Some b) = Some v" by (rule scan_group [OF less.prems(1) False less.prems(2)]) blast
    have other: "live (held env h) k v \<longleftrightarrow> live (held env h2) k v" if "k \<noteq> key" for k v using live_split [OF g(5) that] g(4) by simp
    have not_key: "\<not> live (held env h2) key v" for v using g(6) by (auto simp: live_def top_of_def)
    have w: "scan_work h2 < scan_work h" using pull_work [OF g(1) False] scan_dups_work [OF g(2)] by simp
    show ?thesis
    proof (cases "rec_type b = TypeTombstone")
      case True
      then have "value_of (Some b) = None" by (simp add: value_of_def)
      then have same: "live (held env h) k v \<longleftrightarrow> live (held env h2) k v" for k v using g(8) other not_key by (cases "k = key") auto
      have step: "scan_next env h = scan_next env h2" using False True g(1,2) by (simp add: scan_next_simps [of env h])
      have A: "agreeing (held env h2)" using less.prems(2) agreeing_sub g(4) by metis
      consider "\<exists>h'. scan_next env h2 = (Inr None, h') \<and> (\<forall>k v. \<not> live (held env h2) k v)"
        | k v h' G' where "scan_next env h2 = (Inr (Some (k, v)), h')" "scan_ok env h'" "held env h2 = G' + held env h'" "live (held env h2) k v"
            "\<forall>x \<in># G'. fst x \<le> k" "\<forall>x \<in># held env h'. k < fst x" "\<forall>k' v'. live (held env h2) k' v' \<longrightarrow> k' = k \<or> live (held env h') k' v'"
        using less.hyps [OF w g(3) A] by blast
      then show ?thesis
      proof cases
        case 1
        then show ?thesis using step same by simp
      next
        case 2
        have "key < k" using 2(4) g(6) by (auto simp: live_def top_of_def)
        then have "\<forall>x \<in># G + G'. fst x \<le> k" using 2(5) g(5) by auto
        moreover have "held env h = (G + G') + held env h'" using g(4) 2(3) by simp
        ultimately show ?thesis using 2 step same g(7) by (intro disjI2 exI [of _ k] exI [of _ v] exI [of _ h'] exI [of _ "G + G'"]) auto
      qed
    next
      case nt: False
      have step: "scan_next env h = (Inr (Some (key, rec_value b)), h2)" using False nt g(1,2) by (simp add: scan_next_simps [of env h])
      have lv: "live (held env h) key (rec_value b)" using g(8) nt by (simp add: value_of_def)
      have "\<forall>k' v'. live (held env h) k' v' \<longrightarrow> k' = key \<or> live (held env h2) k' v'" using other by blast
      with step lv g(3-7) show ?thesis
        by (intro disjI2 exI [of _ key] exI [of _ "rec_value b"] exI [of _ h2] exI [of _ G]) auto
    qed
  qed
qed

section \<open>Running a scan to its end\<close>

fun scan_all :: "env \<Rightarrow> nat \<Rightarrow> ScanIterator \<Rightarrow> (error + (bytes \<times> bytes) list) \<times> ScanIterator" where
  "scan_all env 0 it = (Inr [], it)"
| "scan_all env (Suc n) it =
     (case ScanIterator_Next env it of
        (Inl x, it') \<Rightarrow> (Inl x, it')
      | (Inr None, it') \<Rightarrow> (Inr [], it')
      | (Inr (Some kv), it') \<Rightarrow> (case scan_all env n it' of (Inl x, it'') \<Rightarrow> (Inl x, it'') | (Inr kvs, it'') \<Rightarrow> (Inr (kv # kvs), it'')))"

lemma live_above:
  assumes "\<forall>x \<in># G. fst x \<le> k" and "k < k'"
  shows "live (G + M) k' v \<longleftrightarrow> live M k' v"
proof -
  have "(k', r) \<in># G + M \<longleftrightarrow> (k', r) \<in># M" for r using assms by auto
  then show ?thesis by (simp add: live_def top_of_def)
qed

lemma scan_all_ok:
  assumes "scan_ok env (it_heap it)" and "agreeing (held env (it_heap it))" and "size (held env (it_heap it)) < n"
  shows "\<exists>out it'. scan_all env n it = (Inr out, it') \<and> it_tables it' = it_tables it \<and> it_closed it' = it_closed it \<and>
    length out \<le> size (held env (it_heap it)) \<and>
    sorted_wrt (<) (map fst out) \<and> (\<forall>k v. (k, v) \<in> set out \<longleftrightarrow> live (held env (it_heap it)) k v)"
  using assms
proof (induction n arbitrary: it)
  case (Suc n)
  let ?M = "held env (it_heap it)"
  from scan_next_ok [OF Suc.prems(1,2)] show ?case
  proof (elim disjE exE conjE)
    fix h'
    assume n: "scan_next env (it_heap it) = (Inr None, h')" and none: "\<forall>k v. \<not> live ?M k v"
    then show ?thesis by (auto simp: ScanIterator_Next_def)
  next
    fix k v h' G
    assume n: "scan_next env (it_heap it) = (Inr (Some (k, v)), h')" and ok: "scan_ok env h'" and M: "?M = G + held env h'" "G \<noteq> {#}"
      and lv: "live ?M k v" and le: "\<forall>x \<in># G. fst x \<le> k" and gt: "\<forall>x \<in># held env h'. k < fst x"
      and all: "\<forall>k' v'. live ?M k' v' \<longrightarrow> k' = k \<or> live (held env h') k' v'"
    let ?it = "it\<lparr>it_heap := h'\<rparr>"
    have A: "agreeing (held env h')" using Suc.prems(2) agreeing_sub M(1) by metis
    have G: "0 < size G" "size ?M = size G + size (held env h')" using M by (simp_all add: nonempty_has_size)
    then have "size (held env (it_heap ?it)) < n" using Suc.prems(3) by simp
    then obtain out it' where I: "scan_all env n ?it = (Inr out, it')" "it_tables it' = it_tables it" "it_closed it' = it_closed it"
      "sorted_wrt (<) (map fst out)" "\<And>k v. (k, v) \<in> set out \<longleftrightarrow> live (held env h') k v" "length out \<le> size (held env h')"
      using Suc.IH [of ?it] ok A by auto
    have step: "scan_all env (Suc n) it = (Inr ((k, v) # out), it')" using n I(1) by (simp add: ScanIterator_Next_def)
    have above: "k < k'" if "live (held env h') k' v'" for k' v' using that gt by (auto simp: live_def top_of_def)
    have uniq: "v' = v" if "live ?M k v'" for v' using that lv live_iff [OF Suc.prems(2)] unfolding live_def by (metis option.inject top_value [OF Suc.prems(2)])
    have keep: "live ?M k' v'" if "live (held env h') k' v'" for k' v' using live_above [OF le above [OF that]] M(1) that by simp
    have "(k', v') \<in> set ((k, v) # out) \<longleftrightarrow> live ?M k' v'" for k' v'
    proof
      show "live ?M k' v'" if "(k', v') \<in> set ((k, v) # out)" using that lv keep I(5) by (metis Pair_inject set_ConsD)
      show "(k', v') \<in> set ((k, v) # out)" if p: "live ?M k' v'"
      proof (cases "k' = k")
        case True
        with uniq p show ?thesis by simp
      next
        case False
        with all p I(5) show ?thesis by (metis list.set_intros(2))
      qed
    qed
    moreover have "sorted_wrt (<) (map fst ((k, v) # out))" using I(4,5) above by auto
    moreover have "length ((k, v) # out) \<le> size ?M" using I(6) G by simp
    ultimately show ?thesis using step I(2,3) by blast
  qed
qed simp

lemma pushAll_ok:
  assumes "\<forall>(msg, src) \<in> set srcs. \<exists>xs. source_yields env src xs \<and> sorted_wrt (<) (map fst xs)" and "scan_ok env h"
  shows "\<exists>h'. pushAll env srcs h = Inr h' \<and> scan_ok env h' \<and> held env h' = held env h + mset (concat (map (\<lambda>p. rest env (snd p)) srcs))"
  using assms
proof (induction srcs arbitrary: h)
  case (Cons p srcs)
  obtain msg src where p: "p = (msg, src)" by fastforce
  then obtain xs where xs: "source_yields env src xs" "sorted_wrt (<) (map fst xs)" using Cons.prems(1) by auto
  have r: "rest env src = xs" by (rule rest_yields [OF xs(1)])
  show ?case
  proof (cases xs)
    case Nil
    then obtain s' where "source_next env src = (Inr None, s')" using ss.nxt_Nil xs(1) by blast
    then have "pushSource env src h = Inr h" by (simp add: pushSource_def)
    with Cons.IH [OF _ Cons.prems(2)] Cons.prems(1) p r Nil show ?thesis by simp
  next
    case (Cons x xs')
    obtain k r' where x: "x = (k, r')" by fastforce
    with ss.nxt_Cons [of env src x xs'] xs(1) Cons obtain s' where s': "source_next env src = (Inr (Some (k, r')), s')" "source_yields env s' xs'" by auto
    let ?m = "\<lparr>si_key = k, si_rec = r', si_src = s'\<rparr>"
    have pend: "pending env ?m = xs" using rest_yields [OF s'(2)] Cons x by (simp add: pending_def)
    then have "item_ok env ?m" using s'(2) rest_yields [OF s'(2)] xs(2) by (simp add: item_ok_def)
    note Q = push_ok [OF Cons.prems(2) this]
    have ps: "pushSource env src h = Inr (heap_Push scanHeap_Less h ?m)" using s'(1) by (simp add: pushSource_def)
    from Cons.IH [OF _ Q(1)] Cons.prems(1) obtain h' where "pushAll env srcs (heap_Push scanHeap_Less h ?m) = Inr h'" "scan_ok env h'"
      "held env h' = held env (heap_Push scanHeap_Less h ?m) + mset (concat (map (\<lambda>p. rest env (snd p)) srcs))" by auto
    then show ?thesis using ps Q(2) pend p r by (simp add: ac_simps)
  qed
qed simp

section \<open>What the sources hold\<close>

text \<open>
  A collection of pairs covers a set of versions at a bound in an interval: every pair is such a
  version, and every such version has a pair of its key at least as new.
\<close>

definition covers :: "bytes option \<Rightarrow> bytes option \<Rightarrow> u64 \<Rightarrow> (bytes \<times> Record) list \<Rightarrow> Record set \<Rightarrow> bool" where
  "covers a b q xs V \<longleftrightarrow>
     (\<forall>x \<in> set xs. (snd x)\<lparr>rec_key := fst x\<rparr> \<in> V \<and> in_range a b (fst x) \<and> rec_seq (snd x) \<le> q) \<and>
     (\<forall>y \<in> V. in_range a b (rec_key y) \<and> rec_seq y \<le> q \<longrightarrow> (\<exists>r. (rec_key y, r) \<in> set xs \<and> rec_seq y \<le> rec_seq r))"

lemma covers_append: "covers a b q xs V \<Longrightarrow> covers a b q ys W \<Longrightarrow> covers a b q (xs @ ys) (V \<union> W)"
  unfolding covers_def by (simp add: ball_Un) blast

lemma covers_concat: "\<forall>i \<in> set is. covers a b q (f i) (V i) \<Longrightarrow> covers a b q (concat (map f is)) (\<Union> (V ` set is))"
proof (induction "is")
  case (Cons i "is")
  then show ?case using covers_append [of a b q "f i" "V i"] by simp
qed (simp add: covers_def)

lemma covers_agreeing: "covers a b q xs V \<Longrightarrow> coherent V \<Longrightarrow> agreeing (mset xs)"
proof -
  assume c: "covers a b q xs V" and coh: "coherent V"
  have "value_of (Some r) = value_of (Some r')" if "(k, r) \<in> set xs" "(k, r') \<in> set xs" "rec_seq r = rec_seq r'" for k r r'
  proof -
    have "r\<lparr>rec_key := k\<rparr> \<in> V" "r'\<lparr>rec_key := k\<rparr> \<in> V" using c that(1,2) unfolding covers_def by force+
    with coh that(3) have "r\<lparr>rec_key := k\<rparr> = r'\<lparr>rec_key := k\<rparr>" unfolding coherent_def by force
    then have "rec_type (r\<lparr>rec_key := k\<rparr>) = rec_type (r'\<lparr>rec_key := k\<rparr>)" "rec_value (r\<lparr>rec_key := k\<rparr>) = rec_value (r'\<lparr>rec_key := k\<rparr>)" by simp_all
    then show ?thesis by (simp add: value_of_def)
  qed
  then show ?thesis unfolding agreeing_def set_mset_mset by blast
qed

lemma covers_live:
  assumes "covers a b q xs (set vs)" and "coherent (set vs)"
  shows "live (mset xs) k v \<longleftrightarrow> in_range a b k \<and> reads vs k q = Some v"
proof
  assume "live (mset xs) k v"
  then obtain r where r: "(k, r) \<in> set xs" "\<forall>r'. (k, r') \<in> set xs \<longrightarrow> rec_seq r' \<le> rec_seq r" "value_of (Some r) = Some v"
    by (auto simp: live_def top_of_def)
  let ?x = "r\<lparr>rec_key := k\<rparr>"
  have x: "?x \<in> set vs" "in_range a b k" "rec_seq r \<le> q" using assms(1) r(1) unfolding covers_def by force+
  have "rec_seq y \<le> rec_seq ?x" if y: "y \<in> set vs" "visible k q y" for y
  proof -
    obtain r' where "(k, r') \<in> set xs" "rec_seq y \<le> rec_seq r'" using assms(1) y x(2) unfolding covers_def visible_def by blast
    with r(2) show ?thesis by (auto intro: order_trans)
  qed
  moreover have "visible k q ?x" using x(3) by (simp add: visible_def)
  ultimately have "newest_of (set vs) k q ?x" using x(1) by (simp add: newest_of_def)
  then have "reads vs k q = value_of (Some ?x)" by (rule reads_newest [OF assms(2)])
  also have "\<dots> = Some v" using r(3) by (auto simp: value_of_def split: if_splits)
  finally show "in_range a b k \<and> reads vs k q = Some v" using x(2) by simp
next
  assume k: "in_range a b k \<and> reads vs k q = Some v"
  obtain bst where bst: "best_in (set vs) k q bst" "value_of bst = Some v" using best_in_reads [of vs k q] k by auto
  then obtain z where z: "bst = Some z" by (cases bst) (auto simp: value_of_def)
  then obtain x where x: "newest_of (set vs) k q x" "same_version x z" using bst(1) by (auto simp: best_in_def)
  then have xv: "x \<in> set vs" "rec_key x = k" "rec_seq x \<le> q" by (auto simp: newest_of_def visible_def)
  then obtain r where r: "(k, r) \<in> set xs" "rec_seq x \<le> rec_seq r" using assms(1) k unfolding covers_def by blast
  have top: "rec_seq r' \<le> rec_seq x \<and> r'\<lparr>rec_key := k\<rparr> \<in> set vs" if "(k, r') \<in> set xs" for r'
  proof -
    have "r'\<lparr>rec_key := k\<rparr> \<in> set vs" "rec_seq r' \<le> q" using assms(1) that unfolding covers_def by force+
    then show ?thesis using x(1) by (force simp: newest_of_def visible_def)
  qed
  have eq: "rec_seq r = rec_seq x" using top [OF r(1)] r(2) by simp
  have "r\<lparr>rec_key := k\<rparr> = x" using assms(2) top [OF r(1)] xv(1,2) eq unfolding coherent_def by force
  then have "rec_type r = rec_type x" "rec_value r = rec_value x" by auto
  then have "value_of (Some r) = Some v" using bst(2) z x(2) by (auto simp: value_of_def same_version_def split: if_splits)
  moreover have "top_of (mset xs) k r" using r(1) top eq by (simp add: top_of_def)
  ultimately show "live (mset xs) k v" by (auto simp: live_def)
qed

subsection \<open>MemTables and tables as sources\<close>

definition mem_pairs :: "MemTable \<Rightarrow> bytes option \<Rightarrow> bytes option \<Rightarrow> u64 \<Rightarrow> (bytes \<times> Record) list" where
  "mem_pairs mt a b q = map slice_pair (filter (\<lambda>kv. ent_seq (snd kv) \<le> q) (MemTable_Range mt a b))"

lemma mem_source:
  assumes "mt_inv mt"
  shows "source_yields env (MemSlice \<lparr>ms_entries = MemTable_Range mt a b, ms_idx = 0, ms_maxSeq = q\<rparr>) (mem_pairs mt a b q)"
    and "sorted_wrt (<) (map fst (mem_pairs mt a b q))" and "covers a b q (mem_pairs mt a b q) (set (buildRecords mt))"
proof -
  show "source_yields env (MemSlice \<lparr>ms_entries = MemTable_Range mt a b, ms_idx = 0, ms_maxSeq = q\<rparr>) (mem_pairs mt a b q)"
    by (simp add: slice_yields_def mem_pairs_def)
  have m: "map fst (mem_pairs mt a b q) = map fst (filter (\<lambda>kv. in_range a b (fst kv) \<and> ent_seq (snd kv) \<le> q) (MemTable_All mt))"
    by (simp add: mem_pairs_def slice_pair_def comp_def MemTable_Range_All [OF assms])
  show "sorted_wrt (<) (map fst (mem_pairs mt a b q))"
    unfolding m using MemTable_All_sorted [OF assms] by (simp add: sorted_wrt_map sorted_wrt_filter)
  have in_pairs: "(k, r) \<in> set (mem_pairs mt a b q) \<longleftrightarrow>
      (\<exists>en. MemTable_Get mt k = Some en \<and> ent_seq en \<le> q \<and> in_range a b k \<and>
         r = \<lparr>rec_key = [], rec_value = ent_value en, rec_type = ent_type en, rec_seq = ent_seq en\<rparr>)" for k r
    by (force simp: mem_pairs_def slice_pair_def MemTable_Range_All [OF assms] MemTable_All_iff [OF assms, symmetric])
  show "covers a b q (mem_pairs mt a b q) (set (buildRecords mt))"
    unfolding covers_def
  proof (intro conjI ballI impI)
    fix x assume "x \<in> set (mem_pairs mt a b q)"
    then obtain en where e: "MemTable_Get mt (fst x) = Some en" "ent_seq en \<le> q" "in_range a b (fst x)"
      "snd x = \<lparr>rec_key = [], rec_value = ent_value en, rec_type = ent_type en, rec_seq = ent_seq en\<rparr>"
      using in_pairs [of "fst x" "snd x"] by auto
    then show "(snd x)\<lparr>rec_key := fst x\<rparr> \<in> set (buildRecords mt)" "in_range a b (fst x)" "rec_seq (snd x) \<le> q"
      by (simp_all add: in_buildRecords [OF assms])
  next
    fix y assume y: "y \<in> set (buildRecords mt)" "in_range a b (rec_key y) \<and> rec_seq y \<le> q"
    then have "(rec_key y, \<lparr>rec_key = [], rec_value = rec_value y, rec_type = rec_type y, rec_seq = rec_seq y\<rparr>) \<in> set (mem_pairs mt a b q)"
      using in_buildRecords [OF assms, of y] by (simp add: in_pairs)
    then show "\<exists>r. (rec_key y, r) \<in> set (mem_pairs mt a b q) \<and> rec_seq y \<le> rec_seq r" by force
  qed
qed

lemma newest_subset: "set (newest xs) \<subseteq> set xs"
  by (induction xs rule: newest.induct) (auto dest: set_dropWhileD)

lemma dropWhile_keys:
  assumes "sorted_wrt rec_before (r # rs)"
  shows "dropWhile (\<lambda>x. rec_key x = rec_key r) rs = filter (\<lambda>x. rec_key r < rec_key x) rs"
  using assms
proof (induction rs)
  case (Cons x rs)
  have x: "rec_before r x" "\<forall>y \<in> set rs. rec_before x y" using Cons.prems by auto
  show ?case
  proof (cases "rec_key x = rec_key r")
    case True
    then show ?thesis using Cons by simp
  next
    case False
    then have "rec_key r < rec_key x" using x(1) by (auto simp: rec_before_def)
    moreover have "rec_key r < rec_key y" if "y \<in> set rs" for y using calculation x(2) that by (fastforce simp: rec_before_def)
    ultimately show ?thesis using False by (simp add: filter_id_conv)
  qed
qed simp

lemma newest_sorted: "sorted_wrt rec_before xs \<Longrightarrow> sorted_wrt (<) (map rec_key (newest xs))"
proof (induction xs rule: newest.induct)
  case (2 r rs)
  have "sorted_wrt rec_before (dropWhile (\<lambda>x. rec_key x = rec_key r) rs)" using "2.prems" by (simp add: sorted_wrt_dropWhile)
  moreover have "rec_key r < rec_key y" if "y \<in> set (newest (dropWhile (\<lambda>x. rec_key x = rec_key r) rs))" for y
    using subsetD [OF newest_subset that] dropWhile_keys [OF "2.prems"] by simp
  ultimately show ?case using "2.IH" by simp
qed simp

lemma newest_dominates: "sorted_wrt rec_before xs \<Longrightarrow> y \<in> set xs \<Longrightarrow> \<exists>r \<in> set (newest xs). rec_key r = rec_key y \<and> rec_seq y \<le> rec_seq r"
proof (induction xs rule: newest.induct)
  case (2 r rs)
  let ?d = "dropWhile (\<lambda>x. rec_key x = rec_key r) rs"
  have srt: "sorted_wrt rec_before ?d" using "2.prems"(1) by (simp add: sorted_wrt_dropWhile)
  consider "y = r" | "y \<in> set rs" "rec_key y = rec_key r" | "y \<in> set ?d"
    using "2.prems" dropWhile_keys [OF "2.prems"(1)] by (force simp: rec_before_def)
  then show ?case
  proof cases
    case 2
    then have "rec_before r y" using "2.prems"(1) by simp
    with 2 show ?thesis by (auto simp: rec_before_def intro: less_imp_le)
  next
    case 3
    from "2.IH" [OF srt 3] show ?thesis by auto
  qed simp
qed simp

definition table_pairs :: "env \<Rightarrow> Table \<Rightarrow> bytes option \<Rightarrow> bytes option \<Rightarrow> u64 \<Rightarrow> (bytes \<times> Record) list" where
  "table_pairs env t a b q =
     map (\<lambda>r. (rec_key r, r)) (newest (filter (\<lambda>r. rec_seq r \<le> q) (filter (\<lambda>r. in_range a b (rec_key r)) (table_recs env t))))"

lemma table_source:
  assumes "table_ok env t"
  shows "source_yields env (SstRange (NewRangeIterator t a b q)) (table_pairs env t a b q)"
    and "sorted_wrt (<) (map fst (table_pairs env t a b q))" and "covers a b q (table_pairs env t a b q) (set (table_recs env t))"
proof -
  let ?f = "filter (\<lambda>r. rec_seq r \<le> q) (filter (\<lambda>r. in_range a b (rec_key r)) (table_recs env t))"
  have srt: "sorted_wrt rec_before ?f" using table_ok_sorted [OF assms] by (simp add: sorted_wrt_filter)
  obtain c where o: "env_ok env" "opened env c (table_recs env t) t" using assms by (auto simp: table_ok_def)
  show "source_yields env (SstRange (NewRangeIterator t a b q)) (table_pairs env t a b q)"
    using o(1) NewRangeIterator_ranging [OF o(2), of q a b] by (auto simp: range_yields_def table_pairs_def)
  show "sorted_wrt (<) (map fst (table_pairs env t a b q))" using newest_sorted [OF srt] by (simp add: table_pairs_def comp_def)
  have sub: "set (newest ?f) \<subseteq> set ?f" by (rule newest_subset)
  have dom: "\<exists>r \<in> set (newest ?f). rec_key r = rec_key y \<and> rec_seq y \<le> rec_seq r" if "y \<in> set ?f" for y by (rule newest_dominates [OF srt that])
  show "covers a b q (table_pairs env t a b q) (set (table_recs env t))"
    unfolding covers_def
  proof (intro conjI ballI impI)
    fix x assume "x \<in> set (table_pairs env t a b q)"
    then obtain r where "r \<in> set ?f" "x = (rec_key r, r)" using sub by (auto simp: table_pairs_def)
    then show "(snd x)\<lparr>rec_key := fst x\<rparr> \<in> set (table_recs env t)" "in_range a b (fst x)" "rec_seq (snd x) \<le> q" by simp_all
  next
    fix y assume "y \<in> set (table_recs env t)" "in_range a b (rec_key y) \<and> rec_seq y \<le> q"
    then have "y \<in> set ?f" by simp
    from dom [OF this] obtain r where "r \<in> set (newest ?f)" "rec_key r = rec_key y" "rec_seq y \<le> rec_seq r" by blast
    moreover have "(rec_key r, r) \<in> set (table_pairs env t a b q)"
      using imageI [OF calculation(1), of "\<lambda>r. (rec_key r, r)"] by (simp add: table_pairs_def)
    ultimately show "\<exists>r. (rec_key y, r) \<in> set (table_pairs env t a b q) \<and> rec_seq y \<le> rec_seq r" by metis
  qed
qed

section \<open>Properties\<close>

lemma concat_length_le: "\<forall>i \<in> set is. length (f i) \<le> length (g i) \<Longrightarrow> length (concat (map f is)) \<le> length (concat (map g is))"
  by (induction "is") (auto intro: add_mono)

text \<open>All pairs the sources of an engine will return.\<close>

definition all_pairs :: "env \<Rightarrow> bytes option \<Rightarrow> bytes option \<Rightarrow> u64 \<Rightarrow> Engine \<Rightarrow> (bytes \<times> Record) list" where
  "all_pairs env a b q e =
     mem_pairs (e_mems e ! e_mem e) a b q @ concat (map (\<lambda>i. mem_pairs (e_mems e ! im_mt i) a b q) (e_imm e)) @
     concat (map (\<lambda>p. table_pairs env (e_heap e ! p) a b q) (allTablesLocked e))"

lemma scan_sources_ok:
  assumes "mems_ok e" and "tables_ok env e" and "rd = \<lparr>rd_mt = e_mem e, rd_imm = e_imm e, rd_tables = allTablesLocked e\<rparr>"
  shows "\<forall>(msg, src) \<in> set (scan_sources a b q rd e). \<exists>xs. source_yields env src xs \<and> sorted_wrt (<) (map fst xs)"
    and "concat (map (\<lambda>p. rest env (snd p)) (scan_sources a b q rd e)) = all_pairs env a b q e"
proof -
  have M: "mt_inv (e_mems e ! e_mem e)" "\<forall>i \<in> set (e_imm e). mt_inv (e_mems e ! im_mt i)" using assms(1) by (auto simp: mems_ok_def)
  have T: "\<forall>p \<in> set (allTablesLocked e). table_ok env (e_heap e ! p)" using assms(2) by (simp add: tables_ok_def)
  have "\<exists>xs. source_yields env src xs \<and> sorted_wrt (<) (map fst xs)" if "(msg, src) \<in> set (scan_sources a b q rd e)" for msg src
  proof -
    from that consider mt where "src = MemSlice \<lparr>ms_entries = MemTable_Range mt a b, ms_idx = 0, ms_maxSeq = q\<rparr>" "mt_inv mt"
      | p where "src = SstRange (NewRangeIterator (e_heap e ! p) a b q)" "table_ok env (e_heap e ! p)"
      using M T by (auto simp: scan_sources_def assms(3))
    then show ?thesis using mem_source(1,2) table_source(1,2) by cases blast+
  qed
  then show "\<forall>(msg, src) \<in> set (scan_sources a b q rd e). \<exists>xs. source_yields env src xs \<and> sorted_wrt (<) (map fst xs)" by blast
  show "concat (map (\<lambda>p. rest env (snd p)) (scan_sources a b q rd e)) = all_pairs env a b q e"
    using rest_yields [OF mem_source(1)] rest_yields [OF table_source(1)] M T
    by (simp add: scan_sources_def assms(3) all_pairs_def comp_def cong: map_cong)
qed

lemma all_pairs_cover:
  assumes "mems_ok e" and "tables_ok env e"
  shows "covers a b q (all_pairs env a b q e) (set (versions env e))" and "length (all_pairs env a b q e) \<le> length (versions env e)"
proof -
  have M: "mt_inv (e_mems e ! e_mem e)" "\<forall>i \<in> set (e_imm e). mt_inv (e_mems e ! im_mt i)" using assms(1) by (auto simp: mems_ok_def)
  have "\<forall>i \<in> set (e_imm e). covers a b q (mem_pairs (e_mems e ! im_mt i) a b q) (set (buildRecords (e_mems e ! im_mt i)))" using mem_source(3) M(2) by blast
  note I = covers_concat [OF this]
  have "\<forall>p \<in> set (allTablesLocked e). covers a b q (table_pairs env (e_heap e ! p) a b q) (set (table_recs env (e_heap e ! p)))"
    using table_source(3) assms(2) by (simp add: tables_ok_def)
  note T = covers_concat [OF this]
  show "covers a b q (all_pairs env a b q e) (set (versions env e))"
    using covers_append [OF mem_source(3) [OF M(1)] covers_append [OF I T]]
    by (simp add: all_pairs_def versions_def mem_versions_def imm_versions_def table_versions_def)
  have "length (mem_pairs mt a b q) \<le> length (buildRecords mt)" if "mt_inv mt" for mt
    using length_filter_le order_trans by (fastforce simp: mem_pairs_def buildRecords_def MemTable_Range_All [OF that])
  moreover have "length (table_pairs env t a b q) \<le> length (table_recs env t)" for t
    unfolding table_pairs_def length_map by (meson newest_length length_filter_le order_trans)
  ultimately show "length (all_pairs env a b q e) \<le> length (versions env e)"
    using M unfolding all_pairs_def versions_def mem_versions_def imm_versions_def table_versions_def length_append
    by (intro add_mono concat_length_le) auto
qed

lemma scanAt_ok:
  assumes "serving env e" and "scanAt env a b q e = (r, e1)"
  obtains it where "r = Inr it" and "scan_ok env (it_heap it)" and "agreeing (held env (it_heap it))" and "it_tables it = allTablesLocked e" and "\<not> it_closed it"
    and "releaseAll (allTablesLocked e) e1 = e" and "size (held env (it_heap it)) \<le> length (versions env e)"
    and "\<And>k v. live (held env (it_heap it)) k v \<longleftrightarrow> in_range a b k \<and> reads (versions env e) k q = Some v"
proof -
  let ?ps = "allTablesLocked e"
  let ?h = "foldl (\<lambda>h p. acquire p h) (e_heap e) ?ps"
  let ?rd = "\<lparr>rd_mt = e_mem e, rd_imm = e_imm e, rd_tables = ?ps\<rparr>"
  let ?e1 = "e\<lparr>e_heap := ?h\<rparr>"
  have S: "mems_ok e" "tables_ok env e" "distinct ?ps" "\<forall>p \<in> set ?ps. p < length (e_heap e) \<and> \<not> tbl_released (e_heap e ! p)"
    "\<forall>p \<in> set ?ps. p < length (e_heap e) \<and> 1 \<le> tbl_refCount (e_heap e ! p)" "coherent (set (versions env e))" "\<not> e_closed e"
    using assms(1) by (auto simp: serving_def refs_ok_def)
  note A = acquire_all [OF S(3,4)]
  have tab: "table_recs env (?h ! p) = table_recs env (e_heap e ! p)" "table_ok env (?h ! p) = table_ok env (e_heap e ! p)" for p
    using A by simp_all
  have O: "mems_ok ?e1" "tables_ok env ?e1" "allTablesLocked ?e1 = ?ps" using S(1,2) tab A by (simp_all add: mems_ok_def tables_ok_def allTablesLocked_def)
  have v: "versions env ?e1 = versions env e"
    by (simp add: versions_def mem_versions_def imm_versions_def table_versions_def O(3) tab)
  have rel: "releaseAll ?ps ?e1 = e" using release_all [OF S(3) _ S(5), of ?h e] A by simp
  have rd: "?rd = \<lparr>rd_mt = e_mem ?e1, rd_imm = e_imm ?e1, rd_tables = allTablesLocked ?e1\<rparr>" by (simp add: O(3))
  note R = scan_sources_ok [OF O(1,2) rd, where a = a and b = b and q = q] and C = all_pairs_cover [OF O(1,2), where a = a and b = b and q = q, unfolded v]
  have empty: "scan_ok env (heap_Init scanHeap_Less [])" "held env (heap_Init scanHeap_Less []) = {#}"
    by (simp_all add: scan_ok_def is_heap_def held_def heap_Init_def)
  obtain h' where h': "pushAll env (scan_sources a b q ?rd ?e1) (heap_Init scanHeap_Less []) = Inr h'" "scan_ok env h'" "held env h' = mset (all_pairs env a b q ?e1)"
    using pushAll_ok [OF R(1) empty(1)] R(2) empty(2) by (simp del: split_paired_Ex) blast
  let ?it = "\<lparr>it_heap = h', it_tables = ?ps, it_closed = False\<rparr>"
  have "scanAt env a b q e = (Inr ?it, ?e1)" using S(7) h'(1) by (simp add: scanAt_def getAt_begin_def Let_def)
  with assms(2) have "r = Inr ?it" "e1 = ?e1" by simp_all
  then show thesis
    using that [of ?it] h'(2,3) covers_agreeing [OF C(1) S(6)] covers_live [OF C(1) S(6)] rel C(2) by simp
qed

text \<open>
  C6: A scan is the sorted list of the live keys. Opening an iterator on an interval succeeds, and
  calling Next until it reports the end returns exactly the pairs of a key of the interval and the
  value a point read at the same sequence bound returns for it, in ascending key order and each key
  once, whatever the heads of the MemTables and tables interleave; closing the iterator gives every
  table reference back.
\<close>

theorem scan_lists_live_keys:
  assumes "einv env e" and "scanAt env a b q e = (r, e1)" and "length (versions env e) < n"
  shows "\<exists>it out it'. r = Inr it \<and> scan_all env n it = (Inr out, it') \<and> sorted_wrt (<) (map fst out) \<and>
    (\<forall>k v. (k, v) \<in> set out \<longleftrightarrow> in_range a b k \<and> reads (versions env e) k q = Some v) \<and>
    snd (ScanIterator_Close it' e1) = e"
proof -
  obtain it where it: "r = Inr it" "scan_ok env (it_heap it)" "agreeing (held env (it_heap it))" "it_tables it = allTablesLocked e" "\<not> it_closed it"
    "releaseAll (allTablesLocked e) e1 = e" "size (held env (it_heap it)) \<le> length (versions env e)"
    "\<And>k v. live (held env (it_heap it)) k v \<longleftrightarrow> in_range a b k \<and> reads (versions env e) k q = Some v"
    by (rule scanAt_ok [OF einv_serving [OF assms(1)] assms(2)]) blast
  have "size (held env (it_heap it)) < n" using it(7) assms(3) by simp
  from scan_all_ok [OF it(2,3) this] obtain out it' where o: "scan_all env n it = (Inr out, it')" "it_tables it' = it_tables it"
    "it_closed it' = it_closed it" "sorted_wrt (<) (map fst out)" "\<forall>k v. (k, v) \<in> set out \<longleftrightarrow> live (held env (it_heap it)) k v"
    by blast
  have "snd (ScanIterator_Close it' e1) = e" using it(4-6) o(2,3) by (simp add: ScanIterator_Close_def)
  moreover have "(k, v) \<in> set out \<longleftrightarrow> in_range a b k \<and> reads (versions env e) k q = Some v" for k v
    unfolding it(8) [symmetric] using o(5) by blast
  ultimately show ?thesis using it(1) o(1,4) by blast
qed

theorem scan_lists_live_keys_witness:
  "\<exists>e r e1 it out it'. e_tables e \<noteq> [] \<and> scanAt demo_env (Some [1]) (Some [2]) 3 e = (r, e1) \<and> r = Inr it \<and>
     scan_all demo_env 2 it = (Inr out, it') \<and> ([1], [7]) \<in> set out"
proof -
  obtain e where e: "calm demo_env e" "e_tables e \<noteq> []" "versions demo_env e = [new_version RecordPut [1] [7] 1]" by (rule demo_flushed)
  obtain r e1 where s: "scanAt demo_env (Some [1]) (Some [2]) 3 e = (r, e1)" by fastforce
  have "einv demo_env e" "length (versions demo_env e) < 2" using e by (simp_all add: calm_def)
  from scan_lists_live_keys [OF this(1) s this(2)] obtain it out it' where o: "r = Inr it" "scan_all demo_env 2 it = (Inr out, it')"
    "\<forall>k v. (k, v) \<in> set out \<longleftrightarrow> in_range (Some [1]) (Some [2]) k \<and> reads (versions demo_env e) k 3 = Some v" by blast
  have "([1], [7]) \<in> set out"
    unfolding o(3) [rule_format] e(3)
    by (simp add: in_range_def reads_def scan_version_def consider_rec_def new_version_def value_of_def TypeValue_def TypeTombstone_def)
  with e(2) s o(1,2) show ?thesis by blast
qed

end
