(* ===== verification/Server.thy ===== *)
theory Server
  imports Scan
begin

text \<open>
  \<^verbatim>\<open>src/server/server.go\<close>: the HTTP interface of the store. A request is what net/http hands to a
  handler: the method, the segments of the cleaned and unescaped path, the query parameters in
  order, and the body as the bytes it delivers followed by an optional read error. A response writer
  keeps its header map and fixes status and header with the first \<open>WriteHeader\<close> or \<open>Write\<close>, like the
  one of net/http. What is written to the body is kept as the value that is written: the text of an
  error, raw bytes, or the value given to the JSON encoder. A handler that panics has no response
  (net/http drops the connection). The access log is part of the server state.
\<close>

section \<open>Definitions\<close>

subsection \<open>net/http\<close>

record Request =
  rq_Method :: string
  rq_Path :: "bytes list"
  rq_Query :: "(string \<times> bytes) list"
  rq_Body :: bytes
  rq_BodyErr :: "error option"

text \<open>A value that is \<open>None\<close> is a nil slice, which encoding/json writes as null; an empty one is written as "".\<close>

record scanEntry =
  se_Key :: bytes
  se_Value :: "bytes option"

datatype body = Text string | ErrorText error | Raw bytes | ScanJSON "scanEntry list" | StatsJSON Stats

type_synonym header = "(string \<times> string) list"

record ResponseWriter =
  rw_header :: header
  rw_sent :: "(int \<times> header) option"
  rw_body :: "body list"

definition rw_new :: ResponseWriter where
  "rw_new = \<lparr>rw_header = [], rw_sent = None, rw_body = []\<rparr>"

definition Header_Set :: "string \<Rightarrow> string \<Rightarrow> ResponseWriter \<Rightarrow> ResponseWriter" where
  "Header_Set k v w = w\<lparr>rw_header := AList.update k v (rw_header w)\<rparr>"

definition rw_WriteHeader :: "int \<Rightarrow> ResponseWriter \<Rightarrow> ResponseWriter" where
  "rw_WriteHeader code w = (if rw_sent w = None then w\<lparr>rw_sent := Some (code, rw_header w)\<rparr> else w)"

definition StatusOK :: int where "StatusOK = 200"
definition StatusNoContent :: int where "StatusNoContent = 204"
definition StatusBadRequest :: int where "StatusBadRequest = 400"
definition StatusNotFound :: int where "StatusNotFound = 404"
definition StatusMethodNotAllowed :: int where "StatusMethodNotAllowed = 405"
definition StatusRequestEntityTooLarge :: int where "StatusRequestEntityTooLarge = 413"
definition StatusInternalServerError :: int where "StatusInternalServerError = 500"
definition StatusServiceUnavailable :: int where "StatusServiceUnavailable = 503"

lemmas status_defs = StatusOK_def StatusNoContent_def StatusBadRequest_def StatusNotFound_def StatusMethodNotAllowed_def
  StatusRequestEntityTooLarge_def StatusInternalServerError_def StatusServiceUnavailable_def

definition rw_Write :: "body \<Rightarrow> ResponseWriter \<Rightarrow> ResponseWriter" where
  "rw_Write b w = (let w1 = rw_WriteHeader StatusOK w in w1\<lparr>rw_body := rw_body w1 @ [b]\<rparr>)"

text \<open>\<^verbatim>\<open>url.Values.Get\<close>: the first value, or the empty string.\<close>

definition Query_Get :: "string \<Rightarrow> Request \<Rightarrow> bytes" where
  "Query_Get name rq = (case map_of (rq_Query rq) name of None \<Rightarrow> [] | Some v \<Rightarrow> v)"

text \<open>\<^verbatim>\<open>io.ReadAll(io.LimitReader(r.Body, n))\<close>: the limit ends the stream before an error behind it.\<close>

definition ReadAll_limited :: "nat \<Rightarrow> Request \<Rightarrow> error + bytes" where
  "ReadAll_limited n rq =
     (if n \<le> length (rq_Body rq) then Inr (take n (rq_Body rq))
      else case rq_BodyErr rq of None \<Rightarrow> Inr (rq_Body rq) | Some x \<Rightarrow> Inl x)"

subsection \<open>strconv.Atoi\<close>

fun decimal :: "bytes \<Rightarrow> int \<Rightarrow> int option" where
  "decimal [] n = Some n"
| "decimal (c # cs) n = (if 48 \<le> c \<and> c \<le> 57 then decimal cs (10 * n + (uint c - 48)) else None)"

definition Atoi :: "bytes \<Rightarrow> error + int" where
  "Atoi s =
     (let neg = (s \<noteq> [] \<and> hd s = 45); ds = (if s \<noteq> [] \<and> (hd s = 43 \<or> hd s = 45) then tl s else s)
      in case decimal ds 0 of
           None \<Rightarrow> Inl (EMsg ''strconv.Atoi: invalid syntax'')
         | Some n \<Rightarrow>
             if ds = [] then Inl (EMsg ''strconv.Atoi: invalid syntax'')
             else if neg then if n \<le> 2 ^ 63 then Inr (- n) else Inl (EMsg ''strconv.Atoi: value out of range'')
             else if n < 2 ^ 63 then Inr n else Inl (EMsg ''strconv.Atoi: value out of range''))"

subsection \<open>The status recorder\<close>

record statusRecorder =
  sr_w :: ResponseWriter
  sr_status :: int

definition statusRecorder_WriteHeader :: "int \<Rightarrow> statusRecorder \<Rightarrow> statusRecorder" where
  "statusRecorder_WriteHeader code rec = (let r1 = rec\<lparr>sr_status := code\<rparr> in r1\<lparr>sr_w := rw_WriteHeader code (sr_w r1)\<rparr>)"

text \<open>The methods the embedded writer provides.\<close>

definition sr_Write :: "body \<Rightarrow> statusRecorder \<Rightarrow> statusRecorder" where
  "sr_Write b rec = rec\<lparr>sr_w := rw_Write b (sr_w rec)\<rparr>"

definition sr_Set :: "string \<Rightarrow> string \<Rightarrow> statusRecorder \<Rightarrow> statusRecorder" where
  "sr_Set k v rec = rec\<lparr>sr_w := Header_Set k v (sr_w rec)\<rparr>"

definition http_Error :: "body \<Rightarrow> int \<Rightarrow> statusRecorder \<Rightarrow> statusRecorder" where
  "http_Error b code rec =
     sr_Write b (statusRecorder_WriteHeader code
       (sr_Set ''X-Content-Type-Options'' ''nosniff'' (sr_Set ''Content-Type'' ''text/plain; charset=utf-8'' rec)))"

subsection \<open>Handlers\<close>

definition maxRequestBody :: nat where
  "maxRequestBody = 64 * 2 ^ 20"

text \<open>\<open>None\<close>: the handler panicked.\<close>

definition writeEngineError :: "error \<Rightarrow> statusRecorder \<Rightarrow> statusRecorder option" where
  "writeEngineError err w =
     (if errors_Is err EPanic then None
      else if errors_Is err ErrNotFound then Some (http_Error (ErrorText err) StatusNotFound w)
      else if errors_Is err ErrEmptyKey then Some (http_Error (ErrorText err) StatusBadRequest w)
      else if errors_Is err ErrClosed then Some (http_Error (ErrorText err) StatusServiceUnavailable w)
      else Some (http_Error (Text ''internal error'') StatusInternalServerError w))"

definition handlePut :: "bytes \<Rightarrow> Request \<Rightarrow> statusRecorder \<Rightarrow> Engine \<Rightarrow> statusRecorder option \<times> Engine" where
  "handlePut key r w e =
     (case ReadAll_limited (maxRequestBody + 1) r of
        Inl err \<Rightarrow> (Some (http_Error (ErrorText (EWrap ''reading request body'' err)) StatusBadRequest w), e)
      | Inr value \<Rightarrow>
          if length value > maxRequestBody then (Some (http_Error (Text ''request body too large'') StatusRequestEntityTooLarge w), e)
          else case Put key value e of
                 (Some err, e1) \<Rightarrow> (writeEngineError err w, e1)
               | (None, e1) \<Rightarrow> (Some (statusRecorder_WriteHeader StatusNoContent w), e1))"

definition handleGet :: "env \<Rightarrow> bytes \<Rightarrow> statusRecorder \<Rightarrow> Engine \<Rightarrow> statusRecorder option \<times> Engine" where
  "handleGet env key w e =
     (case Get env key e of
        (Inl err, e1) \<Rightarrow> (writeEngineError err w, e1)
      | (Inr value, e1) \<Rightarrow> (Some (sr_Write (Raw value) (sr_Set ''Content-Type'' ''application/octet-stream'' w)), e1))"

definition handleDelete :: "bytes \<Rightarrow> statusRecorder \<Rightarrow> Engine \<Rightarrow> statusRecorder option \<times> Engine" where
  "handleDelete key w e =
     (case Delete key e of
        (Some err, e1) \<Rightarrow> (writeEngineError err w, e1)
      | (None, e1) \<Rightarrow> (Some (statusRecorder_WriteHeader StatusNoContent w), e1))"

lemma scan_next_work: "scan_next env h = (Inr (Some x), h') \<Longrightarrow> scan_work h' < scan_work h"
proof (induction env h rule: scan_best.induct)
  case (1 env h)
  show ?case
  proof (cases "length h > 0")
    case True
    then obtain key r h1 where p: "pull env h = (Inr (key, r), h1)"
      using "1.prems" by (auto simp: scan_next_simps [of env h] split: prod.splits sum.splits)
    obtain best h2 where d: "scan_dups env key r h1 = (Inr best, h2)"
      using True p "1.prems" by (auto simp: scan_next_simps [of env h] split: prod.splits sum.splits)
    have "scan_work h2 < scan_work h" using pull_work [OF p] scan_dups_work [OF d] True by simp
    moreover have "scan_work h' < scan_work h2" if "rec_type best = TypeTombstone"
      using "1.IH" [OF True p [symmetric] refl refl d [symmetric] refl that] "1.prems" that True p d
      by (simp add: scan_next_simps [of env h])
    ultimately show ?thesis
      using "1.prems" True p d by (cases "rec_type best = TypeTombstone") (auto simp: scan_next_simps [of env h])
  next
    case False
    with "1.prems" show ?thesis by (simp add: scan_next_simps [of env h])
  qed
qed

lemma NextSlice_work: "ScanIterator_NextSlice env it = (Inr (Some x), it') \<Longrightarrow> scan_work (it_heap it') < scan_work (it_heap it)"
proof -
  assume n: "ScanIterator_NextSlice env it = (Inr (Some x), it')"
  obtain r h where b: "scan_best env (it_heap it) = (r, h)" by fastforce
  with n obtain k best where "r = Inr (Some (k, best))" "it_heap it' = h" by (cases r) (auto simp: ScanIterator_NextSlice_def)
  then show ?thesis using scan_next_work [of env "it_heap it" "(k, rec_value best)" h] b by (simp add: scan_next_def)
qed

function scan_loop :: "env \<Rightarrow> int \<Rightarrow> scanEntry list \<Rightarrow> ScanIterator \<Rightarrow> (error + scanEntry list) \<times> ScanIterator" where
  "scan_loop env limit results it =
     (if limit = 0 \<or> int (length results) < limit
      then case ScanIterator_NextSlice env it of
             (Inl err, it1) \<Rightarrow> (Inl err, it1)
           | (Inr None, it1) \<Rightarrow> (Inr results, it1)
           | (Inr (Some (key, value)), it1) \<Rightarrow> scan_loop env limit (results @ [\<lparr>se_Key = key, se_Value = value\<rparr>]) it1
      else (Inr results, it))"
  by pat_completeness auto
termination
  by (relation "measure (\<lambda>(env, limit, results, it). scan_work (it_heap it))")
     (auto dest!: NextSlice_work [OF sym])

declare scan_loop.simps [simp del]

definition scan_limit :: "Request \<Rightarrow> error + int" where
  "scan_limit r = (if Query_Get ''limit'' r = [] then Inr 0 else Atoi (Query_Get ''limit'' r))"

definition scan_bound :: "string \<Rightarrow> Request \<Rightarrow> bytes option" where
  "scan_bound name r = (if Query_Get name r = [] then None else Some (Query_Get name r))"

definition handleScan :: "env \<Rightarrow> Request \<Rightarrow> statusRecorder \<Rightarrow> Engine \<Rightarrow> statusRecorder option \<times> Engine" where
  "handleScan env r w e =
     (case scan_limit r of
        Inl err \<Rightarrow> (Some (http_Error (Text ''invalid limit'') StatusBadRequest w), e)
      | Inr limit \<Rightarrow>
          if limit < 0 then (Some (http_Error (Text ''invalid limit'') StatusBadRequest w), e)
          else case Engine_Scan env (scan_bound ''start'' r) (scan_bound ''end'' r) e of
                 (Inl err, e1) \<Rightarrow> (writeEngineError err w, e1)
               | (Inr it, e1) \<Rightarrow>
                   let (res, it1) = scan_loop env limit [] it; e2 = snd (ScanIterator_Close it1 e1)
                   in case res of
                        Inl err \<Rightarrow>
                          (if errors_Is err EPanic then None
                           else Some (http_Error (ErrorText (EWrap ''scan error'' err)) StatusInternalServerError w), e2)
                      | Inr results \<Rightarrow> (Some (sr_Write (ScanJSON results) (sr_Set ''Content-Type'' ''application/json'' w)), e2))"

definition handleStats :: "statusRecorder \<Rightarrow> Engine \<Rightarrow> statusRecorder option \<times> Engine" where
  "handleStats w e =
     (case Engine_Stats e of
        (Inl err, e1) \<Rightarrow> (None, e1)
      | (Inr st, e1) \<Rightarrow> (Some (sr_Write (StatsJSON st) (sr_Set ''Content-Type'' ''application/json'' w)), e1))"

definition handleHealthz :: "statusRecorder \<Rightarrow> Engine \<Rightarrow> statusRecorder option \<times> Engine" where
  "handleHealthz w e = (Some (sr_Write (Text ''ok'') (statusRecorder_WriteHeader StatusOK w)), e)"

subsection \<open>Routes\<close>

datatype segment = Lit string | Wild

datatype route = PutKV | GetKV | DeleteKV | ScanR | StatsR | HealthzR

definition routes :: "(string \<times> segment list \<times> route) list" where
  "routes =
     [(''PUT'', [Lit ''kv'', Wild], PutKV), (''GET'', [Lit ''kv'', Wild], GetKV), (''DELETE'', [Lit ''kv'', Wild], DeleteKV),
      (''GET'', [Lit ''scan''], ScanR), (''GET'', [Lit ''stats''], StatsR), (''GET'', [Lit ''healthz''], HealthzR)]"

text \<open>The patterns of ServeMux: a wildcard stands for one segment that is not empty, GET also matches HEAD.\<close>

fun match_path :: "segment list \<Rightarrow> bytes list \<Rightarrow> bool" where
  "match_path [] [] = True"
| "match_path (Lit s # ss) (p # ps) = (p = map of_char s \<and> match_path ss ps)"
| "match_path (Wild # ss) (p # ps) = (p \<noteq> [] \<and> match_path ss ps)"
| "match_path ss ps = False"

definition match_method :: "string \<Rightarrow> string \<Rightarrow> bool" where
  "match_method pm m \<longleftrightarrow> m = pm \<or> pm = ''GET'' \<and> m = ''HEAD''"

definition PathValue_key :: "Request \<Rightarrow> bytes" where
  "PathValue_key r = rq_Path r ! 1"

fun handle :: "route \<Rightarrow> env \<Rightarrow> Request \<Rightarrow> statusRecorder \<Rightarrow> Engine \<Rightarrow> statusRecorder option \<times> Engine" where
  "handle PutKV env r w e = handlePut (PathValue_key r) r w e"
| "handle GetKV env r w e = handleGet env (PathValue_key r) w e"
| "handle DeleteKV env r w e = handleDelete (PathValue_key r) w e"
| "handle ScanR env r w e = handleScan env r w e"
| "handle StatsR env r w e = handleStats w e"
| "handle HealthzR env r w e = handleHealthz w e"

record logLine =
  ll_method :: string
  ll_path :: "bytes list"
  ll_status :: int

record Server =
  sv_e :: Engine
  sv_logger :: "logLine list"

definition Server_New :: "Engine \<Rightarrow> Server" where
  "Server_New e = \<lparr>sv_e = e, sv_logger = []\<rparr>"

definition withLogging :: "route \<Rightarrow> env \<Rightarrow> Request \<Rightarrow> ResponseWriter \<Rightarrow> Server \<Rightarrow> ResponseWriter option \<times> Server" where
  "withLogging h env r w s =
     (case handle h env r \<lparr>sr_w = w, sr_status = StatusOK\<rparr> (sv_e s) of
        (None, e1) \<Rightarrow> (None, s\<lparr>sv_e := e1\<rparr>)
      | (Some rec, e1) \<Rightarrow>
          (Some (sr_w rec),
           s\<lparr>sv_e := e1, sv_logger := sv_logger s @ [\<lparr>ll_method = rq_Method r, ll_path = rq_Path r, ll_status = sr_status rec\<rparr>]\<rparr>))"

text \<open>What net/http does when the handler has returned: the status is sent, and the body of a HEAD request is not.\<close>

definition finishRequest :: "Request \<Rightarrow> ResponseWriter \<Rightarrow> ResponseWriter" where
  "finishRequest r w = (let w1 = rw_WriteHeader StatusOK w in if rq_Method r = ''HEAD'' then w1\<lparr>rw_body := []\<rparr> else w1)"

text \<open>One request: the route or a 404 or 405 of ServeMux.\<close>

definition ServeHTTP :: "env \<Rightarrow> Request \<Rightarrow> Server \<Rightarrow> ResponseWriter option \<times> Server" where
  "ServeHTTP env r s =
     (let on_path = filter (\<lambda>(m, p, h). match_path p (rq_Path r)) routes;
          (w, s1) = (case filter (\<lambda>(m, p, h). match_method m (rq_Method r)) on_path of
             (m, p, h) # _ \<Rightarrow> withLogging h env r rw_new s
           | [] \<Rightarrow>
               (Some (sr_w (if on_path = [] then http_Error (Text ''404 page not found'') StatusNotFound \<lparr>sr_w = rw_new, sr_status = 0\<rparr>
                            else http_Error (Text ''Method Not Allowed'') StatusMethodNotAllowed \<lparr>sr_w = rw_new, sr_status = 0\<rparr>)), s))
      in (map_option (finishRequest r) w, s1))"

section \<open>The recorded status\<close>

text \<open>A recorder in step: it has the status that was sent, or 200 when nothing was.\<close>

definition in_step :: "statusRecorder \<Rightarrow> bool" where
  "in_step rec \<longleftrightarrow> (case rw_sent (sr_w rec) of None \<Rightarrow> sr_status rec = StatusOK | Some (code, h) \<Rightarrow> code = sr_status rec)"

definition unsent :: "statusRecorder \<Rightarrow> bool" where
  "unsent rec \<longleftrightarrow> rw_sent (sr_w rec) = None \<and> sr_status rec = StatusOK"

lemmas writer_defs = sr_Write_def sr_Set_def http_Error_def statusRecorder_WriteHeader_def rw_Write_def rw_WriteHeader_def Header_Set_def Let_def

lemma recorder_in_step:
  "unsent w \<Longrightarrow> unsent (sr_Set k v w)" "unsent w \<Longrightarrow> in_step (http_Error b code w)"
  "unsent w \<Longrightarrow> in_step (sr_Write b w)" "unsent w \<Longrightarrow> in_step (statusRecorder_WriteHeader code w)"
  "in_step w \<Longrightarrow> in_step (sr_Write b w)"
  by (auto simp: unsent_def in_step_def writer_defs split: option.splits)

lemma error_in_step: "unsent w \<Longrightarrow> writeEngineError err w = Some rec \<Longrightarrow> in_step rec"
  by (auto simp: writeEngineError_def recorder_in_step split: if_splits)

lemma handle_in_step: "unsent w \<Longrightarrow> handle h env r w e = (Some rec, e1) \<Longrightarrow> in_step rec"
  by (cases h)
     (auto simp: handlePut_def handleGet_def handleDelete_def handleScan_def handleStats_def handleHealthz_def recorder_in_step Let_def
       intro: error_in_step split: sum.splits option.splits prod.splits if_splits)

definition routed :: "Request \<Rightarrow> route \<Rightarrow> bool" where
  "routed r h \<longleftrightarrow> (\<exists>m p. (m, p, h) \<in> set routes \<and> match_path p (rq_Path r) \<and> match_method m (rq_Method r))"

lemma match_path_iff:
  "match_path [] ps \<longleftrightarrow> ps = []"
  "match_path (Lit s # ss) ps \<longleftrightarrow> (\<exists>qs. ps = map of_char s # qs \<and> match_path ss qs)"
  "match_path (Wild # ss) ps \<longleftrightarrow> (\<exists>p qs. ps = p # qs \<and> p \<noteq> [] \<and> match_path ss qs)"
  by (cases ps; simp)+

definition kv_path :: "Request \<Rightarrow> bool" where
  "kv_path r \<longleftrightarrow> match_path [Lit ''kv'', Wild] (rq_Path r)"

lemma routed_iff:
  "routed r PutKV \<longleftrightarrow> kv_path r \<and> match_method ''PUT'' (rq_Method r)"
  "routed r GetKV \<longleftrightarrow> kv_path r \<and> match_method ''GET'' (rq_Method r)"
  "routed r DeleteKV \<longleftrightarrow> kv_path r \<and> match_method ''DELETE'' (rq_Method r)"
  "routed r ScanR \<longleftrightarrow> rq_Path r = [map of_char ''scan''] \<and> match_method ''GET'' (rq_Method r)"
  "routed r StatsR \<longleftrightarrow> rq_Path r = [map of_char ''stats''] \<and> match_method ''GET'' (rq_Method r)"
  "routed r HealthzR \<longleftrightarrow> rq_Path r = [map of_char ''healthz''] \<and> match_method ''GET'' (rq_Method r)"
  unfolding routed_def routes_def kv_path_def by (simp_all add: match_path_iff(1,2))

lemma kv_path_key: "kv_path r \<Longrightarrow> rq_Path r = [map of_char ''kv'', PathValue_key r] \<and> PathValue_key r \<noteq> []"
  by (auto simp: kv_path_def match_path_iff PathValue_key_def)

lemma kv_path_length: "kv_path r \<Longrightarrow> length (rq_Path r) = 2"
  using kv_path_key by force

lemma routed_unique:
  assumes "routed r h" and "routed r h'"
  shows "h = h'"
proof (cases "kv_path r")
  case True
  note kv_path_length [OF this]
  with assms show ?thesis by (cases h; cases h') (auto simp: routed_iff match_method_def)
next
  case False
  with assms show ?thesis by (cases h; cases h') (auto simp: routed_iff)
qed

lemma ServeHTTP_routed:
  assumes "routed r h"
  shows "ServeHTTP env r s = apfst (map_option (finishRequest r)) (withLogging h env r rw_new s)"
proof -
  let ?fs = "filter (\<lambda>(m, p, h). match_method m (rq_Method r)) (filter (\<lambda>(m, p, h). match_path p (rq_Path r)) routes)"
  obtain m p h' rs where f: "?fs = (m, p, h') # rs" using assms by (cases ?fs) (auto simp: routed_def filter_empty_conv)
  then have "(m, p, h') \<in> set ?fs" by simp
  then have "routed r h'" by (auto simp: routed_def)
  with routed_unique assms have "h' = h" by blast
  with f show ?thesis by (simp add: ServeHTTP_def Let_def apfst_def map_prod_def split: prod.split)
qed

section \<open>Requests against the map\<close>

text \<open>The pairs of a map in an interval, in key order, cut to a limit where 0 is none.\<close>

definition limited :: "int \<Rightarrow> 'a list \<Rightarrow> 'a list" where
  "limited limit xs = (if limit = 0 then xs else take (nat limit) xs)"

definition entries_of :: "(bytes \<Rightarrow> bytes option) \<Rightarrow> bytes option \<Rightarrow> bytes option \<Rightarrow> (bytes \<times> bytes) list" where
  "entries_of m a b = map (\<lambda>k. (k, the (m k))) (sorted_list_of_set {k \<in> dom m. in_range a b k})"

text \<open>
  The body a plain map expects: given bytes; the pairs of a scan, in JSON, where an empty value may be
  null or an empty string (which of the two depends on whether it has been flushed); or the statistics
  of the engine that gets the request.
\<close>

datatype expected = Exactly "body list" | Pairs "(bytes \<times> bytes) list" | Statistics

definition entry_pair :: "scanEntry \<Rightarrow> bytes \<times> bytes" where
  "entry_pair x = (se_Key x, slice_bytes (se_Value x))"

fun body_is :: "expected \<Rightarrow> Engine \<Rightarrow> body list \<Rightarrow> bool" where
  "body_is (Exactly bs) e body = (body = bs)"
| "body_is (Pairs ps) e body = (case body of [ScanJSON es] \<Rightarrow> map entry_pair es = ps | _ \<Rightarrow> False)"
| "body_is Statistics e body = (case body of [StatsJSON x] \<Rightarrow> fst (Engine_Stats e) = Inr x | _ \<Rightarrow> False)"

text \<open>What is sent in answer to a request: no body to a HEAD.\<close>

definition sends :: "Request \<Rightarrow> expected \<Rightarrow> Engine \<Rightarrow> body list \<Rightarrow> bool" where
  "sends r ex e body \<longleftrightarrow> (if rq_Method r = ''HEAD'' then body = [] else body_is ex e body)"

fun http_spec :: "route \<Rightarrow> Request \<Rightarrow> (bytes \<Rightarrow> bytes option) \<Rightarrow> int \<times> expected \<times> (bytes \<Rightarrow> bytes option)" where
  "http_spec PutKV r m =
     (if length (rq_Body r) > maxRequestBody then (413, Exactly [Text ''request body too large''], m)
      else case rq_BodyErr r of
             Some x \<Rightarrow> (400, Exactly [ErrorText (EWrap ''reading request body'' x)], m)
           | None \<Rightarrow> (204, Exactly [], m(PathValue_key r \<mapsto> rq_Body r)))"
| "http_spec GetKV r m =
     (case m (PathValue_key r) of None \<Rightarrow> (404, Exactly [ErrorText ErrNotFound], m) | Some v \<Rightarrow> (200, Exactly [Raw v], m))"
| "http_spec DeleteKV r m = (204, Exactly [], m(PathValue_key r := None))"
| "http_spec ScanR r m =
     (case scan_limit r of
        Inl x \<Rightarrow> (400, Exactly [Text ''invalid limit''], m)
      | Inr n \<Rightarrow> if n < 0 then (400, Exactly [Text ''invalid limit''], m)
               else (200, Pairs (limited n (entries_of m (scan_bound ''start'' r) (scan_bound ''end'' r))), m))"
| "http_spec StatsR r m = (200, Statistics, m)"
| "http_spec HealthzR r m = (200, Exactly [Text ''ok''], m)"

text \<open>The answer to any request; one that has no route gets a 404, or a 405 when its path has one for another method.\<close>

definition route_of :: "Request \<Rightarrow> route option" where
  "route_of r = map_option (\<lambda>(m, p, h). h) (find (\<lambda>(m, p, h). match_path p (rq_Path r) \<and> match_method m (rq_Method r)) routes)"

definition http_answer :: "Request \<Rightarrow> (bytes \<Rightarrow> bytes option) \<Rightarrow> int \<times> expected \<times> (bytes \<Rightarrow> bytes option)" where
  "http_answer r m =
     (case route_of r of
        Some h \<Rightarrow> http_spec h r m
      | None \<Rightarrow> if list_ex (\<lambda>(m, p, h). match_path p (rq_Path r)) routes then (405, Exactly [Text ''Method Not Allowed''], m)
                else (404, Exactly [Text ''404 page not found''], m))"

lemma route_of_routed: "route_of r = Some h \<Longrightarrow> routed r h"
  by (auto simp: route_of_def routed_def find_Some_iff) (metis nth_mem)

lemma ServeHTTP_unrouted:
  assumes "route_of r = None"
  shows "\<exists>w st bs hdr. ServeHTTP env r s = (Some w, s) \<and> rw_sent w = Some (st, hdr) \<and>
    http_answer r m = (st, Exactly bs, m) \<and> sends r (Exactly bs) (sv_e s) (rw_body w)"
proof -
  let ?on = "filter (\<lambda>(m, p, h). match_path p (rq_Path r)) routes"
  have none: "filter (\<lambda>(m, p, h). match_method m (rq_Method r)) ?on = []"
    using assms by (auto simp: route_of_def find_None_iff filter_empty_conv)
  have ex: "list_ex (\<lambda>(m, p, h). match_path p (rq_Path r)) routes \<longleftrightarrow> ?on \<noteq> []" by (simp add: list_ex_iff filter_empty_conv)
  note defs = finishRequest_def sends_def rw_new_def writer_defs status_defs
  show ?thesis unfolding ServeHTTP_def http_answer_def assms ex none Let_def by (cases "?on = []") (simp_all add: defs)
qed

text \<open>
  What net/http lets through: the header of a request, its first line with the path included, is at
  most \<^verbatim>\<open>DefaultMaxHeaderBytes\<close> (1 MiB) and 4096 bytes long; unescaping the path makes no segment longer.
\<close>

definition within_header_limit :: "Request \<Rightarrow> bool" where
  "within_header_limit r \<longleftrightarrow> (\<forall>p \<in> set (rq_Path r). length p \<le> 2 ^ 20 + 4096)"

lemma key_within_limit: "kv_path r \<Longrightarrow> within_header_limit r \<Longrightarrow> length (PathValue_key r) \<le> 2 ^ 20 + 4096"
  using kv_path_key [of r] by (auto simp: within_header_limit_def)

text \<open>The loop of the handler without the difference between nil and an empty value.\<close>

function pair_loop :: "env \<Rightarrow> int \<Rightarrow> (bytes \<times> bytes) list \<Rightarrow> ScanIterator \<Rightarrow> (error + (bytes \<times> bytes) list) \<times> ScanIterator" where
  "pair_loop env limit results it =
     (if limit = 0 \<or> int (length results) < limit
      then case ScanIterator_Next env it of
             (Inl err, it1) \<Rightarrow> (Inl err, it1)
           | (Inr None, it1) \<Rightarrow> (Inr results, it1)
           | (Inr (Some kv), it1) \<Rightarrow> pair_loop env limit (results @ [kv]) it1
      else (Inr results, it))"
  by pat_completeness auto
termination
  by (relation "measure (\<lambda>(env, limit, results, it). scan_work (it_heap it))")
     (auto simp: ScanIterator_Next_def intro: scan_next_work split: prod.splits)

declare pair_loop.simps [simp del]

lemma scan_loop_pairs:
  "pair_loop env limit (map entry_pair results) it = apfst (map_sum id (map entry_pair)) (scan_loop env limit results it)"
proof (induction env limit results it rule: scan_loop.induct)
  case (1 env limit results it)
  obtain res it1 where n: "ScanIterator_NextSlice env it = (res, it1)" by fastforce
  note step = pair_loop.simps [of env limit "map entry_pair results" it] scan_loop.simps [of env limit results it] ScanIterator_Next_slice [of env it] n
  show ?case
  proof (cases "limit = 0 \<or> int (length results) < limit")
    case go: True
    show ?thesis
    proof (cases "\<exists>k v. res = Inr (Some (k, v))")
      case True
      then obtain k v where kv: "res = Inr (Some (k, v))" by blast
      have "pair_loop env limit (map entry_pair (results @ [\<lparr>se_Key = k, se_Value = v\<rparr>])) it1 =
          apfst (map_sum id (map entry_pair)) (scan_loop env limit (results @ [\<lparr>se_Key = k, se_Value = v\<rparr>]) it1)"
        using "1.IH" [OF go] n kv by (simp add: id_def)
      moreover have "entry_pair \<lparr>se_Key = k, se_Value = v\<rparr> = (k, slice_bytes v)" by (simp add: entry_pair_def)
      ultimately show ?thesis using go by (simp add: step kv id_def)
    next
      case False
      with go show ?thesis by (cases res) (auto simp: step split: option.splits)
    qed
  next
    case False
    then show ?thesis by (auto simp: step)
  qed
qed

text \<open>The loop of the handler returns the limited prefix of a whole scan.\<close>

lemma pair_loop_all:
  assumes "scan_all env n it = (Inr out, it')" and "length out < n" and "0 \<le> limit" and "limit = 0 \<or> int (length results) \<le> limit"
  shows "\<exists>it1. pair_loop env limit results it =
      (Inr (results @ (if limit = 0 then out else take (nat limit - length results) out)), it1) \<and>
    it_tables it1 = it_tables it \<and> it_closed it1 = it_closed it"
  using assms
proof (induction n arbitrary: it out results)
  case (Suc n)
  obtain res it1 where n: "ScanIterator_Next env it = (res, it1)" by fastforce
  have keep: "it_tables it1 = it_tables it" "it_closed it1 = it_closed it" using n by (auto simp: ScanIterator_Next_def split: prod.splits)
  show ?case
  proof (cases "limit = 0 \<or> int (length results) < limit")
    case go: True
    show ?thesis
    proof (cases "res = Inr None")
      case True
      with n go Suc.prems(1) keep show ?thesis by (simp add: pair_loop.simps [of env limit results it])
    next
      case False
      then obtain k v out' where kv: "res = Inr (Some (k, v))" "scan_all env n it1 = (Inr out', it')" "out = (k, v) # out'"
        using n Suc.prems(1) by (auto split: sum.splits option.splits prod.splits)
      let ?results = "results @ [(k, v)]"
      have "nat limit - length results = Suc (nat limit - length ?results)" if "limit \<noteq> 0" using go that by auto
      moreover have "length out' < n" "limit = 0 \<or> int (length ?results) \<le> limit" using Suc.prems(2) kv(3) go by auto
      ultimately show ?thesis
        using Suc.IH [OF kv(2) _ Suc.prems(3), of ?results] n kv go keep by (auto simp: pair_loop.simps [of env limit results it])
    qed
  next
    case False
    then have "limit \<noteq> 0" "nat limit \<le> length results" by auto
    with False show ?thesis by (auto simp: pair_loop.simps [of env limit results it])
  qed
qed simp

text \<open>A scan of a calm store, with the map it is about.\<close>

lemma Engine_Scan_calm:
  assumes "calm env e" and "Engine_Scan env a b e = (r, e1)"
  obtains it it1 es where "r = Inr it" and "pair_loop env limit [] it = (Inr (limited limit (entries_of (store env e) a b)), it1)"
    and "scan_loop env limit [] it = (Inr es, it1)" and "map entry_pair es = limited limit (entries_of (store env e) a b)"
    and "snd (ScanIterator_Close it1 e1) = Inc (em_scanTotal (e_m e)) e"
proof -
  let ?e = "Inc (em_scanTotal (e_m e)) e" and ?m = "store env e"
  have "serving env ?e" using assms(1) calm_metrics(1) einv_serving unfolding calm_def by blast
  then obtain it where it: "r = Inr it" "scan_ok env (it_heap it)" "agreeing (held env (it_heap it))" "it_tables it = allTablesLocked ?e" "\<not> it_closed it"
    "releaseAll (allTablesLocked ?e) e1 = ?e"
    "\<And>k v. live (held env (it_heap it)) k v \<longleftrightarrow> in_range a b k \<and> reads (versions env ?e) k unboundedSeq = Some v"
    using assms(2) unfolding Engine_Scan_def by (rule scanAt_ok) blast
  let ?n = "Suc (size (held env (it_heap it)))"
  from scan_all_ok [OF it(2,3) lessI] obtain out it' where o: "scan_all env ?n it = (Inr out, it')" "length out < ?n"
    "sorted_wrt (<) (map fst out)" "\<forall>k v. (k, v) \<in> set out \<longleftrightarrow> live (held env (it_heap it)) k v"
    by (metis less_Suc_eq_le)
  have m: "(k, v) \<in> set out \<longleftrightarrow> in_range a b k \<and> ?m k = Some v" for k v using o(4) it(7) by (simp add: store_def Inc_def)
  have "k \<in> set (map fst out) \<longleftrightarrow> (\<exists>v. (k, v) \<in> set out)" for k by force
  then have "set (map fst out) = {k \<in> dom ?m. in_range a b k}" unfolding m by blast
  then have keys: "sorted_list_of_set {k \<in> dom ?m. in_range a b k} = map fst out"
    using o(3) sorted_list_of_set.idem_if_sorted_distinct [of "map fst out"] by (simp only: strict_sorted_iff)
  have "map (\<lambda>k. (k, the (?m k))) (map fst out) = map id out" unfolding map_map by (rule map_cong) (use m in auto)
  then have "entries_of ?m a b = out" unfolding entries_of_def keys by simp
  then have l: "(if limit = 0 then out else take (nat limit - length []) out) = limited limit (entries_of ?m a b)"
    by (simp add: limited_def)
  have "\<exists>it1. pair_loop env limit [] it = (Inr (limited limit (entries_of ?m a b)), it1) \<and> it_tables it1 = it_tables it \<and> it_closed it1 = it_closed it"
  proof (cases "limit < 0")
    case True
    then show ?thesis by (simp add: pair_loop.simps [of env limit "[]" it] limited_def)
  next
    case False
    then show ?thesis using pair_loop_all [OF o(1,2), of limit "[]"] unfolding l by auto
  qed
  then obtain it1 where "pair_loop env limit [] it = (Inr (limited limit (entries_of ?m a b)), it1)" "it_tables it1 = it_tables it" "it_closed it1 = it_closed it"
    by blast
  moreover from this(2,3) it(4-6) have "snd (ScanIterator_Close it1 e1) = ?e" by (simp only: ScanIterator_Close_def if_False snd_conv)
  moreover obtain es where "scan_loop env limit [] it = (Inr es, it1)" "map entry_pair es = limited limit (entries_of ?m a b)"
    using scan_loop_pairs [of env limit "[]" it] calculation(1) by (cases "scan_loop env limit [] it"; cases "fst (scan_loop env limit [] it)") auto
  ultimately show thesis using it(1) that by blast
qed

lemma Put_calm:
  assumes "calm env e" and "roomy env e" and "key_val_ok key val" and "Put key val e = (r, e')"
  shows "r = None" and "calm env e'" and "store env e' = (store env e)(key \<mapsto> val)"
proof -
  obtain r1 e1 where w: "engine_write key val RecordPut e = (r1, e1)" by fastforce
  have c: "counters_ok e" using assms(2) by (simp add: roomy_def)
  show "r = None" using engine_write_calm(1) [OF assms(1) c assms(3) w] assms(3,4) w by (auto simp: Put_def key_val_ok_def)
  from engine_step_effect [OF assms(1,2) engine_step.put [OF assms(3,4)]]
  show "calm env e'" "store env e' = (store env e)(key \<mapsto> val)" by (simp_all add: step_effect_def)
qed

lemma Delete_calm:
  assumes "calm env e" and "roomy env e" and "key_val_ok key []" and "Delete key e = (r, e')"
  shows "r = None" and "calm env e'" and "store env e' = (store env e)(key := None)"
proof -
  obtain r1 e1 where w: "engine_write key [] RecordDelete e = (r1, e1)" by fastforce
  have c: "counters_ok e" using assms(2) by (simp add: roomy_def)
  show "r = None" using engine_write_calm(1) [OF assms(1) c assms(3) w] assms(3,4) w by (auto simp: Delete_def key_val_ok_def)
  from engine_step_effect [OF assms(1,2) engine_step.delete [OF assms(3,4)]]
  show "calm env e'" "store env e' = (store env e)(key := None)" by (simp_all add: step_effect_def)
qed

text \<open>What a handler leaves behind, when it starts with a fresh recorder on a calm store.\<close>

definition serves :: "env \<Rightarrow> Engine \<Rightarrow> (statusRecorder option \<times> Engine) \<Rightarrow> int \<times> expected \<times> (bytes \<Rightarrow> bytes option) \<Rightarrow> bool" where
  "serves env e out spec \<longleftrightarrow> (case out of
       (None, e') \<Rightarrow> False
     | (Some rec, e') \<Rightarrow> (case spec of (st, ex, m) \<Rightarrow> (case rw_sent (sr_w rec) of None \<Rightarrow> False | Some (c, h) \<Rightarrow> c = st) \<and>
         body_is ex e (rw_body (sr_w rec)) \<and> calm env e' \<and> store env e' = m))"

abbreviation fresh_recorder :: statusRecorder where
  "fresh_recorder \<equiv> \<lparr>sr_w = rw_new, sr_status = StatusOK\<rparr>"

lemmas serves_simps = serves_def writer_defs rw_new_def status_defs

lemma handlePut_serves:
  assumes "calm env e" and "roomy env e" and "PathValue_key r \<noteq> []" and "length (PathValue_key r) < 2 ^ 32"
  shows "serves env e (handlePut (PathValue_key r) r fresh_recorder e) (http_spec PutKV r (store env e))"
proof -
  have R: "ReadAll_limited (Suc maxRequestBody) r =
    (if maxRequestBody < length (rq_Body r) then Inr (take (Suc maxRequestBody) (rq_Body r))
     else case rq_BodyErr r of None \<Rightarrow> Inr (rq_Body r) | Some x \<Rightarrow> Inl x)"
    by (simp add: ReadAll_limited_def Suc_le_eq)
  show ?thesis
  proof (cases "maxRequestBody < length (rq_Body r)")
    case True
    then show ?thesis using assms(1) by (simp add: handlePut_def R serves_simps)
  next
    case small: False
    show ?thesis
    proof (cases "rq_BodyErr r")
      case None
      have "length (rq_Body r) < 2 ^ 32" using small by (simp add: maxRequestBody_def)
      then have kv: "key_val_ok (PathValue_key r) (rq_Body r)" using assms(3,4) by (simp add: key_val_ok_def)
      obtain res e1 where p: "Put (PathValue_key r) (rq_Body r) e = (res, e1)" by fastforce
      show ?thesis using Put_calm [OF assms(1,2) kv p] p small None by (simp add: handlePut_def R serves_simps)
    next
      case (Some x)
      with small assms(1) show ?thesis by (simp add: handlePut_def R serves_simps)
    qed
  qed
qed

lemma handleGet_serves:
  assumes "calm env e" and "key \<noteq> []" and "PathValue_key r = key"
  shows "serves env e (handleGet env key fresh_recorder e) (http_spec GetKV r (store env e))"
proof -
  obtain res e1 where g: "Get env key e = (res, e1)" by fastforce
  note G = Get_calm [OF assms(1) g]
  have "store env e1 = store env e" using G(2) by (simp add: store_def [abs_def])
  then show ?thesis
    using G(1,5) g assms(2,3) by (cases "store env e key") (simp_all add: handleGet_def writeEngineError_def answer_def serves_simps)
qed

lemma handleDelete_serves:
  assumes "calm env e" and "roomy env e" and "PathValue_key r \<noteq> []" and "length (PathValue_key r) < 2 ^ 32"
  shows "serves env e (handleDelete (PathValue_key r) fresh_recorder e) (http_spec DeleteKV r (store env e))"
proof -
  have kv: "key_val_ok (PathValue_key r) []" using assms(3,4) by (simp add: key_val_ok_def)
  obtain res e1 where d: "Delete (PathValue_key r) e = (res, e1)" by fastforce
  from Delete_calm [OF assms(1,2) kv d] d show ?thesis by (simp add: handleDelete_def serves_simps)
qed

lemma handleScan_serves:
  assumes "calm env e"
  shows "serves env e (handleScan env r fresh_recorder e) (http_spec ScanR r (store env e))"
proof (cases "scan_limit r")
  case (Inl x)
  with assms show ?thesis by (simp add: handleScan_def serves_simps)
next
  case (Inr limit)
  show ?thesis
  proof (cases "limit < 0")
    case True
    with Inr assms show ?thesis by (simp add: handleScan_def serves_simps)
  next
    case False
    obtain res e1 where s: "Engine_Scan env (scan_bound ''start'' r) (scan_bound ''end'' r) e = (res, e1)" by fastforce
    from Engine_Scan_calm [OF assms s, of limit] obtain it it1 es where it: "res = Inr it" "scan_loop env limit [] it = (Inr es, it1)"
      "snd (ScanIterator_Close it1 e1) = Inc (em_scanTotal (e_m e)) e"
      "map entry_pair es = limited limit (entries_of (store env e) (scan_bound ''start'' r) (scan_bound ''end'' r))" by blast
    have st: "store env (Inc p e) = store env e" for p by (simp add: store_def [abs_def] Inc_def)
    show ?thesis using Inr False s it(1,2,4) assms by (simp add: handleScan_def serves_simps it(3) st)
  qed
qed

lemma handleStats_serves:
  assumes "calm env e"
  shows "serves env e (handleStats fresh_recorder e) (http_spec StatsR r (store env e))"
proof -
  have "0 \<le> e_maxLevels e" using assms by (simp add: calm_def age_inv_def levels_bounded_def)
  then obtain x reg where s: "Engine_Stats e = (Inr x, e\<lparr>e_reg := reg\<rparr>)" by (simp add: Engine_Stats_def Let_def)
  have "calm env (e\<lparr>e_reg := reg\<rparr>)" "store env (e\<lparr>e_reg := reg\<rparr>) = store env e"
    using assms calm_metrics by (simp_all add: store_def [abs_def])
  then show ?thesis by (simp add: handleStats_def s serves_simps)
qed

section \<open>Properties\<close>

lemma request_serves:
  assumes "calm env (sv_e s)" and "roomy env (sv_e s)" and "within_header_limit r"
    and "http_answer r (store env (sv_e s)) = (st, ex, m)"
  shows "\<exists>w s' hdr. ServeHTTP env r s = (Some w, s') \<and> rw_sent w = Some (st, hdr) \<and> sends r ex (sv_e s) (rw_body w) \<and>
    calm env (sv_e s') \<and> store env (sv_e s') = m"
proof (cases "route_of r")
  case None
  from ServeHTTP_unrouted [OF this, of env s "store env (sv_e s)"] assms(1,4) show ?thesis by auto
next
  case (Some h)
  let ?e = "sv_e s"
  have R: "routed r h" by (rule route_of_routed [OF Some])
  have key: "PathValue_key r \<noteq> []" "length (PathValue_key r) < 2 ^ 32" if "h \<in> {PutKV, GetKV, DeleteKV}"
    using R that kv_path_key key_within_limit [OF _ assms(3)] by (force simp: routed_iff)+
  have "serves env ?e (handle h env r fresh_recorder ?e) (http_spec h r (store env ?e))"
  proof (cases h)
    case PutKV
    with handlePut_serves [OF assms(1,2)] key show ?thesis by simp
  next
    case GetKV
    with handleGet_serves [OF assms(1) _ refl] key show ?thesis by simp
  next
    case DeleteKV
    with handleDelete_serves [OF assms(1,2)] key show ?thesis by simp
  next
    case ScanR
    with handleScan_serves [OF assms(1)] show ?thesis by simp
  next
    case StatsR
    with handleStats_serves [OF assms(1)] show ?thesis by simp
  next
    case HealthzR
    with assms(1) show ?thesis by (simp add: handleHealthz_def serves_simps)
  qed
  moreover have "http_spec h r (store env ?e) = (st, ex, m)" using assms(4) Some by (simp add: http_answer_def)
  ultimately obtain rec e' hdr where o: "handle h env r fresh_recorder ?e = (Some rec, e')" "rw_sent (sr_w rec) = Some (st, hdr)"
    "body_is ex ?e (rw_body (sr_w rec))" "calm env e'" "store env e' = m"
    by (auto simp: serves_def split: prod.splits option.splits)
  then show ?thesis by (simp add: ServeHTTP_routed [OF R] withLogging_def finishRequest_def rw_WriteHeader_def sends_def Let_def)
qed

text \<open>
  C7: The HTTP interface is a map. On a well-formed store without faults every request that net/http
  lets through (its header within 1 MiB) is answered, never by a panic, as a plain map would: a PUT
  answers 204 and stores the body, 413 above 64 MiB and 400 on a broken body without an effect; a GET
  answers 200 with the value or 404; a DELETE answers 204; a scan answers 400 on a bad limit and
  otherwise the live pairs of the interval in key order, cut to the limit, where an empty value is
  null or an empty string; the statistics are those of the engine; a path without a route gets a 404
  and a method without one a 405. The answer to a HEAD has no body. The store stays well formed.
\<close>

theorem http_refines_map:
  assumes "calm env (sv_e s)" and "roomy env (sv_e s)" and "within_header_limit r"
    and "http_answer r (store env (sv_e s)) = (st, ex, m)"
  shows "\<exists>w s' hdr. ServeHTTP env r s = (Some w, s') \<and> rw_sent w = Some (st, hdr) \<and> sends r ex (sv_e s) (rw_body w) \<and>
    calm env (sv_e s') \<and> store env (sv_e s') = m"
  using assms by (rule request_serves)

definition demo_request :: "string \<Rightarrow> bytes list \<Rightarrow> Request" where
  "demo_request m p = \<lparr>rq_Method = m, rq_Path = p, rq_Query = [], rq_Body = [], rq_BodyErr = None\<rparr>"

theorem http_refines_map_witness:
  "\<exists>s w s' hdr. e_tables (sv_e s) \<noteq> [] \<and> ServeHTTP demo_env (demo_request ''GET'' [[107, 118], [1]]) s = (Some w, s') \<and>
     rw_sent w = Some (200, hdr) \<and> rw_body w = [Raw [7]]"
proof -
  obtain e where e: "calm demo_env e" "e_tables e \<noteq> []" "roomy demo_env e" "versions demo_env e = [new_version RecordPut [1] [7] 1]"
    by (rule demo_flushed)
  let ?r = "demo_request ''GET'' [[107, 118], [1]]"
  have r: "route_of ?r = Some GetKV" by (simp add: route_of_def routes_def demo_request_def match_method_def)
  have k: "PathValue_key ?r = [1]" "within_header_limit ?r" by (simp_all add: PathValue_key_def demo_request_def within_header_limit_def)
  have v: "store demo_env e [1] = Some [7]"
    by (simp add: store_def e(4) reads_def scan_version_def consider_rec_def new_version_def value_of_def TypeValue_def TypeTombstone_def unboundedSeq_def)
  have sv: "sv_e (Server_New e) = e" by (simp add: Server_New_def)
  have "http_answer ?r (store demo_env (sv_e (Server_New e))) = (200, Exactly [Raw [7]], store demo_env e)" by (simp add: http_answer_def r k v sv)
  from http_refines_map [OF _ _ k(2) this] e sv obtain w s' hdr where "ServeHTTP demo_env ?r (Server_New e) = (Some w, s')" "rw_sent w = Some (200, hdr)"
    "sends ?r (Exactly [Raw [7]]) e (rw_body w)" by auto
  then show ?thesis using e(2) sv by (intro exI [of _ "Server_New e"] exI [of _ w] exI [of _ s'] exI [of _ hdr]) (simp add: sends_def demo_request_def)
qed

text \<open>
  C38: The access log tells what was sent. Whatever the store does, errors included, a routed request
  whose handler returns adds one line to the access log, and the status in that line is the status
  of the response: no handler writes a second status and none sends a body behind the recorder's back.
\<close>

theorem logged_status_is_sent:
  assumes "routed r h" and "ServeHTTP env r s = (Some w, s')"
  shows "\<exists>st hdr. rw_sent w = Some (st, hdr) \<and>
    sv_logger s' = sv_logger s @ [\<lparr>ll_method = rq_Method r, ll_path = rq_Path r, ll_status = st\<rparr>]"
proof -
  have S: "apfst (map_option (finishRequest r)) (withLogging h env r rw_new s) = (Some w, s')"
    using assms(2) ServeHTTP_routed [OF assms(1)] by simp
  obtain o1 e1 where h: "handle h env r fresh_recorder (sv_e s) = (o1, e1)" by fastforce
  with S obtain rec where "o1 = Some rec" by (cases o1) (auto simp: withLogging_def)
  with h S have w: "handle h env r fresh_recorder (sv_e s) = (Some rec, e1)" "w = finishRequest r (sr_w rec)"
    "sv_logger s' = sv_logger s @ [\<lparr>ll_method = rq_Method r, ll_path = rq_Path r, ll_status = sr_status rec\<rparr>]"
    by (auto simp: withLogging_def)
  have "unsent fresh_recorder" by (simp add: unsent_def rw_new_def)
  from handle_in_step [OF this w(1)] w(2,3) show ?thesis
    by (auto simp: in_step_def finishRequest_def rw_WriteHeader_def Let_def split: option.splits)
qed

theorem logged_status_is_sent_witness:
  "\<exists>w s s' hdr. e_closed (sv_e s) \<and> ServeHTTP demo_env (demo_request ''GET'' [[107, 118], [1]]) s = (Some w, s') \<and>
     rw_sent w = Some (503, hdr) \<and> map ll_status (sv_logger s') = [503]"
proof -
  obtain e where "calm demo_env e" by (rule demo_flushed)
  let ?r = "demo_request ''GET'' [[107, 118], [1]]" and ?s = "Server_New (e\<lparr>e_closed := True\<rparr>)"
  have r: "routed ?r GetKV" by (simp add: routed_iff kv_path_def demo_request_def match_method_def)
  have k: "PathValue_key ?r = [1]" by (simp add: PathValue_key_def demo_request_def)
  obtain e1 where g: "Get demo_env [1] (e\<lparr>e_closed := True\<rparr>) = (Inl ErrClosed, e1)"
    by (simp add: Get_def getAt_def getAt_begin_def)
  have "\<exists>w s' hdr. ServeHTTP demo_env ?r ?s = (Some w, s') \<and> rw_sent w = Some (503, hdr)"
    by (simp add: ServeHTTP_routed [OF r] withLogging_def k handleGet_def g writeEngineError_def finishRequest_def writer_defs rw_new_def status_defs Server_New_def)
  then obtain w s' hdr where w: "ServeHTTP demo_env ?r ?s = (Some w, s')" "rw_sent w = Some (503, hdr)" by blast
  have "map ll_status (sv_logger s') = [503]" "e_closed (sv_e ?s)"
    using logged_status_is_sent [OF r w(1)] w(2) by (auto simp: Server_New_def)
  with w show ?thesis by (intro exI [of _ w] exI [of _ ?s] exI [of _ s'] exI [of _ hdr] conjI)
qed

end
