(* ===== verification/Frames.thy ===== *)
theory Frames
  imports History Scan
begin

text \<open>
  What the operations of the engine leave alone, in any state and under any faults: the directory
  and the registered snapshots. Only opening and closing a snapshot changes the latter.
\<close>

definition frozen :: "Engine \<Rightarrow> string \<times> (u64 \<times> int) list" where
  "frozen e = (e_dir e, e_activeSnapshots e)"

lemma frozen_metrics [simp]: "frozen (Inc p e) = frozen e" "frozen (Observe p e) = frozen e"
  by (simp_all add: frozen_def Inc_def Observe_def)

lemma frozen_fields: "frozen e' = frozen e \<longleftrightarrow> e_dir e' = e_dir e \<and> e_activeSnapshots e' = e_activeSnapshots e"
  by (simp add: frozen_def)

lemma engine_write_frozen: "engine_write key val typ e = (r, e') \<Longrightarrow> frozen e' = frozen e"
  by (auto simp: frozen_def engine_write_def rotate_def nextGen_def on_fs_def new_memtable_def Let_def split: prod.splits if_splits option.splits sum.splits)

lemma Put_frozen: "Put key val e = (r, e') \<Longrightarrow> frozen e' = frozen e"
  using engine_write_frozen by (auto simp: Put_def split: if_splits prod.splits)

lemma Delete_frozen: "Delete key e = (r, e') \<Longrightarrow> frozen e' = frozen e"
  using engine_write_frozen by (auto simp: Delete_def split: if_splits prod.splits)

lemma releaseAll_frozen [simp]: "frozen (releaseAll ps e) = frozen e"
proof -
  have "frozen (foldl (\<lambda>e p. snd (release p e)) e ps) = frozen e"
    by (induction ps arbitrary: e) (simp_all add: release_def frozen_def split: prod.splits)
  then show ?thesis by (simp add: releaseAll_def)
qed

lemma getAt_begin_frozen: "getAt_begin e = (r, e') \<Longrightarrow> frozen e' = frozen e"
  by (auto simp: getAt_begin_def frozen_def Let_def split: if_splits)

lemma getAt_frozen: "getAt env key q e = (r, e') \<Longrightarrow> frozen e' = frozen e"
  using getAt_begin_frozen by (auto simp: getAt_def split: if_splits prod.splits sum.splits)

lemma recordGet_frozen [simp]: "frozen (recordGet r e) = frozen e"
  by (simp add: recordGet_def Let_def split: sum.split)

lemma Get_frozen: "Get env key e = (r, e') \<Longrightarrow> frozen e' = frozen e"
  using getAt_frozen by (auto simp: Get_def split: prod.splits)

lemma Snapshot_Get_frozen: "Snapshot_Get env s key e = (r, e') \<Longrightarrow> frozen e' = frozen e"
  using getAt_frozen by (auto simp: Snapshot_Get_def split: prod.splits)

lemma scanAt_frozen: "scanAt env a b q e = (r, e') \<Longrightarrow> frozen e' = frozen e"
  using getAt_begin_frozen by (auto simp: scanAt_def split: prod.splits sum.splits)

lemma Scan_frozen: "Engine_Scan env a b e = (r, e') \<Longrightarrow> frozen e' = frozen e" "Snapshot_Scan env s a b e = (r, e') \<Longrightarrow> frozen e' = frozen e"
  by (auto simp: Engine_Scan_def Snapshot_Scan_def dest: scanAt_frozen)

lemma ScanIterator_Close_frozen [simp]: "frozen (snd (ScanIterator_Close it e)) = frozen e"
  by (simp add: ScanIterator_Close_def)

lemma Stats_frozen: "Engine_Stats e = (r, e') \<Longrightarrow> frozen e' = frozen e"
  by (auto simp: Engine_Stats_def frozen_def Let_def split: if_splits)

lemma flush_frozen [simp]: "frozen (flushWorker_turn env e) = frozen e"
  by (auto simp: frozen_def flushWorker_turn_def doFlush_def flush_write_def write_table_def flush_end_def flush_commit_def maybeTriggerCompaction_def nextGen_def
      on_fs_def Let_def split: list.splits prod.splits option.splits sum.splits)

lemma retire_frozen: "frozen (foldl (\<lambda>e p. retire p e) e ps) = frozen e"
  by (induction ps arbitrary: e) (auto simp: frozen_def retire_def split: prod.splits)

lemma trigger_frozen [simp]: "frozen (maybeTriggerCompaction e) = frozen e"
  by (simp add: maybeTriggerCompaction_def frozen_def split: option.split)

lemma compact_frozen: "compact_merge env c e = (x, e1) \<Longrightarrow> frozen e1 = frozen e" "compact_commit c r p e = (y, e2) \<Longrightarrow> frozen e2 = frozen e"
  by (auto simp: frozen_def compact_merge_def compact_commit_def nextGen_def on_fs_def Let_def split: prod.splits option.splits sum.splits if_splits)

lemma compact_end_frozen [simp]: "frozen (compact_end c e) = frozen e" "frozen (compact_metrics b e) = frozen e"
  by (simp_all add: compact_end_def compact_metrics_def retire_frozen Let_def)

lemma runCompaction_frozen: "runCompaction env e = (r, e') \<Longrightarrow> frozen e' = frozen e"
  by (auto simp: runCompaction_def Let_def dest!: compact_frozen split: prod.splits option.splits)

lemma compact_turn_frozen [simp]: "frozen (compactionLoop_turn env e) = frozen e"
proof -
  obtain r e1 where r: "runCompaction env (e\<lparr>e_compactCh := False\<rparr>) = (r, e1)" by fastforce
  from runCompaction_frozen [OF r] have "frozen e1 = frozen e" by (simp add: frozen_def)
  with r show ?thesis by (simp add: compactionLoop_turn_def)
qed

lemma snapshot_dir: "Engine_Snapshot e = (r, e') \<Longrightarrow> e_dir e' = e_dir e" "Snapshot_Close s e = (s', e') \<Longrightarrow> e_dir e' = e_dir e"
  by (auto simp: Engine_Snapshot_def Snapshot_load_def Snapshot_register_def Snapshot_Close_def Inc_def Adjust_def Let_def split: if_splits)

lemma step_dir: "engine_step env e oper e' \<Longrightarrow> e_dir e' = e_dir e"
  by (induction rule: engine_step.induct)
    (auto simp: frozen_fields intro: snapshot_dir dest: Put_frozen Delete_frozen Get_frozen, (metis flush_frozen compact_turn_frozen frozen_fields)+)

end
