(* ===== verification/Disk.thy ===== *)
theory Disk
  imports Frames
begin

text \<open>
  What the directory of a running store holds. The invariant \<open>disk_inv\<close> ties the files to the state in
  memory: every MemTable has a log whose records, applied in order, give its content; the logs are
  numbered in the order of the MemTables; every log and table file in the directory belongs to a
  MemTable or a listed table; a table file carries the level of its table in its name. Every step
  of a history keeps it, as long as no key or value is too large for a replay.
\<close>

section \<open>Definitions\<close>

definition log_entry :: "WalRecord \<Rightarrow> bytes \<times> Entry" where
  "log_entry r = (wr_key r,
     if wr_type r = RecordPut then \<lparr>ent_type = TypeValue, ent_value = wr_value r, ent_seq = wr_seq r\<rparr>
     else \<lparr>ent_type = TypeTombstone, ent_value = [], ent_seq = wr_seq r\<rparr>)"

definition log_get :: "WalRecord list \<Rightarrow> bytes \<Rightarrow> Entry option" where
  "log_get rs k = map_of (rev (map log_entry rs)) k"

definition log_ok :: "WalRecord \<Rightarrow> bool" where
  "log_ok r \<longleftrightarrow> rec_fits r \<and> (wr_type r = RecordPut \<or> wr_type r = RecordDelete)"

definition logged :: "fs \<Rightarrow> string \<Rightarrow> MemTable \<Rightarrow> bool" where
  "logged d p mt \<longleftrightarrow> (\<exists>rs. synced p (concat (map encode_record rs)) d \<and> (\<forall>r \<in> set rs. log_ok r) \<and> MemTable_Get mt = log_get rs)"

text \<open>The logs with their MemTables, oldest first.\<close>

definition mem_logs :: "Engine \<Rightarrow> (string \<times> nat) list" where
  "mem_logs e = map (\<lambda>i. (im_walPath i, im_mt i)) (e_imm e) @ [(e_walPath e, e_mem e)]"

definition log_paths :: "Engine \<Rightarrow> string list" where
  "log_paths e = map fst (mem_logs e)"

definition numbered :: "Engine \<Rightarrow> bool" where
  "numbered e \<longleftrightarrow> (\<exists>gs. log_paths e = map (walFileName (e_dir e)) gs \<and> sorted_wrt (<) gs \<and> (\<forall>g \<in> set gs. g \<le> e_genCounter e))"

definition logs_inv :: "Engine \<Rightarrow> bool" where
  "logs_inv e \<longleftrightarrow> (\<forall>(p, m) \<in> set (mem_logs e). logged (e_fs e) p (e_mems e ! m)) \<and> numbered e \<and>
     map fj_walPath (e_flushCh e) = map im_walPath (e_imm e)"

text \<open>The files a directory scan takes notice of.\<close>

definition relevant :: "string \<Rightarrow> string \<Rightarrow> bool" where
  "relevant dir p \<longleftrightarrow> (\<exists>n. p = filepath_Join dir n \<and> CHR ''/'' \<notin> set n \<and> (HasSuffix n ''.wal'' \<or> HasSuffix n ''.sst''))"

definition owned :: "Engine \<Rightarrow> bool" where
  "owned e \<longleftrightarrow> (\<forall>p. relevant (e_dir e) p \<and> fs_get (e_fs e) p \<noteq> None \<longrightarrow> p \<in> set (log_paths e) \<union> table_paths e)"

text \<open>Every listed table has the name of its level, and nobody but the list holds it.\<close>

definition own_tables :: "Engine \<Rightarrow> bool" where
  "own_tables e \<longleftrightarrow> (\<forall>lt \<in> set (e_tables e). tbl_refCount (e_heap e ! lt_table lt) = 1 \<and>
     (\<exists>g. tbl_path (e_heap e ! lt_table lt) = sstFileName (e_dir e) (nat (lt_level lt)) g))"

definition disk_inv :: "Engine \<Rightarrow> bool" where
  "disk_inv e \<longleftrightarrow> logs_inv e \<and> owned e \<and> own_tables e"

section \<open>Logs\<close>

lemma log_get_Nil [simp]: "log_get [] = Map.empty"
  by (simp add: log_get_def fun_eq_iff)

lemma log_get_append: "log_get (xs @ ys) = log_get xs ++ log_get ys"
  by (simp add: log_get_def [abs_def])

lemma log_get_snoc: "log_get (rs @ [r]) = (log_get rs)(fst (log_entry r) \<mapsto> snd (log_entry r))"
  by (simp add: log_get_def fun_eq_iff)

lemma write_mem_log:
  assumes "mt_inv mt" and "MemTable_Get mt = log_get rs"
  shows "MemTable_Get (write_mem typ mt key val seq) = log_get (rs @ [\<lparr>wr_type = typ, wr_key = key, wr_value = val, wr_seq = seq\<rparr>])"
  using assms by (auto simp: fun_eq_iff log_get_snoc log_entry_def write_mem_def MemTable_Get_Put MemTable_Get_Delete)

lemma logged_fs: "logged d p mt \<Longrightarrow> fs_get d' p = fs_get d p \<Longrightarrow> logged d' p mt"
  by (auto simp: logged_def synced_def)

lemma logged_present: "logged d p mt \<Longrightarrow> fs_get d p \<noteq> None"
  by (auto simp: logged_def synced_def)

lemma log_paths_distinct: "numbered e \<Longrightarrow> distinct (log_paths e)"
  using wal_inj by (fastforce simp: numbered_def distinct_map strict_sorted_iff inj_on_def)

lemma log_paths_wal: "numbered e \<Longrightarrow> p \<in> set (log_paths e) \<Longrightarrow> \<exists>g. g \<le> e_genCounter e \<and> p = walFileName (e_dir e) g"
  unfolding numbered_def by (elim exE conjE) (simp, blast)

lemma wal_relevant: "relevant dir (walFileName dir g)"
  unfolding relevant_def walFileName_def using wal_name_plain by (blast intro: HasSuffix_append)

lemma relevant_ne_tmp: "relevant dir p \<Longrightarrow> p \<noteq> q @ ''.tmp''"
proof
  assume r: "relevant dir p" and t: "p = q @ ''.tmp''"
  from r obtain n where n: "p = dir @ ''/'' @ n" "HasSuffix n ''.wal'' \<or> HasSuffix n ''.sst''" by (auto simp: relevant_def filepath_Join_def)
  have l: "s \<noteq> [] \<Longrightarrow> HasSuffix n s \<Longrightarrow> last p = last s" for s
    unfolding HasSuffix_def n(1) by (metis append_is_Nil_conv append_take_drop_id last_appendR)
  from n(2) l [of "''.wal''"] l [of "''.sst''"] have "last p = CHR ''l'' \<or> last p = CHR ''t''" by auto
  with t show False by simp
qed

lemma sst_relevant: "relevant dir (sstFileName dir l g)"
  unfolding relevant_def sstFileName_def using sst_name_plain sst_name_suffix by blast

text \<open>The next log name is not in use.\<close>

lemma fresh_wal:
  assumes "einv env e" and "logs_inv e" and "owned e" and "e_genCounter e < unboundedSeq"
  shows "fs_get (e_fs e) (walFileName (e_dir e) (e_genCounter e + 1)) = None"
proof (rule ccontr)
  let ?p = "walFileName (e_dir e) (e_genCounter e + 1)"
  assume "fs_get (e_fs e) ?p \<noteq> None"
  then have "?p \<in> set (log_paths e) \<union> table_paths e" using assms(3) wal_relevant by (auto simp: owned_def)
  moreover have "?p \<notin> table_paths e" using table_paths_sst [OF assms(1), of ?p] sst_ne_wal by metis
  ultimately have "?p \<in> set (log_paths e)" by blast
  then obtain g where "g \<le> e_genCounter e" "?p = walFileName (e_dir e) g" using log_paths_wal [of e ?p] assms(2) unfolding logs_inv_def by blast
  with wal_inj [of "e_dir e" "e_genCounter e + 1" g] word_incr [OF assms(4)] show False by force
qed

section \<open>Frames\<close>

lemma mem_logs_frame [simp]:
  "mem_logs (e\<lparr>e_fs := d\<rparr>) = mem_logs e" "mem_logs (e\<lparr>e_seq := s\<rparr>) = mem_logs e" "mem_logs (e\<lparr>e_wal := w\<rparr>) = mem_logs e"
  "mem_logs (e\<lparr>e_genCounter := g\<rparr>) = mem_logs e" "mem_logs (e\<lparr>e_reg := r\<rparr>) = mem_logs e" "mem_logs (e\<lparr>e_now := n\<rparr>) = mem_logs e"
  "mem_logs (e\<lparr>e_compactCh := b\<rparr>) = mem_logs e" "mem_logs (e\<lparr>e_activeSnapshots := act\<rparr>) = mem_logs e" "mem_logs (e\<lparr>e_mems := ms\<rparr>) = mem_logs e"
  "mem_logs (e\<lparr>e_flushCh := js\<rparr>) = mem_logs e" "mem_logs (e\<lparr>e_heap := h\<rparr>) = mem_logs e" "mem_logs (e\<lparr>e_tables := ts\<rparr>) = mem_logs e"
  by (simp_all add: mem_logs_def)

lemma disk_inv_frame [simp]:
  "disk_inv (e\<lparr>e_reg := r\<rparr>) = disk_inv e" "disk_inv (e\<lparr>e_now := n\<rparr>) = disk_inv e" "disk_inv (e\<lparr>e_compactCh := b\<rparr>) = disk_inv e"
  "disk_inv (e\<lparr>e_activeSnapshots := act\<rparr>) = disk_inv e"
  by (simp_all add: disk_inv_def logs_inv_def numbered_def owned_def own_tables_def log_paths_def table_paths_def allTablesLocked_def)

lemma disk_inv_metrics [simp]:
  "disk_inv (Inc p e) = disk_inv e" "disk_inv (Observe p e) = disk_inv e" "disk_inv (Adjust p n e) = disk_inv e"
  by (simp_all add: Inc_def Observe_def Adjust_def)

lemma owned_mono:
  assumes "owned e" and "e_dir e' = e_dir e" and "set (log_paths e) \<union> table_paths e \<subseteq> set (log_paths e') \<union> table_paths e'"
    and "\<And>p. relevant (e_dir e) p \<Longrightarrow> fs_get (e_fs e') p \<noteq> None \<Longrightarrow> fs_get (e_fs e) p \<noteq> None \<or> p \<in> set (log_paths e') \<union> table_paths e'"
  shows "owned e'"
  using assms unfolding owned_def by (metis subsetD)

section \<open>Writing\<close>

lemma append_disk:
  assumes "calm env e" and "disk_inv e" and "log_ok \<lparr>wr_type = typ, wr_key = key, wr_value = val, wr_seq = s\<rparr>"
    and "WAL_Append (e_wal e) \<lparr>wr_type = typ, wr_key = key, wr_value = val, wr_seq = s\<rparr> (e_fs e) = (None, w, d)"
    and "e' = put_mem (e\<lparr>e_seq := s, e_wal := w, e_fs := d\<rparr>) (write_mem typ (e_mems e ! e_mem e) key val s)"
  shows "disk_inv e'"
proof -
  let ?r = "\<lparr>wr_type = typ, wr_key = key, wr_value = val, wr_seq = s\<rparr>" and ?p = "e_walPath e"
  have C: "einv env e" "no_faults (e_fs e)" "wal_ready e" using assms(1) by (auto simp: calm_def)
  have M: "mems_inv e" "wal_path (e_wal e) = ?p" using C(1) by (auto simp: einv_def wals_inv_def)
  have D: "\<forall>(p, m) \<in> set (mem_logs e). logged (e_fs e) p (e_mems e ! m)" "numbered e" "map fj_walPath (e_flushCh e) = map im_walPath (e_imm e)"
    "owned e" "own_tables e" using assms(2) by (auto simp: disk_inv_def logs_inv_def)
  have "logged (e_fs e) ?p (e_mems e ! e_mem e)" using D(1) by (auto simp: mem_logs_def)
  then obtain rs where rs: "synced ?p (concat (map encode_record rs)) (e_fs e)" "\<forall>r \<in> set rs. log_ok r" "MemTable_Get (e_mems e ! e_mem e) = log_get rs"
    by (auto simp: logged_def)
  have f: "fs_get (e_fs e) (wal_path (e_wal e)) = Some \<lparr>content = concat (map encode_record rs), durable = length (concat (map encode_record rs))\<rparr>"
    using rs(1) M(2) by (simp add: synced_def)
  have new: "synced ?p (concat (map encode_record (rs @ [?r]))) d"
    using WAL_Append_no_faults [OF C(2) _ _ f, of ?r] C(3) assms(4) M(2) by (auto simp: wal_ready_def synced_def)
  have other: "fs_get d q = fs_get (e_fs e) q" if "q \<noteq> ?p" for q using WAL_Append_frame(1) [OF assms(4)] that M(2) by (simp add: frame_def)
  have mt: "mt_inv (e_mems e ! e_mem e)" "e_mem e < length (e_mems e)" using M(1) by (auto simp: mems_inv_def)
  have act: "logged d ?p (e_mems e' ! e_mem e)"
    using new rs(2) assms(3) write_mem_log [OF mt(1) rs(3), of "typ" key val s] mt(2)
    by (auto simp: logged_def assms(5) put_mem_def intro!: exI [of _ "rs @ [?r]"])
  have imm: "logged d (im_walPath i) (e_mems e' ! im_mt i)" if i: "i \<in> set (e_imm e)" for i
  proof -
    have "im_mt i \<noteq> e_mem e" using M(1) imageI [OF i, of im_mt] by (auto simp: mems_inv_def)
    then have "e_mems e' ! im_mt i = e_mems e ! im_mt i" by (simp add: assms(5) put_mem_def)
    moreover have "im_walPath i \<noteq> ?p" using log_paths_distinct [OF D(2)] imageI [OF i, of im_walPath] by (auto simp: log_paths_def mem_logs_def)
    moreover have "logged (e_fs e) (im_walPath i) (e_mems e ! im_mt i)" using D(1) i by (auto simp: mem_logs_def)
    ultimately show ?thesis using logged_fs [OF _ other] by metis
  qed
  have ml: "mem_logs e' = mem_logs e" "e_fs e' = d" "e_dir e' = e_dir e" "e_genCounter e' = e_genCounter e" "e_flushCh e' = e_flushCh e"
    "e_imm e' = e_imm e" "table_paths e' = table_paths e" "own_tables e' = own_tables e"
    by (simp_all add: assms(5) put_mem_def table_paths_def allTablesLocked_def own_tables_def)
  have "logs_inv e'" unfolding logs_inv_def numbered_def log_paths_def ml
    using act imm D(2,3) by (auto simp: mem_logs_def numbered_def log_paths_def)
  moreover have "owned e'"
    by (rule owned_mono [OF D(4)]) (use ml other logged_present [OF act] in \<open>auto simp: log_paths_def mem_logs_def\<close>)
  ultimately show ?thesis using D(5) ml(8) by (simp add: disk_inv_def)
qed

lemma rotate_disk:
  assumes "calm env e" and "disk_inv e" and "e_genCounter e < unboundedSeq" and "rotate e = (r, e')"
  shows "disk_inv e'"
  using assms(4)
proof (cases rule: rotate_cases)
  case small
  with assms(2) show ?thesis by simp
next
  case (no_wal x d)
  with WAL_Open_no_faults [of "e_fs e"] assms(1) show ?thesis by (metis calm_def old.sum.distinct(2) prod.inject)
next
  case (rotated w d c d')
  let ?g = "e_genCounter e + 1"
  let ?p = "walFileName (e_dir e) ?g"
  have C: "einv env e" "no_faults (e_fs e)" "wal_ready e" using assms(1) by (auto simp: calm_def)
  have D: "\<forall>(p, m) \<in> set (mem_logs e). logged (e_fs e) p (e_mems e ! m)" "numbered e" "map fj_walPath (e_flushCh e) = map im_walPath (e_imm e)"
    "owned e" "own_tables e" "logs_inv e" using assms(2) by (auto simp: disk_inv_def logs_inv_def)
  have M: "mems_inv e" using C(1) by (simp add: einv_def)
  have none: "fs_get (e_fs e) ?p = None" by (rule fresh_wal [OF C(1) D(6,4) assms(3)])
  have d: "no_faults d" "synced ?p [] d" "\<And>q. q \<noteq> ?p \<Longrightarrow> fs_get d q = fs_get (e_fs e) q"
    using rotated(2) none C(2) by (auto simp: WAL_Open_def os_OpenAppend_def tick_no_faults synced_def)
  have d': "same_files d d'" using WAL_Close_no_faults [OF d(1), of "e_wal e"] C(3) rotated(3) by (auto simp: wal_ready_def)
  have fs: "synced ?p [] d'" "\<And>q. q \<noteq> ?p \<Longrightarrow> fs_get d' q = fs_get (e_fs e) q" using d(2,3) d' by (auto simp: synced_def same_files_def)
  have e': "mem_logs e' = mem_logs e @ [(?p, length (e_mems e))]" "e_fs e' = d'" "e_dir e' = e_dir e" "e_genCounter e' = ?g"
    "map fj_walPath (e_flushCh e') = map fj_walPath (e_flushCh e) @ [e_walPath e]" "map im_walPath (e_imm e') = map im_walPath (e_imm e) @ [e_walPath e]"
    "table_paths e' = table_paths e" "own_tables e' = own_tables e"
    by (simp_all add: rotated(4) hand_over_def mem_logs_def table_paths_def allTablesLocked_def own_tables_def)
  have old: "logged d' p (e_mems e' ! m)" if "(p, m) \<in> set (mem_logs e)" for p m
  proof -
    have "m < length (e_mems e)" using that M by (auto simp: mem_logs_def mems_inv_def)
    moreover have l: "logged (e_fs e) p (e_mems e ! m)" using D(1) that by auto
    moreover have "p \<noteq> ?p" using logged_present [OF l] none by auto
    ultimately show ?thesis using logged_fs [OF l, of d'] fs(2) by (simp add: rotated(4) hand_over_def nth_append)
  qed
  have new: "logged d' ?p (e_mems e' ! length (e_mems e))"
    using fs(1) by (auto simp: logged_def rotated(4) hand_over_def nth_append MemTable_Get_New fun_eq_iff intro!: exI [of _ "[]"])
  obtain gs where gs: "log_paths e = map (walFileName (e_dir e)) gs" "sorted_wrt (<) gs" "\<forall>g \<in> set gs. g \<le> e_genCounter e"
    using D(2) by (auto simp: numbered_def)
  have lt: "e_genCounter e < ?g" by (rule word_incr [OF assms(3)])
  have "numbered e'" unfolding numbered_def log_paths_def e'
    using gs lt by (intro exI [of _ "gs @ [?g]"]) (auto simp: log_paths_def sorted_wrt_append intro: le_less_trans less_imp_le order_trans)
  then have "logs_inv e'" unfolding logs_inv_def using old new D(3) by (simp add: e' case_prod_beta)
  moreover have "owned e'"
    by (rule owned_mono [OF D(4)]) (use e' fs(2) in \<open>auto simp: log_paths_def\<close>)
  ultimately show ?thesis using D(5) e'(8) by (simp add: disk_inv_def)
qed

text \<open>A write that a replay can read back: key and value are at most 512 MiB, which Append does not check.\<close>

definition small_op :: "engine_op \<Rightarrow> bool" where
  "small_op oper = (case oper of
       DoPut key val \<Rightarrow> length key \<le> maxReasonableLen \<and> length val \<le> maxReasonableLen
     | DoDelete key \<Rightarrow> length key \<le> maxReasonableLen
     | _ \<Rightarrow> True)"

lemma write_disk:
  assumes "calm env e" and "disk_inv e" and "counters_ok e" and "key_val_ok key val"
    and "log_ok \<lparr>wr_type = typ, wr_key = key, wr_value = val, wr_seq = e_seq e + 1\<rparr>" and "engine_write key val typ e = (r, e')"
  shows "disk_inv e'"
proof -
  let ?s = "e_seq e + 1" and ?m = "write_mem typ (e_mems e ! e_mem e) key val (e_seq e + 1)"
  obtain w d where a: "WAL_Append (e_wal e) \<lparr>wr_type = typ, wr_key = key, wr_value = val, wr_seq = ?s\<rparr> (e_fs e) = (None, w, d)"
    and step: "(r, e') = (if sint (MemTable_Size ?m) \<ge> sint (e_flushThreshold e)
      then let (r4, e4) = rotate (put_mem (e\<lparr>e_seq := ?s, e_wal := w, e_fs := d\<rparr>) ?m) in (map_option (EWrap ''engine: rotating memtable'') r4, e4)
      else (None, put_mem (e\<lparr>e_seq := ?s, e_wal := w, e_fs := d\<rparr>) ?m))"
    by (rule engine_write_run [OF assms(1,6)])
  let ?e3 = "put_mem (e\<lparr>e_seq := ?s, e_wal := w, e_fs := d\<rparr>) ?m"
  have D: "disk_inv ?e3" by (rule append_disk [OF assms(1,2,5) a refl])
  have C: "calm env ?e3" by (rule append_calm [OF assms(1,3,4) a refl])
  obtain r4 e4 where rot: "rotate ?e3 = (r4, e4)" by fastforce
  have "e_genCounter ?e3 < unboundedSeq" using assms(3) by (simp add: counters_ok_def put_mem_def)
  from rotate_disk [OF C D this rot] D step rot show ?thesis by (auto split: if_splits)
qed

section \<open>Flushing\<close>

lemma Table_Open_path: "Table_Open path d = (Inr t, d') \<Longrightarrow> tbl_path t = path \<and> tbl_refCount t = 1"
  by (auto simp: Table_Open_def Open_body_def Let_def split: prod.splits sum.splits if_splits)

lemma write_table_files:
  assumes "write_table env rs m1 m2 e = (r, e')" and "path = sstFileName (e_dir e) 0 (e_genCounter e + 1)"
  shows "\<forall>q. q \<noteq> path \<and> q \<noteq> path @ ''.tmp'' \<longrightarrow> fs_get (e_fs e') q = fs_get (e_fs e) q" and "\<And>t. r = Inr t \<Longrightarrow> tbl_path t = path \<and> tbl_refCount t = 1"
proof -
  obtain x d1 where w: "Write env path rs (e_compress e) (e_fs e) = (x, d1)" by fastforce
  obtain z d2 where o: "Table_Open path d1 = (z, d2)" by fastforce
  have f: "fs_get d1 q = fs_get (e_fs e) q" "fs_get d2 q = fs_get d1 q" if "q \<noteq> path" "q \<noteq> path @ ''.tmp''" for q
    using Write_outcome [OF w] Table_Open_same_files [OF o] that by (auto simp: same_files_def)
  have "e_fs e' = (if x = None then d2 else d1)"
    using assms w o by (auto simp: write_table_def nextGen_def on_fs_def split: option.splits sum.splits)
  with f show "\<forall>q. q \<noteq> path \<and> q \<noteq> path @ ''.tmp'' \<longrightarrow> fs_get (e_fs e') q = fs_get (e_fs e) q" by simp
  show "tbl_path t = path \<and> tbl_refCount t = 1" if "r = Inr t" for t
    using assms that w o Table_Open_path by (auto simp: write_table_def nextGen_def on_fs_def split: option.splits sum.splits)
qed

lemma add_table_paths: "tables_inv env e \<Longrightarrow> table_paths (add_table l t e) = insert (tbl_path t) (table_paths e)"
proof -
  assume T: "tables_inv env e"
  have "(e_heap e @ [t]) ! p = e_heap e ! p" if "p \<in> set (allTablesLocked e)" for p using tables_inv_ids [OF T that] by (simp add: nth_append)
  then show ?thesis by (auto simp: table_paths_def)
qed

lemma add_table_levels:
  assumes "tables_inv env e" and "own_tables e" and "tbl_path t = sstFileName (e_dir e) (nat l) g" and "tbl_refCount t = 1"
  shows "own_tables (add_table l t e)"
proof -
  have "(e_heap e @ [t]) ! lt_table lt = e_heap e ! lt_table lt" if "lt \<in> set (e_tables e)" for lt
    using tables_inv_ids [OF assms(1), of "lt_table lt"] that by (simp add: nth_append allTablesLocked_def)
  then show ?thesis using assms(2-4) by (auto simp: own_tables_def)
qed

lemma removed_file: "no_faults d \<Longrightarrow> fs_get (snd (WAL_Remove p d)) p = None"
  by (auto simp: WAL_Remove_def os_Remove_def tick_no_faults split: option.splits)

lemma numbered_wal: "numbered e \<Longrightarrow> (p, m) \<in> set (mem_logs e) \<Longrightarrow> \<exists>g. g \<le> e_genCounter e \<and> p = walFileName (e_dir e) g"
  by (rule log_paths_wal) (force simp: log_paths_def)+

lemma flush_disk:
  assumes "calm env e" and "roomy env e" and "disk_inv e"
  shows "disk_inv (flushWorker_turn env e)"
proof (cases "e_flushCh e")
  case Nil
  with assms(3) show ?thesis by (simp add: flushWorker_turn_def)
next
  case (Cons job jobs)
  obtain i ims t d e2 where i: "e_imm e = i # ims" "im_mt i = fj_mt job"
    and e2: "e2 = e\<lparr>e_flushCh := jobs, e_genCounter := e_genCounter e + 1, e_fs := d\<rparr>" and E2: "einv env e2" and nf: "no_faults d"
    and w: "write_table env (buildRecords (e_mems e ! fj_mt job)) ''flush failed'' ''failed to reopen freshly-flushed sstable'' (e\<lparr>e_flushCh := jobs\<rparr>) = (Inr t, e2)"
    and turn: "flushWorker_turn env e = flush_metrics False (flush_end (fj_walPath job) (flush_commit (fj_mt job) t e2))"
    by (rule flush_turn_run [OF assms(1,2) Cons])
  let ?sst = "sstFileName (e_dir e) 0 (e_genCounter e + 1)" and ?d = "snd (WAL_Remove (fj_walPath job) d)"
  let ?e4 = "(add_table 0 t e2)\<lparr>e_imm := ims, e_fs := ?d\<rparr>"
  have D: "\<forall>(p, m) \<in> set (mem_logs e). logged (e_fs e) p (e_mems e ! m)" "numbered e" "map fj_walPath (e_flushCh e) = map im_walPath (e_imm e)"
    "owned e" "own_tables e" using assms(3) by (auto simp: disk_inv_def logs_inv_def)
  have T2: "tables_inv env e2" using E2 by (simp add: einv_def)
  have wp: "im_walPath i = fj_walPath job" "map fj_walPath jobs = map im_walPath ims" using D(3) Cons i(1) by auto
  have files: "fs_get d q = fs_get (e_fs e) q" if "q \<noteq> ?sst" "q \<noteq> ?sst @ ''.tmp''" for q
    using write_table_files(1) [OF w refl] that by (simp add: e2)
  have removed: "fs_get ?d (fj_walPath job) = None" "\<And>q. q \<noteq> fj_walPath job \<Longrightarrow> fs_get ?d q = fs_get d q"
    using removed_file [OF nf] WAL_Remove_frame [of "fj_walPath job" d] by (auto simp: frame_def)
  have tp: "tbl_path t = ?sst" "tbl_refCount t = 1" using write_table_files(2) [OF w refl refl] by simp_all
  have ml: "mem_logs e = (fj_walPath job, im_mt i) # mem_logs ?e4" by (simp add: mem_logs_def i(1) wp(1) e2)
  then have lp: "log_paths e = fj_walPath job # log_paths ?e4" by (simp add: log_paths_def)
  have "logged ?d p (e_mems e ! m)" if "(p, m) \<in> set (mem_logs ?e4)" for p m
  proof -
    have pm: "(p, m) \<in> set (mem_logs e)" using that ml by simp
    have "p \<noteq> ?sst" "p \<noteq> ?sst @ ''.tmp''" using numbered_wal [OF D(2) pm] sst_ne_wal wal_ne_tmp by metis+
    moreover have "p \<in> set (log_paths ?e4)" using that by (force simp: log_paths_def)
    then have "p \<noteq> fj_walPath job" using log_paths_distinct [OF D(2)] lp by auto
    ultimately have "fs_get ?d p = fs_get (e_fs e) p" using files removed(2) by simp
    then show ?thesis using D(1) pm logged_fs by blast
  qed
  moreover have "numbered ?e4"
  proof -
    obtain gs where gs: "log_paths e = map (walFileName (e_dir e)) gs" "sorted_wrt (<) gs" "\<forall>g \<in> set gs. g \<le> e_genCounter e"
      using D(2) by (auto simp: numbered_def)
    have "e_genCounter e \<le> e_genCounter e + 1" using word_incr assms(2) by (simp add: roomy_def counters_ok_def less_imp_le)
    then show ?thesis unfolding numbered_def using gs lp by (intro exI [of _ "tl gs"]) (cases gs, auto simp: e2 intro: order_trans)
  qed
  ultimately have "logs_inv ?e4" using wp(2) by (auto simp: logs_inv_def e2)
  moreover have "owned ?e4" unfolding owned_def
  proof (intro allI impI, elim conjE)
    fix p
    assume r: "relevant (e_dir ?e4) p" and p: "fs_get (e_fs ?e4) p \<noteq> None"
    have tps: "table_paths ?e4 = insert ?sst (table_paths e)"
      using add_table_paths [OF T2, of 0 t] tp by (simp add: table_paths_def allTablesLocked_def e2)
    have rel: "relevant (e_dir e) p" using r by (simp add: e2)
    have ne: "p \<noteq> fj_walPath job" using p removed(1) by auto
    show "p \<in> set (log_paths ?e4) \<union> table_paths ?e4"
    proof (cases "p = ?sst")
      case True
      then show ?thesis unfolding tps by simp
    next
      case False
      then have "fs_get (e_fs e) p \<noteq> None" using p removed(2) [OF ne] files relevant_ne_tmp [OF rel] by simp
      then have "p \<in> set (log_paths e) \<union> table_paths e" using D(4) rel unfolding owned_def by blast
      then show ?thesis using ne unfolding lp tps by auto
    qed
  qed
  moreover have "own_tables ?e4"
    using add_table_levels [OF T2, of t 0 "e_genCounter e + 1"] D(5) tp by (simp add: own_tables_def e2)
  moreover have "disk_inv (flushWorker_turn env e) = disk_inv ?e4"
    using i by (simp add: turn flush_metrics_def flush_end_def flush_commit_def on_fs_def case_prod_beta maybeTriggerCompaction_def Let_def e2 split: option.split)
  ultimately show ?thesis by (simp add: disk_inv_def)
qed

section \<open>Compaction\<close>

text \<open>Retiring a table that nobody else holds removes its file.\<close>

lemma Release_last:
  assumes "tbl_refCount t = 1" and "tbl_removeOnZero t" and "no_faults d" and R: "Table_Release t d = (r, t', d')"
  shows "fs_get d' (tbl_path t) = None"
proof -
  obtain x d1 where c: "(if tbl_released t then (Some (EMsg ''file already closed''), d) else file_Close d) = (x, d1)" by (rule prod.exhaust)
  obtain y d2 where o: "os_Remove (tbl_path t) d1 = (y, d2)" by (rule prod.exhaust)
  have nf: "no_faults d1"
  proof (cases "tbl_released t")
    case True
    with c assms(3) show ?thesis by simp
  next
    case False
    with c assms(3) show ?thesis by (auto simp: file_Close_def tick_no_faults)
  qed
  have "d' = d2" using R unfolding Table_Release_def Let_def Table.simps assms(1) c o prod.case if_P [OF assms(2)] by simp
  with removed_file [OF nf, of "tbl_path t"] o show ?thesis by (simp add: WAL_Remove_def)
qed

lemma retire_removes:
  assumes "no_faults (e_fs e)" and "tbl_refCount (e_heap e ! p) = 1"
  shows "fs_get (e_fs (retire p e)) (tbl_path (e_heap e ! p)) = None"
proof -
  let ?t = "(e_heap e ! p)\<lparr>tbl_removeOnZero := True\<rparr>"
  obtain r t' d where R: "Table_Release ?t (e_fs e) = (r, t', d)" by (metis prod.exhaust)
  have "fs_get d (tbl_path ?t) = None" by (rule Release_last [OF _ _ assms(1) R]) (simp_all add: assms(2))
  then show ?thesis using R by (simp add: retire_def Table_Retire_def)
qed

lemma retired_monotone:
  assumes "retired e e' ps" and "fs_get (e_fs e) q = None" and "\<And>p. p \<in> set ps \<Longrightarrow> tbl_path (e_heap e ! p) \<noteq> q"
  shows "fs_get (e_fs e') q = None"
proof -
  have "q \<notin> (\<lambda>p. tbl_path (e_heap e ! p)) ` set ps" using assms(3) by auto
  with assms(1) have "fs_get (e_fs e') q = fs_get (e_fs e) q" by (auto elim: retiredE)
  with assms(2) show ?thesis by simp
qed

lemma retire_all_removed:
  assumes "no_faults (e_fs e)" and "distinct ps" and "\<forall>p \<in> set ps. p < length (e_heap e) \<and> tbl_refCount (e_heap e ! p) = 1"
    and "inj_on (\<lambda>p. tbl_path (e_heap e ! p)) (set ps)" and "p \<in> set ps"
  shows "fs_get (e_fs (foldl (\<lambda>e p. retire p e) e ps)) (tbl_path (e_heap e ! p)) = None"
  using assms
proof (induction ps arbitrary: e)
  case (Cons r ps)
  have one: "retired e (retire r e) [r]" using Cons.prems(3) by (intro retire_one) simp
  then obtain h d where h: "retire r e = e\<lparr>e_heap := h, e_fs := d\<rparr>" "length h = length (e_heap e)" "\<forall>i. i \<notin> set [r] \<longrightarrow> h ! i = e_heap e ! i"
    "\<forall>i < length h. tbl_path (h ! i) = tbl_path (e_heap e ! i)" "no_faults (e_fs e) \<longrightarrow> no_faults d" by (rule retiredE) blast
  have same: "h ! i = e_heap e ! i" if "i \<in> set ps" for i using h(3) that Cons.prems(2) by auto
  have nf: "no_faults (e_fs (retire r e))" using h Cons.prems(1) by simp
  have ids: "\<forall>i \<in> set ps. i < length (e_heap (retire r e)) \<and> tbl_refCount (e_heap (retire r e) ! i) = 1"
    using Cons.prems(3) same h by simp
  have inj: "inj_on (\<lambda>p. tbl_path (e_heap (retire r e) ! p)) (set ps)" using Cons.prems(4) same h by (simp add: inj_on_def)
  show ?case
  proof (cases "p = r")
    case True
    have "tbl_path (e_heap (retire r e) ! i) \<noteq> tbl_path (e_heap e ! r)" if "i \<in> set ps" for i
      using Cons.prems(2,4) that same [OF that] h(1) by (auto simp: inj_on_def)
    moreover have "retired (retire r e) (foldl (\<lambda>e p. retire p e) (retire r e) ps) ps" using ids by (intro retire_all) simp
    ultimately show ?thesis
      using True retired_monotone [OF _ retire_removes] Cons.prems(1,3) by simp
  next
    case False
    then have p: "p \<in> set ps" using Cons.prems(5) by simp
    have "distinct ps" using Cons.prems(2) by simp
    from Cons.IH [OF nf this ids inj p] show ?thesis using same [OF p] h(1) by simp
  qed
qed simp

lemma remaining_levels: "own_tables e \<Longrightarrow> own_tables (e\<lparr>e_tables := remaining_tables ps (e_tables e), e_fs := d\<rparr>)"
  by (auto simp: own_tables_def remaining_tables_def)

lemma committed_files:
  assumes "einv env e" and "committed env e c ys d e'" and "own_tables e" and "same_files (e_fs e) d"
    and "e_heap e' = e_heap e \<or> tbl_path (last (e_heap e')) = sstFileName (e_dir e) (nat (co_targetLevel c)) g"
    and "set (co_inputs c) \<subseteq> set (allTablesLocked e)"
  shows "own_tables e'" and "table_paths e - (\<lambda>p. tbl_path (e_heap e ! p)) ` set (co_inputs c) \<subseteq> table_paths e'"
    and "e_heap e' \<noteq> e_heap e \<Longrightarrow> sstFileName (e_dir e) (nat (co_targetLevel c)) g \<in> table_paths e'"
    and "\<And>p. p \<in> set (co_inputs c) \<Longrightarrow> e_heap e' ! p = e_heap e ! p"
proof -
  let ?I = "set (co_inputs c)" and ?e0 = "e\<lparr>e_tables := remaining_tables (co_inputs c) (e_tables e), e_fs := d\<rparr>"
  have E0: "einv env ?e0" using einv_fs [OF einv_remaining(1) [OF assms(1)], of "co_inputs c" d] assms(4) same_files_keeps by simp
  then have T0: "tables_inv env ?e0" by (simp add: einv_def)
  have A0: "set (allTablesLocked ?e0) = set (allTablesLocked e) - ?I"
    using remaining_set [where e = e and ps = "co_inputs c"] by (simp add: allTablesLocked_def)
  have sub: "table_paths e - (\<lambda>p. tbl_path (e_heap e ! p)) ` ?I \<subseteq> table_paths ?e0" unfolding table_paths_def A0 by auto
  have L0: "own_tables ?e0" by (rule remaining_levels [OF assms(3)])
  have ids: "p < length (e_heap e)" if "p \<in> ?I" for p using assms(1,6) that by (auto simp: einv_def tables_inv_def)
  from assms(2) consider "e' = ?e0" | t where "e' = add_table (co_targetLevel c) t ?e0" "tbl_refCount t = 1" by (auto simp: committed_def fresh_table_def Let_def)
  then have "own_tables e' \<and> table_paths e - (\<lambda>p. tbl_path (e_heap e ! p)) ` ?I \<subseteq> table_paths e' \<and>
    (e_heap e' \<noteq> e_heap e \<longrightarrow> sstFileName (e_dir e) (nat (co_targetLevel c)) g \<in> table_paths e') \<and> (\<forall>p \<in> ?I. e_heap e' ! p = e_heap e ! p)"
  proof cases
    case 1
    then show ?thesis using L0 sub by simp
  next
    case (2 t)
    then have t: "tbl_path t = sstFileName (e_dir e) (nat (co_targetLevel c)) g" "tbl_refCount t = 1" using assms(5) by simp_all
    then show ?thesis
      using add_table_levels [OF T0 L0, of t "co_targetLevel c" g] add_table_paths [OF T0, of "co_targetLevel c" t] sub ids
      by (auto simp: 2 nth_append)
  qed
  then show "own_tables e'" "table_paths e - (\<lambda>p. tbl_path (e_heap e ! p)) ` ?I \<subseteq> table_paths e'"
    "e_heap e' \<noteq> e_heap e \<Longrightarrow> sstFileName (e_dir e) (nat (co_targetLevel c)) g \<in> table_paths e'"
    "\<And>p. p \<in> ?I \<Longrightarrow> e_heap e' ! p = e_heap e ! p" by blast+
qed

lemma plan_inputs_held:
  assumes "einv env e" and "own_tables e" and "set ps \<subseteq> set (allTablesLocked e)"
  shows "\<forall>p \<in> set ps. tbl_refCount (e_heap e ! p) = 1" and "inj_on (\<lambda>p. tbl_path (e_heap e ! p)) (set ps)"
  using assms inj_on_subset by (auto simp: einv_def tables_inv_def own_tables_def allTablesLocked_def)

lemma compact_disk:
  assumes "calm env e" and "roomy env e" and "disk_inv e" and "runCompaction env e = (err, e')"
  shows "disk_inv e'"
proof (cases "compact_plan e")
  case None
  with assms(3,4) show ?thesis by (simp add: runCompaction_def)
next
  case (Some c)
  have C: "einv env e" "age_inv env e" "no_faults (e_fs e)" using assms(1) by (auto simp: calm_def)
  have R: "fits (versions env e)" "e_genCounter e < unboundedSeq" using assms(2) by (auto simp: roomy_def counters_ok_def)
  have D: "\<forall>(p, m) \<in> set (mem_logs e). logged (e_fs e) p (e_mems e ! m)" "numbered e" "map fj_walPath (e_flushCh e) = map im_walPath (e_imm e)"
    "owned e" "own_tables e" using assms(3) by (auto simp: disk_inv_def logs_inv_def)
  obtain r out e1 where m: "compact_merge env c e = ((r, out), e1)" by (metis prod.exhaust)
  obtain er e2 where k: "compact_commit c r out e1 = (er, e2)" by fastforce
  obtain xs d d2 where P: "plan_ok env e c" and xs: "set xs = input_recs env e c" and e1: "e1 = e\<lparr>e_genCounter := e_genCounter e + 1, e_fs := d\<rparr>"
    and mg: "merged env e c (retain (minActiveSnapshotSeq e) (co_isBottommost c) xs) r out d" and E1: "einv env e1" and er: "er = None"
    and sf: "same_files (e_fs e1) d2" and cm: "committed env e1 c (retain (minActiveSnapshotSeq e) (co_isBottommost c) xs) d2 e2"
    and hp: "e_heap e2 = e_heap e1 \<and> r \<noteq> None \<or> e_heap e2 \<noteq> e_heap e1 \<and> tbl_path (last (e_heap e2)) = out"
    by (rule compact_pass_run [OF C R Some m k refl])
  let ?I = "set (co_inputs c)" and ?r = "foldl (\<lambda>e p. retire p e) e2 (co_inputs c)"
  let ?paths = "(\<lambda>p. tbl_path (e_heap e ! p)) ` ?I"
  have out: "out = sstFileName (e_dir e) (nat (co_targetLevel c)) (e_genCounter e + 1)"
    and files: "\<And>q. q \<noteq> out \<Longrightarrow> q \<noteq> out @ ''.tmp'' \<Longrightarrow> fs_get d q = fs_get (e_fs e) q" and nd: "no_faults d"
    and empty: "r \<noteq> None \<Longrightarrow> fs_get d out = fs_get (e_fs e) out" using mg by (auto simp: merged_def)
  have I: "?I \<subseteq> set (allTablesLocked e1)" "distinct (co_inputs c)" using P by (auto simp: plan_ok_def e1 allTablesLocked_def)
  have L1: "own_tables e1" using D(5) by (simp add: own_tables_def e1)
  have hp': "e_heap e2 = e_heap e1 \<or> tbl_path (last (e_heap e2)) = sstFileName (e_dir e1) (nat (co_targetLevel c)) (e_genCounter e + 1)"
    using hp out by (auto simp: e1)
  note K = committed_files [OF E1 cm L1 sf hp' I(1)]
  note G = inputs_gone [OF E1 cm I(1)] and H = plan_inputs_held [OF E1 L1 I(1)]
  have f2: "e_fs e2 = d2" "no_faults (e_fs e2)" using cm sf nd by (auto simp: committed_def Let_def e1 same_files_def)
  note ret = retire_all [OF G(1)]
  have gone: "fs_get (e_fs ?r) q = None" if q: "q \<in> ?paths" for q
  proof -
    obtain p where p: "p \<in> ?I" "q = tbl_path (e_heap e ! p)" using q by blast
    have p2: "q = tbl_path (e_heap e2 ! p)" using K(4) [OF p(1)] p(2) by (simp add: e1)
    have "inj_on (\<lambda>p. tbl_path (e_heap e2 ! p)) ?I" using H(2) K(4) by (simp add: inj_on_def)
    from retire_all_removed [OF f2(2) I(2) _ this p(1)] show ?thesis using G(1) H(1) K(4) p2 by simp
  qed
  have kept: "fs_get (e_fs ?r) q = fs_get d q" if "q \<notin> ?paths" for q
  proof -
    have "(\<lambda>p. tbl_path (e_heap e2 ! p)) ` ?I = ?paths" by (rule image_cong [OF refl]) (simp add: K(4) e1)
    then have "q \<notin> (\<lambda>p. tbl_path (e_heap e2 ! p)) ` ?I" using that by simp
    with ret have "fs_get (e_fs ?r) q = fs_get (e_fs e2) q" by (auto elim: retiredE)
    then show ?thesis using sf by (simp add: f2(1) same_files_def e1)
  qed
  obtain h d3 where h: "?r = e2\<lparr>e_heap := h, e_fs := d3\<rparr>" "length h = length (e_heap e2)" "\<forall>i < length h. tbl_path (h ! i) = tbl_path (e_heap e2 ! i)"
    "\<forall>i. i \<notin> ?I \<longrightarrow> h ! i = e_heap e2 ! i"
    using ret by (auto elim: retiredE)
  have sub: "set (retain (minActiveSnapshotSeq e) (co_isBottommost c) xs) \<subseteq> input_recs env e1 c"
    using retain_subset [of "minActiveSnapshotSeq e" "co_isBottommost c" xs] xs by (simp add: e1 plan_ok_frame)
  have E2: "einv env e2" by (rule committed_einv(1) [OF E1 cm sf sub I(1)])
  then have ids: "p < length h" if "p \<in> set (allTablesLocked e2)" for p using that h(2) by (auto simp: einv_def tables_inv_def)
  have eq: "h ! p = e_heap e2 ! p" if "p \<in> set (allTablesLocked e2)" for p using h(4) G(2) that by blast
  have same: "table_paths ?r = table_paths e2" "own_tables ?r = own_tables e2"
    using h(1,3) ids eq by (auto simp: table_paths_def own_tables_def allTablesLocked_def)
  have log: "mem_logs ?r = mem_logs e" "log_paths ?r = log_paths e" "e_mems ?r = e_mems e" "e_dir ?r = e_dir e" "e_genCounter ?r = e_genCounter e + 1"
    "e_flushCh ?r = e_flushCh e" "e_imm ?r = e_imm e"
    using cm by (auto simp: h(1) committed_def Let_def e1 mem_logs_def log_paths_def)
  have paths: "\<exists>l g. q = sstFileName (e_dir e) l g" if "q \<in> ?paths" for q
    using that I(1) table_paths_sst [OF C(1), of q] by (auto simp: table_paths_def e1 allTablesLocked_def)
  have tl: "nat (co_targetLevel c) < 2 ^ 63" using P C(2) by (auto simp: plan_ok_def age_inv_def levels_bounded_def)
  have fresh: "fs_get (e_fs e) out = None"
  proof (rule ccontr)
    assume "fs_get (e_fs e) out \<noteq> None"
    then have "out \<in> set (log_paths e) \<union> table_paths e" using D(4) sst_relevant unfolding owned_def out by blast
    moreover have "out \<notin> table_paths e" unfolding out by (rule fresh_name [OF C(1) R(2) tl])
    moreover have "out \<notin> set (log_paths e)" unfolding out using log_paths_wal [OF D(2)] sst_ne_wal by metis
    ultimately show False by blast
  qed
  have "logged (e_fs ?r) p (e_mems e ! m)" if pm: "(p, m) \<in> set (mem_logs e)" for p m
  proof -
    have "p \<noteq> out" "p \<noteq> out @ ''.tmp''" "p \<notin> ?paths"
      using numbered_wal [OF D(2) pm] sst_ne_wal wal_ne_tmp paths unfolding out by metis+
    then have "fs_get (e_fs ?r) p = fs_get (e_fs e) p" using kept files by simp
    then show ?thesis using D(1) pm logged_fs by blast
  qed
  moreover have "numbered ?r"
    using D(2) word_incr [OF R(2)] unfolding numbered_def log by (meson less_imp_le order_trans)
  ultimately have "logs_inv ?r" unfolding logs_inv_def log using D(3) by auto
  moreover have "owned ?r"
    unfolding owned_def log same
  proof (intro allI impI, elim conjE)
    fix p
    assume r: "relevant (e_dir e) p" and p: "fs_get (e_fs ?r) p \<noteq> None"
    have np: "p \<notin> ?paths" by (rule notI) (drule gone, use p in \<open>simp only: not_True_eq_False\<close>)
    show "p \<in> set (log_paths e) \<union> table_paths e2"
    proof (cases "p = out")
      case True
      have "fs_get d p \<noteq> None" using p unfolding kept [OF np] .
      then have "fs_get d out \<noteq> None" unfolding True .
      then have "r = None" using fresh empty by (cases r) simp_all
      then have "e_heap e2 \<noteq> e_heap e1" using hp by simp
      from K(3) [OF this] have "out \<in> table_paths e2" unfolding out e1 by simp
      then show ?thesis unfolding True by (rule UnI2)
    next
      case False
      have "fs_get (e_fs e) p \<noteq> None" using p unfolding kept [OF np] files [OF False relevant_ne_tmp [OF r]] .
      then have own: "p \<in> set (log_paths e) \<union> table_paths e" using D(4) r unfolding owned_def by blast
      have t1: "table_paths e1 = table_paths e" "e_heap e1 = e_heap e" by (simp_all add: table_paths_def e1 allTablesLocked_def)
      show ?thesis using own np K(2) unfolding t1 by blast
    qed
  qed
  moreover have "own_tables ?r" using K(1) same(2) by simp
  ultimately have "disk_inv ?r" by (simp add: disk_inv_def)
  then show ?thesis
    using assms(4) Some m k er by (auto simp: runCompaction_def compact_end_def compact_metrics_def maybeTriggerCompaction_def Let_def split: option.splits)
qed

section \<open>Histories\<close>

lemma getAt_calm: "calm env e \<Longrightarrow> \<exists>x. getAt env key q e = (x, e)"
  using getAt_serving [OF einv_serving, of env e key q] by (cases "key = []") (auto simp: calm_def getAt_def)

lemma Put_disk:
  assumes "calm env e" and "roomy env e" and "disk_inv e" and "key_val_ok key val" and "small_op (DoPut key val)" and "Put key val e = (r, e')"
  shows "disk_inv e'"
proof -
  obtain r1 e1 where w: "engine_write key val RecordPut e = (r1, e1)" by fastforce
  have "disk_inv e1"
    by (rule write_disk [OF assms(1,3) _ assms(4) _ w]) (use assms(2,5) in \<open>auto simp: roomy_def log_ok_def rec_fits_def small_op_def\<close>)
  then show ?thesis using assms(4,6) w by (auto simp: Put_def key_val_ok_def)
qed

lemma Delete_disk:
  assumes "calm env e" and "roomy env e" and "disk_inv e" and "key_val_ok key []" and "small_op (DoDelete key)" and "Delete key e = (r, e')"
  shows "disk_inv e'"
proof -
  obtain r1 e1 where w: "engine_write key [] RecordDelete e = (r1, e1)" by fastforce
  have "disk_inv e1"
    by (rule write_disk [OF assms(1,3) _ assms(4) _ w]) (use assms(2,5) in \<open>auto simp: roomy_def log_ok_def rec_fits_def small_op_def\<close>)
  then show ?thesis using assms(4,6) w by (auto simp: Delete_def key_val_ok_def)
qed

lemma step_disk:
  assumes "calm env e" and "roomy env e" and "disk_inv e" and "small_op oper" and "engine_step env e oper e'"
  shows "disk_inv e'"
  using assms(5)
proof cases
  case (put key val r)
  then show ?thesis using Put_disk [OF assms(1-3)] assms(4) by blast
next
  case (delete key r)
  then show ?thesis using Delete_disk [OF assms(1-3)] assms(4) by blast
next
  case (get key r)
  obtain x where "getAt env key unboundedSeq e = (x, e)" using getAt_calm [OF assms(1)] by blast
  then show ?thesis using get(2) assms(3) by (auto simp: Get_def recordGet_def Let_def split: sum.splits)
next
  case (snapshot r)
  then show ?thesis using assms(3) by (auto simp: Engine_Snapshot_def Snapshot_load_def Snapshot_register_def Let_def split: if_splits)
next
  case (snapshot_close s s')
  then show ?thesis using assms(3) by (auto simp: Snapshot_Close_def Let_def split: if_splits)
next
  case flush
  then show ?thesis using flush_disk [OF assms(1-3)] by simp
next
  case compact
  obtain err e1 where c: "runCompaction env (e\<lparr>e_compactCh := False\<rparr>) = (err, e1)" by fastforce
  have "disk_inv e1" by (rule compact_disk [OF _ _ _ c]) (use assms(1-3) in \<open>simp_all add: roomy_def counters_ok_def\<close>)
  then show ?thesis using compact(2) c assms(3) by (auto simp: compactionLoop_turn_def split: if_splits option.splits)
qed

lemma history_disk:
  assumes "history env (\<lambda>_. small_op) e ops e'" and "calm env e" and "room_for env (ops @ later) e" and "disk_inv e"
  shows "disk_inv e' \<and> e_dir e' = e_dir e \<and> room_for env later e'"
  using assms
proof induction
  case (more e oper e1 ops e')
  have room: "room_for env (oper # (ops @ later)) e" using more.prems(2) by simp
  note R = room_for_roomy [OF room]
  note S = engine_step_effect [OF more.prems(1) R more(2)]
  have "disk_inv e1" using step_disk [OF more.prems(1) R more.prems(3) _ more(2)] more(1) by simp
  with more.IH [OF _ room_for_step [OF room S]] S step_dir [OF more(2)] show ?case by (simp add: step_effect_def)
qed simp

end
