(* ===== verification/Directory.thy ===== *)
theory Directory
  imports Disk
begin

text \<open>
  The scan of a directory at startup: on a directory that holds the tables of an engine and some of
  its logs it returns exactly those, the logs oldest first, and a generation no file exceeds.
\<close>

section \<open>The scan of the directory\<close>

lemma table_path_entry:
  assumes "tables_inv env e" and "p \<in> table_paths e"
  obtains l g where "l < 2 ^ 63" and "p = sstFileName (e_dir e) l g" and "g \<le> e_genCounter e"
    and "sst_entry (e_dir e) (sst_name l g) = Some \<lparr>sf_path = p, sf_level = int l, sf_gen = g\<rparr>"
proof -
  obtain l g where lg: "l < 2 ^ 63" "p = sstFileName (e_dir e) l g" "g \<le> e_genCounter e"
    using assms by (auto simp: table_paths_def tables_inv_def named_def)
  then have "sst_entry (e_dir e) (sst_name l g) = Some \<lparr>sf_path = p, sf_level = int l, sf_gen = g\<rparr>"
    by (simp add: sst_entry_def sst_name_not_wal sst_name_suffix parseSSTFilename_sst_name sstFileName_def)
  with lg show thesis by (rule that)
qed

lemma table_paths_present: "tables_inv env e \<Longrightarrow> p \<in> table_paths e \<Longrightarrow> fs_get (e_fs e) p \<noteq> None"
  by (auto simp: table_paths_def tables_inv_def table_held_def table_file_def table_at_def synced_def)

lemma log_paths_present:
  assumes "logs_inv e" and "p \<in> set (log_paths e)"
  shows "fs_get (e_fs e) p \<noteq> None"
proof -
  obtain m where "(p, m) \<in> set (mem_logs e)" using assms(2) by (auto simp: log_paths_def)
  then show ?thesis using assms(1) logged_present by (auto simp: logs_inv_def)
qed

lemma sst_entry_paths: "map sf_path (List.map_filter (sst_entry dir) ns) = map (filepath_Join dir) (filter (\<lambda>n. sst_entry dir n \<noteq> None) ns)"
proof (induction ns)
  case (Cons n ns)
  then show ?case by (cases "sst_entry dir n") (auto simp: map_filter_simps sst_entry_def split: if_splits)
qed (simp add: map_filter_simps)

lemma Join_inj [simp]: "filepath_Join dir n = filepath_Join dir m \<longleftrightarrow> n = m"
  by (simp add: filepath_Join_def)

lemma Join_distinct: "distinct ns \<Longrightarrow> distinct (map (filepath_Join dir) (filter P ns))"
  by (simp add: distinct_map inj_on_def)

text \<open>A directory with the tables of the engine, the logs \<open>ls\<close> and nothing else a scan takes notice of.\<close>

definition generations :: "Engine \<Rightarrow> string list \<Rightarrow> bool" where
  "generations e ls \<longleftrightarrow> (\<exists>gs. ls = map (walFileName (e_dir e)) gs \<and> sorted_wrt (<) gs \<and> (\<forall>g \<in> set gs. g \<le> e_genCounter e))"

definition directory :: "env \<Rightarrow> Engine \<Rightarrow> string list \<Rightarrow> fs \<Rightarrow> bool" where
  "directory env e ls d \<longleftrightarrow> tables_inv env e \<and> generations e ls \<and> (\<forall>p \<in> set ls \<union> table_paths e. fs_get d p \<noteq> None) \<and>
     (\<forall>p. relevant (e_dir e) p \<and> fs_get d p \<noteq> None \<longrightarrow> p \<in> set ls \<union> table_paths e)"

lemma generations_wal: "generations e ls \<Longrightarrow> p \<in> set ls \<Longrightarrow> \<exists>g. g \<le> e_genCounter e \<and> p = walFileName (e_dir e) g"
  unfolding generations_def by (elim exE conjE) (simp, blast)

lemma generations_distinct: "generations e ls \<Longrightarrow> distinct ls"
  using wal_inj by (fastforce simp: generations_def distinct_map strict_sorted_iff inj_on_def)

lemma generations_sorted:
  assumes "generations e ls"
  shows "sorted ls"
proof -
  obtain gs where gs: "ls = map (walFileName (e_dir e)) gs" "sorted_wrt (<) gs" using assms unfolding generations_def by blast
  have "sorted_wrt (\<lambda>g h. walFileName (e_dir e) g \<le> walFileName (e_dir e) h) gs"
    by (rule sorted_wrt_mono_rel [OF _ gs(2)]) (simp only: wal_names_in_generation_order less_imp_le)
  then show ?thesis unfolding gs(1) sorted_map .
qed

lemma scanned_name:
  assumes "directory env e ls d" and "n \<in> set (dir_names (e_dir e) d)" and "HasSuffix n ''.wal'' \<or> HasSuffix n ''.sst''"
  obtains (log) g where "n = zero_pad 20 (unat g) @ ''.wal''" and "g \<le> e_genCounter e" and "filepath_Join (e_dir e) n \<in> set ls"
  | (table) l g where "l < 2 ^ 63" and "n = sst_name l g" and "g \<le> e_genCounter e" and "filepath_Join (e_dir e) n \<in> table_paths e"
proof -
  let ?p = "filepath_Join (e_dir e) n"
  have "?p \<in> set ls \<or> ?p \<in> table_paths e"
    using assms by (auto simp: directory_def relevant_def dir_names_iff)
  then show thesis
  proof
    assume p: "?p \<in> set ls"
    have "generations e ls" using assms(1) by (simp add: directory_def)
    from generations_wal [OF this p] obtain g where "g \<le> e_genCounter e" "?p = walFileName (e_dir e) g" by blast
    with p show thesis by (intro log [of g]) (simp_all add: walFileName_def)
  next
    assume p: "?p \<in> table_paths e"
    have T: "tables_inv env e" using assms(1) by (simp add: directory_def)
    obtain l g where "l < 2 ^ 63" "?p = sstFileName (e_dir e) l g" "g \<le> e_genCounter e" by (rule table_path_entry [OF T p])
    with p show thesis by (intro table [of l g]) (simp_all add: sstFileName_def)
  qed
qed

lemma scanned_logs:
  assumes "directory env e ls d"
  shows "filepath_Join (e_dir e) ` {n \<in> set (dir_names (e_dir e) d). wal_entry n} = set ls"
proof (intro equalityI subsetI)
  fix p
  assume "p \<in> filepath_Join (e_dir e) ` {n \<in> set (dir_names (e_dir e) d). wal_entry n}"
  then obtain n where n: "p = filepath_Join (e_dir e) n" "n \<in> set (dir_names (e_dir e) d)" and w: "HasSuffix n ''.wal''" by (auto simp: wal_entry_def)
  from assms n(2) disjI1 [OF w] show "p \<in> set ls"
  proof (cases rule: scanned_name)
    case log
    then show ?thesis using n(1) by simp
  next
    case table
    then show ?thesis using w sst_name_not_wal by blast
  qed
next
  fix p
  assume p: "p \<in> set ls"
  obtain g where g: "p = walFileName (e_dir e) g" using generations_wal [OF _ p] assms by (auto simp: directory_def)
  let ?n = "zero_pad 20 (unat g) @ ''.wal''"
  have "fs_get d p \<noteq> None" using p assms by (simp add: directory_def)
  then have "?n \<in> set (dir_names (e_dir e) d)" using wal_name_plain [of 20 "unat g"] by (simp add: dir_names_iff g walFileName_def)
  moreover have "wal_entry ?n" using gen_bound [of g] by (simp add: wal_entry_def ParseUint_zero_pad)
  ultimately show "p \<in> filepath_Join (e_dir e) ` {n \<in> set (dir_names (e_dir e) d). wal_entry n}" unfolding g walFileName_def by blast
qed

lemma scanned_tables:
  assumes "directory env e ls d"
  shows "filepath_Join (e_dir e) ` {n \<in> set (dir_names (e_dir e) d). sst_entry (e_dir e) n \<noteq> None} = table_paths e"
proof (intro equalityI subsetI)
  fix p
  assume "p \<in> filepath_Join (e_dir e) ` {n \<in> set (dir_names (e_dir e) d). sst_entry (e_dir e) n \<noteq> None}"
  then obtain n where n: "p = filepath_Join (e_dir e) n" "n \<in> set (dir_names (e_dir e) d)" and w: "\<not> HasSuffix n ''.wal''" "HasSuffix n ''.sst''"
    by (auto simp: sst_entry_def split: if_splits)
  from assms n(2) disjI2 [OF w(2)] show "p \<in> table_paths e"
  proof (cases rule: scanned_name)
    case log
    then show ?thesis using w(1) HasSuffix_append by blast
  next
    case table
    then show ?thesis using n(1) by simp
  qed
next
  fix p
  assume p: "p \<in> table_paths e"
  have T: "tables_inv env e" using assms(1) by (simp add: directory_def)
  obtain l g where lg: "p = sstFileName (e_dir e) l g" "sst_entry (e_dir e) (sst_name l g) = Some \<lparr>sf_path = p, sf_level = int l, sf_gen = g\<rparr>"
    by (rule table_path_entry [OF T p])
  have "fs_get d p \<noteq> None" using p assms by (simp add: directory_def)
  then have "sst_name l g \<in> set (dir_names (e_dir e) d)" using sst_name_plain by (simp add: dir_names_iff lg(1) sstFileName_def)
  then show "p \<in> filepath_Join (e_dir e) ` {n \<in> set (dir_names (e_dir e) d). sst_entry (e_dir e) n \<noteq> None}"
    using lg by (intro image_eqI [of _ _ "sst_name l g"]) (simp_all add: sstFileName_def)
qed

lemma scanned_gens:
  assumes "directory env e ls d" and "n \<in> set (dir_names (e_dir e) d)" and "entry_gen n = Some g"
  shows "g \<le> e_genCounter e"
proof -
  have "HasSuffix n ''.wal'' \<or> HasSuffix n ''.sst''" using assms(3) by (auto simp: entry_gen_def split: if_splits)
  from assms(1,2) this show ?thesis
  proof (cases rule: scanned_name)
    case (log h)
    then show ?thesis using assms(3) gen_bound [of h] by (simp add: entry_gen_def ParseUint_zero_pad)
  next
    case (table l h)
    then show ?thesis using assms(3) by (simp add: entry_gen_def sst_name_not_wal sst_name_suffix parseSSTFilename_sst_name)
  qed
qed

text \<open>What a scan of the directory returns: the logs in the order of the MemTables, every table once, and a bound on the generations.\<close>

definition scan_of :: "Engine \<Rightarrow> string list \<Rightarrow> dir_scan \<Rightarrow> bool" where
  "scan_of e ls s \<longleftrightarrow> ds_wals s = ls \<and> distinct (map sf_path (ds_ssts s)) \<and> sf_path ` set (ds_ssts s) = table_paths e \<and>
     ds_maxGen s \<le> e_genCounter e \<and>
     (\<forall>sf \<in> set (ds_ssts s). \<exists>l g. l < 2 ^ 63 \<and> sf = \<lparr>sf_path = sstFileName (e_dir e) l g, sf_level = int l, sf_gen = g\<rparr> \<and> g \<le> ds_maxGen s) \<and>
     (\<forall>g. walFileName (e_dir e) g \<in> set ls \<longrightarrow> g \<le> ds_maxGen s)"

lemma scanDir_run:
  assumes "directory env e ls d" and "no_faults d"
  shows "\<exists>s. scanDir (e_dir e) d = (Inr s, d\<lparr>clock := clock d + 1\<rparr>) \<and> scan_of e ls s"
proof -
  let ?dir = "e_dir e" and ?ns = "sort (dir_names (e_dir e) d)"
  let ?r = "foldl (scan_entry ?dir) \<lparr>ds_wals = [], ds_ssts = [], ds_maxGen = 0\<rparr> ?ns"
  let ?s = "?r\<lparr>ds_wals := sort (ds_wals ?r), ds_ssts := sort_Slice gen_less (ds_ssts ?r)\<rparr>"
  have sc: "scanDir ?dir d = (Inr ?s, d\<lparr>clock := clock d + 1\<rparr>)"
    using assms(2) by (simp add: scanDir_def os_ReadDir_def tick_no_faults Let_def)
  have T: "tables_inv env e" "generations e ls" and here: "\<And>p. p \<in> set ls \<union> table_paths e \<Longrightarrow> fs_get d p \<noteq> None"
    using assms(1) by (auto simp: directory_def)
  have dist: "distinct ?ns" using dir_names_distinct by simp
  note L = scanDir_lists [OF sc]
  have wals: "ds_wals ?s = ls"
    using scanned_logs [OF assms(1)] generations_sorted [OF T(2)] generations_distinct [OF T(2)] Join_distinct [OF dist] scan_fold [of ?dir _ ?ns]
    by (intro sorted_distinct_set_unique) simp_all
  have paths: "map sf_path (ds_ssts ?r) = map (filepath_Join ?dir) (filter (\<lambda>n. sst_entry ?dir n \<noteq> None) ?ns)"
    using scan_fold [of ?dir _ ?ns] by (simp add: sst_entry_paths)
  have "mset (map sf_path (ds_ssts ?s)) = mset (map sf_path (ds_ssts ?r))" by (simp add: gl.sort_Slice_mset)
  then have once: "distinct (map sf_path (ds_ssts ?s))" using Join_distinct [OF dist] mset_eq_imp_distinct_iff unfolding paths by blast
  have pset: "sf_path ` set (ds_ssts ?s) = table_paths e"
    using arg_cong [OF paths, of set] scanned_tables [OF assms(1)] by (simp add: gl.sort_Slice_set)
  have gen: "ds_maxGen ?s \<le> e_genCounter e" using scan_fold_gen [of ?ns "e_genCounter e"] scanned_gens [OF assms(1)] by simp
  have "\<exists>l g. l < 2 ^ 63 \<and> sf = \<lparr>sf_path = sstFileName ?dir l g, sf_level = int l, sf_gen = g\<rparr> \<and> g \<le> ds_maxGen ?s" if sf: "sf \<in> set (ds_ssts ?s)" for sf
  proof -
    have p: "sf_path sf \<in> table_paths e" using pset sf by blast
    obtain l g where lg: "l < 2 ^ 63" "sf_path sf = sstFileName ?dir l g" by (rule table_path_entry [OF T(1) p])
    have "fs_get d (sf_path sf) \<noteq> None" using here p by blast
    then have "\<lparr>sf_path = sstFileName ?dir l g, sf_level = int l, sf_gen = g\<rparr> \<in> set (ds_ssts ?s) \<and> g \<le> ds_maxGen ?s" using L lg by simp
    moreover from this have "sf = \<lparr>sf_path = sstFileName ?dir l g, sf_level = int l, sf_gen = g\<rparr>"
      using once sf lg(2) by (intro inj_onD [of sf_path "set (ds_ssts ?s)"]) (simp_all add: distinct_map)
    ultimately show ?thesis using lg(1) by blast
  qed
  moreover have "g \<le> ds_maxGen ?s" if "walFileName ?dir g \<in> set ls" for g
    using L here that by blast
  ultimately have "scan_of e ls ?s" unfolding scan_of_def using wals once pset gen by blast
  with sc show ?thesis by blast
qed

lemma owned_directory:
  assumes "einv env e" and "logs_inv e" and "owned e"
  shows "directory env e (log_paths e) (e_fs e)"
  using assms log_paths_present [OF assms(2)] table_paths_present [of env e]
  by (auto simp: directory_def generations_def einv_def logs_inv_def numbered_def owned_def)

end
