(* ===== verification/Restart.thy ===== *)
theory Restart
  imports Directory
begin

text \<open>
  Crash and restart. A machine that loses power between two steps of a history and is started
  again finds, after \<^verbatim>\<open>Open\<close>, the same map: the tables are opened from the directory, the logs are
  replayed oldest first into one MemTable, and this MemTable becomes a table.
\<close>

section \<open>MemTables replayed into one\<close>

text \<open>The records of a map from keys to entries.\<close>

definition map_recs :: "(bytes \<Rightarrow> Entry option) \<Rightarrow> Record set" where
  "map_recs M = {r. M (rec_key r) = Some \<lparr>ent_type = rec_type r, ent_value = rec_value r, ent_seq = rec_seq r\<rparr>}"

lemma map_recs_mem: "mt_inv mt \<Longrightarrow> map_recs (MemTable_Get mt) = set (buildRecords mt)"
  using in_buildRecords by (auto simp: map_recs_def)

lemma map_recs_add: "map_recs (A ++ B) = map_recs B \<union> {r \<in> map_recs A. B (rec_key r) = None}"
proof -
  have "r \<in> map_recs (A ++ B) \<longleftrightarrow> r \<in> map_recs B \<or> r \<in> map_recs A \<and> B (rec_key r) = None" for r
    by (cases "B (rec_key r)") (simp_all add: map_recs_def map_add_def)
  then show ?thesis by blast
qed

lemma map_recs_dom: "B k = Some ent \<Longrightarrow> \<exists>x \<in> map_recs B. rec_key x = k"
  by (rule bexI [of _ "\<lparr>rec_key = k, rec_value = ent_value ent, rec_type = ent_type ent, rec_seq = ent_seq ent\<rparr>"])
    (simp_all add: map_recs_def)

definition dominated :: "Record set \<Rightarrow> Record set \<Rightarrow> bool" where
  "dominated M N \<longleftrightarrow> (\<forall>y \<in> M. \<exists>x \<in> N. rec_key x = rec_key y \<and> rec_seq y \<le> rec_seq x)"

lemma replayed_chain:
  assumes "sorted_wrt (\<lambda>a b. newer (map_recs b) (map_recs a)) Gs"
  shows "map_recs (foldl (++) Map.empty Gs) \<subseteq> \<Union> (map_recs ` set Gs) \<and> dominated (\<Union> (map_recs ` set Gs)) (map_recs (foldl (++) Map.empty Gs))"
  using assms
proof (induction Gs rule: rev_induct)
  case Nil
  then show ?case by (simp add: map_recs_def dominated_def)
next
  case (snoc B Gs)
  let ?A = "foldl (++) Map.empty Gs"
  have IH: "map_recs ?A \<subseteq> \<Union> (map_recs ` set Gs)" "dominated (\<Union> (map_recs ` set Gs)) (map_recs ?A)"
    and new: "newer (map_recs B) (\<Union> (map_recs ` set Gs))" using snoc by (auto simp: sorted_wrt_append newer_def)
  have "\<exists>x \<in> map_recs (?A ++ B). rec_key x = rec_key y \<and> rec_seq y \<le> rec_seq x" if y: "y \<in> \<Union> (map_recs ` set Gs)" for y
  proof (cases "B (rec_key y)")
    case None
    obtain x where "x \<in> map_recs ?A" "rec_key x = rec_key y" "rec_seq y \<le> rec_seq x" using IH(2) y by (auto simp: dominated_def)
    then show ?thesis using None by (intro bexI [of _ x]) (simp_all add: map_recs_add)
  next
    case (Some ent)
    obtain x where x: "x \<in> map_recs B" "rec_key x = rec_key y" using map_recs_dom [of B "rec_key y" ent] Some by blast
    with new y have "rec_seq y < rec_seq x" unfolding newer_def by blast
    then show ?thesis using x by (intro bexI [of _ x]) (simp_all add: map_recs_add)
  qed
  then have "dominated (\<Union> (map_recs ` set (Gs @ [B]))) (map_recs (?A ++ B))" by (auto simp: dominated_def map_recs_add)
  moreover have "map_recs (?A ++ B) \<subseteq> \<Union> (map_recs ` set (Gs @ [B]))" using IH(1) by (auto simp: map_recs_add)
  ultimately show ?case by simp
qed

lemma dominated_reads:
  assumes "coherent (set vs)" and "set ws \<subseteq> set vs" and "dominated (set vs) (set ws)" and "rec_seq ` set vs \<subseteq> {..q}"
  shows "reads ws key q = reads vs key q"
proof -
  obtain b where b: "best_in (set ws) key q b" "reads ws key q = value_of b" using best_in_reads by blast
  have vis: "visible key q r \<longleftrightarrow> rec_key r = key" if "r \<in> set vs" for r using assms(4) that by (auto simp: visible_def)
  have "best_in (set vs) key q b"
  proof (cases b)
    case None
    then show ?thesis using b(1) assms(2,3) vis by (fastforce simp: best_in_def dominated_def)
  next
    case (Some r)
    then obtain x where x: "newest_of (set ws) key q x" "same_version x r" using b(1) by (auto simp: best_in_def)
    have "rec_seq y \<le> rec_seq x" if y: "y \<in> set vs" "visible key q y" for y
    proof -
      obtain z where "z \<in> set ws" "rec_key z = rec_key y" "rec_seq y \<le> rec_seq z" using assms(3) y(1) by (auto simp: dominated_def)
      moreover from this have "visible key q z" using vis assms(2) y by blast
      ultimately show ?thesis using x(1) by (auto simp: newest_of_def intro: order_trans)
    qed
    then have "newest_of (set vs) key q x" using x(1) assms(2) by (auto simp: newest_of_def)
    then show ?thesis using Some x(2) by (auto simp: best_in_def)
  qed
  from reads_best [OF assms(1) this] b(2) show ?thesis by simp
qed

section \<open>Opening the tables\<close>

definition listing :: "Engine \<Rightarrow> (string \<times> int) list" where
  "listing e = map (\<lambda>lt. (tbl_path (e_heap e ! lt_table lt), lt_level lt)) (e_tables e)"

lemma tables_inv_fs: "tables_inv env e \<Longrightarrow> keeps_tables e d \<Longrightarrow> tables_inv env (e\<lparr>e_fs := d\<rparr>)"
  unfolding inv_defs keeps_tables_def by (simp add: allTablesLocked_def) (meson table_held_fs)

lemma tables_inv_gen: "tables_inv env e \<Longrightarrow> e_genCounter e \<le> g \<Longrightarrow> tables_inv env (e\<lparr>e_genCounter := g\<rparr>)"
  unfolding inv_defs by (simp add: allTablesLocked_def) (meson order_trans)

lemma table_frame [simp]:
  "table_paths (e\<lparr>e_fs := d\<rparr>) = table_paths e" "table_paths (e\<lparr>e_genCounter := g\<rparr>) = table_paths e"
  "table_versions env (e\<lparr>e_fs := d\<rparr>) = table_versions env e" "table_versions env (e\<lparr>e_genCounter := g\<rparr>) = table_versions env e"
  "listing (e\<lparr>e_fs := d\<rparr>) = listing e" "listing (e\<lparr>e_genCounter := g\<rparr>) = listing e"
  by (simp_all add: table_paths_def table_versions_def listing_def allTablesLocked_def)

lemma add_table_listing: "tables_inv env e \<Longrightarrow> listing (add_table l t e) = listing e @ [(tbl_path t, l)]"
  using tables_inv_ids by (auto simp: listing_def allTablesLocked_def nth_append)

text \<open>What opening tables leaves of the engine: only the tables and the clock of the file system change.\<close>

definition loaded :: "env \<Rightarrow> Engine \<Rightarrow> Record list \<Rightarrow> (string \<times> int) list \<Rightarrow> Engine \<Rightarrow> bool" where
  "loaded env e vs ls e' \<longleftrightarrow> tables_inv env e' \<and> same_files (e_fs e) (e_fs e') \<and>
     e' = e\<lparr>e_heap := e_heap e', e_tables := e_tables e', e_fs := e_fs e'\<rparr> \<and>
     table_versions env e' = table_versions env e @ vs \<and> listing e' = listing e @ ls"

lemma open_tables_run:
  assumes "tables_inv env e" and "no_faults (e_fs e)" and "distinct (map sf_path sfs)"
    and "\<forall>sf \<in> set sfs. sf_path sf \<notin> table_paths e \<and> named e (sf_path sf) \<and> (\<exists>c. table_file env c (R (sf_path sf)) (sf_path sf) (e_fs e))"
  shows "\<exists>e'. open_tables sfs e = (None, e') \<and> loaded env e (concat (map (R \<circ> sf_path) sfs)) (map (\<lambda>sf. (sf_path sf, sf_level sf)) sfs) e'"
  using assms
proof (induction sfs arbitrary: e)
  case Nil
  then show ?case by (simp add: loaded_def same_files_refl)
next
  case (Cons sf sfs)
  let ?p = "sf_path sf"
  obtain c where tf: "table_file env c (R ?p) ?p (e_fs e)" using Cons.prems(4) by auto
  have eo: "env_ok env" using Cons.prems(1) by (simp add: tables_inv_def)
  obtain r d where o: "Table_Open ?p (e_fs e) = (r, d)" by fastforce
  note O = open_fresh [OF eo tf o]
  obtain t where t: "r = Inr t" using O(3) [OF Cons.prems(2)] by blast
  have new: "table_held env d t" "table_recs env t = R ?p" "tbl_path t = ?p" "tbl_refCount t = 1" using O(2) [OF t] by auto
  let ?e = "e\<lparr>e_fs := d\<rparr>" and ?a = "add_table (sf_level sf) t (e\<lparr>e_fs := d\<rparr>)"
  have T: "tables_inv env ?e" by (rule tables_inv_fs [OF Cons.prems(1) same_files_keeps [OF O(1)]])
  have f: "fresh_table env ?e (R ?p) t" using new Cons.prems(4) by (simp add: fresh_table_def named_def)
  note A = add_table_tables_inv [OF T f, of "sf_level sf"]
  have ap: "table_paths ?a = insert ?p (table_paths e)" using add_table_paths [OF T, of "sf_level sf" t] new(3) by simp
  have nf: "no_faults (e_fs ?a)" using O(1) Cons.prems(2) by (simp add: same_files_def)
  have dist: "distinct (map sf_path sfs)" using Cons.prems(3) by simp
  have rest: "\<forall>s \<in> set sfs. sf_path s \<notin> table_paths ?a \<and> named ?a (sf_path s) \<and> (\<exists>c. table_file env c (R (sf_path s)) (sf_path s) (e_fs ?a))"
  proof
    fix s
    assume s: "s \<in> set sfs"
    have "?p \<notin> sf_path ` set sfs" using Cons.prems(3) by simp
    with imageI [OF s, of sf_path] have "sf_path s \<noteq> ?p" by metis
    then show "sf_path s \<notin> table_paths ?a \<and> named ?a (sf_path s) \<and> (\<exists>c. table_file env c (R (sf_path s)) (sf_path s) (e_fs ?a))"
      using Cons.prems(4) s table_file_same [OF O(1)] unfolding ap by (simp add: named_def) meson
  qed
  obtain e' where e': "open_tables sfs ?a = (None, e')"
    "loaded env ?a (concat (map (R \<circ> sf_path) sfs)) (map (\<lambda>sf. (sf_path sf, sf_level sf)) sfs) e'"
    using Cons.IH [OF A nf dist rest] by blast
  have "e' = e\<lparr>e_heap := e_heap e', e_tables := e_tables e', e_fs := e_fs e'\<rparr>"
    using e'(2) by (simp add: loaded_def add_table_def new_table_def)
  then have "loaded env e (concat (map (R \<circ> sf_path) (sf # sfs))) (map (\<lambda>sf. (sf_path sf, sf_level sf)) (sf # sfs)) e'"
    using e'(2) same_files_trans [OF O(1)] add_table_versions(1) [OF T, of "sf_level sf" t] add_table_listing [OF T, of "sf_level sf" t] new
    unfolding loaded_def by simp
  moreover have "open_tables (sf # sfs) e = (None, e')" using o t e'(1) by (simp add: on_fs_def)
  ultimately show ?case by blast
qed

section \<open>Replaying the logs\<close>

lemma log_get_Cons: "log_get (r # rs) = [fst (log_entry r) \<mapsto> snd (log_entry r)] ++ log_get rs"
  using log_get_append [of "[r]" rs] log_get_snoc [of "[]" r] by simp

text \<open>A state of the recovery: the MemTable holds the entries \<open>M\<close>, the counter is at least every number in it.\<close>

definition replayed :: "(bytes \<Rightarrow> Entry option) \<Rightarrow> MemTable \<times> u64 \<Rightarrow> bool" where
  "replayed M st \<longleftrightarrow> mt_inv (fst st) \<and> MemTable_Get (fst st) = M \<and> (\<forall>r \<in> set (buildRecords (fst st)). rec_seq r \<le> snd st)"

lemma replayed_seq: "replayed M (mt, s) \<Longrightarrow> M k = Some ent \<Longrightarrow> ent_seq ent \<le> s"
  using in_buildRecords [of mt "\<lparr>rec_key = k, rec_value = ent_value ent, rec_type = ent_type ent, rec_seq = ent_seq ent\<rparr>"]
  by (fastforce simp: replayed_def)

lemma replayedI: "mt_inv mt \<Longrightarrow> MemTable_Get mt = M \<Longrightarrow> (\<And>k ent. M k = Some ent \<Longrightarrow> ent_seq ent \<le> s) \<Longrightarrow> replayed M (mt, s)"
  using in_buildRecords [of mt] by (fastforce simp: replayed_def)

lemma recover_step:
  assumes "replayed M st" and "log_ok r"
  shows "\<exists>st'. recover_record r st = (None, st') \<and> replayed (M(fst (log_entry r) \<mapsto> snd (log_entry r))) st'"
proof -
  obtain mt s where st: "st = (mt, s)" by (rule prod.exhaust)
  let ?s = "if wr_seq r > s then wr_seq r else s"
  let ?m = "if wr_type r = RecordPut then MemTable_Put mt (wr_key r) (wr_value r) (wr_seq r) else MemTable_Delete mt (wr_key r) (wr_seq r)"
  have mt: "mt_inv mt" "MemTable_Get mt = M" using assms(1) by (simp_all add: replayed_def st)
  have "recover_record r st = (None, ?m, ?s)" using assms(2) by (auto simp: recover_record_def st log_ok_def Let_def)
  moreover have "replayed (M(fst (log_entry r) \<mapsto> snd (log_entry r))) (?m, ?s)"
  proof (rule replayedI)
    show "mt_inv ?m" using mt(1) by simp
    show "MemTable_Get ?m = M(fst (log_entry r) \<mapsto> snd (log_entry r))"
      using mt by (auto simp: fun_eq_iff log_entry_def MemTable_Get_Put MemTable_Get_Delete)
    fix k ent
    assume "(M(fst (log_entry r) \<mapsto> snd (log_entry r))) k = Some ent"
    then consider "ent_seq ent = wr_seq r" | "M k = Some ent" by (auto simp: log_entry_def split: if_splits)
    then show "ent_seq ent \<le> ?s"
    proof cases
      case 2
      then have "ent_seq ent \<le> s" using replayed_seq assms(1) unfolding st by blast
      then show ?thesis by auto
    qed auto
  qed
  ultimately show ?thesis by blast
qed

lemma deliver_recover:
  "replayed M st \<Longrightarrow> \<forall>r \<in> set rs. log_ok r \<Longrightarrow> \<exists>st'. deliver recover_record rs st = (None, st') \<and> replayed (M ++ log_get rs) st'"
proof (induction rs arbitrary: M st)
  case (Cons r rs)
  obtain st1 where st1: "recover_record r st = (None, st1)" "replayed (M(fst (log_entry r) \<mapsto> snd (log_entry r))) st1"
    using recover_step [OF Cons.prems(1), of r] Cons.prems(2) by (meson list.set_intros(1))
  obtain st' where st': "deliver recover_record rs st1 = (None, st')" "replayed (M(fst (log_entry r) \<mapsto> snd (log_entry r)) ++ log_get rs) st'"
    using Cons.IH [OF st1(2)] Cons.prems(2) by (meson list.set_intros(2))
  moreover have "M(fst (log_entry r) \<mapsto> snd (log_entry r)) ++ log_get rs = M ++ log_get (r # rs)" by (simp add: log_get_Cons)
  ultimately show ?case using st1(1) by auto
qed auto

lemma replay_run:
  assumes "no_faults d" and "\<forall>i. \<not> unreadable d p i" and "logged d p mt" and "replayed M st"
  shows "\<exists>st'. WAL_Replay p recover_record st d = ((None, st'), d\<lparr>clock := clock d + 1\<rparr>) \<and> replayed (M ++ MemTable_Get mt) st'"
proof -
  obtain rs where rs: "synced p (concat (map encode_record rs)) d" "\<forall>r \<in> set rs. log_ok r" "MemTable_Get mt = log_get rs"
    using assms(3) by (auto simp: logged_def)
  let ?h = "\<lparr>hdata = concat (map encode_record rs), hbad = unreadable d p\<rparr>"
  have "readable ?h" using assms(2) by (simp add: readable_def)
  moreover have "parse_records (concat (map encode_record rs)) = rs"
    using parse_records_concat [of rs "[]"] rs(2) by (simp add: log_ok_def parse_records_Nil)
  ultimately have "Replay_loop recover_record ?h 0 st = deliver recover_record rs st" by (simp add: Replay_loop_deliver)
  moreover have "os_Open p d = (Inr ?h, d\<lparr>clock := clock d + 1\<rparr>)"
    using rs(1) assms(1) by (simp add: os_Open_def synced_def tick_no_faults)
  ultimately have w: "WAL_Replay p recover_record st d = (deliver recover_record rs st, d\<lparr>clock := clock d + 1\<rparr>)" by (simp add: WAL_Replay_def)
  from deliver_recover [OF assms(4) rs(2)] show ?thesis unfolding w rs(3) by auto
qed

lemma replay_all_run:
  assumes "no_faults d" and "\<forall>p i. \<not> unreadable d p i" and "\<forall>(p, mt) \<in> set logs. logged d p mt" and "replayed M st"
  shows "\<exists>st' c. replay_all (map fst logs) st d = (Inr st', d\<lparr>clock := c\<rparr>) \<and> replayed (foldl (++) M (map (\<lambda>l. MemTable_Get (snd l)) logs)) st'"
  using assms
proof (induction logs arbitrary: M st d)
  case Nil
  then show ?case by (intro exI [of _ st] exI [of _ "clock d"]) simp
next
  case (Cons l logs)
  obtain p mt where l: "l = (p, mt)" by (rule prod.exhaust)
  let ?d = "d\<lparr>clock := clock d + 1\<rparr>"
  obtain st1 where st1: "WAL_Replay p recover_record st d = ((None, st1), ?d)" "replayed (M ++ MemTable_Get mt) st1"
    using replay_run [OF Cons.prems(1) _ _ Cons.prems(4), of p mt] Cons.prems(2,3) by (auto simp: l)
  have logs: "\<forall>(p, mt) \<in> set logs. logged ?d p mt" using Cons.prems(3) logged_fs [of d _ _ ?d] by auto
  have d: "no_faults ?d" "\<forall>p i. \<not> unreadable ?d p i" using Cons.prems(1,2) by simp_all
  obtain st' c where "replay_all (map fst logs) st1 ?d = (Inr st', ?d\<lparr>clock := c\<rparr>)"
    "replayed (foldl (++) (M ++ MemTable_Get mt) (map (\<lambda>l. MemTable_Get (snd l)) logs)) st'"
    using Cons.IH [OF d logs st1(2)] by blast
  then show ?case using st1(1) by (auto simp: l)
qed

lemma remove_all_run:
  assumes "no_faults d"
  shows "\<exists>d'. remove_all ps d = (None, d') \<and> no_faults d' \<and> unreadable d' = unreadable d \<and>
    (\<forall>q. fs_get d' q = (if q \<in> set ps then None else fs_get d q))"
  using assms
proof (induction ps arbitrary: d)
  case (Cons p ps)
  obtain r d1 where r: "WAL_Remove p d = (r, d1)" by fastforce
  have d1: "r = None \<or> r = Some ENotExist" "no_faults d1" "unreadable d1 = unreadable d" "\<forall>q. fs_get d1 q = (if q = p then None else fs_get d q)"
    using r Cons.prems by (auto simp: WAL_Remove_def os_Remove_def tick_no_faults split: option.splits if_splits)
  obtain d' where "remove_all ps d1 = (None, d')" "no_faults d'" "unreadable d' = unreadable d1"
    "\<forall>q. fs_get d' q = (if q \<in> set ps then None else fs_get d1 q)" using Cons.IH [OF d1(2)] by blast
  then show ?case using d1 r by (intro exI [of _ d']) auto
qed simp

section \<open>Writing what the logs held\<close>

definition settled :: "env \<Rightarrow> Engine \<Rightarrow> bool" where
  "settled env e \<longleftrightarrow> tables_inv env e \<and> no_faults (e_fs e) \<and> (\<forall>p i. \<not> unreadable (e_fs e) p i)"

lemma next_name_fresh:
  assumes "tables_inv env e" and "e_genCounter e < unboundedSeq"
  shows "sstFileName (e_dir e) 0 (e_genCounter e + 1) \<notin> table_paths e"
proof
  assume p: "sstFileName (e_dir e) 0 (e_genCounter e + 1) \<in> table_paths e"
  obtain l g where lg: "l < 2 ^ 63" "sstFileName (e_dir e) 0 (e_genCounter e + 1) = sstFileName (e_dir e) l g" "g \<le> e_genCounter e"
    by (rule table_path_entry [OF assms(1) p])
  from sst_inj [OF lg(2) _ lg(1)] lg(3) word_incr [OF assms(2)] show False by (simp add: not_less)
qed

lemma write_table_settled:
  assumes "settled env e" and "e_genCounter e < unboundedSeq" and "recs_ok rs" and "small_table rs"
  obtains t d where "write_table env rs m1 m2 e = (Inr t, e\<lparr>e_genCounter := e_genCounter e + 1, e_fs := d\<rparr>)"
    and "settled env (e\<lparr>e_genCounter := e_genCounter e + 1, e_fs := d\<rparr>)" and "fresh_table env (e\<lparr>e_genCounter := e_genCounter e + 1, e_fs := d\<rparr>) rs t"
proof -
  let ?path = "sstFileName (e_dir e) 0 (e_genCounter e + 1)"
  have S: "tables_inv env e" "no_faults (e_fs e)" "\<forall>p i. \<not> unreadable (e_fs e) p i" "env_ok env" using assms(1) by (auto simp: settled_def tables_inv_def)
  have fresh: "?path \<notin> table_paths e" by (rule next_name_fresh [OF S(1) assms(2)])
  obtain d1 where w: "Write env ?path rs (e_compress e) (e_fs e) = (None, d1)" "no_faults d1" "table_at env (e_compress e) rs ?path d1"
    by (rule Write_no_faults [OF S(2,4) assms(3)])
  note W = Write_outcome [OF w(1)]
  have tf: "table_file env (e_compress e) rs ?path d1" using W S(3) by (intro table_at_table_file [OF S(4) w(3) assms(3,4)]) simp
  obtain r d where o: "Table_Open ?path d1 = (r, d)" by fastforce
  note O = open_fresh [OF S(4) tf o]
  obtain t where t: "r = Inr t" using O(3) [OF w(2)] by blast
  let ?e = "e\<lparr>e_genCounter := e_genCounter e + 1, e_fs := d\<rparr>"
  have "fs_get d p = fs_get (e_fs e) p" if p: "p \<in> table_paths e" for p
  proof -
    have "p \<noteq> ?path" "p \<noteq> ?path @ ''.tmp''" using fresh p table_path_entry [OF S(1) p] sst_ne_tmp by metis+
    then show ?thesis using W O(1) by (simp add: same_files_def)
  qed
  then have "keeps_tables e d" using W O(1) by (simp add: keeps_tables_def same_files_def table_paths_def)
  then have T: "tables_inv env ?e"
    using tables_inv_fs [OF tables_inv_gen [OF S(1), of "e_genCounter e + 1"], of d] word_incr [OF assms(2)] by simp
  have "named ?e ?path" unfolding named_def by (intro exI [of _ 0] exI [of _ "e_genCounter e + 1"]) simp
  then have "fresh_table env ?e rs t" using O(2) [OF t] fresh by (simp add: fresh_table_def)
  moreover have "settled env ?e" using T S(3) W O(1) w(2) by (simp add: settled_def same_files_def)
  moreover have "write_table env rs m1 m2 e = (Inr t, ?e)" using w(1) o t by (simp add: write_table_def nextGen_def on_fs_def)
  ultimately show thesis by (intro that [of t d])
qed

definition next_table :: "Engine \<Rightarrow> Record list \<Rightarrow> (string \<times> int) list" where
  "next_table e rs = (if rs = [] then [] else [(sstFileName (e_dir e) 0 (e_genCounter e + 1), 0)])"

text \<open>The engine after the recovered records were written: a level-0 table more, if there were any.\<close>

definition grown :: "env \<Rightarrow> Engine \<Rightarrow> Record list \<Rightarrow> Engine \<Rightarrow> bool" where
  "grown env e rs e' \<longleftrightarrow> settled env e' \<and> e_genCounter e' = (if rs = [] then e_genCounter e else e_genCounter e + 1) \<and>
     e' = e\<lparr>e_heap := e_heap e', e_tables := e_tables e', e_genCounter := e_genCounter e', e_fs := e_fs e'\<rparr> \<and>
     table_versions env e' = table_versions env e @ rs \<and> listing e' = listing e @ next_table e rs \<and> (own_tables e \<longrightarrow> own_tables e') \<and>
     (\<forall>q. q \<notin> fst ` set (next_table e rs) \<and> (\<nexists>p. q = p @ ''.tmp'') \<longrightarrow> fs_get (e_fs e') q = fs_get (e_fs e) q)"

lemma flush_mem_run:
  assumes "settled env e" and "e_genCounter e < unboundedSeq" and "mt_inv mt" and "\<forall>r \<in> set (buildRecords mt). rec_ok r" and "fits (buildRecords mt)"
  shows "\<exists>e'. (if MemTable_Len mt > 0
      then case write_table env (buildRecords mt) m1 m2 e of (Inl x, e1) \<Rightarrow> (Some x, e1) | (Inr t, e1) \<Rightarrow> (None, add_table 0 t e1)
      else (None, e)) = (None, e') \<and> grown env e (buildRecords mt) e'"
proof (cases "buildRecords mt = []")
  case True
  then have "MemTable_Len mt = 0" using MemTable_Len_All [OF assms(3)] by (simp add: buildRecords_def)
  then show ?thesis using True assms(1) by (simp add: grown_def next_table_def)
next
  case False
  let ?rs = "buildRecords mt" and ?path = "sstFileName (e_dir e) 0 (e_genCounter e + 1)"
  have ok: "recs_ok ?rs" by (rule buildRecords_ok [OF assms(3-5) False])
  obtain t d where w: "write_table env ?rs m1 m2 e = (Inr t, e\<lparr>e_genCounter := e_genCounter e + 1, e_fs := d\<rparr>)"
    and s: "settled env (e\<lparr>e_genCounter := e_genCounter e + 1, e_fs := d\<rparr>)" and f: "fresh_table env (e\<lparr>e_genCounter := e_genCounter e + 1, e_fs := d\<rparr>) ?rs t"
    by (rule write_table_settled [OF assms(1,2) ok]) (use assms(5) in \<open>simp add: fits_def\<close>)
  let ?e = "e\<lparr>e_genCounter := e_genCounter e + 1, e_fs := d\<rparr>"
  note F = write_table_files [OF w refl]
  have T: "tables_inv env ?e" using s by (simp add: settled_def)
  have len: "MemTable_Len mt > 0" using MemTable_Len_All [OF assms(3)] False by (simp add: buildRecords_def)
  have "grown env e ?rs (add_table 0 t ?e)"
    unfolding grown_def
  proof (intro conjI allI impI, goal_cases)
    case 1
    then show ?case using s add_table_tables_inv [OF T f, of 0] by (simp add: settled_def)
  next
    case 2
    then show ?case using False by simp
  next
    case 3
    then show ?case by (simp add: add_table_def new_table_def)
  next
    case 4
    then show ?case using add_table_versions(1) [OF T, of 0 t] f by (simp add: fresh_table_def)
  next
    case 5
    then show ?case using add_table_listing [OF T, of 0 t] F(2) [OF refl] False by (simp add: next_table_def)
  next
    case 6
    then have "own_tables ?e" by (simp add: own_tables_def)
    from add_table_levels [OF T this, of t 0 "e_genCounter e + 1"] F(2) [OF refl] show ?case by simp
  next
    case (7 q)
    then show ?case using F(1) False by (simp add: next_table_def)
  qed
  then show ?thesis using w len by simp
qed

lemmas flush_recovered_run = flush_mem_run [where ?m1.0 = "''engine: flushing recovered memtable''"
    and ?m2.0 = "''engine: reopening freshly-recovered sstable''", folded flush_recovered_def]

lemma seq_frame [simp]: "table_versions env (e\<lparr>e_seq := s\<rparr>) = table_versions env e" "listing (e\<lparr>e_seq := s\<rparr>) = listing e"
  by (simp_all add: table_versions_def listing_def allTablesLocked_def)

definition recovered :: "env \<Rightarrow> Engine \<Rightarrow> string list \<Rightarrow> Record list \<Rightarrow> Engine \<Rightarrow> bool" where
  "recovered env e ps rs e' \<longleftrightarrow> settled env e' \<and> e_genCounter e' = (if rs = [] then e_genCounter e else e_genCounter e + 1) \<and>
     e' = e\<lparr>e_heap := e_heap e', e_tables := e_tables e', e_genCounter := e_genCounter e', e_fs := e_fs e', e_seq := e_seq e'\<rparr> \<and>
     table_versions env e' = table_versions env e @ rs \<and> listing e' = listing e @ next_table e rs \<and>
     (\<forall>r \<in> set rs. rec_seq r \<le> e_seq e') \<and> (\<forall>p \<in> set ps. fs_get (e_fs e') p = None) \<and>
     (\<forall>q. q \<notin> set ps \<and> q \<notin> fst ` set (next_table e rs) \<and> (\<nexists>p. q = p @ ''.tmp'') \<longrightarrow> fs_get (e_fs e') q = fs_get (e_fs e) q)"

lemma sub_fits:
  assumes "distinct xs" and "set xs \<subseteq> set vs" and "fits vs"
  shows "fits xs"
proof (rule fits_mono [OF _ assms(3)])
  have "mset xs = mset_set (set xs)" using assms(1) by (simp add: mset_set_set)
  also have "\<dots> \<subseteq># mset_set (set vs)" using assms(2) by (intro subset_imp_msubset_mset_set) simp_all
  also have "\<dots> \<subseteq># mset vs" using mset_set_set_mset_msubset [of "mset vs"] by simp
  finally show "mset xs \<subseteq># mset vs" .
qed

lemma buildRecords_distinct: "mt_inv mt \<Longrightarrow> distinct (buildRecords mt)"
proof -
  assume "mt_inv mt"
  then have "distinct (map rec_key (buildRecords mt))"
    using MemTable_All_sorted [of mt] by (simp add: buildRecords_def comp_def case_prod_beta strict_sorted_iff)
  then show ?thesis by (simp add: distinct_map)
qed

lemma recover_run:
  assumes "settled env e" and "e_genCounter e < unboundedSeq" and "logs \<noteq> []" and "\<forall>(p, mt) \<in> set logs. logged (e_fs e) p mt"
    and "M = foldl (++) Map.empty (map (\<lambda>l. MemTable_Get (snd l)) logs)" and "map_recs M \<subseteq> set vs" and "fits vs" and "\<forall>r \<in> map_recs M. rec_ok r"
    and "\<forall>p \<in> fst ` set logs. \<exists>g. p = walFileName (e_dir e) g"
  shows "\<exists>e' rs. recoverFromWALs env (map fst logs) e = (None, e') \<and> set rs = map_recs M \<and> recovered env e (map fst logs) rs e'"
proof -
  have S: "tables_inv env e" "no_faults (e_fs e)" "\<forall>p i. \<not> unreadable (e_fs e) p i" using assms(1) by (auto simp: settled_def)
  let ?mt = "MemTable_New (e_rand e (length (e_mems e)))" and ?ps = "map fst logs"
  have "replayed Map.empty (?mt, 0)" by (rule replayedI) (simp_all add: MemTable_Get_New fun_eq_iff)
  from replay_all_run [OF S(2,3) assms(4) this] obtain mt s c where r: "replay_all ?ps (?mt, 0) (e_fs e) = (Inr (mt, s), (e_fs e)\<lparr>clock := c\<rparr>)"
    and R: "replayed M (mt, s)" unfolding assms(5) by auto
  define s2 where "s2 = (if s > e_seq e then s else e_seq e)"
  let ?e1 = "e\<lparr>e_fs := (e_fs e)\<lparr>clock := c\<rparr>\<rparr>" and ?e2 = "e\<lparr>e_fs := (e_fs e)\<lparr>clock := c\<rparr>, e_seq := s2\<rparr>"
  have e2: "(if s > e_seq ?e1 then ?e1\<lparr>e_seq := s\<rparr> else ?e1) = ?e2" and s2: "s \<le> s2" by (simp_all add: s2_def not_less)
  have mt: "mt_inv mt" "set (buildRecords mt) = map_recs M" "\<forall>r \<in> set (buildRecords mt). rec_seq r \<le> s"
    using R map_recs_mem [of mt] by (auto simp: replayed_def)
  have sub: "fits (buildRecords mt)" using sub_fits [OF buildRecords_distinct [OF mt(1)] _ assms(7)] mt(2) assms(6) by simp
  have ok: "\<forall>r \<in> set (buildRecords mt). rec_ok r" using mt(2) assms(8) by simp
  have T2: "settled env ?e2" using S tables_inv_fs [OF S(1), of "(e_fs e)\<lparr>clock := c\<rparr>"]
    by (auto simp: settled_def keeps_tables_def tables_inv_def named_def allTablesLocked_def)
  obtain e3 where f: "flush_recovered env mt ?e2 = (None, e3)" and g: "grown env ?e2 (buildRecords mt) e3"
    using flush_recovered_run [OF T2 _ mt(1) ok sub] assms(2) by auto
  have S3: "tables_inv env e3" "no_faults (e_fs e3)" "\<forall>p i. \<not> unreadable (e_fs e3) p i" using g by (auto simp: grown_def settled_def)
  obtain d where d: "remove_all ?ps (e_fs e3) = (None, d)" "no_faults d" "unreadable d = unreadable (e_fs e3)"
    "\<forall>q. fs_get d q = (if q \<in> set ?ps then None else fs_get (e_fs e3) q)" using remove_all_run [OF S3(2)] by blast
  have e3: "e3 = ?e2\<lparr>e_heap := e_heap e3, e_tables := e_tables e3, e_genCounter := e_genCounter e3, e_fs := e_fs e3\<rparr>" using g unfolding grown_def by (elim conjE)
  have dir: "e_dir e3 = e_dir e" "e_seq e3 = e_seq ?e2" by (subst e3, simp)+
  have nt: "next_table ?e2 rs = next_table e rs" for rs by (cases "rs = []") (simp_all add: next_table_def)
  note G = g [unfolded grown_def nt]
  have "keeps_tables e3 d"
    unfolding keeps_tables_def
  proof (intro conjI ballI)
    fix p
    assume "p \<in> set (allTablesLocked e3)"
    then have "tbl_path (e_heap e3 ! p) \<in> table_paths e3" by (simp add: table_paths_def)
    then obtain l h where "tbl_path (e_heap e3 ! p) = sstFileName (e_dir e3) l h" using table_path_entry [OF S3(1)] by metis
    then have "tbl_path (e_heap e3 ! p) \<notin> set ?ps" using assms(9) sst_ne_wal by auto
    then show "fs_get d (tbl_path (e_heap e3 ! p)) = fs_get (e_fs e3) (tbl_path (e_heap e3 ! p))" using d(4) by simp
  qed (rule d(3))
  then have "settled env (e3\<lparr>e_fs := d\<rparr>)" using tables_inv_fs [OF S3(1)] d S3 by (simp add: settled_def)
  then have "recovered env e ?ps (buildRecords mt) (e3\<lparr>e_fs := d\<rparr>)"
    unfolding recovered_def
  proof (intro conjI allI impI ballI, goal_cases)
    case 2
    then show ?case using G by (cases "buildRecords mt = []") simp_all
  next
    case 3
    then show ?case by (subst (1) e3) (simp add: dir)
  next
    case 4
    then show ?case using G by simp
  next
    case 5
    then show ?case using G by simp
  next
    case (6 r)
    then show ?case using mt(3) s2 dir by (auto intro: order_trans)
  next
    case (7 p)
    then show ?case using d(4) by simp
  next
    case (8 q)
    then have "fs_get (e_fs e3) q = fs_get (e_fs ?e2) q" using G by blast
    then show ?case using d(4) 8 by simp
  qed
  moreover have "recoverFromWALs env ?ps e = (None, e3\<lparr>e_fs := d\<rparr>)"
    using assms(3) r f d(1) e2 by (simp add: recoverFromWALs_def on_fs_def Let_def)
  ultimately show ?thesis using mt(2) by blast
qed

section \<open>Opening the directory of a running store\<close>

text \<open>The file system has all files the engine relies on as they were, and no others of their kind.\<close>

definition mirrors :: "fs \<Rightarrow> Engine \<Rightarrow> bool" where
  "mirrors d e \<longleftrightarrow> no_faults d \<and> (\<forall>p i. \<not> unreadable d p i) \<and> (\<forall>p. fs_get d p = None \<longleftrightarrow> fs_get (e_fs e) p = None) \<and>
     (\<forall>p \<in> set (log_paths e) \<union> table_paths e. fs_get d p = fs_get (e_fs e) p)"

text \<open>The file system has the tables of the engine as they were.\<close>

definition carries :: "fs \<Rightarrow> Engine \<Rightarrow> bool" where
  "carries d e \<longleftrightarrow> no_faults d \<and> (\<forall>p i. \<not> unreadable d p i) \<and> (\<forall>p \<in> table_paths e. fs_get d p = fs_get (e_fs e) p)"

lemma open_listed:
  assumes "tables_inv env e" and "carries d e" and "blank_like (e_dir e) d0 b" and "same_files d d0"
    and "distinct (map sf_path sfs)" and "sf_path ` set sfs = table_paths e"
    and "\<forall>sf \<in> set sfs. \<exists>l g. l < 2 ^ 63 \<and> sf = \<lparr>sf_path = sstFileName (e_dir e) l g, sf_level = int l, sf_gen = g\<rparr> \<and> g \<le> G"
  shows "\<exists>e' vs. open_tables sfs (b\<lparr>e_genCounter := G\<rparr>) = (None, e') \<and> set vs = set (table_versions env e) \<and>
    loaded env (b\<lparr>e_genCounter := G\<rparr>) vs (map (\<lambda>sf. (sf_path sf, sf_level sf)) sfs) e'"
proof -
  let ?b = "b\<lparr>e_genCounter := G\<rparr>" and ?I = "set (allTablesLocked e)" and ?f = "\<lambda>i. tbl_path (e_heap e ! i)"
  let ?R = "\<lambda>p. table_recs env (e_heap e ! the_inv_into ?I ?f p)"
  have T: "tables_inv env e" "env_ok env" "inj_on ?f ?I" using assms(1) by (auto simp: tables_inv_def)
  have R: "?R (?f i) = table_recs env (e_heap e ! i)" if "i \<in> ?I" for i using the_inv_into_f_f [OF T(3) that] by simp
  have B: "e_tables ?b = []" "e_heap ?b = []" "e_dir ?b = e_dir e" "e_fs ?b = d0" using assms(3) by (simp_all add: blank_like_def)
  have Tb: "tables_inv env ?b" using T(2) B by (simp add: tables_inv_def allTablesLocked_def)
  have nf: "no_faults (e_fs ?b)" using assms(2,4) B by (simp add: carries_def same_files_def)
  have each: "sf_path sf \<notin> table_paths ?b \<and> named ?b (sf_path sf) \<and> (\<exists>c. table_file env c (?R (sf_path sf)) (sf_path sf) (e_fs ?b))" if sf: "sf \<in> set sfs" for sf
  proof -
    obtain i where i: "i \<in> ?I" "sf_path sf = ?f i" using imageI [OF sf, of sf_path] unfolding assms(6) table_paths_def by blast
    then obtain c where c: "table_file env c (table_recs env (e_heap e ! i)) (?f i) (e_fs e)" using T(1) by (auto simp: tables_inv_def table_held_def)
    have "fs_get d0 (?f i) = fs_get (e_fs e) (?f i)" "\<forall>j. \<not> unreadable d0 (?f i) j" using assms(2,4) i(1) by (auto simp: carries_def same_files_def table_paths_def)
    then have "table_file env c (?R (sf_path sf)) (sf_path sf) (e_fs ?b)" using c unfolding i(2) R [OF i(1)] B by (simp add: table_file_def table_at_def synced_def)
    moreover obtain l g where "l < 2 ^ 63" "sf = \<lparr>sf_path = sstFileName (e_dir e) l g, sf_level = int l, sf_gen = g\<rparr>" "g \<le> G" using assms(7) sf by blast
    then have "named ?b (sf_path sf)" using B(3) by (auto simp: named_def)
    ultimately show ?thesis using B by (auto simp: table_paths_def allTablesLocked_def)
  qed
  then obtain e' where e': "open_tables sfs ?b = (None, e')"
    "loaded env ?b (concat (map (?R \<circ> sf_path) sfs)) (map (\<lambda>sf. (sf_path sf, sf_level sf)) sfs) e'"
    using open_tables_run [OF Tb nf assms(5), of ?R] by blast
  have "set (concat (map (?R \<circ> sf_path) sfs)) = \<Union> ((set \<circ> ?R) ` (sf_path ` set sfs))" by auto
  also have "\<dots> = (\<Union>i \<in> ?I. set (table_recs env (e_heap e ! i)))" unfolding assms(6) table_paths_def image_image comp_def using R by simp
  also have "\<dots> = set (table_versions env e)" by (simp add: table_versions_def)
  finally show ?thesis using e' by blast
qed

lemma Engine_Open_scanned:
  assumes "no_faults d" and "scanDir dir (d\<lparr>clock := clock d + 1\<rparr>) = (Inr s, d2)"
  shows "\<exists>b. Engine_Open env dir opts rnd durs d = Open_start env s b \<and> blank_like dir d2 b \<and> levels_config b = levels_config (configured opts)"
proof -
  let ?d1 = "d\<lparr>clock := clock d + 1\<rparr>"
  let ?e0 = "foldl (\<lambda>e opt. apply_option opt e) (blank_engine dir rnd durs ?d1) opts"
  obtain m reg where nm: "newEngineMetrics (e_reg ?e0) = (m, reg)" by fastforce
  have B0: "blank_like dir ?d1 ?e0" by (rule blank_options) (simp add: blank_like_def blank_engine_def)
  have "levels_config ?e0 = levels_config (configured opts)"
    unfolding configured_def by (rule options_config) (simp add: levels_config_def blank_engine_def)
  moreover have "Engine_Open env dir opts rnd durs d = Open_start env s (?e0\<lparr>e_m := m, e_reg := reg, e_fs := d2\<rparr>)"
    using B0 nm assms by (simp add: Engine_Open_def os_MkdirAll_def tick_no_faults on_fs_def blank_like_def Let_def)
  ultimately show ?thesis using B0 by (intro exI [of _ "?e0\<lparr>e_m := m, e_reg := reg, e_fs := d2\<rparr>"]) (simp add: blank_like_def levels_config_def)
qed

text \<open>The MemTables of an engine, oldest first, with the records they hold.\<close>

definition mem_recs :: "Engine \<Rightarrow> Record set" where
  "mem_recs e = set (mem_versions e) \<union> set (imm_versions e)"

definition mem_maps :: "Engine \<Rightarrow> (bytes \<Rightarrow> Entry option) list" where
  "mem_maps e = map (\<lambda>(p, m). MemTable_Get (e_mems e ! m)) (mem_logs e)"

lemma mem_maps_chain:
  assumes "einv env e" and "age_inv env e"
  shows "sorted_wrt (\<lambda>a b. newer (map_recs b) (map_recs a)) (mem_maps e)" and "\<Union> (map_recs ` set (mem_maps e)) = mem_recs e"
    and "\<forall>r \<in> mem_recs e. rec_ok r"
proof -
  have M: "mems_inv e" using assms(1) by (simp add: einv_def)
  then have act: "map_recs (MemTable_Get (e_mems e ! e_mem e)) = set (mem_versions e)" using map_recs_mem by (simp add: mems_inv_def mem_versions_def)
  have imm: "map_recs (MemTable_Get (e_mems e ! im_mt i)) = irecs e i" if "i \<in> set (e_imm e)" for i
    using imm_records(1) [OF M that] map_recs_mem by (simp add: irecs_def)
  have irs: "set (imm_versions e) = (\<Union>i \<in> set (e_imm e). irecs e i)" by (simp add: imm_versions_def irecs_def)
  have mm: "mem_maps e = map (\<lambda>i. MemTable_Get (e_mems e ! im_mt i)) (e_imm e) @ [MemTable_Get (e_mems e ! e_mem e)]"
    by (simp add: mem_maps_def mem_logs_def)
  show "\<Union> (map_recs ` set (mem_maps e)) = mem_recs e" unfolding mm mem_recs_def irs using act imm by auto
  have O: "sorted_wrt (\<lambda>i j. newer (irecs e j) (irecs e i)) (e_imm e)" "newer (set (mem_versions e)) (set (imm_versions e))"
    using assms(2) by (auto simp: age_inv_def mems_ordered_def newer_def)
  have "sorted_wrt (\<lambda>i j. newer (map_recs (MemTable_Get (e_mems e ! im_mt j))) (map_recs (MemTable_Get (e_mems e ! im_mt i)))) (e_imm e)"
    by (rule sorted_wrt_mono_rel [OF _ O(1)]) (simp add: imm)
  then show "sorted_wrt (\<lambda>a b. newer (map_recs b) (map_recs a)) (mem_maps e)"
    unfolding mm using O(2) act imm irs by (auto simp: sorted_wrt_append sorted_wrt_map newer_def)
  show "\<forall>r \<in> mem_recs e. rec_ok r" using M imm_records(2) [OF M] by (auto simp: mem_recs_def mem_versions_def imm_versions_def mems_inv_def)
qed

text \<open>The end of Open: a new log and an empty MemTable.\<close>

definition ready :: "EngineOption list \<Rightarrow> string \<Rightarrow> Engine \<Rightarrow> bool" where
  "ready opts dir e \<longleftrightarrow> (\<exists>r. e_mems e = [MemTable_New r]) \<and> e_mem e = 0 \<and> e_imm e = [] \<and> e_flushCh e = [] \<and> \<not> e_closed e \<and> e_dir e = dir \<and>
     levels_config e = levels_config (configured opts)"

text \<open>What is known of the engine after the restart; \<open>N\<close> are the records the logs held.\<close>

definition reopened :: "env \<Rightarrow> EngineOption list \<Rightarrow> Engine \<Rightarrow> Record list \<Rightarrow> Engine \<Rightarrow> bool" where
  "reopened env opts e N e' \<longleftrightarrow> settled env e' \<and> ready opts (e_dir e) e' \<and>
     set N \<subseteq> mem_recs e \<and> dominated (mem_recs e) (set N) \<and> set (table_versions env e') = set (table_versions env e) \<union> set N \<and>
     (\<forall>r \<in> set N. rec_seq r \<le> e_seq e')"

lemma Open_finish:
  assumes "no_faults (e_fs e)"
  shows "\<exists>d. on_fs (WAL_Open p) e = (Inr \<lparr>wal_w = bufio_NewWriter, wal_path = p\<rparr>, e\<lparr>e_fs := d\<rparr>) \<and> no_faults d \<and> frame p (e_fs e) d \<and>
    (fs_get (e_fs e) p = None \<longrightarrow> synced p [] d)"
proof -
  obtain d where w: "WAL_Open p (e_fs e) = (Inr \<lparr>wal_w = bufio_NewWriter, wal_path = p\<rparr>, d)" "no_faults d" using WAL_Open_no_faults [OF assms, of p] by blast
  have "fs_get (e_fs e) p = None \<longrightarrow> synced p [] d" using w assms by (auto simp: WAL_Open_def os_OpenAppend_def tick_no_faults synced_def)
  then show ?thesis using w WAL_Open_frame [OF w(1)] by (intro exI [of _ d]) (simp add: on_fs_def)
qed

lemma reopen_recover:
  assumes "calm env e" and "disk_inv e" and "fits (versions env e)" and "e_genCounter e < unboundedSeq" and "mirrors d e"
    and "settled env b" and "same_files d (e_fs b)" and "e_dir b = e_dir e" and "e_genCounter b \<le> e_genCounter e"
  shows "\<exists>e' rs. recoverFromWALs env (log_paths e) b = (None, e') \<and> recovered env b (log_paths e) rs e' \<and>
    set rs \<subseteq> mem_recs e \<and> dominated (mem_recs e) (set rs)"
proof -
  let ?logs = "map (\<lambda>(p, m). (p, e_mems e ! m)) (mem_logs e)" and ?M = "foldl (++) Map.empty (mem_maps e)"
  have C: "einv env e" "age_inv env e" using assms(1) by (auto simp: calm_def)
  note K = mem_maps_chain [OF C]
  note R = replayed_chain [OF K(1), unfolded K(2)]
  have D: "numbered e" "\<forall>(p, m) \<in> set (mem_logs e). logged (e_fs e) p (e_mems e ! m)" using assms(2) by (auto simp: disk_inv_def logs_inv_def)
  have lp: "map fst ?logs = log_paths e" by (simp add: log_paths_def comp_def case_prod_beta)
  have gen: "e_genCounter b < unboundedSeq" using assms(4,9) by (rule le_less_trans [rotated])
  have "\<forall>(p, mt) \<in> set ?logs. logged (e_fs b) p mt"
  proof (clarsimp)
    fix p m
    assume pm: "(p, m) \<in> set (mem_logs e)"
    have "p \<in> set (log_paths e)" using pm by (force simp: log_paths_def)
    then have "fs_get (e_fs b) p = fs_get (e_fs e) p" using assms(5,7) by (simp add: mirrors_def same_files_def)
    then show "logged (e_fs b) p (e_mems e ! m)" using D(2) pm logged_fs by blast
  qed
  moreover have "?M = foldl (++) Map.empty (map (\<lambda>l. MemTable_Get (snd l)) ?logs)" by (simp add: mem_maps_def comp_def split_def)
  moreover have "map_recs ?M \<subseteq> set (versions env e)" using R by (auto simp: mem_recs_def versions_def)
  moreover have "\<forall>r \<in> map_recs ?M. rec_ok r" using R K(3) by blast
  moreover have "\<forall>p \<in> fst ` set ?logs. \<exists>g. p = walFileName (e_dir b) g"
    using log_paths_wal [OF D(1)] unfolding set_map [symmetric] lp assms(8) by blast
  moreover have "?logs \<noteq> []" by (simp add: mem_logs_def)
  ultimately obtain e' rs where "recoverFromWALs env (map fst ?logs) b = (None, e')" "set rs = map_recs ?M" "recovered env b (map fst ?logs) rs e'"
    using recover_run [OF assms(6) gen _ _ _ _ assms(3)] by metis
  then show ?thesis using R unfolding lp by metis
qed

lemma Open_start_run:
  assumes "open_tables (ds_ssts s) (b\<lparr>e_genCounter := ds_maxGen s\<rparr>) = (None, e1)" and "recoverFromWALs env (ds_wals s) e1 = (None, e2)"
    and "settled env e2" and "e_genCounter e2 < unboundedSeq" and "p = walFileName (e_dir e2) (e_genCounter e2 + 1)"
  shows "\<exists>e' r. Open_start env s b = (Inr e', e_fs e') \<and> settled env e' \<and> frame p (e_fs e2) (e_fs e') \<and> (fs_get (e_fs e2) p = None \<longrightarrow> synced p [] (e_fs e')) \<and>
    e' = e2\<lparr>e_genCounter := e_genCounter e2 + 1, e_fs := e_fs e', e_mems := e_mems e2 @ [MemTable_New r], e_wal := \<lparr>wal_w = bufio_NewWriter, wal_path = p\<rparr>,
      e_walPath := p, e_mem := length (e_mems e2)\<rparr>"
proof -
  have S: "tables_inv env e2" "no_faults (e_fs e2)" "\<forall>p i. \<not> unreadable (e_fs e2) p i" using assms(3) by (auto simp: settled_def)
  let ?e3 = "e2\<lparr>e_genCounter := e_genCounter e2 + 1\<rparr>"
  have fs3: "e_fs ?e3 = e_fs e2" by simp
  obtain d where d: "on_fs (WAL_Open p) ?e3 = (Inr \<lparr>wal_w = bufio_NewWriter, wal_path = p\<rparr>, ?e3\<lparr>e_fs := d\<rparr>)" "no_faults d" "frame p (e_fs e2) d"
    "fs_get (e_fs e2) p = None \<longrightarrow> synced p [] d" by (rule exE [OF Open_finish [of ?e3 p, unfolded fs3, OF S(2)]], elim conjE) (rule that)
  let ?r = "e_rand e2 (length (e_mems e2))"
  let ?e = "e2\<lparr>e_genCounter := e_genCounter e2 + 1, e_fs := d, e_mems := e_mems e2 @ [MemTable_New ?r], e_wal := \<lparr>wal_w = bufio_NewWriter, wal_path = p\<rparr>,
      e_walPath := p, e_mem := length (e_mems e2)\<rparr>"
  have T3: "tables_inv env ?e3" using tables_inv_gen [OF S(1)] word_incr [OF assms(4)] by simp
  have "fs_get d q = fs_get (e_fs ?e3) q" if q: "q \<in> table_paths ?e3" for q
  proof -
    obtain l g where "q = sstFileName (e_dir ?e3) l g" by (rule table_path_entry [OF T3 q])
    then have "q \<noteq> p" unfolding assms(5) by (simp only: sst_ne_wal not_False_eq_True)
    then show ?thesis using d(3) by (simp add: frame_def)
  qed
  then have "keeps_tables ?e3 d" using d(3) by (simp add: keeps_tables_def table_paths_def frame_def)
  from tables_inv_fs [OF T3 this] have "settled env ?e" using d(2,3) S(3) by (simp add: settled_def tables_inv_def named_def allTablesLocked_def frame_def)
  moreover have "Open_start env s b = (Inr ?e, d)"
    using assms(1,2,5) d(1) by (simp add: Open_start_def nextGen_def new_memtable_def Let_def)
  ultimately show ?thesis using d(3,4) by (intro exI [of _ ?e] exI [of _ ?r]) simp
qed

text \<open>An engine in the middle of Open, with its tables and before the logs.\<close>

definition tables_open :: "env \<Rightarrow> EngineOption list \<Rightarrow> Engine \<Rightarrow> fs \<Rightarrow> Engine \<Rightarrow> bool" where
  "tables_open env opts e d e1 \<longleftrightarrow> settled env e1 \<and> same_files d (e_fs e1) \<and> set (table_versions env e1) = set (table_versions env e) \<and>
     e_mems e1 = [] \<and> e_imm e1 = [] \<and> e_flushCh e1 = [] \<and> \<not> e_closed e1 \<and> e_dir e1 = e_dir e \<and>
     levels_config e1 = levels_config (configured opts) \<and> e_genCounter e1 \<le> e_genCounter e \<and> e_seq e1 = 0"

lemma open_directory:
  assumes "directory env e ls d" and "carries d e"
  obtains s b e1 where "Engine_Open env (e_dir e) opts rnd durs d = Open_start env s b" and "ds_wals s = ls"
    and "open_tables (ds_ssts s) (b\<lparr>e_genCounter := ds_maxGen s\<rparr>) = (None, e1)" and "tables_open env opts e d e1"
proof -
  have T: "tables_inv env e" and nf: "no_faults d" using assms by (simp_all add: directory_def carries_def)
  let ?d1 = "d\<lparr>clock := clock d + 1\<rparr>"
  have dir: "directory env e ls ?d1" and nf1: "no_faults ?d1" using assms(1) nf by (simp_all add: directory_def)
  obtain s where s: "scanDir (e_dir e) ?d1 = (Inr s, ?d1\<lparr>clock := clock ?d1 + 1\<rparr>)" and scan: "scan_of e ls s"
    using scanDir_run [OF dir nf1] by blast
  have wals: "ds_wals s = ls" and ssts: "distinct (map sf_path (ds_ssts s))" "sf_path ` set (ds_ssts s) = table_paths e" and gen: "ds_maxGen s \<le> e_genCounter e"
    and lev: "\<forall>sf \<in> set (ds_ssts s). \<exists>l g. l < 2 ^ 63 \<and> sf = \<lparr>sf_path = sstFileName (e_dir e) l g, sf_level = int l, sf_gen = g\<rparr> \<and> g \<le> ds_maxGen s"
    using scan unfolding scan_of_def by blast+
  obtain b where b: "Engine_Open env (e_dir e) opts rnd durs d = Open_start env s b" "blank_like (e_dir e) (?d1\<lparr>clock := clock ?d1 + 1\<rparr>) b"
    "levels_config b = levels_config (configured opts)" using Engine_Open_scanned [OF nf s] by blast
  have sf: "same_files d (?d1\<lparr>clock := clock ?d1 + 1\<rparr>)" by (simp add: same_files_def)
  let ?b = "b\<lparr>e_genCounter := ds_maxGen s\<rparr>"
  obtain e1 vs where e1: "open_tables (ds_ssts s) ?b = (None, e1)" "set vs = set (table_versions env e)"
    "loaded env ?b vs (map (\<lambda>sf. (sf_path sf, sf_level sf)) (ds_ssts s)) e1" using open_listed [OF T assms(2) b(2) sf ssts lev] by blast
  note B = b(2) [unfolded blank_like_def]
  have L: "tables_inv env e1" "same_files (e_fs b) (e_fs e1)" "table_versions env e1 = vs"
    using e1(3) B by (simp_all add: loaded_def table_versions_def allTablesLocked_def)
  have eq1: "e1 = ?b\<lparr>e_heap := e_heap e1, e_tables := e_tables e1, e_fs := e_fs e1\<rparr>" using e1(3) by (simp add: loaded_def)
  have f: "e_mems e1 = []" "e_imm e1 = []" "e_flushCh e1 = []" "\<not> e_closed e1" "e_dir e1 = e_dir e" "e_genCounter e1 = ds_maxGen s" "e_seq e1 = 0"
    "levels_config e1 = levels_config (configured opts)" by (subst eq1, use B b(3) in \<open>simp add: levels_config_def\<close>)+
  have sf1: "same_files d (e_fs e1)" using same_files_trans [OF sf, of "e_fs e1"] L(2) B by simp
  then have "settled env e1" using L(1) assms(2) by (simp add: settled_def same_files_def carries_def)
  then have "tables_open env opts e d e1" using sf1 L(3) e1(2) f gen by (simp add: tables_open_def)
  with b(1) wals e1(1) show thesis by (rule that)
qed

lemma Open_start_ready:
  assumes "tables_open env opts e d e1" and "open_tables (ds_ssts s) (b\<lparr>e_genCounter := ds_maxGen s\<rparr>) = (None, e1)"
    and "recoverFromWALs env (ds_wals s) e1 = (None, e2)" and "settled env e2" and "e_genCounter e2 < unboundedSeq"
    and "e2 = e1\<lparr>e_heap := e_heap e2, e_tables := e_tables e2, e_genCounter := e_genCounter e2, e_fs := e_fs e2, e_seq := e_seq e2\<rparr>"
  shows "\<exists>e'. Open_start env s b = (Inr e', e_fs e') \<and> settled env e' \<and> ready opts (e_dir e) e' \<and> table_versions env e' = table_versions env e2 \<and> e_seq e' = e_seq e2"
proof -
  let ?p = "walFileName (e_dir e2) (e_genCounter e2 + 1)"
  obtain e' r where e': "Open_start env s b = (Inr e', e_fs e')" "settled env e'"
    and eq': "e' = e2\<lparr>e_genCounter := e_genCounter e2 + 1, e_fs := e_fs e', e_mems := e_mems e2 @ [MemTable_New r],
      e_wal := \<lparr>wal_w = bufio_NewWriter, wal_path = ?p\<rparr>, e_walPath := ?p, e_mem := length (e_mems e2)\<rparr>"
    using Open_start_run [OF assms(2-5) refl] by auto
  have f2: "e_mems e2 = []" "e_imm e2 = []" "e_flushCh e2 = []" "\<not> e_closed e2" "e_dir e2 = e_dir e" "levels_config e2 = levels_config (configured opts)"
    by (subst assms(6), use assms(1) in \<open>simp add: tables_open_def levels_config_def\<close>)+
  have "e_mems e' = [MemTable_New r]" "e_mem e' = 0" "e_imm e' = []" "e_flushCh e' = []" "\<not> e_closed e'" "e_dir e' = e_dir e" "e_seq e' = e_seq e2"
    "levels_config e' = levels_config (configured opts)" "table_versions env e' = table_versions env e2"
    by (subst eq', use f2 in \<open>simp add: levels_config_def table_versions_def allTablesLocked_def\<close>)+
  then show ?thesis using e' by (intro exI [of _ e']) (auto simp: ready_def)
qed

lemma unbounded_unat: "unat (unboundedSeq :: u64) = 2 ^ 64 - 1"
  by (simp add: unboundedSeq_def unsigned_minus_1_eq_mask mask_eq_exp_minus_1)

lemma reopen_run:
  assumes "calm env e" and "disk_inv e" and "fits (versions env e)" and "unat (e_genCounter e) + 2 < 2 ^ 64" and "mirrors d e"
  shows "\<exists>e' d' N. Engine_Open env (e_dir e) opts rnd durs d = (Inr e', d') \<and> reopened env opts e N e'"
proof -
  have C: "einv env e" using assms(1) by (auto simp: calm_def)
  have D: "logs_inv e" "owned e" using assms(2) by (auto simp: disk_inv_def)
  have dir: "directory env e (log_paths e) d" using owned_directory [OF C D] assms(5) by (simp add: directory_def mirrors_def)
  have car: "carries d e" using assms(5) by (simp add: mirrors_def carries_def)
  obtain s b e1 where o: "Engine_Open env (e_dir e) opts rnd durs d = Open_start env s b" "ds_wals s = log_paths e"
    "open_tables (ds_ssts s) (b\<lparr>e_genCounter := ds_maxGen s\<rparr>) = (None, e1)" and t: "tables_open env opts e d e1" by (rule open_directory [OF dir car])
  have S1: "settled env e1" "same_files d (e_fs e1)" "e_dir e1 = e_dir e" "e_genCounter e1 \<le> e_genCounter e" "set (table_versions env e1) = set (table_versions env e)"
    using t by (simp_all add: tables_open_def)
  have g: "e_genCounter e < unboundedSeq" using assms(4) unbounded_unat by (simp add: word_less_nat_alt)
  obtain e2 rs where e2: "recoverFromWALs env (log_paths e) e1 = (None, e2)" "recovered env e1 (log_paths e) rs e2"
    "set rs \<subseteq> mem_recs e" "dominated (mem_recs e) (set rs)" using reopen_recover [OF assms(1-3) g assms(5) S1(1-4)] by auto
  have R: "settled env e2" "table_versions env e2 = table_versions env e1 @ rs" "\<forall>r \<in> set rs. rec_seq r \<le> e_seq e2" using e2(2) by (auto simp: recovered_def)
  have eq2: "e2 = e1\<lparr>e_heap := e_heap e2, e_tables := e_tables e2, e_genCounter := e_genCounter e2, e_fs := e_fs e2, e_seq := e_seq e2\<rparr>"
    using e2(2) unfolding recovered_def by (elim conjE)
  have "unat (e_genCounter e2) \<le> unat (e_genCounter e1) + 1" using e2(2) unat_incr [of "e_genCounter e1"] by (auto simp: recovered_def)
  also have "\<dots> \<le> unat (e_genCounter e) + 1" using S1(4) by (simp add: word_le_nat_alt)
  finally have g2: "e_genCounter e2 < unboundedSeq" using assms(4) unbounded_unat by (simp add: word_less_nat_alt)
  obtain e' where e': "Open_start env s b = (Inr e', e_fs e')" "settled env e'" "ready opts (e_dir e) e'" "table_versions env e' = table_versions env e2" "e_seq e' = e_seq e2"
    using Open_start_ready [OF t o(3) _ R(1) g2 eq2] e2(1) o(2) by auto
  then have "reopened env opts e rs e'"
    unfolding reopened_def using e2(3,4) R(2,3) S1(5) by (simp add: ready_def)
  then show ?thesis using e'(1) o(1) by auto
qed

section \<open>The store after the restart\<close>

lemma mirrors_reboot:
  assumes "einv env e" and "logs_inv e"
  shows "mirrors (reboot back (\<lambda>_. Done) (e_fs e)) e"
proof -
  let ?d = "reboot back (\<lambda>_. Done) (e_fs e)"
  have same: "fs_get ?d p = fs_get (e_fs e) p" if "synced p b (e_fs e)" for p b
    using synced_reboot [OF that] that by (simp add: synced_def)
  have "fs_get ?d p = fs_get (e_fs e) p" if p: "p \<in> set (log_paths e)" for p
  proof -
    obtain m where "(p, m) \<in> set (mem_logs e)" using p by (auto simp: log_paths_def)
    then show ?thesis using assms(2) same by (auto simp: logs_inv_def logged_def)
  qed
  moreover have "fs_get ?d p = fs_get (e_fs e) p" if "p \<in> table_paths e" for p
    using that assms(1) same by (auto simp: table_paths_def einv_def tables_inv_def table_held_def table_file_def table_at_def)
  moreover have "no_faults ?d" "unreadable ?d = unreadable (e_fs e)" by (simp_all add: no_faults_def reboot_def)
  moreover have "fs_get ?d p = None \<longleftrightarrow> fs_get (e_fs e) p = None" for p by (simp add: fs_get_reboot)
  ultimately show ?thesis using assms(1) by (auto simp: mirrors_def einv_def)
qed

lemma ready_versions: "ready opts dir e \<Longrightarrow> versions env e = table_versions env e"
  by (auto simp: ready_def versions_def mem_versions_def imm_versions_def)

lemma ready_serving:
  assumes "settled env e" and "ready opts dir e" and "coherent (set (table_versions env e))"
  shows "serving env e"
  using assms ready_versions [OF assms(2)] table_held_ok
  unfolding serving_def mems_ok_def tables_ok_def refs_ok_def settled_def tables_inv_def ready_def by auto

lemma reopened_store:
  assumes "einv env e" and "reopened env opts e N e'"
  shows "serving env e'" and "store env e' = store env e"
proof -
  have S: "settled env e'" "ready opts (e_dir e) e'"
    and N: "set N \<subseteq> mem_recs e" "dominated (mem_recs e) (set N)" "set (table_versions env e') = set (table_versions env e) \<union> set N"
    using assms(2) by (auto simp: reopened_def)
  have v: "set (versions env e') = set (table_versions env e) \<union> set N" using N(3) ready_versions [OF S(2)] by simp
  have w: "set (versions env e) = set (table_versions env e) \<union> mem_recs e" by (auto simp: versions_def mem_recs_def)
  have sub: "set (versions env e') \<subseteq> set (versions env e)" using v w N(1) by blast
  have coh: "coherent (set (versions env e))" using assms(1) by (simp add: einv_def seqs_inv_def)
  then have "coherent (set (table_versions env e'))" using sub ready_versions [OF S(2), of env] by (auto simp: coherent_def)
  then show "serving env e'" by (rule ready_serving [OF S])
  have "dominated (set (versions env e)) (set (versions env e'))" unfolding v w using N(2) unfolding dominated_def by blast
  moreover have "rec_seq ` set (versions env e) \<subseteq> {..unboundedSeq}" using unbounded_max by auto
  ultimately show "store env e' = store env e" using dominated_reads [OF coh sub] by (simp add: store_def [abs_def] fun_eq_iff)
qed

lemma Get_serving:
  assumes "serving env e" and "key \<noteq> []"
  shows "fst (Get env key e) = answer (store env e key)"
  using getAt_serving [OF assms, of unboundedSeq] by (simp add: Get_def store_def)

lemma Engine_Open_empty_disk:
  assumes "no_faults d" and "\<forall>p i. \<not> unreadable d p i" and "env_ok env" and "dir_names dir d = []"
    and "Engine_Open env dir opts rnd durs d = (Inr e, d')"
  shows "disk_inv e" and "e_dir e = dir" and "e_heap e = []"
proof -
  let ?s = "\<lparr>ds_wals = [], ds_ssts = [], ds_maxGen = 0\<rparr>" and ?d1 = "d\<lparr>clock := clock d + 1\<rparr>" and ?p = "walFileName dir 1"
  have "scanDir dir ?d1 = (Inr ?s, ?d1\<lparr>clock := clock ?d1 + 1\<rparr>)" by (rule scanDir_empty) (use assms(1,4) in simp_all)
  from Engine_Open_scanned [OF assms(1) this] obtain b where b: "Engine_Open env dir opts rnd durs d = Open_start env ?s b"
    "blank_like dir (?d1\<lparr>clock := clock ?d1 + 1\<rparr>) b" by blast
  note B = b(2) [unfolded blank_like_def]
  let ?b = "b\<lparr>e_genCounter := 0\<rparr>"
  have S: "settled env ?b" using B assms(1-3) by (simp add: settled_def tables_inv_def allTablesLocked_def)
  have none: "fs_get (e_fs ?b) q = None" if "relevant dir q" for q
    using that assms(4) B dir_names_iff [of _ dir d] by (auto simp: relevant_def)
  have "0 < (unboundedSeq :: u64)" by (simp add: unboundedSeq_def word_gt_0)
  then obtain r where e: "synced ?p [] (e_fs e)" "frame ?p (e_fs ?b) (e_fs e)"
    "e = ?b\<lparr>e_genCounter := 1, e_fs := e_fs e, e_mems := [MemTable_New r], e_wal := \<lparr>wal_w = bufio_NewWriter, wal_path = ?p\<rparr>, e_walPath := ?p, e_mem := 0\<rparr>"
    using Open_start_run [of ?s b ?b env ?b ?p] S B b(1) assms(5) none [OF wal_relevant] by (auto simp: recoverFromWALs_def)
  have f: "e_dir e = dir" "e_imm e = []" "e_flushCh e = []" "e_tables e = []" "e_mems e = [MemTable_New r]" "e_walPath e = ?p" "e_mem e = 0" "e_genCounter e = 1" "e_heap e = []"
    by (subst e(3), use B in simp)+
  show "e_dir e = dir" "e_heap e = []" by (rule f)+
  have "logged (e_fs e) ?p (MemTable_New r)"
    unfolding logged_def using e(1) by (intro exI [of _ "[]"]) (simp add: MemTable_Get_New fun_eq_iff)
  moreover have "numbered e" using f unfolding numbered_def log_paths_def mem_logs_def by (intro exI [of _ "[1]"]) simp
  ultimately have "logs_inv e" using f by (simp add: logs_inv_def mem_logs_def)
  moreover have "owned e" using none e(2) f by (auto simp: owned_def log_paths_def mem_logs_def frame_def)
  ultimately show "disk_inv e" using f by (simp add: disk_inv_def own_tables_def)
qed

text \<open>A short history of the demonstration store\<close>

lemma demo_history:
  obtains e0 d' e where "Engine_Open demo_env ''db'' demo_opts (\<lambda>_ _. 0) (\<lambda>_. 0) demo_fs = (Inr e0, d')"
    and "history demo_env (\<lambda>_. small_op) e0 [DoPut [1] [7], DoFlush, DoPut [2] [8], DoDelete [2]] e"
proof -
  obtain e0 d' where o: "Engine_Open demo_env ''db'' demo_opts (\<lambda>_ _. 0) (\<lambda>_. 0) demo_fs = (Inr e0, d')" by (rule demo_open) blast
  obtain r1 e1 where s1: "Put [1] [7] e0 = (r1, e1)" by fastforce
  obtain r3 e3 where s3: "Put [2] [8] (flushWorker_turn demo_env e1) = (r3, e3)" by fastforce
  obtain r4 e4 where s4: "Delete [2] e3 = (r4, e4)" by fastforce
  have k: "key_val_ok [1] [7]" "key_val_ok [2] [8]" "key_val_ok [2] []" by (simp_all add: key_val_ok_def)
  have small: "small_op (DoPut [1] [7])" "small_op DoFlush" "small_op (DoPut [2] [8])" "small_op (DoDelete [2])" by (simp_all add: small_op_def maxReasonableLen_def)
  note step = history.more [where G = "\<lambda>_. small_op"]
  show thesis
    by (rule that [OF o step [OF small(1) engine_step.put [OF k(1) s1] step [OF small(2) engine_step.flush
            step [OF small(3) engine_step.put [OF k(2) s3] step [OF small(4) engine_step.delete [OF k(3) s4] history.start]]]]])
qed

lemma demo_setup:
  "\<forall>p i. \<not> unreadable demo_fs p i" "dir_names ''db'' demo_fs = []" "2 \<le> e_maxLevels (configured demo_opts)" "e_maxLevels (configured demo_opts) < 2 ^ 63"
  "1 \<le> e_l0CompactionTrigger (configured demo_opts)"
  by (simp_all add: dir_names_def demo_fs_def configured_def demo_opts_def blank_engine_def defaultMaxLevels_def)

section \<open>Properties\<close>

text \<open>
  C2: Crash recovery. Open an empty directory, run any sequence of puts, deletes, reads, snapshots,
  flushes and compaction passes with keys and values of at most 512 MiB, and cut the power between
  two of them: on a file system that keeps the names of the directory, which the program does not
  sync, the next Open of the directory succeeds, whatever the machine had written back of unsynced
  data, and every read returns what the last acknowledged put or delete of the key left.
\<close>

theorem crash_recovery:
  assumes "env_ok env" and "no_faults d" and "\<forall>p i. \<not> unreadable d p i" and "dir_names dir d = []"
    and "2 \<le> e_maxLevels (configured opts)" and "e_maxLevels (configured opts) < 2 ^ 63" and "1 \<le> e_l0CompactionTrigger (configured opts)"
    and "Engine_Open env dir opts rnd durs d = (Inr e0, d')" and "history env (\<lambda>_. small_op) e0 ops e"
    and "length ops < 2 ^ 27" and "sum_list (map rec_weight (concat (map (op_records 0) ops))) < 2 ^ 47"
    and "names_kept lost stale (e_fs e)"
  shows "\<exists>e' d2. Engine_Open env dir opts' rnd' durs' (power_cut lost stale back (\<lambda>_. Done) (e_fs e)) = (Inr e', d2) \<and>
    (\<forall>key. key \<noteq> [] \<longrightarrow> fst (Get env key e') = answer (foldl map_step Map.empty ops key))"
proof -
  have c: "calm env e0" and v: "versions env e0 = []" and n: "e_seq e0 = 0" "e_genCounter e0 = 1"
    using Engine_Open_empty [OF assms(2,3,1,4-7)] assms(8) by (metis Inr_inject Pair_inject)+
  note D0 = Engine_Open_empty_disk [OF assms(2,3,1,4,8)]
  have room: "room_for env (ops @ [DoFlush, DoFlush]) e0" "room_for env ops e0" using assms(10,11) by (simp_all add: room_for_def v n)
  have "store env e0 = Map.empty" by (simp add: store_def [abs_def] v reads_def value_of_def)
  with history_refines [OF assms(9) c room(2)] have e: "calm env e" "store env e = foldl map_step Map.empty ops" by simp_all
  have D: "disk_inv e" "e_dir e = dir" "room_for env [DoFlush, DoFlush] e" using history_disk [OF assms(9) c room(1) D0(1)] D0(2) by auto
  have E: "einv env e" "logs_inv e" using e(1) D(1) by (auto simp: calm_def disk_inv_def)
  have "fits (versions env e)" using room_for_roomy [OF D(3)] by (simp add: roomy_def)
  moreover have "unat (e_genCounter e) + 2 < 2 ^ 64" using D(3) by (simp add: room_for_def)
  ultimately obtain e' d2 N where r: "Engine_Open env dir opts' rnd' durs' (reboot back (\<lambda>_. Done) (e_fs e)) = (Inr e', d2)" "reopened env opts' e N e'"
    using reopen_run [OF e(1) D(1) _ _ mirrors_reboot [OF E]] unfolding D(2) by blast
  note S = reopened_store [OF E(1) r(2)]
  show ?thesis using r(1) Get_serving [OF S(1)] S(2) e(2) by (intro exI [of _ e'] exI [of _ d2]) (simp add: power_cut_names_kept [OF assms(12)])
qed

theorem crash_recovery_witness:
  "\<exists>e0 d' e e' d2. Engine_Open demo_env ''db'' demo_opts (\<lambda>_ _. 0) (\<lambda>_. 0) demo_fs = (Inr e0, d') \<and>
     history demo_env (\<lambda>_. small_op) e0 [DoPut [1] [7], DoFlush, DoPut [2] [8], DoDelete [2]] e \<and>
     Engine_Open demo_env ''db'' demo_opts (\<lambda>_ _. 1) (\<lambda>_. 5) (power_cut (\<lambda>_. False) [] (\<lambda>_. 0) (\<lambda>_. Done) (e_fs e)) = (Inr e', d2) \<and>
     fst (Get demo_env [1] e') = Inr [7] \<and> fst (Get demo_env [2] e') = Inl ErrNotFound"
proof -
  obtain e0 d' e4 where o: "Engine_Open demo_env ''db'' demo_opts (\<lambda>_ _. 0) (\<lambda>_. 0) demo_fs = (Inr e0, d')"
    and h: "history demo_env (\<lambda>_. small_op) e0 [DoPut [1] [7], DoFlush, DoPut [2] [8], DoDelete [2]] e4" by (rule demo_history)
  let ?ops = "[DoPut [1] [7], DoFlush, DoPut [2] [8], DoDelete [2]]"
  have "\<exists>e' d2. Engine_Open demo_env ''db'' demo_opts (\<lambda>_ _. 1) (\<lambda>_. 5) (power_cut (\<lambda>_. False) [] (\<lambda>_. 0) (\<lambda>_. Done) (e_fs e4)) = (Inr e', d2) \<and>
    (\<forall>key. key \<noteq> [] \<longrightarrow> fst (Get demo_env key e') = answer (foldl map_step Map.empty ?ops key))"
    by (rule crash_recovery [OF demo_env_ok demo_fs_no_faults demo_setup o h]) (simp_all add: rec_weight_def new_version_def names_kept_def)
  then obtain e' d2 where r: "Engine_Open demo_env ''db'' demo_opts (\<lambda>_ _. 1) (\<lambda>_. 5) (power_cut (\<lambda>_. False) [] (\<lambda>_. 0) (\<lambda>_. Done) (e_fs e4)) = (Inr e', d2)"
    "\<And>key. key \<noteq> [] \<Longrightarrow> fst (Get demo_env key e') = answer (foldl map_step Map.empty ?ops key)" by blast
  have "fst (Get demo_env [1] e') = Inr [7]" "fst (Get demo_env [2] e') = Inl ErrNotFound" using r(2) [of "[1]"] r(2) [of "[2]"] by (simp_all add: answer_def)
  then show ?thesis by (intro exI conjI) (rule o h r(1) | assumption)+
qed

end
