(* ===== verification/Overlap.thy ===== *)
theory Overlap
  imports Restart
begin

text \<open>
  Reads that overlap other steps. \<^verbatim>\<open>getAt\<close> of \<^verbatim>\<open>src/engine/engine.go\<close> gives up the lock after it has
  copied the list of MemTables and acquired every table: puts, deletes, rotations, flushes,
  compaction passes and other reads may come between that and the lookups. Any number of reads
  can be under way. Of what a reader looks at only one MemTable can still change, and it looks the key up there once,
  so its lookups and the release of its tables are one step.
\<close>

section \<open>Definitions\<close>

type_synonym readers = "(nat \<times> reader) list"

datatype overlap_op = Run engine_op | Begin nat | Finish nat bytes "error + bytes"

inductive overlap_step :: "env \<Rightarrow> Engine \<times> readers \<Rightarrow> overlap_op \<Rightarrow> Engine \<times> readers \<Rightarrow> bool" for env where
  run: "engine_step env e oper e' \<Longrightarrow> overlap_step env (e, R) (Run oper) (e', R)"
| begin_read: "i \<notin> fst ` set R \<Longrightarrow> getAt_begin e = (Inr rd, e') \<Longrightarrow> overlap_step env (e, R) (Begin i) (e', (i, rd) # R)"
| finish_read: "map_of R i = Some rd \<Longrightarrow> r = getAt_read env rd key unboundedSeq e \<Longrightarrow>
    overlap_step env (e, R) (Finish i key r) (recordGet r (releaseAll (rd_tables rd) e), AList.delete i R)"

inductive_cases run_stepE: "overlap_step env s (Run oper) s'"
inductive_cases begin_stepE: "overlap_step env s (Begin i) s'"
inductive_cases finish_stepE: "overlap_step env s (Finish i key r) s'"

inductive overlaps :: "env \<Rightarrow> Engine \<times> readers \<Rightarrow> overlap_op list \<Rightarrow> Engine \<times> readers \<Rightarrow> bool" for env where
  start: "overlaps env s [] s"
| more: "overlap_step env s oper s1 \<Longrightarrow> overlaps env s1 ops s' \<Longrightarrow> overlaps env s (oper # ops) s'"

fun engine_ops :: "overlap_op list \<Rightarrow> engine_op list" where
  "engine_ops [] = []"
| "engine_ops (Run oper # ops) = oper # engine_ops ops"
| "engine_ops (x # ops) = engine_ops ops"

text \<open>A read that nothing overlaps is \<^verbatim>\<open>Get\<close>.\<close>

lemma Get_is_begin_finish:
  assumes "key \<noteq> []" and "overlap_step env (e, R) (Begin i) s" and "overlap_step env s (Finish i key r) (e', R')"
  shows "Get env key e = (r, e')"
  using assms(2)
proof (rule begin_stepE)
  fix e0 R0 rd e1
  assume b: "(e, R) = (e0, R0)" "s = (e1, (i, rd) # R0)" "i \<notin> fst ` set R0" "getAt_begin e0 = (Inr rd, e1)"
  have "r = getAt_read env rd key unboundedSeq e1" "e' = recordGet r (releaseAll (rd_tables rd) e1)"
    using assms(3) unfolding b(2) by (auto elim!: finish_stepE)
  then show ?thesis using b(1,4) assms(1) by (simp add: Get_def getAt_def)
qed

section \<open>References\<close>

text \<open>Who holds a table: the list of tables and the readers under way.\<close>

definition holders :: "Engine \<Rightarrow> readers \<Rightarrow> nat \<Rightarrow> int" where
  "holders e R p = (if p \<in> set (allTablesLocked e) then 1 else 0) + int (length (filter (\<lambda>(i, rd). p \<in> set (rd_tables rd)) R))"

definition counted :: "env \<Rightarrow> Engine \<Rightarrow> readers \<Rightarrow> nat \<Rightarrow> bool" where
  "counted env e R p \<longleftrightarrow> tbl_refCount (e_heap e ! p) = holders e R p \<and> (tbl_released (e_heap e ! p) \<longleftrightarrow> holders e R p = 0) \<and>
     (0 < holders e R p \<longrightarrow> table_ok env (e_heap e ! p)) \<and> named e (tbl_path (e_heap e ! p))"

definition heap_inv :: "env \<Rightarrow> Engine \<Rightarrow> readers \<Rightarrow> bool" where
  "heap_inv env e R \<longleftrightarrow> (\<forall>p < length (e_heap e). counted env e R p) \<and> inj_on (\<lambda>p. tbl_path (e_heap e ! p)) {..<length (e_heap e)} \<and>
     (\<forall>(i, rd) \<in> set R. distinct (rd_tables rd) \<and> (\<forall>p \<in> set (rd_tables rd). p < length (e_heap e)))"

lemma holders_Cons: "holders e ((i, rd) # R) p = holders e R p + (if p \<in> set (rd_tables rd) then 1 else 0)"
  by (simp add: holders_def)

lemma holders_nonneg: "0 \<le> holders e R p"
  by (simp add: holders_def)

lemma holders_reader: "(i, rd) \<in> set R \<Longrightarrow> p \<in> set (rd_tables rd) \<Longrightarrow> 0 < holders e R p"
proof -
  assume "(i, rd) \<in> set R" "p \<in> set (rd_tables rd)"
  then have "(i, rd) \<in> set (filter (\<lambda>(i, rd). p \<in> set (rd_tables rd)) R)" by simp
  then have "0 < length (filter (\<lambda>(i, rd). p \<in> set (rd_tables rd)) R)" by (metis length_pos_if_in_set)
  then show ?thesis by (simp add: holders_def)
qed

lemma table_same_data:
  assumes "same_data t t'" and "\<not> tbl_released t" and "\<not> tbl_released t'"
  shows "table_recs env t' = table_recs env t" and "table_ok env t' = table_ok env t"
proof -
  have "table_ReadAt t' = table_ReadAt t" using assms by (intro ext) (simp add: table_ReadAt_def same_data_def)
  then have "readRecordAt env t' = readRecordAt env t" unfolding readRecordAt_def by (simp only:)
  then show r: "table_recs env t' = table_recs env t" using assms(1) by (simp add: table_recs_def same_data_def)
  have "same_data t' t" using assms(1) by (simp add: same_data_def)
  then show "table_ok env t' = table_ok env t"
    unfolding table_ok_def r using opened_same_data [OF _ assms(1)] opened_same_data [OF _ \<open>same_data t' t\<close>] assms(2,3) by blast
qed

text \<open>Giving up the reference to one table, by a reader or when a compaction retires it.\<close>

lemma heap_inv_release:
  assumes "heap_inv env e ((i, rd\<lparr>rd_tables := p # ps\<rparr>) # R)" and "same_data (e_heap e ! p) t" and "tbl_refCount t = tbl_refCount (e_heap e ! p) - 1"
    and "tbl_released t \<longleftrightarrow> tbl_released (e_heap e ! p) \<or> tbl_refCount (e_heap e ! p) \<le> 1" and "e' = e\<lparr>e_heap := (e_heap e)[p := t], e_fs := d\<rparr>"
  shows "heap_inv env e' ((i, rd\<lparr>rd_tables := ps\<rparr>) # R)"
proof -
  let ?R = "(i, rd\<lparr>rd_tables := p # ps\<rparr>) # R" and ?S = "(i, rd\<lparr>rd_tables := ps\<rparr>) # R"
  have H: "\<forall>q < length (e_heap e). counted env e ?R q" "inj_on (\<lambda>p. tbl_path (e_heap e ! p)) {..<length (e_heap e)}"
    and p: "p < length (e_heap e)" "p \<notin> set ps" using assms(1) by (auto simp: heap_inv_def)
  have fields: "allTablesLocked e' = allTablesLocked e" "e_heap e' = (e_heap e)[p := t]" "named e' = named e"
    by (simp_all add: assms(5) allTablesLocked_def named_def [abs_def])
  then have hold: "holders e' ?S q = holders e ?R q - (if q = p then 1 else 0)" for q using p(2) by (simp add: holders_def)
  have path: "tbl_path ((e_heap e)[p := t] ! q) = tbl_path (e_heap e ! q)" for q
    using assms(2) p(1) by (cases "q = p") (simp_all add: same_data_def)
  have "counted env e' ?S q" if q: "q < length (e_heap e)" for q
  proof (cases "q = p")
    case False
    then have "(e_heap e)[p := t] ! q = e_heap e ! q" by simp
    then show ?thesis using H(1) q False unfolding counted_def hold fields by simp
  next
    case True
    have c: "counted env e ?R p" using H(1) p(1) by blast
    have pos: "0 < holders e ?R p" by (rule holders_reader [of i "rd\<lparr>rd_tables := p # ps\<rparr>"]) simp_all
    then have opn: "\<not> tbl_released (e_heap e ! p)" using c by (simp add: counted_def)
    have "table_ok env t" if "\<not> tbl_released t" using table_same_data(2) [OF assms(2) opn that] c pos by (simp add: counted_def)
    then show ?thesis using c pos opn assms(3,4) p(1) path [of p] unfolding counted_def hold fields True by auto
  qed
  moreover have "inj_on (\<lambda>q. tbl_path (e_heap e' ! q)) {..<length (e_heap e')}" using H(2) path by (simp add: fields inj_on_def)
  moreover have "\<forall>(j, r) \<in> set ?S. distinct (rd_tables r) \<and> (\<forall>q \<in> set (rd_tables r). q < length (e_heap e'))"
    using assms(1) by (auto simp: heap_inv_def fields)
  ultimately show ?thesis by (simp add: heap_inv_def fields)
qed

lemma release_step:
  assumes "heap_inv env e ((i, rd\<lparr>rd_tables := p # ps\<rparr>) # R)"
  shows "heap_inv env (snd (release p e)) ((i, rd\<lparr>rd_tables := ps\<rparr>) # R)"
proof -
  obtain r t d where R: "Table_Release (e_heap e ! p) (e_fs e) = (r, t, d)" by (metis prod.exhaust)
  note K = Table_Release_keeps [OF R]
  show ?thesis by (rule heap_inv_release [OF assms K(1-3)]) (simp add: release_def R)
qed

lemma retire_step:
  assumes "heap_inv env e ((i, rd\<lparr>rd_tables := p # ps\<rparr>) # R)"
  shows "heap_inv env (retire p e) ((i, rd\<lparr>rd_tables := ps\<rparr>) # R)"
proof -
  obtain r t d where R: "Table_Release ((e_heap e ! p)\<lparr>tbl_removeOnZero := True\<rparr>) (e_fs e) = (r, t, d)" by (metis prod.exhaust)
  note K = Table_Release_keeps [OF R]
  show ?thesis by (rule heap_inv_release [OF assms, of t]) (use K in \<open>simp_all add: retire_def Table_Retire_def R same_data_def\<close>)
qed

lemma heap_inv_idle: "heap_inv env e ((i, rd\<lparr>rd_tables := []\<rparr>) # R) = heap_inv env e R"
  by (simp add: heap_inv_def counted_def holders_Cons)

lemma retire_all_step:
  assumes "heap_inv env e ((i, rd\<lparr>rd_tables := ps\<rparr>) # R)"
  shows "heap_inv env (foldl (\<lambda>e p. retire p e) e ps) R"
  using assms
proof (induction ps arbitrary: e)
  case Nil
  then show ?case by (simp add: heap_inv_idle)
next
  case (Cons p ps)
  from Cons.IH [OF retire_step [OF Cons.prems]] show ?case by simp
qed

text \<open>The data of a table never change.\<close>

definition same_tables :: "Engine \<Rightarrow> Engine \<Rightarrow> bool" where
  "same_tables e e' \<longleftrightarrow> length (e_heap e) \<le> length (e_heap e') \<and> (\<forall>p < length (e_heap e). same_data (e_heap e ! p) (e_heap e' ! p))"

lemma same_tables_refl: "e_heap e' = e_heap e \<Longrightarrow> same_tables e e'"
  by (simp add: same_tables_def same_data_def)

lemma same_tables_trans: "same_tables a b \<Longrightarrow> same_tables b c \<Longrightarrow> same_tables a c"
  using same_data_trans by (fastforce simp: same_tables_def)

lemma same_tables_update:
  assumes "same_data (e_heap e ! p) t"
  shows "same_tables e (e\<lparr>e_heap := (e_heap e)[p := t], e_fs := d\<rparr>)"
proof -
  have "same_data (e_heap e ! q) ((e_heap e)[p := t] ! q)" if "q < length (e_heap e)" for q
    using assms that by (cases "q = p") (simp_all add: same_data_def)
  then show ?thesis by (simp add: same_tables_def)
qed

lemma release_same_tables: "same_tables e (snd (release p e))"
proof -
  obtain r t d where R: "Table_Release (e_heap e ! p) (e_fs e) = (r, t, d)" by (metis prod.exhaust)
  show ?thesis using same_tables_update [OF Table_Release_keeps(1) [OF R]] by (simp add: release_def R)
qed

lemma retire_same_tables: "same_tables e (retire p e)"
proof -
  obtain r t d where R: "Table_Release ((e_heap e ! p)\<lparr>tbl_removeOnZero := True\<rparr>) (e_fs e) = (r, t, d)" by (metis prod.exhaust)
  have "same_data (e_heap e ! p) t" using Table_Release_keeps(1) [OF R] by (simp add: same_data_def)
  from same_tables_update [OF this] show ?thesis by (simp add: retire_def Table_Retire_def R)
qed

lemma retire_all_same_tables: "same_tables e (foldl (\<lambda>e p. retire p e) e ps)"
proof (induction ps arbitrary: e)
  case (Cons p ps)
  from same_tables_trans [OF retire_same_tables Cons.IH] show ?case by simp
qed (simp add: same_tables_refl)

lemma releaseAll_same_tables: "same_tables e (releaseAll ps e)"
  unfolding releaseAll_def
proof (induction ps arbitrary: e)
  case (Cons p ps)
  from same_tables_trans [OF release_same_tables Cons.IH] show ?case by simp
qed (simp add: same_tables_refl)

section \<open>The invariant of the store\<close>

text \<open>Only the reference counts of tables change, and the list keeps its reference.\<close>

lemma calm_refs:
  assumes "calm env e" and "length h = length (e_heap e)" and "\<forall>p < length h. h ! p = (e_heap e ! p)\<lparr>tbl_refCount := n p\<rparr>"
    and "\<forall>p \<in> set (allTablesLocked e). 1 \<le> n p"
  shows "calm env (e\<lparr>e_heap := h\<rparr>)" and "versions env (e\<lparr>e_heap := h\<rparr>) = versions env e"
proof -
  let ?e = "e\<lparr>e_heap := h\<rparr>"
  have ids: "allTablesLocked ?e = allTablesLocked e" by (simp add: allTablesLocked_def)
  have C: "einv env e" "age_inv env e" "no_faults (e_fs e)" "wal_ready e" "queue_wals e" using assms(1) by (auto simp: calm_def)
  have lt: "p < length h" if "p \<in> set (allTablesLocked e)" for p using C(1) that assms(2) by (auto simp: einv_def tables_inv_def)
  have nth: "h ! p = (e_heap e ! p)\<lparr>tbl_refCount := n p\<rparr>" if "p \<in> set (allTablesLocked e)" for p using assms(3) lt [OF that] by blast
  have tv: "table_versions env ?e = table_versions env e" unfolding table_versions_def ids using nth by (simp cong: map_cong)
  have mv: "mem_versions ?e = mem_versions e" "imm_versions ?e = imm_versions e" by (simp_all add: mem_versions_def imm_versions_def)
  show V: "versions env ?e = versions env e" by (simp add: versions_def tv mv)
  have held: "table_held env (e_fs e) (h ! p)" if p: "p \<in> set (allTablesLocked e)" for p
  proof -
    have "table_held env (e_fs e) (e_heap e ! p)" using C(1) p by (simp add: einv_def tables_inv_def)
    then show ?thesis unfolding nth [OF p] using assms(4) p by (auto simp: table_held_def opened_def)
  qed
  have "inj_on (\<lambda>p. tbl_path (h ! p)) (set (allTablesLocked e))"
    using C(1) nth by (simp add: einv_def tables_inv_def inj_on_def)
  moreover have "named ?e (tbl_path (h ! p))" if "p \<in> set (allTablesLocked e)" for p
    using C(1) that nth [OF that] by (simp add: einv_def tables_inv_def named_def)
  ultimately have "tables_inv env ?e" using C(1) held lt unfolding tables_inv_def ids by (simp add: einv_def tables_inv_def)
  then have E: "einv env ?e" using C(1) V by (simp add: einv_def seqs_inv_def) (simp add: mems_inv_def wals_inv_def wal_named_def)
  have "trecs env ?e (lt_table lt) = trecs env e (lt_table lt)" if "lt \<in> set (e_tables e)" for lt
    using nth [of "lt_table lt"] that by (simp add: trecs_def allTablesLocked_def)
  then have "levels_ordered env ?e = levels_ordered env e" unfolding levels_ordered_def by simp
  moreover have "irecs ?e = irecs e" by (simp add: irecs_def [abs_def])
  ultimately have "age_inv env ?e" using C(2) by (simp add: age_inv_def mems_ordered_def tv mv queue_inv_def levels_bounded_def)
  then show "calm env ?e" using E C(3-5) by (simp add: calm_def wal_ready_def queue_wals_def gen_wal_def)
qed

text \<open>Giving up a table that is not listed any more may remove its file, which no listed table has.\<close>

lemma release_retired: "p < length (e_heap e) \<Longrightarrow> retired e (snd (release p e)) [p]"
proof -
  assume p: "p < length (e_heap e)"
  obtain r t d where R: "Table_Release (e_heap e ! p) (e_fs e) = (r, t, d)" by (metis prod.exhaust)
  note K = Table_Release_keeps [OF R]
  have "snd (release p e) = e\<lparr>e_heap := (e_heap e)[p := t], e_fs := d\<rparr>" using R by (simp add: release_def)
  moreover have "tbl_path t = tbl_path (e_heap e ! p)" using K(1) by (simp add: same_data_def)
  ultimately show ?thesis
    using p K(5) Release_no_faults [OF R]
    by (auto simp: retired_def frame_def nth_list_update intro!: exI [of _ "(e_heap e)[p := t]"] exI [of _ d])
qed

lemma release_calm:
  assumes "calm env e" and "heap_inv env e ((i, rd\<lparr>rd_tables := p # ps\<rparr>) # R)" and "e' = snd (release p e)"
  shows "calm env e'" and "versions env e' = versions env e"
proof -
  have p: "p < length (e_heap e)" and cnt: "counted env e ((i, rd\<lparr>rd_tables := p # ps\<rparr>) # R) p"
    and inj: "inj_on (\<lambda>p. tbl_path (e_heap e ! p)) {..<length (e_heap e)}" using assms(2) by (auto simp: heap_inv_def)
  have C: "einv env e" "age_inv env e" "no_faults (e_fs e)" "wal_ready e" "queue_wals e" using assms(1) by (auto simp: calm_def)
  have ids: "q < length (e_heap e)" if "q \<in> set (allTablesLocked e)" for q using C(1) that by (auto simp: einv_def tables_inv_def)
  have "calm env e' \<and> versions env e' = versions env e"
  proof (cases "p \<in> set (allTablesLocked e)")
    case True
    then have two: "2 \<le> tbl_refCount (e_heap e ! p)" using cnt holders_nonneg [of "e\<lparr>e_tables := []\<rparr>" R p]
      by (simp add: counted_def holders_def)
    let ?n = "\<lambda>q. if q = p then tbl_refCount (e_heap e ! p) - 1 else tbl_refCount (e_heap e ! q)"
    let ?h = "(e_heap e)[p := (e_heap e ! p)\<lparr>tbl_refCount := tbl_refCount (e_heap e ! p) - 1\<rparr>]"
    have e': "e' = e\<lparr>e_heap := ?h\<rparr>" using two unfolding assms(3) release_def Table_Release_def by (simp add: Let_def)
    have nth: "\<forall>q < length ?h. ?h ! q = (e_heap e ! q)\<lparr>tbl_refCount := ?n q\<rparr>" by (simp add: nth_list_update)
    have ge: "\<forall>q \<in> set (allTablesLocked e). 1 \<le> ?n q"
    proof
      fix q
      assume "q \<in> set (allTablesLocked e)"
      then have "table_held env (e_fs e) (e_heap e ! q)" using C(1) by (simp add: einv_def tables_inv_def)
      then show "1 \<le> ?n q" using two by (simp add: table_held_def)
    qed
    have len: "length ?h = length (e_heap e)" by simp
    note K = calm_refs [where n = ?n, OF assms(1) len nth ge]
    show ?thesis using conjI [OF K] unfolding e' .
  next
    case False
    have ret: "retired e e' [p]" unfolding assms(3) by (rule release_retired [OF p])
    have "tbl_path (e_heap e ! p) \<notin> table_paths e"
    proof
      assume "tbl_path (e_heap e ! p) \<in> table_paths e"
      then obtain q where q: "q \<in> set (allTablesLocked e)" "tbl_path (e_heap e ! p) = tbl_path (e_heap e ! q)" unfolding table_paths_def by blast
      from inj_onD [OF inj q(2)] p ids [OF q(1)] have "p = q" by simp
      with q(1) False show False by simp
    qed
    then have I: "einv env e'" "versions env e' = versions env e" "age_inv env e' = age_inv env e"
      using retired_inv [OF ret C(1)] False by auto
    have "\<exists>dir l g. tbl_path (e_heap e ! p) = sstFileName dir l g" using cnt by (auto simp: counted_def named_def)
    then have W: "keeps_wals (e_fs e) (e_fs e')" using retired_wals [OF ret] by simp
    obtain h d where e': "e' = e\<lparr>e_heap := h, e_fs := d\<rparr>" "no_faults d" using ret C(3) by (auto elim: retiredE)
    have "fs_get (e_fs e') (e_walPath e) \<noteq> None" using wal_ready_keeps [OF C(4) W] C(5) by (simp add: queue_wals_def)
    then show ?thesis using I C(2,4,5) e' by (auto simp: calm_def wal_ready_def queue_wals_def gen_wal_def)
  qed
  then show "calm env e'" "versions env e' = versions env e" by blast+
qed

lemma releaseAll_run:
  assumes "calm env e" and "heap_inv env e ((i, rd) # R)" and "e' = releaseAll (rd_tables rd) e"
  shows "calm env e' \<and> versions env e' = versions env e \<and> heap_inv env e' R \<and> (\<exists>h d. e' = e\<lparr>e_heap := h, e_fs := d\<rparr>)"
proof -
  have "calm env (foldl (\<lambda>e p. snd (release p e)) e ps) \<and> versions env (foldl (\<lambda>e p. snd (release p e)) e ps) = versions env e \<and>
      heap_inv env (foldl (\<lambda>e p. snd (release p e)) e ps) R \<and> (\<exists>h d. foldl (\<lambda>e p. snd (release p e)) e ps = e\<lparr>e_heap := h, e_fs := d\<rparr>)"
    if "calm env e" "heap_inv env e ((i, rd\<lparr>rd_tables := ps\<rparr>) # R)" for ps e
    using that
  proof (induction ps arbitrary: e)
    case Nil
    then show ?case by (auto simp: heap_inv_idle intro!: exI [of _ "e_heap e"] exI [of _ "e_fs e"])
  next
    case (Cons p ps)
    note C = release_calm [OF Cons.prems refl]
    note I = Cons.IH [OF C(1) release_step [OF Cons.prems(2)]]
    obtain x t d where R: "Table_Release (e_heap e ! p) (e_fs e) = (x, t, d)" by (metis prod.exhaust)
    then have r: "snd (release p e) = e\<lparr>e_heap := (e_heap e)[p := t], e_fs := d\<rparr>" by (simp add: release_def)
    obtain h' d' where "foldl (\<lambda>e p. snd (release p e)) (snd (release p e)) ps = (snd (release p e))\<lparr>e_heap := h', e_fs := d'\<rparr>" using I by blast
    then have "foldl (\<lambda>e p. snd (release p e)) e (p # ps) = e\<lparr>e_heap := h', e_fs := d'\<rparr>" using r by simp
    then have "\<exists>h d. foldl (\<lambda>e p. snd (release p e)) e (p # ps) = e\<lparr>e_heap := h, e_fs := d\<rparr>" by blast
    then show ?case using I C(2) by simp
  qed
  from this [of e "rd_tables rd"] assms show ?thesis by (simp add: releaseAll_def)
qed

section \<open>Steps and references\<close>

lemma heap_inv_cong:
  assumes "heap_inv env e R" and "e_heap e' = e_heap e" and "e_tables e' = e_tables e" and "e_dir e' = e_dir e" and "e_genCounter e \<le> e_genCounter e'"
  shows "heap_inv env e' R"
proof -
  have "allTablesLocked e' = allTablesLocked e" using assms(3) by (simp add: allTablesLocked_def)
  then have "holders e' R = holders e R" by (simp add: holders_def [abs_def])
  moreover have "named e' q" if "named e q" for q using that assms(4,5) by (auto simp: named_def intro: order_trans)
  ultimately show ?thesis using assms(1,2) by (auto simp: heap_inv_def counted_def)
qed

lemma begin_run:
  assumes "calm env e" and "heap_inv env e R" and "getAt_begin e = (Inr rd, e')"
  shows "calm env e'" and "versions env e' = versions env e" and "heap_inv env e' ((i, rd) # R)" and "same_tables e e'"
    and "rd = \<lparr>rd_mt = e_mem e, rd_imm = e_imm e, rd_tables = allTablesLocked e\<rparr>" and "\<exists>h. e' = e\<lparr>e_heap := h\<rparr>"
proof -
  let ?ps = "allTablesLocked e" and ?n = "\<lambda>p. tbl_refCount (e_heap e ! p) + (if p \<in> set (allTablesLocked e) then 1 else 0)"
  let ?h = "foldl (\<lambda>h p. acquire p h) (e_heap e) ?ps"
  have rd: "rd = \<lparr>rd_mt = e_mem e, rd_imm = e_imm e, rd_tables = ?ps\<rparr>" and e': "e' = e\<lparr>e_heap := ?h\<rparr>"
    using assms(3) by (auto simp: getAt_begin_def Let_def split: if_splits)
  have E: "einv env e" using assms(1) by (simp add: calm_def)
  then have held: "distinct ?ps" "\<forall>p \<in> set ?ps. p < length (e_heap e) \<and> \<not> tbl_released (e_heap e ! p) \<and> 1 \<le> tbl_refCount (e_heap e ! p)"
    using einv_serving [OF E] by (auto simp: serving_def refs_ok_def)
  have A: "length ?h = length (e_heap e)" "\<forall>p. ?h ! p = (if p \<in> set ?ps then (e_heap e ! p)\<lparr>tbl_refCount := tbl_refCount (e_heap e ! p) + 1\<rparr> else e_heap e ! p)"
    using acquire_all [OF held(1), of "e_heap e"] held(2) by blast+
  then have nth: "\<forall>p < length ?h. ?h ! p = (e_heap e ! p)\<lparr>tbl_refCount := ?n p\<rparr>" by simp
  have ge: "\<forall>p \<in> set ?ps. 1 \<le> ?n p" using held(2) by fastforce
  note K = calm_refs [where n = ?n, OF assms(1) A(1) nth ge]
  show "calm env e'" "versions env e' = versions env e" unfolding e' using K by simp_all
  show "rd = \<lparr>rd_mt = e_mem e, rd_imm = e_imm e, rd_tables = ?ps\<rparr>" by (rule rd)
  show "\<exists>h. e' = e\<lparr>e_heap := h\<rparr>" using e' by blast
  show "same_tables e e'" using A nth by (simp add: same_tables_def same_data_def e')
  have ids: "allTablesLocked e' = ?ps" "named e' = named e" by (simp_all add: e' allTablesLocked_def named_def [abs_def])
  have hold: "holders e' ((i, rd) # R) p = holders e R p + (if p \<in> set ?ps then 1 else 0)" for p
    unfolding holders_Cons by (simp add: holders_def ids rd)
  have "counted env e' ((i, rd) # R) p" if p: "p < length (e_heap e)" for p
  proof -
    have c: "counted env e R p" using assms(2) p by (simp add: heap_inv_def)
    have "0 < holders e R p" if "p \<in> set ?ps" using that by (simp add: holders_def)
    moreover have "e_heap e' ! p = (e_heap e ! p)\<lparr>tbl_refCount := ?n p\<rparr>" using nth A(1) p by (simp add: e')
    ultimately show ?thesis using c unfolding counted_def hold ids by auto
  qed
  moreover have "inj_on (\<lambda>p. tbl_path (e_heap e' ! p)) {..<length (e_heap e')}"
    using assms(2) nth A(1) by (simp add: heap_inv_def inj_on_def e')
  ultimately show "heap_inv env e' ((i, rd) # R)" using assms(2) held A(1) by (auto simp: heap_inv_def e' rd)
qed

lemma heap_inv_add:
  assumes "heap_inv env e R" and "table_ok env t" and "tbl_refCount t = 1" and "\<not> tbl_released t" and "named e (tbl_path t)"
    and "\<forall>p < length (e_heap e). tbl_path (e_heap e ! p) \<noteq> tbl_path t" and "\<forall>p \<in> set (allTablesLocked e). p < length (e_heap e)"
  shows "heap_inv env (add_table l t e) R"
proof -
  let ?e = "add_table l t e" and ?n = "length (e_heap e)"
  have nm: "named ?e = named e" by (simp add: named_def [abs_def])
  have none: "filter (\<lambda>(i, rd). ?n \<in> set (rd_tables rd)) R = []" using assms(1) by (fastforce simp: heap_inv_def filter_empty_conv)
  have hold: "holders ?e R p = (if p = ?n then 1 else holders e R p)" for p using none assms(7) by (auto simp: holders_def)
  have "counted env ?e R p" if "p < Suc ?n" for p
    using assms(1-5) that unfolding counted_def hold nm by (cases "p = ?n") (simp_all add: heap_inv_def counted_def nth_append)
  moreover have "inj_on (\<lambda>p. tbl_path (e_heap ?e ! p)) {..<Suc ?n}"
    using assms(1,6) unfolding heap_inv_def lessThan_Suc by (fastforce simp: inj_on_def nth_append)
  ultimately show ?thesis using assms(1) by (fastforce simp: heap_inv_def)
qed

text \<open>After the commit of a compaction its inputs are not listed, and it still has to retire them.\<close>

lemma heap_inv_commit:
  assumes "heap_inv env e R" and "distinct ps" and "set ps \<subseteq> set (allTablesLocked e)" and "\<forall>p \<in> set (allTablesLocked e). p < length (e_heap e)"
    and "e' = e\<lparr>e_tables := remaining_tables ps (e_tables e), e_fs := d\<rparr>"
  shows "heap_inv env e' ((i, rd\<lparr>rd_tables := ps\<rparr>) # R)"
proof -
  have ids: "set (allTablesLocked e') = set (allTablesLocked e) - set ps" "e_heap e' = e_heap e" "named e' = named e"
    using remaining_set [where e = e and ps = ps] by (simp_all add: assms(5) allTablesLocked_def named_def [abs_def])
  have "holders e' ((i, rd\<lparr>rd_tables := ps\<rparr>) # R) p = holders e R p" for p using assms(3) by (auto simp: holders_def ids)
  then show ?thesis using assms(1-4) by (auto simp: heap_inv_def counted_def ids)
qed

lemma listed_ids: "einv env e \<Longrightarrow> \<forall>p \<in> set (allTablesLocked e). p < length (e_heap e)"
  by (simp add: einv_def tables_inv_def)

lemma fresh_path:
  assumes "heap_inv env e R" and "e_genCounter e < unboundedSeq" and "l < 2 ^ 63"
  shows "\<forall>p < length (e_heap e). tbl_path (e_heap e ! p) \<noteq> sstFileName (e_dir e) l (e_genCounter e + 1)"
proof (intro allI impI)
  fix p
  assume "p < length (e_heap e)"
  then have "named e (tbl_path (e_heap e ! p))" using assms(1) by (simp add: heap_inv_def counted_def)
  then obtain l' g where n: "l' < 2 ^ 63" "tbl_path (e_heap e ! p) = sstFileName (e_dir e) l' g" "g \<le> e_genCounter e" by (auto simp: named_def)
  show "tbl_path (e_heap e ! p) \<noteq> sstFileName (e_dir e) l (e_genCounter e + 1)"
  proof
    assume "tbl_path (e_heap e ! p) = sstFileName (e_dir e) l (e_genCounter e + 1)"
    then have "g = e_genCounter e + 1" using sst_inj [OF _ n(1) assms(3)] n(2) by simp
    then show False using n(3) word_incr [OF assms(2)] by simp
  qed
qed

lemma fresh_table_ok: "env_ok env \<Longrightarrow> fresh_table env e rs t \<Longrightarrow> table_ok env t \<and> tbl_refCount t = 1 \<and> \<not> tbl_released t \<and> named e (tbl_path t)"
  using table_held_ok by (auto simp: fresh_table_def)

lemma flush_heap:
  assumes "calm env e" and "roomy env e" and "heap_inv env e R" and "e' = flushWorker_turn env e"
  shows "heap_inv env e' R" and "same_tables e e'" and "e_mems e' = e_mems e" and "e_mem e' = e_mem e"
proof -
  have "heap_inv env e' R \<and> same_tables e e' \<and> e_mems e' = e_mems e \<and> e_mem e' = e_mem e"
  proof (cases "e_flushCh e")
    case Nil
    with assms(3,4) show ?thesis by (simp add: flushWorker_turn_def same_tables_refl)
  next
    case (Cons job jobs)
    obtain i ims t d e2 where e2: "e2 = e\<lparr>e_flushCh := jobs, e_genCounter := e_genCounter e + 1, e_fs := d\<rparr>" and E2: "einv env e2"
      and f: "fresh_table env e2 (buildRecords (e_mems e ! fj_mt job)) t"
      and w: "write_table env (buildRecords (e_mems e ! fj_mt job)) ''flush failed'' ''failed to reopen freshly-flushed sstable'' (e\<lparr>e_flushCh := jobs\<rparr>) = (Inr t, e2)"
      and turn: "flushWorker_turn env e = flush_metrics False (flush_end (fj_walPath job) (flush_commit (fj_mt job) t e2))"
      by (rule flush_turn_run [OF assms(1,2) Cons])
    have eo: "env_ok env" using E2 by (simp add: einv_def tables_inv_def)
    have g: "e_genCounter e < unboundedSeq" using assms(2) by (simp add: roomy_def counters_ok_def)
    have H2: "heap_inv env e2 R" by (rule heap_inv_cong [OF assms(3)]) (use word_incr [OF g] in \<open>simp_all add: e2\<close>)
    have "tbl_path t = sstFileName (e_dir e) 0 (e_genCounter e + 1)" using write_table_files(2) [OF w refl refl] by simp
    then have new: "\<forall>p < length (e_heap e2). tbl_path (e_heap e2 ! p) \<noteq> tbl_path t" using fresh_path [OF assms(3) g, of 0] by (simp add: e2)
    have A: "heap_inv env (add_table 0 t e2) R"
      using heap_inv_add [OF H2 _ _ _ _ new listed_ids [OF E2]] fresh_table_ok [OF eo f] by blast
    have fields: "e_heap e' = e_heap (add_table 0 t e2)" "e_tables e' = e_tables (add_table 0 t e2)" "e_dir e' = e_dir e2" "e_genCounter e' = e_genCounter e2"
      "e_mems e' = e_mems e" "e_mem e' = e_mem e"
      by (simp_all add: assms(4) turn flush_metrics_def flush_end_def flush_commit_def on_fs_def case_prod_beta maybeTriggerCompaction_def Inc_def Observe_def Let_def e2 split: option.split)
    have "heap_inv env e' R" by (rule heap_inv_cong [OF A]) (simp_all add: fields)
    moreover have "same_tables e e'" by (simp add: same_tables_def fields e2 nth_append same_data_def)
    ultimately show ?thesis using fields(5,6) by simp
  qed
  then show "heap_inv env e' R" "same_tables e e'" "e_mems e' = e_mems e" "e_mem e' = e_mem e" by blast+
qed

lemma compact_heap:
  assumes "calm env e" and "roomy env e" and "heap_inv env e R" and "runCompaction env e = (err, e')"
  shows "heap_inv env e' R" and "same_tables e e'" and "e_mems e' = e_mems e" and "e_mem e' = e_mem e"
proof -
  have C: "einv env e" "age_inv env e" "no_faults (e_fs e)" using assms(1) by (auto simp: calm_def)
  have F: "fits (versions env e)" and g: "e_genCounter e < unboundedSeq" using assms(2) by (auto simp: roomy_def counters_ok_def)
  have eo: "env_ok env" using C(1) by (simp add: einv_def tables_inv_def)
  have "heap_inv env e' R \<and> same_tables e e' \<and> e_mems e' = e_mems e \<and> e_mem e' = e_mem e"
  proof (cases "compact_plan e")
    case None
    with assms(3,4) show ?thesis by (simp add: runCompaction_def same_tables_refl)
  next
    case (Some c)
    obtain r out e1 where m: "compact_merge env c e = ((r, out), e1)" by (metis prod.exhaust)
    obtain er e2 where k: "compact_commit c r out e1 = (er, e2)" by fastforce
    obtain xs d d2 where P: "plan_ok env e c" and e1: "e1 = e\<lparr>e_genCounter := e_genCounter e + 1, e_fs := d\<rparr>"
      and mg: "merged env e c (retain (minActiveSnapshotSeq e) (co_isBottommost c) xs) r out d" and E1: "einv env e1" and er: "er = None"
      and cm: "committed env e1 c (retain (minActiveSnapshotSeq e) (co_isBottommost c) xs) d2 e2"
      and hp: "e_heap e2 = e_heap e1 \<and> r \<noteq> None \<or> e_heap e2 \<noteq> e_heap e1 \<and> tbl_path (last (e_heap e2)) = out"
      by (rule compact_pass_run [OF C F g Some m k refl])
    let ?I = "co_inputs c" and ?R = "(0, (undefined :: reader)\<lparr>rd_tables := co_inputs c\<rparr>) # R"
    let ?e0 = "e1\<lparr>e_tables := remaining_tables ?I (e_tables e1), e_fs := d2\<rparr>"
    have I: "distinct ?I" "set ?I \<subseteq> set (allTablesLocked e1)" using P by (auto simp: plan_ok_def e1 allTablesLocked_def)
    have H1: "heap_inv env e1 R" by (rule heap_inv_cong [OF assms(3)]) (use word_incr [OF g] in \<open>simp_all add: e1\<close>)
    have H0: "heap_inv env ?e0 ?R" by (rule heap_inv_commit [OF H1 I listed_ids [OF E1] refl])
    have sub: "\<forall>p \<in> set (allTablesLocked ?e0). p < length (e_heap ?e0)"
      using listed_ids [OF E1] by (auto simp: allTablesLocked_def remaining_tables_def)
    have out: "out = sstFileName (e_dir e) (nat (co_targetLevel c)) (e_genCounter e + 1)" using mg by (simp add: merged_def)
    have tl: "nat (co_targetLevel c) < 2 ^ 63" using P C(2) by (auto simp: plan_ok_def age_inv_def levels_bounded_def)
    have "heap_inv env e2 ?R \<and> same_tables e1 e2"
    proof (cases "e2 = ?e0")
      case True
      then show ?thesis using H0 by (simp add: same_tables_refl)
    next
      case False
      then obtain t where t: "fresh_table env ?e0 (retain (minActiveSnapshotSeq e) (co_isBottommost c) xs) t" "e2 = add_table (co_targetLevel c) t ?e0"
        using cm by (auto simp: committed_def Let_def)
      then have "tbl_path t = out" using hp by simp
      then have new: "\<forall>p < length (e_heap ?e0). tbl_path (e_heap ?e0 ! p) \<noteq> tbl_path t" using fresh_path [OF assms(3) g tl] out by (simp add: e1)
      have "heap_inv env e2 ?R" unfolding t(2) using heap_inv_add [OF H0 _ _ _ _ new sub] fresh_table_ok [OF eo t(1)] by blast
      moreover have "same_tables e1 e2" by (simp add: same_tables_def t(2) nth_append same_data_def)
      ultimately show ?thesis ..
    qed
    then have H3: "heap_inv env (foldl (\<lambda>e p. retire p e) e2 ?I) R" "same_tables e1 (foldl (\<lambda>e p. retire p e) e2 ?I)"
      using retire_all_step same_tables_trans [OF _ retire_all_same_tables] by blast+
    have e': "e' = compact_metrics False (maybeTriggerCompaction (foldl (\<lambda>e p. retire p e) e2 ?I))"
      using assms(4) Some m k er by (simp add: runCompaction_def compact_end_def)
    let ?r = "foldl (\<lambda>e p. retire p e) e2 ?I"
    have fields: "e_heap e' = e_heap ?r" "e_tables e' = e_tables ?r" "e_dir e' = e_dir ?r" "e_genCounter e' = e_genCounter ?r" "e_mems e' = e_mems ?r" "e_mem e' = e_mem ?r"
      by (simp_all add: e' compact_metrics_def maybeTriggerCompaction_def Inc_def Observe_def Let_def split: option.split)
    have ret: "e_mems (foldl (\<lambda>e p. retire p e) x ps) = e_mems x \<and> e_mem (foldl (\<lambda>e p. retire p e) x ps) = e_mem x" for x ps
      by (induction ps arbitrary: x) (simp_all add: retire_def split: prod.split)
    have "e_mems e2 = e_mems e \<and> e_mem e2 = e_mem e" using cm by (auto simp: committed_def Let_def e1)
    moreover have "heap_inv env e' R" by (rule heap_inv_cong [OF H3(1)]) (simp_all add: fields)
    moreover have "same_tables e e'" using H3(2) by (simp add: same_tables_def fields e1)
    ultimately show ?thesis using ret fields(5,6) by simp
  qed
  then show "heap_inv env e' R" "same_tables e e'" "e_mems e' = e_mems e" "e_mem e' = e_mem e" by blast+
qed

section \<open>What a reader sees\<close>

definition view :: "env \<Rightarrow> reader \<Rightarrow> Engine \<Rightarrow> Record list" where
  "view env rd e = buildRecords (e_mems e ! rd_mt rd) @ concat (map (\<lambda>i. buildRecords (e_mems e ! im_mt i)) (rd_imm rd)) @
     concat (map (\<lambda>p. table_recs env (e_heap e ! p)) (rd_tables rd))"

definition reader_ok :: "env \<Rightarrow> reader \<Rightarrow> Engine \<Rightarrow> bool" where
  "reader_ok env rd e \<longleftrightarrow> rd_mt rd < length (e_mems e) \<and> (\<forall>i \<in> set (rd_imm rd). im_mt i < length (e_mems e) \<and> im_mt i \<noteq> e_mem e \<and> im_mt i \<noteq> rd_mt rd) \<and>
     coherent (set (view env rd e)) \<and> (\<forall>r \<in> set (view env rd e). rec_seq r \<le> e_seq e)"

text \<open>The value the reader would return if it looked now.\<close>

definition sees :: "env \<Rightarrow> reader \<Rightarrow> Engine \<Rightarrow> bytes \<Rightarrow> bytes option" where
  "sees env rd e key = reads (view env rd e) key unboundedSeq"

lemma held_open:
  assumes "heap_inv env e R" and "(i, rd) \<in> set R" and "p \<in> set (rd_tables rd)"
  shows "p < length (e_heap e)" and "\<not> tbl_released (e_heap e ! p)" and "table_ok env (e_heap e ! p)"
proof -
  show p: "p < length (e_heap e)" using assms by (auto simp: heap_inv_def)
  then have "counted env e R p" using assms(1) by (simp add: heap_inv_def)
  then show "\<not> tbl_released (e_heap e ! p)" "table_ok env (e_heap e ! p)" using holders_reader [OF assms(2,3), of e] by (simp_all add: counted_def)
qed

lemma getAt_read_sees:
  assumes "calm env e" and "heap_inv env e R" and "(i, rd) \<in> set R" and "reader_ok env rd e"
  shows "getAt_read env rd key unboundedSeq e = answer (sees env rd e key)"
proof -
  have "mems_inv e" using assms(1) by (simp add: calm_def einv_def)
  then have "\<forall>m \<in> set (map ((!) (e_mems e)) (rd_mt rd # map im_mt (rd_imm rd))). mt_inv m" using assms(4) by (auto simp: mems_inv_def reader_ok_def)
  moreover have "\<forall>p \<in> set (rd_tables rd). table_ok env (e_heap e ! p)" using held_open(3) [OF assms(2,3)] by blast
  ultimately obtain b where b: "best_in (set (view env rd e)) key unboundedSeq b" "getAt_read env rd key unboundedSeq e = answer (value_of b)"
    using getAt_read_best [of e rd env "set (view env rd e)" key unboundedSeq] by (auto simp: view_def Un_assoc)
  have "sees env rd e key = value_of b" unfolding sees_def by (rule reads_best [OF _ b(1)]) (use assms(4) in \<open>simp add: reader_ok_def\<close>)
  with b(2) show ?thesis by simp
qed

lemma reader_begins:
  assumes "calm env e" and "heap_inv env e R" and "getAt_begin e = (Inr rd, e')"
  shows "reader_ok env rd e'" and "sees env rd e' = store env e"
proof -
  note B = begin_run [OF assms]
  obtain h where e': "e' = e\<lparr>e_heap := h\<rparr>" using B(6) by blast
  have v: "view env rd e' = versions env e'" by (simp add: view_def B(5) versions_def mem_versions_def imm_versions_def table_versions_def) (simp add: e' allTablesLocked_def)
  have E: "einv env e'" "mems_inv e" using B(1) assms(1) by (simp_all add: calm_def einv_def)
  then have ne: "e_mem e \<notin> im_mt ` set (e_imm e)" by (simp add: mems_inv_def)
  have "im_mt i \<noteq> e_mem e" if i: "i \<in> set (e_imm e)" for i using ne imageI [OF i, of im_mt] by metis
  with E show "reader_ok env rd e'" unfolding reader_ok_def v by (simp add: einv_def seqs_inv_def mems_inv_def B(5) e')
  show "sees env rd e' = store env e" by (simp add: fun_eq_iff sees_def v store_def B(2))
qed

lemma view_quiet:
  assumes "heap_inv env e R" and "heap_inv env e' R'" and "(i, rd) \<in> set R" and "(i, rd) \<in> set R'" and "same_tables e e'"
    and "e_mems e' = e_mems e" and "e_mem e' = e_mem e" and "e_seq e \<le> e_seq e'"
  shows "view env rd e' = view env rd e" and "reader_ok env rd e \<Longrightarrow> reader_ok env rd e'"
proof -
  have "table_recs env (e_heap e' ! p) = table_recs env (e_heap e ! p)" if p: "p \<in> set (rd_tables rd)" for p
    by (rule table_same_data(1)) (use held_open [OF assms(1,3) p] held_open [OF assms(2,4) p] assms(5) in \<open>simp_all add: same_tables_def\<close>)
  then show v: "view env rd e' = view env rd e" by (simp add: view_def assms(6) cong: map_cong)
  show "reader_ok env rd e \<Longrightarrow> reader_ok env rd e'" unfolding reader_ok_def v assms(6,7) using assms(8) by (meson order_trans)
qed

lemma write_shape:
  assumes "calm env e" and "engine_write key val typ e = (r, e')"
  shows "e_heap e' = e_heap e \<and> e_tables e' = e_tables e \<and> e_dir e' = e_dir e \<and> e_seq e' = e_seq e + 1 \<and>
    (e_genCounter e' = e_genCounter e \<or> e_genCounter e' = e_genCounter e + 1) \<and>
    (\<exists>ms. e_mems e' = (e_mems e)[e_mem e := write_mem typ (e_mems e ! e_mem e) key val (e_seq e + 1)] @ ms) \<and>
    (e_mem e' = e_mem e \<or> e_mem e' = length (e_mems e))"
proof -
  let ?m = "write_mem typ (e_mems e ! e_mem e) key val (e_seq e + 1)"
  obtain w d where step: "(r, e') = (if sint (MemTable_Size ?m) \<ge> sint (e_flushThreshold e)
      then let (r4, e4) = rotate (put_mem (e\<lparr>e_seq := e_seq e + 1, e_wal := w, e_fs := d\<rparr>) ?m) in (map_option (EWrap ''engine: rotating memtable'') r4, e4)
      else (None, put_mem (e\<lparr>e_seq := e_seq e + 1, e_wal := w, e_fs := d\<rparr>) ?m))"
    by (rule engine_write_run [OF assms])
  let ?e3 = "put_mem (e\<lparr>e_seq := e_seq e + 1, e_wal := w, e_fs := d\<rparr>) ?m"
  obtain r4 e4 where rot: "rotate ?e3 = (r4, e4)" by fastforce
  have "e' = ?e3 \<or> e' = e4" using step rot by (auto split: if_splits)
  then show ?thesis
  proof
    assume "e' = ?e3"
    then show ?thesis by (simp add: put_mem_def)
  next
    assume e': "e' = e4"
    from rot show ?thesis by (cases rule: rotate_cases) (simp_all add: e' put_mem_def hand_over_def)
  qed
qed

lemma write_seen:
  assumes "calm env e" and "counters_ok e" and "key_val_ok key val" and "engine_write key val typ e = (r, e')" and "reader_ok env rd e"
  shows "reader_ok env rd e'" and "sees env rd e' k = sees env rd e k \<or> sees env rd e' k = store env e' k"
proof -
  let ?s = "e_seq e + 1" and ?M = "e_mems e ! e_mem e"
  let ?m = "write_mem typ ?M key val ?s"
  obtain ms where W: "e_heap e' = e_heap e" "e_seq e' = ?s" "e_mems e' = (e_mems e)[e_mem e := ?m] @ ms" "e_mem e' = e_mem e \<or> e_mem e' = length (e_mems e)"
    using write_shape [OF assms(1,4)] by blast
  have M: "mems_inv e" using assms(1) by (simp add: calm_def einv_def)
  have less: "e_seq e < ?s" using word_incr assms(2) by (simp add: counters_ok_def)
  have R: "rd_mt rd < length (e_mems e)" "coherent (set (view env rd e))" "\<forall>r \<in> set (view env rd e). rec_seq r < ?s"
    and imm: "\<forall>i \<in> set (rd_imm rd). im_mt i < length (e_mems e) \<and> im_mt i \<noteq> e_mem e \<and> im_mt i \<noteq> rd_mt rd"
    using assms(5) less by (auto simp: reader_ok_def intro: le_less_trans)
  have same: "e_mems e' ! im_mt i = e_mems e ! im_mt i" if "i \<in> set (rd_imm rd)" for i
  proof -
    have "im_mt i < length (e_mems e)" "e_mem e \<noteq> im_mt i" using imm that by auto
    then show ?thesis by (simp add: W(3) nth_append)
  qed
  have imm': "\<forall>i \<in> set (rd_imm rd). im_mt i < length (e_mems e') \<and> im_mt i \<noteq> e_mem e' \<and> im_mt i \<noteq> rd_mt rd"
    using imm W(4) by (auto simp: W(3) trans_less_add1)
  have "coherent (set (view env rd e')) \<and> (\<forall>r \<in> set (view env rd e'). rec_seq r \<le> ?s) \<and> (sees env rd e' k = sees env rd e k \<or> sees env rd e' k = store env e' k)"
  proof (cases "rd_mt rd = e_mem e")
    case False
    then have "e_mems e' ! rd_mt rd = e_mems e ! rd_mt rd" using R(1) by (simp add: W(3) nth_append)
    then have "view env rd e' = view env rd e" using same by (simp add: view_def W(1) cong: map_cong)
    then show ?thesis using R(2,3) by (auto simp: sees_def less_imp_le)
  next
    case True
    let ?rest = "concat (map (\<lambda>i. buildRecords (e_mems e ! im_mt i)) (rd_imm rd)) @ concat (map (\<lambda>p. table_recs env (e_heap e ! p)) (rd_tables rd))"
    let ?A = "{r \<in> set (buildRecords ?M). rec_key r \<noteq> key} \<union> set ?rest"
    have mt: "mt_inv ?M" using M by (auto simp: mems_inv_def)
    have "e_mems e' ! rd_mt rd = ?m" using R(1) True by (simp add: W(3) nth_append)
    then have "view env rd e' = buildRecords ?m @ ?rest" using same by (simp add: view_def W(1) cong: map_cong)
    then have v: "set (view env rd e') = insert (new_version typ key val ?s) ?A" by (simp only: set_append write_mem_records [OF mt]) simp
    have sub: "?A \<subseteq> set (view env rd e)" "{r \<in> set (view env rd e). rec_key r \<noteq> key} \<subseteq> ?A" by (auto simp: view_def True)
    note I = reads_insert [OF R(2,3) v sub]
    have st: "store env e' key = (if typ = RecordPut then Some val else None)"
    proof -
      note W2 = engine_write_calm [OF assms(1-4)]
      show ?thesis using reads_write(1) [OF _ less W2(5) unbounded_max] assms(1) by (simp add: store_def calm_def)
    qed
    have "sees env rd e' k = sees env rd e k \<or> sees env rd e' k = store env e' k"
      using I(2) [OF unbounded_max] I(3) [of k] st by (cases "k = key") (simp_all add: sees_def)
    moreover have "rec_seq r \<le> ?s" if "r \<in> insert (new_version typ key val ?s) ?A" for r
    proof (cases "r = new_version typ key val ?s")
      case False
      then have "r \<in> set (view env rd e)" using that sub(1) by blast
      then show ?thesis using R(3) less_imp_le by blast
    qed (simp add: new_version_def)
    ultimately show ?thesis using I(1) v by simp
  qed
  then show "reader_ok env rd e'" "sees env rd e' k = sees env rd e k \<or> sees env rd e' k = store env e' k"
    using R(1) imm' by (auto simp: reader_ok_def W(2) W(3))
qed

section \<open>Steps of an overlap\<close>

definition overlap_inv :: "env \<Rightarrow> Engine \<times> readers \<Rightarrow> bool" where
  "overlap_inv env s \<longleftrightarrow> calm env (fst s) \<and> heap_inv env (fst s) (snd s) \<and> distinct (map fst (snd s)) \<and> (\<forall>(i, rd) \<in> set (snd s). reader_ok env rd (fst s))"

text \<open>What a reader sees after a step: what it saw before, or what the store holds now.\<close>

definition keeps_up :: "env \<Rightarrow> Engine \<Rightarrow> Engine \<Rightarrow> reader \<Rightarrow> bool" where
  "keeps_up env e e' rd \<longleftrightarrow> (\<forall>k. sees env rd e' k = sees env rd e k \<or> sees env rd e' k = store env e' k)"

lemma quiet_step:
  assumes "heap_inv env e R" and "heap_inv env e' R" and "same_tables e e'" and "e_mems e' = e_mems e" and "e_mem e' = e_mem e" and "e_seq e \<le> e_seq e'"
    and "\<forall>(i, rd) \<in> set R. reader_ok env rd e"
  shows "\<forall>(i, rd) \<in> set R. reader_ok env rd e' \<and> keeps_up env e e' rd"
  using view_quiet [OF assms(1,2) _ _ assms(3-6)] assms(7) by (fastforce simp: keeps_up_def sees_def)

lemma write_step:
  assumes "calm env e" and "counters_ok e" and "key_val_ok key val" and "engine_write key val typ e = (r, e1)" and "heap_inv env e R" and "\<forall>(i, rd) \<in> set R. reader_ok env rd e"
    and "e' = Inc p (Observe q e1)"
  shows "heap_inv env e' R \<and> (\<forall>(i, rd) \<in> set R. reader_ok env rd e' \<and> keeps_up env e e' rd)"
proof -
  note W = write_shape [OF assms(1,4)]
  have gen: "e_genCounter e \<le> e_genCounter e1" using W word_incr [of "e_genCounter e"] assms(2) by (auto simp: counters_ok_def)
  have f: "e_heap e' = e_heap e1" "e_tables e' = e_tables e1" "e_dir e' = e_dir e1" "e_genCounter e' = e_genCounter e1" "e_mems e' = e_mems e1" "e_mem e' = e_mem e1" "e_seq e' = e_seq e1"
    by (simp_all add: assms(7) Inc_def Observe_def)
  have H: "heap_inv env e' R" by (rule heap_inv_cong [OF assms(5)]) (use W gen f in simp_all)
  have v: "view env rd e' = view env rd e1" for rd by (simp add: view_def f)
  have "store env e' = store env e1" by (simp add: store_def [abs_def] assms(7))
  then have "keeps_up env e e' rd \<and> reader_ok env rd e'" if "reader_ok env rd e" for rd
    using write_seen [OF assms(1-4) that] by (simp add: keeps_up_def sees_def v reader_ok_def f)
  with H assms(6) show ?thesis by auto
qed

lemma engine_step_overlap:
  assumes "calm env e" and "roomy env e" and "heap_inv env e R" and "\<forall>(i, rd) \<in> set R. reader_ok env rd e" and "engine_step env e oper e'"
  shows "heap_inv env e' R \<and> (\<forall>(i, rd) \<in> set R. reader_ok env rd e' \<and> keeps_up env e e' rd)"
proof -
  have c: "counters_ok e" using assms(2) by (simp add: roomy_def)
  have seq: "e_seq e \<le> e_seq e'" using engine_step_effect [OF assms(1,2,5)] by (simp add: step_effect_def)
  have frame: ?thesis if "e_heap e' = e_heap e" "e_tables e' = e_tables e" "e_dir e' = e_dir e" "e_genCounter e' = e_genCounter e" "e_mems e' = e_mems e" "e_mem e' = e_mem e"
  proof -
    have H: "heap_inv env e' R" by (rule heap_inv_cong [OF assms(3)]) (use that in simp_all)
    from quiet_step [OF assms(3) H same_tables_refl _ _ seq assms(4)] that H show ?thesis by simp
  qed
  from assms(5) show ?thesis
  proof cases
    case (put key val r)
    obtain r1 e1 where w: "engine_write key val RecordPut e = (r1, e1)" by fastforce
    then have "e' = Inc (em_putTotal (e_m e1)) (Observe (em_writeLatency (e_m e1)) e1)" using put by (auto simp: Put_def key_val_ok_def)
    from write_step [OF assms(1) c put(2) w assms(3,4) this] show ?thesis .
  next
    case (delete key r)
    obtain r1 e1 where w: "engine_write key [] RecordDelete e = (r1, e1)" by fastforce
    then have "e' = Inc (em_deleteTotal (e_m e1)) (Observe (em_writeLatency (e_m e1)) e1)" using delete by (auto simp: Delete_def key_val_ok_def)
    from write_step [OF assms(1) c delete(2) w assms(3,4) this] show ?thesis .
  next
    case (get key r)
    obtain x where "getAt env key unboundedSeq e = (x, e)" using getAt_calm [OF assms(1)] by blast
    then have "e' = recordGet x e" using get by (auto simp: Get_def)
    then show ?thesis by (intro frame) (simp_all add: recordGet_def Inc_def Observe_def Let_def split: sum.split)
  next
    case (snapshot r)
    then show ?thesis
      by (intro frame) (auto simp: Engine_Snapshot_def Snapshot_load_def Snapshot_register_def Inc_def Adjust_def Let_def split: if_splits)
  next
    case (snapshot_close s s')
    then show ?thesis by (intro frame) (auto simp: Snapshot_Close_def Adjust_def Let_def split: if_splits)
  next
    case flush
    note F = flush_heap [OF assms(1-3) flush(2)]
    from quiet_step [OF assms(3) F(1-4) seq assms(4)] F(1) show ?thesis by simp
  next
    case compact
    show ?thesis
    proof (cases "e_compactCh e")
      case False
      then show ?thesis using compact by (intro frame) (simp_all add: compactionLoop_turn_def)
    next
      case True
      let ?e = "e\<lparr>e_compactCh := False\<rparr>"
      obtain err x where run: "runCompaction env ?e = (err, x)" by fastforce
      have x: "e' = x" using compact True run by (simp add: compactionLoop_turn_def)
      have C: "calm env ?e" "roomy env ?e" using assms(1,2) by (simp_all add: roomy_def counters_ok_def)
      have H: "heap_inv env ?e R" by (rule heap_inv_cong [OF assms(3)]) simp_all
      note K = compact_heap [OF C H run]
      have st: "same_tables e e'" using K(2) by (simp add: same_tables_def x)
      from quiet_step [OF assms(3) _ st _ _ seq assms(4)] K x show ?thesis by simp
    qed
  qed
qed

lemma heap_inv_perm: "mset R = mset R' \<Longrightarrow> heap_inv env e R \<Longrightarrow> heap_inv env e R'"
proof -
  assume m: "mset R = mset R'" and H: "heap_inv env e R"
  have "length (filter P R) = length (filter P R')" for P using m by (metis mset_filter size_mset)
  then have "holders e R' = holders e R" by (simp add: holders_def [abs_def])
  moreover have "set R' = set R" using m by (metis set_mset_mset)
  ultimately show ?thesis using H by (simp add: heap_inv_def counted_def)
qed

lemma delete_split:
  assumes "distinct (map fst R)" and "map_of R i = Some rd"
  shows "mset R = mset ((i, rd) # AList.delete i R)" and "(j, x) \<in> set (AList.delete i R) \<longleftrightarrow> (j, x) \<in> set R \<and> j \<noteq> i" and "distinct (map fst (AList.delete i R))"
proof -
  have d: "AList.delete i R = filter (\<lambda>(k, v). k \<noteq> i) R" unfolding AList.delete_eq by (rule filter_cong) auto
  have one: "filter (\<lambda>(k, v). k = i) R = [(i, rd)]" using assms
  proof (induction R)
    case (Cons a R)
    obtain k v where a: "a = (k, v)" by fastforce
    have "filter (\<lambda>(k, v). k = i) R = []" if "k = i" using Cons.prems(1) that by (force simp: a filter_empty_conv)
    then show ?case using Cons by (auto simp: a split: if_splits)
  qed simp
  have "mset R = mset (filter (\<lambda>(k, v). k = i) R) + mset (filter (\<lambda>(k, v). k \<noteq> i) R)"
    using multiset_partition [of "mset R" "\<lambda>(k, v). k = i"] by (simp add: case_prod_beta')
  then show "mset R = mset ((i, rd) # AList.delete i R)" unfolding one d by simp
  show "(j, x) \<in> set (AList.delete i R) \<longleftrightarrow> (j, x) \<in> set R \<and> j \<noteq> i" unfolding d by auto
  show "distinct (map fst (AList.delete i R))" using assms(1) by (simp add: distinct_delete)
qed

lemma recordGet_fields [simp]:
  "e_heap (recordGet r e) = e_heap e" "e_tables (recordGet r e) = e_tables e" "e_dir (recordGet r e) = e_dir e" "e_genCounter (recordGet r e) = e_genCounter e"
  "e_mems (recordGet r e) = e_mems e" "e_mem (recordGet r e) = e_mem e" "e_seq (recordGet r e) = e_seq e" "versions env (recordGet r e) = versions env e"
  "calm env (recordGet r e) = calm env e"
  by (simp_all add: recordGet_def Let_def split: sum.split) (simp_all add: Inc_def Observe_def)

lemma finish_run:
  assumes "overlap_inv env (e, R)" and "map_of R i = Some rd" and "e' = recordGet r (releaseAll (rd_tables rd) e)"
  shows "overlap_inv env (e', AList.delete i R)" and "versions env e' = versions env e" and "e_seq e' = e_seq e" and "e_genCounter e' = e_genCounter e"
    and "\<forall>(j, x) \<in> set (AList.delete i R). view env x e' = view env x e"
proof -
  let ?D = "AList.delete i R" and ?e = "releaseAll (rd_tables rd) e"
  have I: "calm env e" "heap_inv env e R" "distinct (map fst R)" "\<forall>(i, rd) \<in> set R. reader_ok env rd e" using assms(1) by (simp_all add: overlap_inv_def)
  note D = delete_split [OF I(3) assms(2)]
  note A = releaseAll_run [OF I(1) heap_inv_perm [OF D(1) I(2)] refl]
  then obtain h d where e1: "?e = e\<lparr>e_heap := h, e_fs := d\<rparr>" by blast
  have H: "heap_inv env e' ?D" using heap_inv_cong [of env ?e ?D e'] A by (simp add: assms(3))
  have st: "same_tables e e'" using releaseAll_same_tables [of e "rd_tables rd"] by (simp add: same_tables_def assms(3))
  have f: "e_mems e' = e_mems e" "e_mem e' = e_mem e" "e_seq e' = e_seq e" "e_genCounter e' = e_genCounter e" by (simp_all add: assms(3) e1)
  show "e_seq e' = e_seq e" "e_genCounter e' = e_genCounter e" by (rule f)+
  show "versions env e' = versions env e" using A by (simp add: assms(3))
  have Q: "view env x e' = view env x e \<and> reader_ok env x e'" if "(j, x) \<in> set ?D" for j x
    using view_quiet [OF I(2) H _ that st f(1,2)] D(2) that I(4) f(3) by auto
  then show "\<forall>(j, x) \<in> set ?D. view env x e' = view env x e" by blast
  show "overlap_inv env (e', ?D)" using A H D(3) Q by (auto simp: overlap_inv_def assms(3))
qed

lemma overlap_step_run:
  assumes "overlap_inv env (e, R)" and "room_for env (engine_ops (x # ops)) e" and "overlap_step env (e, R) x (e', R')"
  shows "overlap_inv env (e', R') \<and> room_for env (engine_ops ops) e' \<and> store env e' = foldl map_step (store env e) (engine_ops [x]) \<and>
    (\<forall>(i, rd) \<in> set R \<inter> set R'. keeps_up env e e' rd)"
proof -
  have I: "calm env e" "heap_inv env e R" "distinct (map fst R)" "\<forall>(i, rd) \<in> set R. reader_ok env rd e" using assms(1) by (simp_all add: overlap_inv_def)
  from assms(3) show ?thesis
  proof cases
    case (run oper)
    have room: "room_for env (oper # engine_ops ops) e" using assms(2) run(1) by simp
    note R = room_for_roomy [OF room]
    note S = engine_step_effect [OF I(1) R run(3)] and O = engine_step_overlap [OF I(1) R I(2,4) run(3)]
    show ?thesis using S O room_for_step [OF room S] I(3) run(1,2) by (auto simp: overlap_inv_def step_effect_def)
  next
    case (begin_read i rd)
    note B = begin_run [OF I(1,2) begin_read(4)] and N = reader_begins [OF I(1,2) begin_read(4)]
    obtain h where e': "e' = e\<lparr>e_heap := h\<rparr>" using B(6) by blast
    have f: "e_mems e' = e_mems e" "e_mem e' = e_mem e" "e_seq e' = e_seq e" "e_genCounter e' = e_genCounter e" by (simp_all add: e')
    have Q: "view env x e' = view env x e \<and> reader_ok env x e'" if "(j, x) \<in> set R" for j x
      using view_quiet [OF I(2) B(3) that _ B(4) f(1,2)] that I(4) f(3) by auto
    then show ?thesis using B(1-3) N(1) I(3) f(3,4) assms(2) begin_read(1-3)
      by (auto simp: overlap_inv_def room_for_def keeps_up_def sees_def store_def [abs_def])
  next
    case (finish_read i rd r key)
    note F = finish_run [OF assms(1) finish_read(4,2)]
    show ?thesis using F finish_read(1,3) assms(2)
      by (auto simp: room_for_def keeps_up_def sees_def store_def [abs_def])
  qed
qed

lemma overlaps_append: "overlaps env s (xs @ ys) s' \<Longrightarrow> \<exists>s1. overlaps env s xs s1 \<and> overlaps env s1 ys s'"
proof (induction xs arbitrary: s)
  case (Cons x xs)
  from Cons.prems obtain s1 where s1: "overlap_step env s x s1" "overlaps env s1 (xs @ ys) s'" by (auto elim: overlaps.cases)
  from Cons.IH [OF s1(2)] s1(1) show ?case by (blast intro: overlaps.more)
qed (auto intro: overlaps.start)

lemma engine_ops_append: "engine_ops (xs @ ys) = engine_ops xs @ engine_ops ys"
  by (induction xs rule: engine_ops.induct) simp_all

lemma overlaps_run:
  assumes "overlaps env s ops s'" and "overlap_inv env s" and "room_for env (engine_ops (ops @ later)) (fst s)"
  shows "overlap_inv env s' \<and> room_for env (engine_ops later) (fst s') \<and> store env (fst s') = foldl map_step (store env (fst s)) (engine_ops ops)"
  using assms
proof (induction rule: overlaps.induct)
  case (more s x s1 ops s')
  obtain e R e1 R1 where s: "s = (e, R)" "s1 = (e1, R1)" by fastforce
  note S = overlap_step_run [where ops = "ops @ later", OF more.prems(1) [unfolded s] _ more.hyps(1) [unfolded s]]
  have "engine_ops (x # ops) = engine_ops [x] @ engine_ops ops" using engine_ops_append [of "[x]" ops] by simp
  then show ?case using more.IH S more.prems(2) s by auto
qed simp

text \<open>While a read is under way, what it sees is what the store held after some of the steps since it began.\<close>

lemma reader_follows:
  assumes "overlaps env s ops s'" and "overlap_inv env s" and "room_for env (engine_ops (ops @ later)) (fst s)" and "(i, rd) \<in> set (snd s)" and "\<forall>k x. Finish i k x \<notin> set ops"
  shows "(i, rd) \<in> set (snd s') \<and>
    (sees env rd (fst s') k = sees env rd (fst s) k \<or> (\<exists>n \<le> length ops. sees env rd (fst s') k = foldl map_step (store env (fst s)) (engine_ops (take n ops)) k))"
  using assms
proof (induction rule: overlaps.induct)
  case (more s x s1 ops s')
  obtain e R e1 R1 where s: "s = (e, R)" "s1 = (e1, R1)" by fastforce
  note S = overlap_step_run [where ops = "ops @ later", OF more.prems(1) [unfolded s] _ more.hyps(1) [unfolded s]]
  have room: "room_for env (engine_ops (x # (ops @ later))) e" using more.prems(2) s by simp
  have D: "distinct (map fst R)" using more.prems(1) s by (simp add: overlap_inv_def)
  have stay: "(i, rd) \<in> set R1"
    using more.hyps(1) unfolding s
  proof cases
    case (finish_read j rd' r key)
    then show ?thesis using delete_split(2) [OF D finish_read(4)] more.prems(3,4) s(1) by auto
  qed (use more.prems(3) s in auto)
  have st: "store env e1 = foldl map_step (store env e) (engine_ops [x])" and up: "keeps_up env e e1 rd" using S [OF room] stay more.prems(3) s by auto
  have split: "engine_ops (x # take n ops) = engine_ops [x] @ engine_ops (take n ops)" for n using engine_ops_append [of "[x]" "take n ops"] by simp
  have "(i, rd) \<in> set (snd s') \<and> (sees env rd (fst s') k = sees env rd e1 k \<or>
      (\<exists>n \<le> length ops. sees env rd (fst s') k = foldl map_step (store env e1) (engine_ops (take n ops)) k))"
    using more.IH S [OF room] stay more.prems(4) s by auto
  moreover have "sees env rd e1 k = sees env rd e k \<or> sees env rd e1 k = foldl map_step (store env e) (engine_ops (take 1 (x # ops))) k"
    using up st by (auto simp: keeps_up_def)
  moreover have "foldl map_step (store env e1) (engine_ops (take n ops)) k = foldl map_step (store env e) (engine_ops (take (Suc n) (x # ops))) k" for n
    using st split by simp
  ultimately show ?case unfolding s(1) fst_conv length_Cons by (metis One_nat_def Suc_le_mono le0)
qed simp

section \<open>Reads are linearizable\<close>

lemma overlap_inv_start:
  assumes "env_ok env" and "no_faults d" and "\<forall>p i. \<not> unreadable d p i" and "dir_names dir d = []"
    and "2 \<le> e_maxLevels (configured opts)" and "e_maxLevels (configured opts) < 2 ^ 63" and "1 \<le> e_l0CompactionTrigger (configured opts)"
    and "Engine_Open env dir opts rnd durs d = (Inr e0, d')"
    and "length (engine_ops ops) < 2 ^ 28" and "sum_list (map rec_weight (concat (map (op_records 0) (engine_ops ops)))) < 2 ^ 47"
  shows "overlap_inv env (e0, [])" and "room_for env (engine_ops ops) e0" and "store env e0 = Map.empty"
proof -
  have c: "calm env e0" and v: "versions env e0 = []" and n: "e_seq e0 = 0" "e_genCounter e0 = 1"
    using Engine_Open_empty [OF assms(2,3,1,4-7)] assms(8) by (metis Inr_inject Pair_inject)+
  show "room_for env (engine_ops ops) e0" using assms(9,10) by (simp add: room_for_def v n)
  show "store env e0 = Map.empty" by (simp add: store_def [abs_def] v reads_def value_of_def)
  show "overlap_inv env (e0, [])" using c Engine_Open_empty_disk(3) [OF assms(2,3,1,4,8)] by (simp add: overlap_inv_def heap_inv_def)
qed

text \<open>What a read under way returns, from the state in which it began.\<close>

lemma read_linearized:
  assumes "overlap_inv env s" and "room_for env (engine_ops mid) (fst s)" and "overlap_step env s (Begin i) s1"
    and "overlaps env s1 mid s2" and "\<forall>k x. Finish i k x \<notin> set mid" and "overlap_step env s2 (Finish i key r) s3"
  shows "\<exists>n \<le> length mid. r = answer (foldl map_step (store env (fst s)) (engine_ops (take n mid)) key)"
  using assms(3)
proof (rule begin_stepE)
  fix e R rd e1
  assume b: "s = (e, R)" "s1 = (e1, (i, rd) # R)" "i \<notin> fst ` set R" "getAt_begin e = (Inr rd, e1)"
  have I: "calm env e" "heap_inv env e R" using assms(1) b(1) by (simp_all add: overlap_inv_def)
  have S: "overlap_inv env s1" "room_for env (engine_ops mid) e1" "store env e1 = store env e"
    using overlap_step_run [where ops = mid, of env e R "Begin i" e1 "(i, rd) # R"] assms(1-3) b by auto
  have see: "sees env rd e1 = store env e" by (rule reader_begins(2) [OF I b(4)])
  obtain e2 R2 where s2: "s2 = (e2, R2)" by fastforce
  have O2: "overlap_inv env s2" using overlaps_run [where later = "[]", OF assms(4) S(1)] S(2) b(2) by simp
  note F = reader_follows [where later = "[]" and i = i and rd = rd and k = key, OF assms(4) S(1) _ _ assms(5)]
  have f: "(i, rd) \<in> set R2" "\<exists>n \<le> length mid. sees env rd e2 key = foldl map_step (store env e) (engine_ops (take n mid)) key"
    using F S(2,3) see b(2) s2 by (auto intro: exI [of _ 0])
  have J: "calm env e2" "heap_inv env e2 R2" "distinct (map fst R2)" "reader_ok env rd e2" using O2 f(1) s2 by (auto simp: overlap_inv_def)
  have "map_of R2 i = Some rd" using J(3) f(1) by simp
  then have "r = getAt_read env rd key unboundedSeq e2" using assms(6) s2 by (auto elim!: finish_stepE)
  then show ?thesis using getAt_read_sees [OF J(1,2) f(1) J(4)] f(2) by (auto simp: b(1))
qed

text \<open>
  C10: Reads are linearizable. A read lets go of the lock once it has copied the list of MemTables
  and acquired the tables, so puts, deletes, rotations, flushes, compaction passes and other reads
  may run before it looks its key up. Whatever runs in between, it returns what the store held
  for the key at some moment between its begin and its end, and never an error for a table
  that was compacted away under it.
\<close>

theorem overlapping_reads_linearizable:
  assumes "env_ok env" and "no_faults d" and "\<forall>p i. \<not> unreadable d p i" and "dir_names dir d = []"
    and "2 \<le> e_maxLevels (configured opts)" and "e_maxLevels (configured opts) < 2 ^ 63" and "1 \<le> e_l0CompactionTrigger (configured opts)"
    and "Engine_Open env dir opts rnd durs d = (Inr e0, d')"
    and "overlaps env (e0, []) (pre @ Begin i # mid @ [Finish i key r]) s" and "\<forall>k x. Finish i k x \<notin> set mid"
    and "length (engine_ops (pre @ mid)) < 2 ^ 28" and "sum_list (map rec_weight (concat (map (op_records 0) (engine_ops (pre @ mid))))) < 2 ^ 47"
  shows "\<exists>n \<le> length mid. r = answer (foldl map_step Map.empty (engine_ops (pre @ take n mid)) key)"
proof -
  note S0 = overlap_inv_start [OF assms(1-8,11,12)]
  obtain s1 where s1: "overlaps env (e0, []) pre s1" "overlaps env s1 (Begin i # mid @ [Finish i key r]) s" using overlaps_append [OF assms(9)] by blast
  obtain s2 where s2: "overlap_step env s1 (Begin i) s2" "overlaps env s2 (mid @ [Finish i key r]) s" using s1(2) by (auto elim: overlaps.cases)
  obtain s3 where s3: "overlaps env s2 mid s3" "overlaps env s3 [Finish i key r] s" using overlaps_append [OF s2(2)] by blast
  have "overlap_step env s3 (Finish i key r) s" using s3(2) by (auto elim!: overlaps.cases)
  moreover have "overlap_inv env s1" "room_for env (engine_ops mid) (fst s1)" "store env (fst s1) = foldl map_step Map.empty (engine_ops pre)"
    using overlaps_run [where later = mid, OF s1(1) S0(1)] S0(2,3) by simp_all
  ultimately show ?thesis using read_linearized [of env s1 mid i s2 s3 key r s] s2(1) s3(1) assms(10) by (simp add: engine_ops_append)
qed

text \<open>A read of the demonstration store that a put of the same key, a flush and a compaction overlap\<close>

lemma demo_overlap:
  obtains e0 d' r s where "Engine_Open demo_env ''db'' demo_opts (\<lambda>_ _. 0) (\<lambda>_. 0) demo_fs = (Inr e0, d')"
    and "overlaps demo_env (e0, []) ([Run (DoPut [1] [7])] @ Begin 0 # [Run (DoPut [1] [8]), Run DoFlush, Run DoCompact] @ [Finish 0 [1] r]) s"
proof -
  obtain e0 d' r1 e1 where o: "Engine_Open demo_env ''db'' demo_opts (\<lambda>_ _. 0) (\<lambda>_. 0) demo_fs = (Inr e0, d')"
    and s1: "Put [1] [7] e0 = (r1, e1)" and c: "calm demo_env e1" by (rule demo_rotated) blast
  have k: "key_val_ok [1] [7]" "key_val_ok [1] [8]" by (simp_all add: key_val_ok_def)
  have "\<not> e_closed e1" using c by (simp add: calm_def einv_def)
  then obtain rd e2 where b: "getAt_begin e1 = (Inr rd, e2)" by (simp add: getAt_begin_def Let_def)
  obtain r3 e3 where s3: "Put [1] [8] e2 = (r3, e3)" by fastforce
  let ?e = "compactionLoop_turn demo_env (flushWorker_turn demo_env e3)"
  note f = overlap_step.finish_read [where env = demo_env and R = "[(0, rd)]" and i = 0 and rd = rd and key = "[1]" and e = ?e, OF _ refl]
  note step = overlaps.more [OF overlap_step.run]
  note h = step [OF engine_step.put [OF k(1) s1] overlaps.more [OF overlap_step.begin_read [OF _ b, of 0] step [OF engine_step.put [OF k(2) s3]
        step [OF engine_step.flush step [OF engine_step.compact overlaps.more [OF f overlaps.start]]]]]]
  show thesis by (rule that [OF o]) (use h in simp)
qed

theorem overlapping_reads_linearizable_witness:
  "\<exists>e0 d' r s. Engine_Open demo_env ''db'' demo_opts (\<lambda>_ _. 0) (\<lambda>_. 0) demo_fs = (Inr e0, d') \<and>
     overlaps demo_env (e0, []) ([Run (DoPut [1] [7])] @ Begin 0 # [Run (DoPut [1] [8]), Run DoFlush, Run DoCompact] @ [Finish 0 [1] r]) s \<and>
     (r = Inr [7] \<or> r = Inr [8])"
proof -
  obtain e0 d' r s where o: "Engine_Open demo_env ''db'' demo_opts (\<lambda>_ _. 0) (\<lambda>_. 0) demo_fs = (Inr e0, d')"
    and h: "overlaps demo_env (e0, []) ([Run (DoPut [1] [7])] @ Begin 0 # [Run (DoPut [1] [8]), Run DoFlush, Run DoCompact] @ [Finish 0 [1] r]) s"
    by (rule demo_overlap)
  let ?mid = "[Run (DoPut [1] [8]), Run DoFlush, Run DoCompact]"
  have "\<exists>n \<le> length ?mid. r = answer (foldl map_step Map.empty (engine_ops ([Run (DoPut [1] [7])] @ take n ?mid)) [1])"
    by (rule overlapping_reads_linearizable [OF demo_env_ok demo_fs_no_faults demo_setup o h]) (simp_all add: rec_weight_def new_version_def)
  then obtain n where n: "n \<le> 3" "r = answer (foldl map_step Map.empty (engine_ops ([Run (DoPut [1] [7])] @ take n ?mid)) [1])" by (metis One_nat_def length_Cons list.size(3) numeral_3_eq_3)
  have "r = Inr [7] \<or> r = Inr [8]" using n by (cases n; cases "n - 1"; cases "n - 2") (auto simp: answer_def)
  with o h show ?thesis by blast
qed

text \<open>
  C11: Tables live exactly as long as someone needs them. Whatever reads overlap whatever puts,
  flushes and compaction passes, a table has one reference for the list of tables it is in and one
  for each read under way that holds it, and its file is closed exactly when nobody holds it: no
  reader finds a table closed under it, and none is leaked.
\<close>

theorem tables_live_while_held:
  assumes "env_ok env" and "no_faults d" and "\<forall>p i. \<not> unreadable d p i" and "dir_names dir d = []"
    and "2 \<le> e_maxLevels (configured opts)" and "e_maxLevels (configured opts) < 2 ^ 63" and "1 \<le> e_l0CompactionTrigger (configured opts)"
    and "Engine_Open env dir opts rnd durs d = (Inr e0, d')" and "overlaps env (e0, []) ops (e, R)"
    and "length (engine_ops ops) < 2 ^ 28" and "sum_list (map rec_weight (concat (map (op_records 0) (engine_ops ops)))) < 2 ^ 47"
    and "p < length (e_heap e)"
  shows "tbl_refCount (e_heap e ! p) = holders e R p \<and> (tbl_released (e_heap e ! p) \<longleftrightarrow> holders e R p = 0) \<and>
    (\<forall>(i, rd) \<in> set R. p \<in> set (rd_tables rd) \<longrightarrow> \<not> tbl_released (e_heap e ! p))"
proof -
  note S0 = overlap_inv_start [OF assms(1-8,10,11)]
  have H: "heap_inv env e R" using overlaps_run [where later = "[]", OF assms(9) S0(1)] S0(2) by (simp add: overlap_inv_def)
  then have "counted env e R p" using assms(12) by (simp add: heap_inv_def)
  moreover have "\<forall>(i, rd) \<in> set R. p \<in> set (rd_tables rd) \<longrightarrow> \<not> tbl_released (e_heap e ! p)" using held_open(2) [OF H] by blast
  ultimately show ?thesis by (simp add: counted_def)
qed

lemma acquire_all_length: "length (foldl (\<lambda>h p. acquire p h) h ps) = length h"
  by (induction ps arbitrary: h) (simp_all add: acquire_def)

theorem tables_live_while_held_witness:
  "\<exists>e0 d' e rd p. Engine_Open demo_env ''db'' demo_opts (\<lambda>_ _. 0) (\<lambda>_. 0) demo_fs = (Inr e0, d') \<and>
     overlaps demo_env (e0, []) [Run (DoPut [1] [7]), Run DoFlush, Begin 0] (e, [(0, rd)]) \<and> p \<in> set (rd_tables rd) \<and>
     tbl_refCount (e_heap e ! p) = 2 \<and> \<not> tbl_released (e_heap e ! p)"
proof -
  obtain e0 d' r1 e1 e where o: "Engine_Open demo_env ''db'' demo_opts (\<lambda>_ _. 0) (\<lambda>_. 0) demo_fs = (Inr e0, d')"
    and s1: "Put [1] [7] e0 = (r1, e1)" and e: "e = flushWorker_turn demo_env e1" and c: "calm demo_env e" and ne: "e_tables e \<noteq> []" by (rule demo_flushed) blast
  have k: "key_val_ok [1] [7]" by (simp add: key_val_ok_def)
  have "\<not> e_closed e" using c by (simp add: calm_def einv_def)
  then obtain rd e2 where b: "getAt_begin e = (Inr rd, e2)" "rd_tables rd = allTablesLocked e" "allTablesLocked e2 = allTablesLocked e" "length (e_heap e2) = length (e_heap e)"
    by (simp add: getAt_begin_def Let_def allTablesLocked_def acquire_all_length)
  note step = overlaps.more [OF overlap_step.run]
  have h: "overlaps demo_env (e0, []) [Run (DoPut [1] [7]), Run DoFlush, Begin 0] (e2, [(0, rd)])"
    using step [OF engine_step.put [OF k s1] step [OF engine_step.flush overlaps.more [OF overlap_step.begin_read [OF _ b(1) [unfolded e], of 0] overlaps.start]]] by simp
  have "allTablesLocked e \<noteq> []" using ne by (simp add: allTablesLocked_def)
  then obtain p where p: "p \<in> set (allTablesLocked e)" using hd_in_set by blast
  have i: "p < length (e_heap e2)" using listed_ids [of demo_env e] c p b(4) by (auto simp: calm_def)
  have "tbl_refCount (e_heap e2 ! p) = holders e2 [(0, rd)] p \<and> (tbl_released (e_heap e2 ! p) \<longleftrightarrow> holders e2 [(0, rd)] p = 0) \<and>
    (\<forall>(i, rd) \<in> set [(0 :: nat, rd)]. p \<in> set (rd_tables rd) \<longrightarrow> \<not> tbl_released (e_heap e2 ! p))"
    by (rule tables_live_while_held [OF demo_env_ok demo_fs_no_faults demo_setup o h _ _ i]) (simp_all add: rec_weight_def new_version_def)
  moreover have "holders e2 [(0, rd)] p = 2" using p b(2,3) by (simp add: holders_def)
  ultimately show ?thesis using o h p b(2) by (intro exI [of _ e0] exI [of _ d'] exI [of _ e2] exI [of _ rd] exI [of _ p]) simp
qed

end
