(* ===== verification/Repl.thy ===== *)
theory Repl
  imports Server Disk
begin

text \<open>
  \<^verbatim>\<open>src/main.go\<close>: the command line. Standard input is a byte string (a read error ends it like the end
  of the file does, as in \<^verbatim>\<open>bufio.Scanner\<close>); what is printed is kept as a list of values, one per print
  statement. Between two commands the flush and the compaction worker may make any turns: \<open>work n\<close>
  lists those before the \<open>n\<close>-th line is read. The functions of \<^verbatim>\<open>strings\<close> the loop uses are written out
  on UTF-8 bytes. A panic of the engine ends the loop after its deferred call.
\<close>

section \<open>Definitions\<close>

subsection \<open>strings and bufio\<close>

definition asc :: "string \<Rightarrow> bytes" where
  "asc s = map of_char s"

text \<open>The UTF-8 encodings of the runes for which \<^verbatim>\<open>unicode.IsSpace\<close> holds.\<close>

definition space_runes :: "bytes list" where
  "space_runes =
     [[9], [10], [11], [12], [13], [32], [0xC2, 0x85], [0xC2, 0xA0], [0xE1, 0x9A, 0x80],
      [0xE2, 0x80, 0x80], [0xE2, 0x80, 0x81], [0xE2, 0x80, 0x82], [0xE2, 0x80, 0x83], [0xE2, 0x80, 0x84], [0xE2, 0x80, 0x85],
      [0xE2, 0x80, 0x86], [0xE2, 0x80, 0x87], [0xE2, 0x80, 0x88], [0xE2, 0x80, 0x89], [0xE2, 0x80, 0x8A],
      [0xE2, 0x80, 0xA8], [0xE2, 0x80, 0xA9], [0xE2, 0x80, 0xAF], [0xE2, 0x81, 0x9F], [0xE3, 0x80, 0x80]]"

definition leading_space :: "bytes \<Rightarrow> nat" where
  "leading_space s = (case find (\<lambda>r. take (length r) s = r) space_runes of None \<Rightarrow> 0 | Some r \<Rightarrow> length r)"

definition trailing_space :: "bytes \<Rightarrow> nat" where
  "trailing_space s =
     (case find (\<lambda>r. length r \<le> length s \<and> drop (length s - length r) s = r) space_runes of None \<Rightarrow> 0 | Some r \<Rightarrow> length r)"

function trim_left :: "bytes \<Rightarrow> bytes" where
  "trim_left s = (let n = leading_space s in if s = [] \<or> n = 0 then s else trim_left (drop n s))"
  by pat_completeness auto
termination
  by (relation "measure length") auto

function trim_right :: "bytes \<Rightarrow> bytes" where
  "trim_right s = (let n = trailing_space s in if s = [] \<or> n = 0 then s else trim_right (take (length s - n) s))"
  by pat_completeness auto
termination
  by (relation "measure length") auto

declare trim_left.simps [simp del] trim_right.simps [simp del]

definition TrimSpace :: "bytes \<Rightarrow> bytes" where
  "TrimSpace s = trim_right (trim_left s)"

text \<open>\<^verbatim>\<open>strings.Fields\<close>; \<open>cur\<close> is the field that is being read.\<close>

function fields_from :: "bytes \<Rightarrow> bytes \<Rightarrow> bytes list" where
  "fields_from cur s =
     (if s = [] then (if cur = [] then [] else [cur])
      else if leading_space s = 0 then fields_from (cur @ [hd s]) (tl s)
      else (if cur = [] then [] else [cur]) @ fields_from [] (drop (leading_space s) s))"
  by pat_completeness auto
termination
  by (relation "measure (\<lambda>(cur, s). length s)") auto

declare fields_from.simps [simp del]

definition Fields :: "bytes \<Rightarrow> bytes list" where
  "Fields s = fields_from [] s"

text \<open>\<^verbatim>\<open>strings.SplitN(s, " ", n)\<close> for a positive \<open>n\<close>\<close>

fun SplitN :: "nat \<Rightarrow> bytes \<Rightarrow> bytes list" where
  "SplitN 0 s = [s]"
| "SplitN (Suc 0) s = [s]"
| "SplitN (Suc n) s =
     (let tail = dropWhile (\<lambda>c. c \<noteq> 32) s
      in if tail = [] then [s] else takeWhile (\<lambda>c. c \<noteq> 32) s # SplitN n (tl tail))"

text \<open>
  \<^verbatim>\<open>strings.ToUpper\<close> as far as ASCII letters go: apart from a to z only U+0131 and U+017F have an upper
  case in ASCII. Every other rune becomes or stays one outside ASCII, and no command has one.
\<close>

fun ToUpper :: "bytes \<Rightarrow> bytes" where
  "ToUpper [] = []"
| "ToUpper (c # s) =
     (if c = 0xC4 \<and> s \<noteq> [] \<and> hd s = 0xB1 then 73 # ToUpper (tl s)
      else if c = 0xC5 \<and> s \<noteq> [] \<and> hd s = 0xBF then 83 # ToUpper (tl s)
      else (if 97 \<le> c \<and> c \<le> 122 then c - 32 else c) # ToUpper s)"

definition Trim_quotes :: "bytes \<Rightarrow> bytes" where
  "Trim_quotes s = rev (dropWhile (\<lambda>c. c = 34) (rev (dropWhile (\<lambda>c. c = 34) s)))"

definition MaxScanTokenSize :: nat where
  "MaxScanTokenSize = 64 * 1024"

text \<open>
  One call of \<^verbatim>\<open>Scan\<close> with \<^verbatim>\<open>ScanLines\<close>: the next line without its end, and what is left of the input.
  It returns false at the end of the input and on a line that does not fit the buffer.
\<close>

definition Scanner_Scan :: "bytes \<Rightarrow> (bytes \<times> bytes) option" where
  "Scanner_Scan input =
     (let line = takeWhile (\<lambda>c. c \<noteq> 10) input
      in if input = [] \<or> MaxScanTokenSize \<le> length line then None
         else Some (if line \<noteq> [] \<and> last line = 13 then butlast line else line, tl (dropWhile (\<lambda>c. c \<noteq> 10) input)))"

subsection \<open>The loop\<close>

datatype printed =
    Ready string | Prompt bool | Newline | Usage string | Failed error | OK | Quoted bytes | InvalidLimit error
  | EntryLine bytes bytes | ScanFailed error | Entries nat | Note string | StatsLine Stats | Unknown bytes

record repl =
  rp_snap :: "Snapshot option"
  rp_e :: Engine
  rp_out :: "printed list"

datatype flow = Continue | Return | Panic

definition say :: "printed list \<Rightarrow> repl \<Rightarrow> repl" where
  "say os st = st\<lparr>rp_out := rp_out st @ os\<rparr>"

text \<open>An error is printed, unless it stands for a panic.\<close>

definition complain :: "(error \<Rightarrow> printed) \<Rightarrow> error \<Rightarrow> repl \<Rightarrow> flow \<times> repl" where
  "complain f err st = (if errors_Is err EPanic then (Panic, st) else (Continue, say [f err] st))"

definition repl_put :: "bytes list \<Rightarrow> repl \<Rightarrow> flow \<times> repl" where
  "repl_put fs st =
     (if length fs < 3 then (Continue, say [Usage ''PUT <key> <value>''] st)
      else case Put (fs ! 1) (fs ! 2) (rp_e st) of
             (Some err, e1) \<Rightarrow> complain Failed err (st\<lparr>rp_e := e1\<rparr>)
           | (None, e1) \<Rightarrow> (Continue, say [OK] (st\<lparr>rp_e := e1\<rparr>)))"

definition repl_get :: "env \<Rightarrow> bytes list \<Rightarrow> repl \<Rightarrow> flow \<times> repl" where
  "repl_get env fs st =
     (if length fs < 2 then (Continue, say [Usage ''GET <key>''] st)
      else case (case rp_snap st of Some s \<Rightarrow> Snapshot_Get env s (fs ! 1) (rp_e st) | None \<Rightarrow> Get env (fs ! 1) (rp_e st)) of
             (Inl err, e1) \<Rightarrow> complain Failed err (st\<lparr>rp_e := e1\<rparr>)
           | (Inr v, e1) \<Rightarrow> (Continue, say [Quoted v] (st\<lparr>rp_e := e1\<rparr>)))"

definition repl_delete :: "bytes list \<Rightarrow> repl \<Rightarrow> flow \<times> repl" where
  "repl_delete fs st =
     (if length fs < 2 then (Continue, say [Usage ''DELETE <key>''] st)
      else case Delete (fs ! 1) (rp_e st) of
             (Some err, e1) \<Rightarrow> complain Failed err (st\<lparr>rp_e := e1\<rparr>)
           | (None, e1) \<Rightarrow> (Continue, say [OK] (st\<lparr>rp_e := e1\<rparr>)))"

function runScan_loop :: "env \<Rightarrow> int \<Rightarrow> nat \<Rightarrow> ScanIterator \<Rightarrow> printed list \<times> error option \<times> ScanIterator" where
  "runScan_loop env limit cnt it =
     (if limit = 0 \<or> int cnt < limit
      then case ScanIterator_Next env it of
             (Inl err, it1) \<Rightarrow> ([], Some err, it1)
           | (Inr None, it1) \<Rightarrow> ([Entries cnt], None, it1)
           | (Inr (Some (key, value)), it1) \<Rightarrow> (let (os, r, it2) = runScan_loop env limit (cnt + 1) it1 in (EntryLine key value # os, r, it2))
      else ([Entries cnt], None, it))"
  by pat_completeness auto
termination
  by (relation "measure (\<lambda>(env, limit, cnt, it). scan_work (it_heap it))")
     (auto simp: ScanIterator_Next_def intro: scan_next_work split: prod.splits)

declare runScan_loop.simps [simp del]

definition runScan :: "env \<Rightarrow> bytes option \<Rightarrow> bytes option \<Rightarrow> int \<Rightarrow> repl \<Rightarrow> flow \<times> repl" where
  "runScan env start end limit st =
     (case (case rp_snap st of Some s \<Rightarrow> Snapshot_Scan env s start end (rp_e st) | None \<Rightarrow> Engine_Scan env start end (rp_e st)) of
        (Inl err, e1) \<Rightarrow> complain Failed err (st\<lparr>rp_e := e1\<rparr>)
      | (Inr it, e1) \<Rightarrow>
          let (os, r, it1) = runScan_loop env limit 0 it;
              st1 = say os (st\<lparr>rp_e := snd (ScanIterator_Close it1 e1)\<rparr>)
          in case r of None \<Rightarrow> (Continue, st1) | Some err \<Rightarrow> complain ScanFailed err st1)"

definition scan_arg :: "nat \<Rightarrow> bytes list \<Rightarrow> bytes option" where
  "scan_arg i args = (if i < length args \<and> args ! i \<noteq> [34, 34] then Some (Trim_quotes (args ! i)) else None)"

definition repl_scan :: "env \<Rightarrow> bytes list \<Rightarrow> repl \<Rightarrow> flow \<times> repl" where
  "repl_scan env fs st =
     (let words = (if length fs \<ge> 2 then (if length fs = 3 then fs ! 1 @ [32] @ fs ! 2 else fs ! 1) else []);
          args = Fields words
      in case (if length args \<ge> 3 then Atoi (args ! 2) else Inr 0) of
           Inl err \<Rightarrow> (Continue, say [InvalidLimit err] st)
         | Inr limit \<Rightarrow> runScan env (scan_arg 0 args) (scan_arg 1 args) limit st)"

definition repl_snapshot :: "repl \<Rightarrow> flow \<times> repl" where
  "repl_snapshot st =
     (if rp_snap st \<noteq> None then (Continue, say [Note ''already inside a snapshot; use SNAPSHOT-END first''] st)
      else case Engine_Snapshot (rp_e st) of
             (Inl err, e1) \<Rightarrow> complain Failed err (st\<lparr>rp_e := e1\<rparr>)
           | (Inr s, e1) \<Rightarrow>
               (Continue, say [Note ''snapshot open: GET and SCAN now read as of this point in time''] (st\<lparr>rp_e := e1, rp_snap := Some s\<rparr>)))"

definition repl_snapshot_end :: "repl \<Rightarrow> flow \<times> repl" where
  "repl_snapshot_end st =
     (case rp_snap st of
        None \<Rightarrow> (Continue, say [Note ''no snapshot is open''] st)
      | Some s \<Rightarrow> (Continue, say [Note ''snapshot closed''] (st\<lparr>rp_e := snd (Snapshot_Close s (rp_e st)), rp_snap := None\<rparr>)))"

definition repl_stats :: "repl \<Rightarrow> flow \<times> repl" where
  "repl_stats st =
     (case Engine_Stats (rp_e st) of
        (Inl err, e1) \<Rightarrow> (Panic, st\<lparr>rp_e := e1\<rparr>)
      | (Inr s, e1) \<Rightarrow> (Continue, say [StatsLine s] (st\<lparr>rp_e := e1\<rparr>)))"

text \<open>The body of the loop behind \<^verbatim>\<open>scanner.Scan\<close>\<close>

definition repl_line :: "env \<Rightarrow> bytes \<Rightarrow> repl \<Rightarrow> flow \<times> repl" where
  "repl_line env text st =
     (let line = TrimSpace text
      in if line = [] then (Continue, st)
         else let fs = SplitN 3 line; cmd = ToUpper (fs ! 0)
              in if cmd = asc ''PUT'' then repl_put fs st
                 else if cmd = asc ''GET'' then repl_get env fs st
                 else if cmd = asc ''DELETE'' \<or> cmd = asc ''DEL'' then repl_delete fs st
                 else if cmd = asc ''SCAN'' then repl_scan env fs st
                 else if cmd = asc ''SNAPSHOT'' then repl_snapshot st
                 else if cmd = asc ''SNAPSHOT-END'' then repl_snapshot_end st
                 else if cmd = asc ''STATS'' then repl_stats st
                 else if cmd = asc ''EXIT'' \<or> cmd = asc ''QUIT'' then (Return, st)
                 else (Continue, say [Unknown (fs ! 0)] st))"

text \<open>Turns of the two workers\<close>

definition worker_turn :: "env \<Rightarrow> Engine \<Rightarrow> bool \<Rightarrow> Engine" where
  "worker_turn env e flush = (if flush then flushWorker_turn env e else compactionLoop_turn env e)"

lemma Scanner_Scan_shorter: "Scanner_Scan input = Some (line, more_in) \<Longrightarrow> length more_in < length input"
proof -
  assume a: "Scanner_Scan input = Some (line, more_in)"
  then have "input \<noteq> []" "more_in = tl (dropWhile (\<lambda>c. c \<noteq> 10) input)" by (auto simp: Scanner_Scan_def Let_def split: if_splits)
  then show ?thesis using length_dropWhile_le [of "\<lambda>c. c \<noteq> 10" input] by (cases input) auto
qed

function repl_loop :: "env \<Rightarrow> (nat \<Rightarrow> bool list) \<Rightarrow> nat \<Rightarrow> bytes \<Rightarrow> repl \<Rightarrow> flow \<times> repl" where
  "repl_loop env work n input st =
     (let st1 = say [Prompt (rp_snap st \<noteq> None)] (st\<lparr>rp_e := foldl (worker_turn env) (rp_e st) (work n)\<rparr>)
      in case Scanner_Scan input of
           None \<Rightarrow> (Return, say [Newline] st1)
         | Some (line, more_in) \<Rightarrow>
             (case repl_line env line st1 of
                (Continue, st2) \<Rightarrow> repl_loop env work (n + 1) more_in st2
              | (fl, st2) \<Rightarrow> (fl, st2)))"
  by pat_completeness auto
termination
  by (relation "measure (\<lambda>(env, work, n, input, st). length input)") (auto dest: Scanner_Scan_shorter)

declare repl_loop.simps [simp del]

definition repl_usage :: "printed list" where
  "repl_usage =
     [Note ''commands: PUT <key> <value> | GET <key> | DELETE <key> | SCAN <start> <end> [limit] | SNAPSHOT | STATS | EXIT'',
      Note ''SCAN uses empty string \"\" for an unbounded start/end, e.g.: SCAN \"\" \"\"'']"

definition runREPL :: "env \<Rightarrow> (nat \<Rightarrow> bool list) \<Rightarrow> string \<Rightarrow> bytes \<Rightarrow> Engine \<Rightarrow> flow \<times> repl" where
  "runREPL env work dir input e =
     (let (fl, st) = repl_loop env work 0 input \<lparr>rp_snap = None, rp_e = e, rp_out = Ready dir # repl_usage\<rparr>
      in case rp_snap st of
           None \<Rightarrow> (fl, st)
         | Some s \<Rightarrow> let (s1, e1) = Snapshot_Close s (rp_e st) in (fl, st\<lparr>rp_snap := Some s1, rp_e := e1\<rparr>))"

section \<open>Snapshots of a session\<close>

text \<open>The registered snapshots while the loop runs: those from before and the one that is open.\<close>

definition pinned :: "(u64 \<rightharpoonup> int) \<Rightarrow> repl \<Rightarrow> bool" where
  "pinned A st \<longleftrightarrow> (case rp_snap st of
       None \<Rightarrow> map_of (e_activeSnapshots (rp_e st)) = A
     | Some s \<Rightarrow> \<not> sn_closed s \<and> map_of (e_activeSnapshots (rp_e st)) = A(sn_seq s \<mapsto> (case A (sn_seq s) of None \<Rightarrow> 0 | Some n \<Rightarrow> n) + 1))"

lemma pinned_frozen: "pinned A st \<Longrightarrow> frozen e = frozen (rp_e st) \<Longrightarrow> pinned A (st\<lparr>rp_e := e\<rparr>)"
  by (auto simp: pinned_def frozen_def split: option.splits)

lemma pinned_say [simp]: "pinned A (say os st) = pinned A st"
  by (simp add: pinned_def say_def split: option.split)

lemma pinned_complain [simp]: "pinned A (snd (complain f err st)) = pinned A st"
  by (simp add: complain_def)

lemma pinned_open:
  assumes "pinned A st" and "rp_snap st = None" and "Engine_Snapshot (rp_e st) = (Inr s, e)"
  shows "pinned A (st\<lparr>rp_e := e, rp_snap := Some s\<rparr>)"
  using assms by (auto simp: pinned_def Engine_Snapshot_def Snapshot_load_def Snapshot_register_def pins_def Inc_def Adjust_def update_conv' Let_def split: if_splits)

lemma pinned_close:
  assumes "pinned A st" and "rp_snap st = Some s" and "\<forall>n \<in> ran A. 0 < n" and "Snapshot_Close s (rp_e st) = (s', e)"
  shows "map_of (e_activeSnapshots e) = A"
proof -
  let ?act = "e_activeSnapshots (rp_e st)" and ?n = "case A (sn_seq s) of None \<Rightarrow> 0 | Some n \<Rightarrow> n"
  have P: "\<not> sn_closed s" "map_of ?act = A(sn_seq s \<mapsto> ?n + 1)" using assms(1,2) by (auto simp: pinned_def)
  have p: "pins (sn_seq s) (rp_e st) = ?n + 1" unfolding pins_def P(2) by simp
  have e: "e_activeSnapshots e = (if ?n \<le> 0 then AList.delete (sn_seq s) ?act else AList.update (sn_seq s) ?n ?act)"
    using assms(4) P(1) unfolding Snapshot_Close_def p by (auto simp: Adjust_def Let_def)
  show ?thesis
  proof (cases "A (sn_seq s)")
    case None
    then show ?thesis unfolding e by (auto simp: delete_conv' P(2))
  next
    case (Some n)
    then have "0 < n" using assms(3) by (simp add: ranI)
    with Some show ?thesis unfolding e by (auto simp: update_conv' P(2))
  qed
qed

lemma pinned_put: "pinned A st \<Longrightarrow> pinned A (snd (repl_put fs st))"
  by (auto simp: repl_put_def dest!: Put_frozen intro: pinned_frozen split: prod.splits option.splits)

lemma pinned_delete: "pinned A st \<Longrightarrow> pinned A (snd (repl_delete fs st))"
  by (auto simp: repl_delete_def dest!: Delete_frozen intro: pinned_frozen split: prod.splits option.splits)

lemma pinned_get:
  assumes "pinned A st"
  shows "pinned A (snd (repl_get env fs st))"
proof -
  obtain r e where g: "(case rp_snap st of Some s \<Rightarrow> Snapshot_Get env s (fs ! 1) (rp_e st) | None \<Rightarrow> Get env (fs ! 1) (rp_e st)) = (r, e)" by fastforce
  have "frozen e = frozen (rp_e st)" using g Get_frozen Snapshot_Get_frozen by (auto split: option.splits)
  from pinned_frozen [OF assms this] assms show ?thesis unfolding repl_get_def g by (simp split: sum.split)
qed

lemma pinned_runScan:
  assumes "pinned A st"
  shows "pinned A (snd (runScan env a b limit st))"
proof -
  obtain r e where g: "(case rp_snap st of Some s \<Rightarrow> Snapshot_Scan env s a b (rp_e st) | None \<Rightarrow> Engine_Scan env a b (rp_e st)) = (r, e)" by fastforce
  have e: "frozen e = frozen (rp_e st)" using g Scan_frozen by (auto split: option.splits)
  have "pinned A (st\<lparr>rp_e := snd (ScanIterator_Close it e)\<rparr>)" for it using pinned_frozen [OF assms] e by simp
  with pinned_frozen [OF assms e] show ?thesis unfolding runScan_def g by (simp add: Let_def split: sum.split prod.split option.split)
qed

lemma pinned_scan: "pinned A st \<Longrightarrow> pinned A (snd (repl_scan env fs st))"
  by (simp add: repl_scan_def Let_def pinned_runScan split: sum.split)

lemma pinned_snapshot:
  assumes "pinned A st"
  shows "pinned A (snd (repl_snapshot st))"
proof (cases "rp_snap st")
  case None
  obtain r e where s: "Engine_Snapshot (rp_e st) = (r, e)" by fastforce
  have "e = rp_e st" if "r = Inl x" for x using s that by (auto simp: Engine_Snapshot_def split: sum.splits)
  with s assms None pinned_open [OF assms None] show ?thesis by (auto simp: repl_snapshot_def split: sum.splits)
qed (use assms in \<open>simp add: repl_snapshot_def\<close>)

lemma pinned_snapshot_end:
  assumes "pinned A st" and "\<forall>n \<in> ran A. 0 < n"
  shows "pinned A (snd (repl_snapshot_end st))"
proof (cases "rp_snap st")
  case (Some s)
  obtain s' e where c: "Snapshot_Close s (rp_e st) = (s', e)" by fastforce
  from pinned_close [OF assms(1) Some assms(2) c] Some c show ?thesis by (simp add: repl_snapshot_end_def) (simp add: pinned_def)
qed (use assms in \<open>simp add: repl_snapshot_end_def\<close>)

lemma pinned_stats: "pinned A st \<Longrightarrow> pinned A (snd (repl_stats st))"
  by (auto simp: repl_stats_def dest!: Stats_frozen intro: pinned_frozen split: sum.splits prod.splits)

lemma pinned_line: "pinned A st \<Longrightarrow> \<forall>n \<in> ran A. 0 < n \<Longrightarrow> pinned A (snd (repl_line env text st))"
  by (simp add: repl_line_def Let_def pinned_put pinned_get pinned_delete pinned_scan pinned_snapshot pinned_snapshot_end pinned_stats)

lemma worker_frozen: "frozen (foldl (worker_turn env) e ts) = frozen e"
  by (induction ts arbitrary: e) (simp_all add: worker_turn_def)

lemma repl_loop_step:
  assumes "st1 = say [Prompt (rp_snap st \<noteq> None)] (st\<lparr>rp_e := foldl (worker_turn env) (rp_e st) (work n)\<rparr>)"
  shows "Scanner_Scan input = None \<Longrightarrow> repl_loop env work n input st = (Return, say [Newline] st1)"
    and "Scanner_Scan input = Some (line, more_in) \<Longrightarrow> repl_line env line st1 = (Continue, st2) \<Longrightarrow>
      repl_loop env work n input st = repl_loop env work (n + 1) more_in st2"
    and "Scanner_Scan input = Some (line, more_in) \<Longrightarrow> repl_line env line st1 = (fl, st2) \<Longrightarrow> fl \<noteq> Continue \<Longrightarrow> repl_loop env work n input st = (fl, st2)"
  using assms by (simp_all add: repl_loop.simps [of env work n input st] Let_def split: flow.splits)

lemma pinned_loop:
  assumes "\<forall>n \<in> ran A. 0 < n" and "pinned A st"
  shows "pinned A (snd (repl_loop env work n input st))"
  using assms(2)
proof (induction "length input" arbitrary: n input st rule: less_induct)
  case less
  let ?st = "say [Prompt (rp_snap st \<noteq> None)] (st\<lparr>rp_e := foldl (worker_turn env) (rp_e st) (work n)\<rparr>)"
  note step = repl_loop_step [where env = env and st = st and work = work and n = n and input = input, OF refl]
  have P: "pinned A ?st" using pinned_frozen [OF less.prems worker_frozen] by simp
  show ?case
  proof (cases "Scanner_Scan input")
    case None
    from step(1) [OF this] P show ?thesis by simp
  next
    case (Some lr)
    then obtain line more_in where lr: "Scanner_Scan input = Some (line, more_in)" by (cases lr) simp
    obtain fl st2 where s2: "repl_line env line ?st = (fl, st2)" by (rule prod.exhaust)
    have P2: "pinned A st2" using pinned_line [OF P assms(1), of env line] s2 by simp
    show ?thesis
    proof (cases "fl = Continue")
      case True
      with step(2) [OF lr] s2 less.hyps [OF Scanner_Scan_shorter [OF lr] P2] show ?thesis by simp
    next
      case False
      with step(3) [OF lr s2] P2 show ?thesis by simp
    qed
  qed
qed

section \<open>Sessions against the map\<close>

function input_lines :: "bytes \<Rightarrow> bytes list" where
  "input_lines input = (case Scanner_Scan input of None \<Rightarrow> [] | Some (line, more_in) \<Rightarrow> line # input_lines more_in)"
  by pat_completeness auto
termination
  by (relation "measure length") (auto dest: Scanner_Scan_shorter)

declare input_lines.simps [simp del]

definition words_of :: "bytes \<Rightarrow> bytes list" where
  "words_of text = SplitN 3 (TrimSpace text)"

definition command :: "bytes \<Rightarrow> bytes option" where
  "command text = (if TrimSpace text = [] then None else Some (ToUpper (words_of text ! 0)))"

definition scan_args :: "bytes list \<Rightarrow> bytes list" where
  "scan_args fs = Fields (if length fs \<ge> 2 then (if length fs = 3 then fs ! 1 @ [32] @ fs ! 2 else fs ! 1) else [])"

text \<open>What a line prints and does when the store is a map and no snapshot is open.\<close>

definition spec_line :: "bytes \<Rightarrow> (bytes \<Rightarrow> bytes option) \<Rightarrow> printed list \<times> (bytes \<Rightarrow> bytes option)" where
  "spec_line text m =
     (let cmd = command text; fs = words_of text; key = fs ! 1; n = length fs
      in if cmd = None \<or> cmd = Some (asc ''EXIT'') \<or> cmd = Some (asc ''QUIT'') then ([], m)
         else if cmd = Some (asc ''PUT'') then
           (if n < 3 then ([Usage ''PUT <key> <value>''], m) else if key = [] then ([Failed ErrEmptyKey], m) else ([OK], m(key \<mapsto> fs ! 2)))
         else if cmd = Some (asc ''GET'') then
           (if n < 2 then ([Usage ''GET <key>''], m) else if key = [] then ([Failed ErrEmptyKey], m)
            else (case m key of None \<Rightarrow> [Failed ErrNotFound] | Some v \<Rightarrow> [Quoted v], m))
         else if cmd = Some (asc ''DELETE'') \<or> cmd = Some (asc ''DEL'') then
           (if n < 2 then ([Usage ''DELETE <key>''], m) else if key = [] then ([Failed ErrEmptyKey], m) else ([OK], m(key := None)))
         else if cmd = Some (asc ''SCAN'') then
           (let args = scan_args fs
            in case (if length args \<ge> 3 then Atoi (args ! 2) else Inr 0) of
                 Inl err \<Rightarrow> ([InvalidLimit err], m)
               | Inr limit \<Rightarrow>
                   let es = limited limit (entries_of m (scan_arg 0 args) (scan_arg 1 args))
                   in (map (\<lambda>x. EntryLine (fst x) (snd x)) es @ [Entries (length es)], m))
         else if cmd = Some (asc ''SNAPSHOT-END'') then ([Note ''no snapshot is open''], m)
         else ([Unknown (fs ! 0)], m))"

definition exits :: "bytes \<Rightarrow> bool" where
  "exits text \<longleftrightarrow> command text = Some (asc ''EXIT'') \<or> command text = Some (asc ''QUIT'')"

definition plain :: "bytes \<Rightarrow> bool" where
  "plain text \<longleftrightarrow> command text \<noteq> Some (asc ''SNAPSHOT'') \<and> command text \<noteq> Some (asc ''STATS'')"

fun session :: "bytes list \<Rightarrow> (bytes \<Rightarrow> bytes option) \<Rightarrow> printed list \<times> (bytes \<Rightarrow> bytes option)" where
  "session [] m = ([Prompt False, Newline], m)"
| "session (l # ls) m =
     (let (os, m1) = spec_line l m
      in if exits l then (Prompt False # os, m1) else let (os2, m2) = session ls m1 in (Prompt False # os @ os2, m2))"

text \<open>The steps of the engine a session makes.\<close>

definition line_ops :: "bytes \<Rightarrow> engine_op list" where
  "line_ops text =
     (let cmd = command text; fs = words_of text; key = fs ! 1
      in if cmd = Some (asc ''PUT'') \<and> length fs \<ge> 3 \<and> key \<noteq> [] then [DoPut key (fs ! 2)]
         else if cmd = Some (asc ''GET'') \<and> length fs \<ge> 2 \<and> key \<noteq> [] then [DoGet key]
         else if (cmd = Some (asc ''DELETE'') \<or> cmd = Some (asc ''DEL'')) \<and> length fs \<ge> 2 \<and> key \<noteq> [] then [DoDelete key]
         else [])"

definition turn_ops :: "bool list \<Rightarrow> engine_op list" where
  "turn_ops ts = map (\<lambda>flush. if flush then DoFlush else DoCompact) ts"

fun session_ops :: "(nat \<Rightarrow> bool list) \<Rightarrow> nat \<Rightarrow> bytes list \<Rightarrow> engine_op list" where
  "session_ops work n [] = turn_ops (work n)"
| "session_ops work n (l # ls) = turn_ops (work n) @ line_ops l @ (if exits l then [] else session_ops work (n + 1) ls)"

lemma asc_inj [simp]: "asc s = asc t \<longleftrightarrow> s = t"
proof -
  have "c = d" if "(of_char c :: 8 word) = of_char d" for c d
  proof -
    have "unat (of_char x :: 8 word) = of_char x" for x
    proof -
      have "unat (of_nat (of_char x) :: 8 word) = of_char x" by (simp add: unat_of_nat del: of_nat_of_char)
      then show ?thesis by (simp only: of_nat_of_char)
    qed
    with that have "(of_char c :: nat) = of_char d" by metis
    then show ?thesis by simp
  qed
  then have "inj (of_char :: char \<Rightarrow> 8 word)" by (rule injI)
  then show ?thesis by (simp add: asc_def inj_map_eq_map)
qed

lemma length_trim: "length (trim_left s) \<le> length s" "length (trim_right s) \<le> length s"
proof -
  show "length (trim_left s) \<le> length s"
  proof (induction s rule: trim_left.induct)
    case (1 s)
    then show ?case by (subst trim_left.simps) (auto simp: Let_def intro: order_trans)
  qed
  show "length (trim_right s) \<le> length s"
  proof (induction s rule: trim_right.induct)
    case (1 s)
    then show ?case by (subst trim_right.simps) (auto simp: Let_def intro: order_trans)
  qed
qed

lemma length_SplitN: "w \<in> set (SplitN n s) \<Longrightarrow> length w \<le> length s"
proof (induction n s rule: SplitN.induct)
  case (3 n s)
  have "length (tl (dropWhile (\<lambda>c. c \<noteq> 32) s)) \<le> length s" using length_dropWhile_le [of "\<lambda>c. c \<noteq> 32" s] by simp
  moreover have "length (takeWhile (\<lambda>c. c \<noteq> 32) s) \<le> length s" by (rule length_takeWhile_le)
  ultimately show ?case using 3 by (auto simp: Let_def split: if_splits intro: order_trans)
qed simp_all

lemma word_short:
  assumes "length text < 2 ^ 29" and "i < length (words_of text)"
  shows "length (words_of text ! i) < 2 ^ 29"
  using length_SplitN [of "words_of text ! i" 3 "TrimSpace text"] length_trim(1) [of "text"] length_trim(2) [of "trim_left text"] nth_mem [OF assms(2)] assms(1)
  by (simp add: words_of_def TrimSpace_def)

lemma short_lines: "l \<in> set (input_lines input) \<Longrightarrow> length l < 2 ^ 29"
proof (induction input rule: input_lines.induct)
  case (1 input)
  have "length line < 2 ^ 29" if "Scanner_Scan input = Some (line, more_in)" for line more_in
    using that by (auto simp: Scanner_Scan_def MaxScanTokenSize_def Let_def split: if_splits)
  moreover have "length l < 2 ^ 29" if s: "Scanner_Scan input = Some (line, more_in)" and l: "l \<in> set (input_lines more_in)" for line more_in
    by (rule "1.IH" [OF s refl l])
  moreover have "l \<in> set (case Scanner_Scan input of None \<Rightarrow> [] | Some (line, more_in) \<Rightarrow> line # input_lines more_in)"
    using "1.prems" by (simp only: input_lines.simps [of input])
  ultimately show ?case by (cases "Scanner_Scan input") auto
qed

text \<open>A store, and a state of the loop, that stands for a map and satisfies \<open>J\<close>, with room for the steps to come.\<close>

definition stands :: "env \<Rightarrow> (Engine \<Rightarrow> bool) \<Rightarrow> engine_op list \<Rightarrow> Engine \<Rightarrow> (bytes \<Rightarrow> bytes option) \<Rightarrow> bool" where
  "stands env J ops e m \<longleftrightarrow> calm env e \<and> J e \<and> store env e = m \<and> room_for env ops e"

definition tracks :: "env \<Rightarrow> (Engine \<Rightarrow> bool) \<Rightarrow> engine_op list \<Rightarrow> repl \<Rightarrow> (bytes \<Rightarrow> bytes option) \<Rightarrow> bool" where
  "tracks env J ops st m \<longleftrightarrow> rp_snap st = None \<and> stands env J ops (rp_e st) m"

lemma tracks_say [simp]: "tracks env J ops (say os st) m = tracks env J ops st m" "rp_out (say os st) = rp_out st @ os"
  by (simp_all add: tracks_def stands_def say_def)

text \<open>What a command does to a state that stands for a map.\<close>

definition performs :: "env \<Rightarrow> (Engine \<Rightarrow> bool) \<Rightarrow> engine_op list \<Rightarrow> repl \<Rightarrow> printed list \<times> (bytes \<Rightarrow> bytes option) \<Rightarrow> flow \<times> repl \<Rightarrow> bool" where
  "performs env J ops st spec out \<longleftrightarrow> fst out = Continue \<and> tracks env J ops (snd out) (snd spec) \<and> rp_out (snd out) = rp_out st @ fst spec"

lemma runScan_loop_entries:
  "pair_loop env limit results it = (Inr out, it1) \<Longrightarrow>
   \<exists>es. out = results @ es \<and>
     runScan_loop env limit (length results) it = (map (\<lambda>x. EntryLine (fst x) (snd x)) es @ [Entries (length out)], None, it1)"
proof (induction env limit results it rule: pair_loop.induct)
  case (1 env limit results it)
  obtain r it2 where n: "ScanIterator_Next env it = (r, it2)" by (rule prod.exhaust)
  show ?case
  proof (cases "limit = 0 \<or> int (length results) < limit")
    case go: True
    show ?thesis
    proof (cases r)
      case (Inl err)
      then show ?thesis using "1.prems" n go by (simp add: pair_loop.simps [of env limit results it])
    next
      case (Inr o1)
      show ?thesis
      proof (cases o1)
        case None
        then show ?thesis using "1.prems" n go Inr by (simp add: pair_loop.simps [of env limit results it] runScan_loop.simps [of env limit _ it])
      next
        case (Some kv)
        obtain key v where kv: "kv = (key, v)" by (rule prod.exhaust)
        let ?results = "results @ [(key, v)]"
        have "pair_loop env limit ?results it2 = (Inr out, it1)"
          using "1.prems" n go Inr Some kv by (simp add: pair_loop.simps [of env limit results it])
        then obtain es where es: "out = ?results @ es"
          "runScan_loop env limit (length ?results) it2 = (map (\<lambda>x. EntryLine (fst x) (snd x)) es @ [Entries (length out)], None, it1)"
          using "1.IH" [OF go n [symmetric] Inr Some] unfolding kv by blast
        then show ?thesis using n go Inr Some kv
          by (intro exI [of _ "(key, v) # es"]) (simp add: runScan_loop.simps [of env limit _ it])
      qed
    qed
  next
    case False
    then have "runScan_loop env limit (length results) it = ([Entries (length results)], None, it)"
      by (simp add: runScan_loop.simps [of env limit "length results" it])
    moreover have "pair_loop env limit results it = (Inr results, it)" using False by (simp add: pair_loop.simps [of env limit results it])
    ultimately show ?thesis using "1.prems" by simp
  qed
qed

lemma repl_scan_args:
  "repl_scan env fs st = (case (if length (scan_args fs) \<ge> 3 then Atoi (scan_args fs ! 2) else Inr 0) of
      Inl err \<Rightarrow> (Continue, say [InvalidLimit err] st)
    | Inr limit \<Rightarrow> runScan env (scan_arg 0 (scan_args fs)) (scan_arg 1 (scan_args fs)) limit st)"
  by (simp only: repl_scan_def Let_def scan_args_def)

lemma input_lines_step:
  "Scanner_Scan input = None \<Longrightarrow> input_lines input = []"
  "Scanner_Scan input = Some (line, more_in) \<Longrightarrow> input_lines input = line # input_lines more_in"
  by (simp_all add: input_lines.simps [of input])

text \<open>What a session keeps of the engine: anything the steps of the engine and the counting of metrics keep.\<close>

locale steady =
  fixes env :: env and J :: "Engine \<Rightarrow> bool"
  assumes step_keeps: "calm env e \<Longrightarrow> roomy env e \<Longrightarrow> J e \<Longrightarrow> small_op oper \<Longrightarrow> engine_step env e oper e' \<Longrightarrow> J e'"
    and metrics_keep: "J e \<Longrightarrow> J (e\<lparr>e_reg := reg, e_now := n\<rparr>)"
begin

lemma count_keeps: "J e \<Longrightarrow> J (Inc p e)" "J e \<Longrightarrow> J (Observe p e)" "J e \<Longrightarrow> J (e\<lparr>e_reg := reg\<rparr>)"
  using metrics_keep [of e "e_now e"] metrics_keep [of e "e_now e + 1"] by (simp_all add: Inc_def Observe_def)

lemma stands_step:
  assumes "stands env J (oper # ops) e m" and "small_op oper" and "engine_step env e oper e'"
  shows "stands env J ops e' (map_step m oper)"
proof -
  have T: "calm env e" "room_for env (oper # ops) e" "store env e = m" "J e" using assms(1) by (auto simp: stands_def)
  note R = room_for_roomy [OF T(2)]
  note E = engine_step_effect [OF T(1) R assms(3)] and K = step_keeps [OF T(1) R T(4) assms(2,3)]
  from E K room_for_step [OF T(2) E] T(3) show ?thesis by (simp add: stands_def step_effect_def)
qed

lemma stands_turn:
  assumes "stands env J ((if t then DoFlush else DoCompact) # ops) e m"
  shows "stands env J ops (worker_turn env e t) m"
proof -
  have "engine_step env e (if t then DoFlush else DoCompact) (worker_turn env e t)" by (simp add: worker_turn_def engine_step.flush engine_step.compact)
  from stands_step [OF assms _ this] show ?thesis by (cases t) (simp_all add: small_op_def)
qed

lemma tracks_step:
  "tracks env J (oper # ops) st m \<Longrightarrow> small_op oper \<Longrightarrow> engine_step env (rp_e st) oper e \<Longrightarrow> tracks env J ops (st\<lparr>rp_e := e\<rparr>) (map_step m oper)"
  using stands_step [of oper ops "rp_e st" m e] by (simp add: tracks_def)

lemma tracks_turns: "tracks env J (turn_ops ts @ ops) st m \<Longrightarrow> tracks env J ops (st\<lparr>rp_e := foldl (worker_turn env) (rp_e st) ts\<rparr>) m"
proof (induction ts arbitrary: st)
  case (Cons t ts)
  have "tracks env J (turn_ops ts @ ops) (st\<lparr>rp_e := worker_turn env (rp_e st) t\<rparr>) m"
    using Cons.prems stands_turn [of t "turn_ops ts @ ops" "rp_e st" m] by (simp add: turn_ops_def tracks_def)
  from Cons.IH [OF this] show ?case by simp
qed (simp add: turn_ops_def)

lemma put_performs:
  assumes "tracks env J ((if length fs \<ge> 3 \<and> fs ! 1 \<noteq> [] then [DoPut (fs ! 1) (fs ! 2)] else []) @ ops) st m"
    and "\<And>i. i < length fs \<Longrightarrow> length (fs ! i) < 2 ^ 29"
  shows "performs env J ops st (if length fs < 3 then ([Usage ''PUT <key> <value>''], m) else if fs ! 1 = [] then ([Failed ErrEmptyKey], m)
    else ([OK], m(fs ! 1 \<mapsto> fs ! 2))) (repl_put fs st)"
proof -
  consider "length fs < 3" | "length fs \<ge> 3" "fs ! 1 = []" | "length fs \<ge> 3" "fs ! 1 \<noteq> []" by linarith
  then show ?thesis
  proof cases
    case 1
    then show ?thesis using assms(1) by (simp add: performs_def repl_put_def)
  next
    case 2
    then show ?thesis using assms(1) by (simp add: performs_def repl_put_def Put_def complain_def)
  next
    case 3
    have t: "tracks env J (DoPut (fs ! 1) (fs ! 2) # ops) st m" using assms(1) 3 by simp
    have kv: "key_val_ok (fs ! 1) (fs ! 2)" "small_op (DoPut (fs ! 1) (fs ! 2))"
      using 3 assms(2) [of 1] assms(2) [of 2] by (simp_all add: key_val_ok_def small_op_def maxReasonableLen_def)
    obtain r e where p: "Put (fs ! 1) (fs ! 2) (rp_e st) = (r, e)" by fastforce
    have "calm env (rp_e st)" "roomy env (rp_e st)" using t room_for_roomy by (auto simp: tracks_def stands_def)
    from Put_calm(1) [OF this kv(1) p] tracks_step [OF t kv(2) engine_step.put [OF kv(1) p]] p 3 show ?thesis by (simp add: performs_def repl_put_def)
  qed
qed

lemma delete_performs:
  assumes "tracks env J ((if length fs \<ge> 2 \<and> fs ! 1 \<noteq> [] then [DoDelete (fs ! 1)] else []) @ ops) st m"
    and "\<And>i. i < length fs \<Longrightarrow> length (fs ! i) < 2 ^ 29"
  shows "performs env J ops st (if length fs < 2 then ([Usage ''DELETE <key>''], m) else if fs ! 1 = [] then ([Failed ErrEmptyKey], m)
    else ([OK], m(fs ! 1 := None))) (repl_delete fs st)"
proof -
  consider "length fs < 2" | "length fs \<ge> 2" "fs ! 1 = []" | "length fs \<ge> 2" "fs ! 1 \<noteq> []" by linarith
  then show ?thesis
  proof cases
    case 1
    then show ?thesis using assms(1) by (simp add: performs_def repl_delete_def)
  next
    case 2
    then show ?thesis using assms(1) by (simp add: performs_def repl_delete_def Delete_def complain_def)
  next
    case 3
    have t: "tracks env J (DoDelete (fs ! 1) # ops) st m" using assms(1) 3 by simp
    have kv: "key_val_ok (fs ! 1) []" "small_op (DoDelete (fs ! 1))" using 3 assms(2) [of 1] by (simp_all add: key_val_ok_def small_op_def maxReasonableLen_def)
    obtain r e where p: "Delete (fs ! 1) (rp_e st) = (r, e)" by fastforce
    have "calm env (rp_e st)" "roomy env (rp_e st)" using t room_for_roomy by (auto simp: tracks_def stands_def)
    from Delete_calm(1) [OF this kv(1) p] tracks_step [OF t kv(2) engine_step.delete [OF kv(1) p]] p 3 show ?thesis by (simp add: performs_def repl_delete_def)
  qed
qed

lemma get_performs:
  assumes "tracks env J ((if length fs \<ge> 2 \<and> fs ! 1 \<noteq> [] then [DoGet (fs ! 1)] else []) @ ops) st m"
  shows "performs env J ops st (if length fs < 2 then ([Usage ''GET <key>''], m) else if fs ! 1 = [] then ([Failed ErrEmptyKey], m)
    else (case m (fs ! 1) of None \<Rightarrow> [Failed ErrNotFound] | Some v \<Rightarrow> [Quoted v], m)) (repl_get env fs st)"
proof -
  have T: "calm env (rp_e st)" "rp_snap st = None" "store env (rp_e st) = m" using assms(1) by (auto simp: tracks_def stands_def)
  obtain r e where g: "Get env (fs ! 1) (rp_e st) = (r, e)" by fastforce
  note G = Get_calm [OF T(1) g]
  consider "length fs < 2" | "length fs \<ge> 2" "fs ! 1 = []" | "length fs \<ge> 2" "fs ! 1 \<noteq> []" by linarith
  then show ?thesis
  proof cases
    case 1
    then show ?thesis using assms(1) by (simp add: performs_def repl_get_def)
  next
    case 2
    have "e = recordGet r (rp_e st)" using g 2 by (auto simp: Get_def getAt_def)
    then have "J e" using assms by (simp add: recordGet_def tracks_def stands_def Let_def count_keeps split: sum.split)
    then have "tracks env J ops (st\<lparr>rp_e := e\<rparr>) m" using assms G(1-4) 2 by (simp add: tracks_def stands_def store_def [abs_def] room_for_def)
    then show ?thesis using g T(2) G(6) 2 by (simp add: performs_def repl_get_def complain_def)
  next
    case 3
    have t: "tracks env J (DoGet (fs ! 1) # ops) st m" using assms(1) 3 by simp
    from tracks_step [OF t _ engine_step.get [OF g]] g T(2,3) G(5) 3 show ?thesis
      by (cases "m (fs ! 1)") (simp_all add: performs_def repl_get_def complain_def answer_def small_op_def)
  qed
qed

lemma scan_performs:
  assumes "tracks env J ops st m" and "args = scan_args fs"
  shows "performs env J ops st (case (if length args \<ge> 3 then Atoi (args ! 2) else Inr 0) of
      Inl err \<Rightarrow> ([InvalidLimit err], m)
    | Inr limit \<Rightarrow>
        let es = limited limit (entries_of m (scan_arg 0 args) (scan_arg 1 args))
        in (map (\<lambda>x. EntryLine (fst x) (snd x)) es @ [Entries (length es)], m)) (repl_scan env fs st)"
proof (cases "if length args \<ge> 3 then Atoi (args ! 2) else Inr 0")
  case (Inl err)
  then show ?thesis using assms(1) by (simp only: repl_scan_args assms(2) [symmetric]) (simp add: performs_def)
next
  case (Inr limit)
  let ?a = "scan_arg 0 args" and ?b = "scan_arg 1 args"
  have T: "calm env (rp_e st)" "rp_snap st = None" "store env (rp_e st) = m" using assms(1) by (auto simp: tracks_def stands_def)
  obtain r e where s: "Engine_Scan env ?a ?b (rp_e st) = (r, e)" by fastforce
  obtain it it1 es where it: "r = Inr it" "pair_loop env limit [] it = (Inr (limited limit (entries_of m ?a ?b)), it1)"
    and close: "snd (ScanIterator_Close it1 e) = Inc (em_scanTotal (e_m (rp_e st))) (rp_e st)"
    using Engine_Scan_calm [OF T(1) s, of limit] unfolding T(3) by blast
  let ?es = "limited limit (entries_of m ?a ?b)" and ?e = "Inc (em_scanTotal (e_m (rp_e st))) (rp_e st)"
  from runScan_loop_entries [OF it(2)] have l: "runScan_loop env limit 0 it = (map (\<lambda>x. EntryLine (fst x) (snd x)) ?es @ [Entries (length ?es)], None, it1)"
    by simp
  have out: "repl_scan env fs st = (Continue, say (map (\<lambda>x. EntryLine (fst x) (snd x)) ?es @ [Entries (length ?es)]) (st\<lparr>rp_e := ?e\<rparr>))"
    using s it(1) l T(2) close by (simp only: repl_scan_args assms(2) [symmetric] Inr) (simp add: runScan_def Let_def)
  have "J ?e" using assms(1) by (simp add: tracks_def stands_def count_keeps)
  then have "tracks env J ops (st\<lparr>rp_e := ?e\<rparr>) m"
    using assms(1) by (simp add: tracks_def stands_def store_def [abs_def] room_for_def) (simp add: Inc_def)
  then show ?thesis unfolding out Inr by (simp add: performs_def Let_def)
qed

lemma line_tracks:
  assumes "tracks env J (line_ops text @ ops) st m" and "plain text" and "length text < 2 ^ 29"
  shows "\<exists>st'. repl_line env text st = (if exits text then Return else Continue, st') \<and> tracks env J ops st' (snd (spec_line text m)) \<and>
    rp_out st' = rp_out st @ fst (spec_line text m)"
proof (cases "TrimSpace text = []")
  case True
  then have "command text = None" by (simp add: command_def)
  with True assms(1) show ?thesis by (simp add: repl_line_def spec_line_def exits_def line_ops_def Let_def)
next
  case False
  let ?fs = "words_of text"
  obtain cmd where c: "command text = Some cmd" "cmd = ToUpper (?fs ! 0)" using False by (simp add: command_def)
  have line: "repl_line env text st =
     (if cmd = asc ''PUT'' then repl_put ?fs st else if cmd = asc ''GET'' then repl_get env ?fs st
      else if cmd = asc ''DELETE'' \<or> cmd = asc ''DEL'' then repl_delete ?fs st else if cmd = asc ''SCAN'' then repl_scan env ?fs st
      else if cmd = asc ''SNAPSHOT'' then repl_snapshot st else if cmd = asc ''SNAPSHOT-END'' then repl_snapshot_end st
      else if cmd = asc ''STATS'' then repl_stats st else if cmd = asc ''EXIT'' \<or> cmd = asc ''QUIT'' then (Return, st)
      else (Continue, say [Unknown (?fs ! 0)] st))"
    using False by (simp add: repl_line_def Let_def c(2) words_of_def)
  have words: "\<And>i. i < length ?fs \<Longrightarrow> length (?fs ! i) < 2 ^ 29" using word_short [OF assms(3)] .
  have fin: "\<exists>st'. repl_line env text st = (if exits text then Return else Continue, st') \<and> tracks env J ops st' (snd (spec_line text m)) \<and>
      rp_out st' = rp_out st @ fst (spec_line text m)"
    if "performs env J ops st (spec_line text m) (repl_line env text st)" and "\<not> exits text"
    using that by (cases "repl_line env text st") (simp add: performs_def)
  note unfold = spec_line_def line_ops_def exits_def c(1) Let_def
  consider (put) "cmd = asc ''PUT''" | (get) "cmd = asc ''GET''" | (delete) "cmd = asc ''DELETE'' \<or> cmd = asc ''DEL''" | (scan) "cmd = asc ''SCAN''"
    | (close) "cmd = asc ''SNAPSHOT-END''" | (exit) "cmd = asc ''EXIT'' \<or> cmd = asc ''QUIT''"
    | (other) "cmd \<notin> asc ` {''PUT'', ''GET'', ''DELETE'', ''DEL'', ''SCAN'', ''SNAPSHOT-END'', ''EXIT'', ''QUIT''}"
    by auto
  then show ?thesis
  proof cases
    case put
    have "spec_line text m = (if length ?fs < 3 then ([Usage ''PUT <key> <value>''], m) else if ?fs ! 1 = [] then ([Failed ErrEmptyKey], m) else ([OK], m(?fs ! 1 \<mapsto> ?fs ! 2)))"
      "line_ops text = (if length ?fs \<ge> 3 \<and> ?fs ! 1 \<noteq> [] then [DoPut (?fs ! 1) (?fs ! 2)] else [])" "repl_line env text st = repl_put ?fs st" "\<not> exits text"
      using put unfolding line by (simp_all add: unfold)
    then show ?thesis using put_performs [OF _ words, of ops st m] assms(1) by (intro fin) (simp_all only: not_False_eq_True)
  next
    case get
    have "spec_line text m = (if length ?fs < 2 then ([Usage ''GET <key>''], m) else if ?fs ! 1 = [] then ([Failed ErrEmptyKey], m)
        else (case m (?fs ! 1) of None \<Rightarrow> [Failed ErrNotFound] | Some v \<Rightarrow> [Quoted v], m))"
      "line_ops text = (if length ?fs \<ge> 2 \<and> ?fs ! 1 \<noteq> [] then [DoGet (?fs ! 1)] else [])" "repl_line env text st = repl_get env ?fs st" "\<not> exits text"
      using get unfolding line by (simp_all add: unfold)
    then show ?thesis using get_performs [of ?fs ops st m] assms(1) by (intro fin) (simp_all only: not_False_eq_True)
  next
    case delete
    then have ne: "cmd \<noteq> asc ''PUT''" "cmd \<noteq> asc ''GET''" "cmd \<noteq> asc ''EXIT''" "cmd \<noteq> asc ''QUIT''" by auto
    have "spec_line text m = (if length ?fs < 2 then ([Usage ''DELETE <key>''], m) else if ?fs ! 1 = [] then ([Failed ErrEmptyKey], m) else ([OK], m(?fs ! 1 := None)))"
      "line_ops text = (if length ?fs \<ge> 2 \<and> ?fs ! 1 \<noteq> [] then [DoDelete (?fs ! 1)] else [])" "repl_line env text st = repl_delete ?fs st" "\<not> exits text"
      using delete ne unfolding line by (simp_all add: unfold)
    then show ?thesis using delete_performs [OF _ words, of ops st m] assms(1) by (intro fin) (simp_all only: not_False_eq_True)
  next
    case scan
    have "spec_line text m = (case (if length (scan_args ?fs) \<ge> 3 then Atoi (scan_args ?fs ! 2) else Inr 0) of
        Inl err \<Rightarrow> ([InvalidLimit err], m)
      | Inr limit \<Rightarrow>
          let es = limited limit (entries_of m (scan_arg 0 (scan_args ?fs)) (scan_arg 1 (scan_args ?fs)))
          in (map (\<lambda>x. EntryLine (fst x) (snd x)) es @ [Entries (length es)], m))"
      "line_ops text = []" "repl_line env text st = repl_scan env ?fs st" "\<not> exits text"
      using scan unfolding line by (simp_all add: unfold)
    then show ?thesis using scan_performs [OF _ refl, of ops st m ?fs] assms(1) by (intro fin) (simp_all only: not_False_eq_True append_Nil)
  next
    case close
    have "performs env J ops st (spec_line text m) (repl_line env text st)"
      using assms(1) close unfolding line by (simp add: unfold performs_def repl_snapshot_end_def) (simp add: tracks_def stands_def say_def)
    then show ?thesis using close by (intro fin) (simp_all add: unfold)
  next
    case exit
    then show ?thesis using assms(1) unfolding line by (auto simp: unfold)
  next
    case other
    have "performs env J ops st (spec_line text m) (repl_line env text st)"
      using assms(1,2) other unfolding line by (simp add: unfold performs_def plain_def)
    then show ?thesis using other by (intro fin) (simp_all add: unfold)
  qed
qed

lemma loop_tracks:
  assumes "tracks env J (session_ops work n (input_lines input) @ later) st m" and "\<forall>l \<in> set (input_lines input). plain l" and "session (input_lines input) m = (os, m')"
  shows "\<exists>st'. repl_loop env work n input st = (Return, st') \<and> tracks env J later st' m' \<and> rp_out st' = rp_out st @ os"
  using assms
proof (induction "length input" arbitrary: n input st m os m' rule: less_induct)
  case less
  let ?st = "say [Prompt (rp_snap st \<noteq> None)] (st\<lparr>rp_e := foldl (worker_turn env) (rp_e st) (work n)\<rparr>)"
  note step = repl_loop_step [where env = env and st = st and work = work and n = n and input = input, OF refl]
  have pr: "rp_out ?st = rp_out st @ [Prompt False]" using less.prems(1) by (simp add: tracks_def stands_def say_def)
  show ?case
  proof (cases "Scanner_Scan input")
    case None
    have "tracks env J (turn_ops (work n) @ later) st m" using less.prems(1) input_lines_step(1) [OF None] by simp
    from tracks_turns [OF this] have "tracks env J later (say [Newline] ?st) m" by simp
    moreover have "os = [Prompt False, Newline]" "m' = m" using less.prems(3) input_lines_step(1) [OF None] by auto
    ultimately show ?thesis using step(1) [OF None] pr by (intro exI [of _ "say [Newline] ?st"]) simp
  next
    case (Some lr)
    then obtain line more_in where lr: "Scanner_Scan input = Some (line, more_in)" by (cases lr) simp
    note il = input_lines_step(2) [OF lr]
    let ?more = "(if exits line then [] else session_ops work (n + 1) (input_lines more_in)) @ later"
    have "tracks env J (turn_ops (work n) @ line_ops line @ ?more) st m" using less.prems(1) il by simp
    from tracks_turns [OF this] have T: "tracks env J (line_ops line @ ?more) ?st m" by simp
    have l: "plain line" "length line < 2 ^ 29" using less.prems(2) il short_lines [of line input] by auto
    obtain os1 m1 where spec: "spec_line line m = (os1, m1)" by (rule prod.exhaust)
    from line_tracks [OF T l] obtain st2 where st2: "repl_line env line ?st = (if exits line then Return else Continue, st2)"
      "tracks env J ?more st2 m1" "rp_out st2 = rp_out ?st @ os1" unfolding spec by auto
    show ?thesis
    proof (cases "exits line")
      case True
      have "os = Prompt False # os1" "m' = m1" using less.prems(3) il spec True by auto
      then show ?thesis using step(3) [OF lr st2(1)] st2(2,3) True pr by (intro exI [of _ st2]) simp
    next
      case False
      obtain os2 m2 where s2: "session (input_lines more_in) m1 = (os2, m2)" by (rule prod.exhaust)
      have os: "os = Prompt False # os1 @ os2" "m' = m2" using less.prems(3) il spec False s2 by auto
      have t2: "tracks env J (session_ops work (n + 1) (input_lines more_in) @ later) st2 m1" using st2(2) False by simp
      have p2: "\<forall>l \<in> set (input_lines more_in). plain l" using less.prems(2) il by simp
      from less.hyps [OF Scanner_Scan_shorter [OF lr] t2 p2 s2] show ?thesis
        using step(2) [OF lr] st2(1,3) False pr os by auto
    qed
  qed
qed

end

interpretation any_state: steady env "\<lambda>_. True" for env
  by unfold_locales simp_all

section \<open>Properties\<close>

text \<open>
  C14: No snapshot is left behind. Whatever is typed, whatever the workers do in between and however
  the session ends, by EXIT, by the end of the input, by a line that is too long or by a panic of
  the engine, the snapshots registered afterwards are exactly those from before: a compaction is
  never held back by a session that is over.
\<close>

theorem session_leaves_no_snapshot:
  assumes "runREPL env work dir input e = (fl, st)" and "\<forall>n \<in> ran (map_of (e_activeSnapshots e)). 0 < n"
  shows "map_of (e_activeSnapshots (rp_e st)) = map_of (e_activeSnapshots e)"
proof -
  let ?st = "\<lparr>rp_snap = None, rp_e = e, rp_out = Ready dir # repl_usage\<rparr>"
  obtain fl1 st1 where l: "repl_loop env work 0 input ?st = (fl1, st1)" by fastforce
  have P: "pinned (map_of (e_activeSnapshots e)) st1"
    using pinned_loop [OF assms(2), of ?st env work 0 input] l by (simp add: pinned_def)
  show ?thesis
  proof (cases "rp_snap st1")
    case None
    with assms(1) l P show ?thesis by (simp add: runREPL_def pinned_def)
  next
    case (Some s)
    obtain s' e' where c: "Snapshot_Close s (rp_e st1) = (s', e')" by fastforce
    with assms(1) l Some have "rp_e st = e'" by (auto simp: runREPL_def)
    with pinned_close [OF P Some assms(2) c] show ?thesis by simp
  qed
qed

lemmas run_simps = Scanner_Scan_def asc_def MaxScanTokenSize_def TrimSpace_def trim_left.simps trim_right.simps leading_space_def trailing_space_def
  space_runes_def numeral_3_eq_3 command_def words_of_def input_lines.simps Let_def

theorem session_leaves_no_snapshot_witness:
  "\<exists>e st s. runREPL demo_env (\<lambda>_. []) ''db'' (asc ''snapshot'') e = (Return, st) \<and> rp_snap st = Some s \<and>
     map_of (e_activeSnapshots (rp_e st)) = map_of [(5, 2)]"
proof -
  obtain e0 where e0: "calm demo_env e0" by (rule demo_flushed)
  let ?e = "e0\<lparr>e_activeSnapshots := [(5, 2)]\<rparr>" and ?in = "asc ''snapshot''"
  have scan: "Scanner_Scan ?in = Some (?in, [])" "Scanner_Scan [] = None" by (simp_all add: run_simps)
  have words: "TrimSpace ?in = ?in" "SplitN 3 ?in = [?in]" "ToUpper ?in = asc ''SNAPSHOT''" "?in \<noteq> []" by (simp_all add: run_simps)
  obtain s e1 where s: "Engine_Snapshot ?e = (Inr s, e1)" using e0 by (simp add: calm_def einv_def Engine_Snapshot_def Snapshot_load_def)
  have line: "repl_line demo_env ?in st = repl_snapshot st" for st using words by (simp add: repl_line_def Let_def)
  obtain s' e2 where c: "Snapshot_Close s e1 = (s', e2)" by fastforce
  obtain st where st: "runREPL demo_env (\<lambda>_. []) ''db'' ?in ?e = (Return, st)" "rp_snap st \<noteq> None"
    using s c by (simp add: runREPL_def repl_loop.simps scan line repl_snapshot_def say_def Let_def)
  have "map_of (e_activeSnapshots (rp_e st)) = map_of (e_activeSnapshots ?e)" by (rule session_leaves_no_snapshot [OF st(1)]) simp
  with st show ?thesis by auto
qed

text \<open>The lines of a short session\<close>

definition demo_input :: bytes where
  "demo_input = asc ''PUT a b'' @ [10] @ asc ''get a'' @ [13, 10] @ asc ''exit''"

lemma demo_session:
  "\<forall>l \<in> set (input_lines demo_input). plain l"
  "session (input_lines demo_input) Map.empty = ([Prompt False, OK, Prompt False, Quoted [98], Prompt False], [[97] \<mapsto> [98]])"
  "session_ops (\<lambda>n. [n = 1]) 0 (input_lines demo_input) = [DoCompact, DoPut [97] [98], DoFlush, DoGet [97], DoCompact]"
proof -
  let ?a = "asc ''PUT a b''" and ?b = "asc ''get a''" and ?c = "asc ''exit''"
  have lines: "input_lines demo_input = [?a, ?b, ?c]" by (simp add: demo_input_def run_simps)
  have cmd: "command ?a = Some (asc ''PUT'')" "command ?b = Some (asc ''GET'')" "command ?c = Some (asc ''EXIT'')" by (simp_all add: run_simps)
  have words: "words_of ?a = [asc ''PUT'', [97], [98]]" "words_of ?b = [asc ''get'', [97]]" by (simp_all add: run_simps)
  have x: "exits ?c" "\<not> exits ?a" "\<not> exits ?b" by (simp_all add: exits_def cmd)
  have "spec_line ?a m = ([OK], m([97] \<mapsto> [98]))" "spec_line ?c m = ([], m)" for m by (simp_all add: spec_line_def cmd words Let_def)
  moreover have "spec_line ?b m = (case m [97] of None \<Rightarrow> [Failed ErrNotFound] | Some v \<Rightarrow> [Quoted v], m)" for m by (simp add: spec_line_def cmd words Let_def)
  ultimately show "session (input_lines demo_input) Map.empty = ([Prompt False, OK, Prompt False, Quoted [98], Prompt False], [[97] \<mapsto> [98]])"
    unfolding lines by (simp add: x)
  show "session_ops (\<lambda>n. [n = 1]) 0 (input_lines demo_input) = [DoCompact, DoPut [97] [98], DoFlush, DoGet [97], DoCompact]"
    unfolding lines by (simp add: x turn_ops_def line_ops_def cmd words Let_def)
  show "\<forall>l \<in> set (input_lines demo_input). plain l" unfolding lines by (simp add: plain_def cmd)
qed

text \<open>
  C8: The command line is a map. On a well-formed store without faults every session without
  snapshots and statistics, whatever its lines and whatever turns the workers take in between, ends
  without a panic and prints what a plain map would: the answers of the GET commands, the pairs of a
  SCAN in key order cut to the limit with their number, the usage and error messages of malformed
  commands. The store then holds the map the PUT and DELETE commands built.
\<close>

theorem session_refines_map:
  assumes "calm env e" and "room_for env (session_ops work 0 (input_lines input)) e" and "\<forall>l \<in> set (input_lines input). plain l"
    and "session (input_lines input) (store env e) = (os, m)"
  shows "\<exists>st. runREPL env work dir input e = (Return, st) \<and> rp_out st = Ready dir # repl_usage @ os \<and>
    calm env (rp_e st) \<and> store env (rp_e st) = m"
proof -
  let ?st = "\<lparr>rp_snap = None, rp_e = e, rp_out = Ready dir # repl_usage\<rparr>"
  have "tracks env (\<lambda>_. True) (session_ops work 0 (input_lines input) @ []) ?st (store env e)" using assms(1,2) by (simp add: tracks_def stands_def)
  from any_state.loop_tracks [OF this assms(3,4)] obtain st where "repl_loop env work 0 input ?st = (Return, st)" "tracks env (\<lambda>_. True) [] st m"
    "rp_out st = rp_out ?st @ os" by blast
  then show ?thesis by (intro exI [of _ st]) (simp add: runREPL_def tracks_def stands_def)
qed

theorem session_refines_map_witness:
  "\<exists>e st. runREPL demo_env (\<lambda>n. [n = 1]) ''db'' demo_input e = (Return, st) \<and>
     rp_out st = Ready ''db'' # repl_usage @ [Prompt False, OK, Prompt False, Quoted [98], Prompt False]"
proof -
  obtain e where e: "calm demo_env e" "versions demo_env e = []" "e_seq e = 0" "e_genCounter e = 1" by (rule demo_open) blast
  have st: "store demo_env e = Map.empty" by (simp add: store_def [abs_def] e(2) reads_def value_of_def)
  have room: "room_for demo_env (session_ops (\<lambda>n. [n = 1]) 0 (input_lines demo_input)) e"
    unfolding demo_session(3) using e by (simp add: room_for_def rec_weight_def new_version_def)
  from session_refines_map [OF e(1) room demo_session(1), of _ _ "''db''"] demo_session(2) st show ?thesis by auto
qed

end
