(* ===== verification/Shutdown.thy ===== *)
theory Shutdown
  imports Restart Guarantees
begin

text \<open>
  \<^verbatim>\<open>Close\<close> of \<^verbatim>\<open>src/engine/engine.go\<close> on a file system without faults: both workers come to their end, the
  active MemTable becomes a table, its log goes, every table gives up its file, and opening the
  directory again gives the same store.
\<close>

section \<open>The workers of a store that is closing\<close>

named_theorems closing "Close_begin commutes with the steps of the workers"

lemma closing_reads [simp]:
  "e_tables (Close_begin e) = e_tables e" "e_heap (Close_begin e) = e_heap e" "e_fs (Close_begin e) = e_fs e" "e_mems (Close_begin e) = e_mems e"
  "e_imm (Close_begin e) = e_imm e" "e_dir (Close_begin e) = e_dir e" "e_m (Close_begin e) = e_m e" "e_reg (Close_begin e) = e_reg e"
  "e_genCounter (Close_begin e) = e_genCounter e" "e_compress (Close_begin e) = e_compress e" "e_compactCh (Close_begin e) = e_compactCh e"
  "e_flushCh (Close_begin e) = e_flushCh e" "e_maxLevels (Close_begin e) = e_maxLevels e" "e_durs (Close_begin e) = e_durs e" "e_now (Close_begin e) = e_now e"
  "e_activeSnapshots (Close_begin e) = e_activeSnapshots e" "e_seq (Close_begin e) = e_seq e" "e_mem (Close_begin e) = e_mem e" "e_wal (Close_begin e) = e_wal e"
  "e_walPath (Close_begin e) = e_walPath e" "e_closed (Close_begin e)"
  by (simp_all add: Close_begin_def)

lemma closing_writes [closing]:
  "(Close_begin e)\<lparr>e_tables := ts\<rparr> = Close_begin (e\<lparr>e_tables := ts\<rparr>)" "(Close_begin e)\<lparr>e_heap := h\<rparr> = Close_begin (e\<lparr>e_heap := h\<rparr>)"
  "(Close_begin e)\<lparr>e_fs := d\<rparr> = Close_begin (e\<lparr>e_fs := d\<rparr>)" "(Close_begin e)\<lparr>e_imm := is\<rparr> = Close_begin (e\<lparr>e_imm := is\<rparr>)"
  "(Close_begin e)\<lparr>e_reg := r\<rparr> = Close_begin (e\<lparr>e_reg := r\<rparr>)" "(Close_begin e)\<lparr>e_genCounter := g\<rparr> = Close_begin (e\<lparr>e_genCounter := g\<rparr>)"
  "(Close_begin e)\<lparr>e_compactCh := b\<rparr> = Close_begin (e\<lparr>e_compactCh := b\<rparr>)" "(Close_begin e)\<lparr>e_flushCh := js\<rparr> = Close_begin (e\<lparr>e_flushCh := js\<rparr>)"
  "(Close_begin e)\<lparr>e_now := n\<rparr> = Close_begin (e\<lparr>e_now := n\<rparr>)"
  by (simp_all add: Close_begin_def)

lemma closing_helpers [closing]:
  "nextGen (Close_begin e) = map_prod id Close_begin (nextGen e)" "on_fs f (Close_begin e) = map_prod id Close_begin (on_fs f e)"
  "new_table t (Close_begin e) = map_prod id Close_begin (new_table t e)"
  "Inc p (Close_begin e) = Close_begin (Inc p e)" "Observe p (Close_begin e) = Close_begin (Observe p e)"
  by (simp_all add: nextGen_def on_fs_def new_table_def Inc_def Observe_def Let_def closing split: prod.split)

lemma closing_add_table [closing]: "add_table l t (Close_begin e) = Close_begin (add_table l t e)"
  by (simp add: add_table_def closing split: prod.split)

lemma pick_closing [closing]: "pickCompactionLocked (Close_begin e) = pickCompactionLocked e"
  by (rule pick_cong) (simp_all add: Close_begin_def)

lemma trigger_closing [closing]: "maybeTriggerCompaction (Close_begin e) = Close_begin (maybeTriggerCompaction e)"
  by (simp add: maybeTriggerCompaction_def closing split: option.split)

lemma write_table_closing [closing]: "write_table env rs m1 m2 (Close_begin e) = map_prod id Close_begin (write_table env rs m1 m2 e)"
  by (simp add: write_table_def Let_def closing split: prod.split sum.split option.split)

lemma doFlush_closing [closing]: "doFlush env mt p (Close_begin e) = Close_begin (doFlush env mt p e)"
  by (simp add: doFlush_def flush_write_def flush_metrics_def flush_end_def flush_commit_def Let_def closing split: prod.split sum.split)

lemma drain_closing: "flushWorker_drain env jobs (Close_begin e) = Close_begin (flushWorker_drain env jobs e)"
  by (induction jobs arbitrary: e) (simp_all add: closing)

lemma plan_closing [closing]: "compact_plan (Close_begin e) = compact_plan e"
  by (simp add: compact_plan_def levelTablesLocked_def closing)

lemma merge_closing [closing]: "compact_merge env c (Close_begin e) = map_prod id Close_begin (compact_merge env c e)"
  by (simp add: compact_merge_def minActiveSnapshotSeq_def Let_def closing split: prod.split)

lemma commit_closing [closing]: "compact_commit c r out (Close_begin e) = map_prod id Close_begin (compact_commit c r out e)"
  by (simp add: compact_commit_def Let_def closing split: prod.split sum.split option.split)

lemma retire_closing [closing]: "foldl (\<lambda>e p. retire p e) (Close_begin e) ps = Close_begin (foldl (\<lambda>e p. retire p e) e ps)"
  by (induction ps arbitrary: e) (simp_all add: retire_def closing split: prod.split)

lemma runCompaction_closing [closing]: "runCompaction env (Close_begin e) = map_prod id Close_begin (runCompaction env e)"
  by (simp add: runCompaction_def compact_metrics_def compact_end_def Let_def closing split: prod.split option.split)

lemma passes_closing: "compactionLoop_turns env n (Close_begin e) = Close_begin (compactionLoop_turns env n e)"
  by (induction n arbitrary: e) (simp_all add: compactionLoop_turn_def closing split: prod.split)

text \<open>What both workers do before they end is a history of their turns.\<close>

lemma doFlush_queue [simp]: "e_flushCh (doFlush env mt p e) = e_flushCh e"
  by (simp add: doFlush_def flush_write_def write_table_def flush_metrics_def flush_end_def flush_commit_def add_table_def new_table_def
      nextGen_def on_fs_def maybeTriggerCompaction_def Inc_def Observe_def Let_def split: prod.split sum.split option.split)

lemma history_append: "history env G e ops e1 \<Longrightarrow> history env G e1 ops' e2 \<Longrightarrow> history env G e (ops @ ops') e2"
  by (induction rule: history.induct) (auto intro: history.more)

lemma drain_history:
  "e_flushCh e = jobs \<Longrightarrow> history env (\<lambda>_. small_op) e (replicate (length jobs) DoFlush) (flushWorker_drain env jobs e) \<and> e_flushCh (flushWorker_drain env jobs e) = []"
proof (induction jobs arbitrary: e)
  case (Cons job jobs)
  let ?e = "doFlush env (fj_mt job) (fj_walPath job) (e\<lparr>e_flushCh := jobs\<rparr>)"
  have "flushWorker_turn env e = ?e" using Cons.prems by (simp add: flushWorker_turn_def)
  then have "engine_step env e DoFlush ?e" using engine_step.flush [of env e] by simp
  then show ?case using Cons.IH [of ?e] by (auto simp: small_op_def intro: history.more)
qed (simp add: history.start)

lemma retire_queue: "e_flushCh (foldl (\<lambda>e p. retire p e) e ps) = e_flushCh e"
  by (induction ps arbitrary: e) (simp_all add: retire_def split: prod.split)

lemma runCompaction_queue: "runCompaction env e = (r, e') \<Longrightarrow> e_flushCh e' = e_flushCh e"
  by (auto simp: runCompaction_def compact_merge_def compact_commit_def compact_end_def compact_metrics_def retire_queue maybeTriggerCompaction_def
      add_table_def new_table_def nextGen_def on_fs_def Inc_def Observe_def Let_def split: option.splits prod.splits sum.splits if_splits)

lemma passes_history:
  "history env (\<lambda>_. small_op) e (replicate n DoCompact) (compactionLoop_turns env n e) \<and> e_flushCh (compactionLoop_turns env n e) = e_flushCh e"
proof (induction n arbitrary: e)
  case (Suc n)
  have "e_flushCh (compactionLoop_turn env e) = e_flushCh e" using runCompaction_queue [OF surjective_pairing, of env "e\<lparr>e_compactCh := False\<rparr>"] by (simp add: compactionLoop_turn_def)
  then show ?case using Suc.IH [of "compactionLoop_turn env e"] by (auto simp: small_op_def intro: history.more engine_step.compact)
qed (simp add: history.start)

lemma write_queue: "engine_write key val typ e = (r, e') \<Longrightarrow> length (e_flushCh e') \<le> Suc (length (e_flushCh e))"
  by (auto simp: engine_write_def rotate_def nextGen_def on_fs_def new_memtable_def Let_def split: prod.splits if_splits option.splits sum.splits)

lemma read_queue: "Get env key e = (r, e') \<Longrightarrow> e_flushCh e' = e_flushCh e"
proof -
  have "e_flushCh (foldl (\<lambda>e p. snd (release p e)) e ps) = e_flushCh e" for ps e by (induction ps arbitrary: e) (simp_all add: release_def split: prod.splits)
  then show "Get env key e = (r, e') \<Longrightarrow> e_flushCh e' = e_flushCh e"
    by (auto simp: Get_def getAt_def getAt_begin_def recordGet_def releaseAll_def Inc_def Observe_def Let_def split: prod.splits if_splits sum.splits)
qed

lemma step_queue: "engine_step env e oper e' \<Longrightarrow> length (e_flushCh e') \<le> Suc (length (e_flushCh e))"
proof (induction rule: engine_step.cases)
  case (put key val e r e')
  then show ?case using write_queue by (auto simp: Put_def Inc_def Observe_def split: if_splits prod.splits)
next
  case (delete key e r e')
  then show ?case using write_queue by (auto simp: Delete_def Inc_def Observe_def split: if_splits prod.splits)
next
  case (get key e r e')
  then show ?case using read_queue by simp
next
  case (snapshot e r e')
  then show ?case by (auto simp: Engine_Snapshot_def Snapshot_load_def Snapshot_register_def Inc_def Adjust_def Let_def split: if_splits)
next
  case (snapshot_close s e s' e')
  then show ?case by (auto simp: Snapshot_Close_def Adjust_def Let_def split: if_splits)
next
  case (flush e)
  then show ?case by (simp add: flushWorker_turn_def split: list.split)
next
  case (compact e)
  then show ?case using passes_history [of env e 1] by simp
qed

lemma history_queue: "history env G e ops e' \<Longrightarrow> length (e_flushCh e') \<le> length ops + length (e_flushCh e)"
proof (induction rule: history.induct)
  case (more e oper e1 ops e')
  then show ?case using step_queue [of env e oper e1] by simp
qed simp

lemma no_versions_queue: "calm env e \<Longrightarrow> versions env e = [] \<Longrightarrow> e_flushCh e = []"
proof -
  assume "calm env e" and "versions env e = []"
  then have q: "queue_inv e" and "imm_versions e = []" by (simp_all add: calm_def age_inv_def versions_def)
  then have "e_imm e = []" by (auto simp: queue_inv_def irecs_def imm_versions_def filter_empty_conv)
  then show "e_flushCh e = []" using q by (simp add: queue_inv_def)
qed

lemma workers_end:
  assumes "calm env e" and "disk_inv e" and "room_for env (replicate (length (e_flushCh e)) DoFlush @ replicate n DoCompact @ [DoFlush, DoFlush]) e"
    and "e' = compactionLoop_turns env n (flushWorker_drain env (e_flushCh e) e)"
  shows "calm env e' \<and> disk_inv e' \<and> e_imm e' = [] \<and> e_flushCh e' = [] \<and> store env e' = store env e \<and> e_dir e' = e_dir e \<and> room_for env [DoFlush, DoFlush] e'"
proof -
  let ?ops = "replicate (length (e_flushCh e)) DoFlush @ replicate n DoCompact"
  have h: "history env (\<lambda>_. small_op) e ?ops e'" and q: "e_flushCh e' = []"
    unfolding assms(4) using history_append drain_history [OF refl, of env e] passes_history by (metis, metis)
  have room: "room_for env (?ops @ [DoFlush, DoFlush]) e" "room_for env ?ops e" using assms(3) by (simp_all add: room_for_def)
  have "foldl map_step m (replicate k DoFlush) = m" "foldl map_step m (replicate k DoCompact) = m" for m k by (induction k) simp_all
  then have c: "calm env e'" "store env e' = store env e" using history_refines [OF h assms(1) room(2)] by simp_all
  then have "queue_inv e'" by (simp add: calm_def age_inv_def)
  then have "e_imm e' = []" using q by (simp add: queue_inv_def)
  then show ?thesis using c q history_disk [OF h assms(1) room(1) assms(2)] by simp
qed

section \<open>The end of Close\<close>

lemma Release_closes:
  assumes "tbl_refCount t = 1" and "\<not> tbl_removeOnZero t" and "\<not> tbl_released t" and "no_faults d"
  shows "\<exists>d'. Table_Release t d = (None, t\<lparr>tbl_refCount := 0, tbl_released := True\<rparr>, d') \<and> same_files d d' \<and> no_faults d'"
  using assms by (simp add: Table_Release_def file_Close_def tick_no_faults same_files_def)

lemma release_tables_run:
  assumes "distinct (map lt_table lts)" and "no_faults (e_fs e)"
    and "\<forall>p \<in> lt_table ` set lts. p < length (e_heap e) \<and> tbl_refCount (e_heap e ! p) = 1 \<and> \<not> tbl_removeOnZero (e_heap e ! p) \<and> \<not> tbl_released (e_heap e ! p)"
  shows "\<exists>h d. release_tables lts None e = (None, e\<lparr>e_heap := h, e_fs := d\<rparr>) \<and> same_files (e_fs e) d \<and> length h = length (e_heap e) \<and>
    (\<forall>p < length h. p \<notin> lt_table ` set lts \<longrightarrow> h ! p = e_heap e ! p) \<and> (\<forall>p \<in> lt_table ` set lts. tbl_released (h ! p))"
  using assms
proof (induction lts arbitrary: e)
  case Nil
  then show ?case by (intro exI [of _ "e_heap e"] exI [of _ "e_fs e"]) (simp add: same_files_refl)
next
  case (Cons lt lts)
  let ?p = "lt_table lt" and ?t = "(e_heap e ! lt_table lt)\<lparr>tbl_refCount := 0, tbl_released := True\<rparr>"
  obtain d1 where R: "Table_Release (e_heap e ! ?p) (e_fs e) = (None, ?t, d1)" "same_files (e_fs e) d1" "no_faults d1"
    using Release_closes [of "e_heap e ! ?p" "e_fs e"] Cons.prems by auto
  let ?e = "e\<lparr>e_heap := (e_heap e)[?p := ?t], e_fs := d1\<rparr>"
  have ne: "?p \<notin> lt_table ` set lts" using Cons.prems(1) by simp
  have held: "\<forall>p \<in> lt_table ` set lts. p < length (e_heap ?e) \<and> tbl_refCount (e_heap ?e ! p) = 1 \<and> \<not> tbl_removeOnZero (e_heap ?e ! p) \<and> \<not> tbl_released (e_heap ?e ! p)"
  proof
    fix p
    assume p: "p \<in> lt_table ` set lts"
    then have "e_heap ?e ! p = e_heap e ! p" using ne by (cases "p = ?p") simp_all
    then show "p < length (e_heap ?e) \<and> tbl_refCount (e_heap ?e ! p) = 1 \<and> \<not> tbl_removeOnZero (e_heap ?e ! p) \<and> \<not> tbl_released (e_heap ?e ! p)"
      using Cons.prems(3) p by auto
  qed
  have ok: "distinct (map lt_table lts)" "no_faults (e_fs ?e)" using Cons.prems(1) R(3) by simp_all
  from Cons.IH [OF ok held] obtain h d where z: "release_tables lts None ?e = (None, ?e\<lparr>e_heap := h, e_fs := d\<rparr>)" "same_files (e_fs ?e) d" "length h = length (e_heap ?e)"
    "\<forall>p < length h. p \<notin> lt_table ` set lts \<longrightarrow> h ! p = e_heap ?e ! p" "\<forall>p \<in> lt_table ` set lts. tbl_released (h ! p)" by blast
  have h: "release_tables lts None ?e = (None, e\<lparr>e_heap := h, e_fs := d\<rparr>)" "same_files d1 d" "length h = length (e_heap e)"
    "\<forall>p < length h. p \<notin> lt_table ` set lts \<longrightarrow> h ! p = (e_heap e)[?p := ?t] ! p" "\<forall>p \<in> lt_table ` set lts. tbl_released (h ! p)" using z by simp_all
  have "?p < length h" using Cons.prems(3) h(3) by simp
  then have "tbl_released (h ! ?p)" using h(3,4) ne by simp
  moreover have "release_tables (lt # lts) None e = (None, e\<lparr>e_heap := h, e_fs := d\<rparr>)" using R(1) h(1) by (simp add: release_def)
  ultimately show ?case using h(3-5) same_files_trans [OF R(2) h(2)] by (intro exI [of _ h] exI [of _ d]) auto
qed

text \<open>What \<open>Close\<close> leaves on the disk: \<open>x\<close> is an engine with the tables of the directory.\<close>

definition left_by :: "env \<Rightarrow> Engine \<Rightarrow> Engine \<Rightarrow> bool" where
  "left_by env e x \<longleftrightarrow> settled env x \<and> directory env x [] (e_fs x) \<and> e_dir x = e_dir e \<and> set (table_versions env x) = set (versions env e) \<and>
     e_genCounter x < unboundedSeq"

lemma final_flush_run:
  assumes "calm env e" and "e_imm e = []" and "room_for env [DoFlush, DoFlush] e"
  shows "\<exists>e'. final_flush env (Close_begin e) = (None, e') \<and> grown env (Close_begin e) (mem_versions e) e'"
proof -
  have E: "einv env e" and nf: "no_faults (e_fs e)" using assms(1) by (simp_all add: calm_def)
  let ?mt = "e_mems e ! e_mem e"
  have mt: "mt_inv ?mt" "\<forall>r \<in> set (buildRecords ?mt). rec_ok r" using E by (auto simp: einv_def mems_inv_def)
  have "settled env (Close_begin e)" using E nf by (simp add: settled_def einv_def tables_inv_def named_def allTablesLocked_def)
  moreover have "e_genCounter (Close_begin e) < unboundedSeq" using assms(3) by (simp add: room_for_def word_less_nat_alt unbounded_unat)
  moreover have "fits (versions env e)" using room_for_roomy [OF assms(3)] by (simp add: roomy_def)
  then have "fits (buildRecords ?mt)" by (rule fits_mono [rotated]) (simp add: versions_def mem_versions_def)
  ultimately show ?thesis
    using flush_mem_run [OF _ _ mt, of env "Close_begin e" "''engine: final flush on close failed''" "''engine: reopening final flushed sstable''"]
    by (simp add: final_flush_def mem_versions_def Let_def)
qed

lemma table_paths_listing: "table_paths e = fst ` set (listing e)"
  by (auto simp: table_paths_def listing_def allTablesLocked_def image_image)

lemma WAL_Remove_run:
  assumes "no_faults d"
  obtains r d' where "WAL_Remove p d = (r, d')" and "r = None \<or> r = Some ENotExist" and "no_faults d'" and "unreadable d' = unreadable d"
    and "\<forall>q. fs_get d' q = (if q = p then None else fs_get d q)"
proof -
  obtain r d' where w: "WAL_Remove p d = (r, d')" by fastforce
  have "r = None \<or> r = Some ENotExist" "no_faults d'" using w assms by (auto simp: WAL_Remove_def os_Remove_def tick_no_faults split: option.splits)
  moreover have "frame p d d'" using WAL_Remove_frame [of p d] w by simp
  moreover have "fs_get d' p = None" using removed_file [OF assms, of p] w by simp
  ultimately show thesis using w by (intro that [of r d']) (auto simp: frame_def)
qed

lemma tables_held:
  assumes "tables_inv env e" and "own_tables e" and "p \<in> lt_table ` set (e_tables e)"
  shows "p < length (e_heap e) \<and> tbl_refCount (e_heap e ! p) = 1 \<and> \<not> tbl_removeOnZero (e_heap e ! p) \<and> \<not> tbl_released (e_heap e ! p)"
proof -
  have "env_ok env" "p < length (e_heap e)" "table_held env (e_fs e) (e_heap e ! p)" using assms by (auto simp: tables_inv_def allTablesLocked_def)
  with table_held_ok [OF this(1,3)] show ?thesis using assms(2,3) by (auto simp: table_held_def own_tables_def)
qed

text \<open>After the final flush every file of the directory but the last log is the file of a table.\<close>

lemma flushed_owned:
  assumes "disk_inv e" and "e_imm e = []" and "grown env (Close_begin e) rs e1" and "relevant (e_dir e) p" and "p \<noteq> e_walPath e" and "fs_get (e_fs e1) p \<noteq> None"
  shows "p \<in> table_paths e1"
proof (cases "p \<in> fst ` set (next_table (Close_begin e) rs)")
  case True
  then show ?thesis using assms(3) by (auto simp: table_paths_listing grown_def)
next
  case False
  then have "fs_get (e_fs e) p \<noteq> None" using assms(3,6) relevant_ne_tmp [OF assms(4)] by (auto simp: grown_def)
  then have "p \<in> set (log_paths e) \<union> table_paths e" using assms(1,4) by (simp add: disk_inv_def owned_def)
  moreover have "log_paths e = [e_walPath e]" using assms(2) by (simp add: log_paths_def mem_logs_def)
  moreover have "listing (Close_begin e) = listing e" by (simp add: listing_def)
  ultimately show ?thesis using assms(3,5) by (auto simp: table_paths_listing grown_def)
qed

lemma Close_end_run:
  assumes "calm env e" and "disk_inv e" and "e_imm e = []" and "room_for env [DoFlush, DoFlush] e"
  shows "\<exists>e' x. Close_end env (Close_begin e) = (None, e') \<and> left_by env e x \<and> same_files (e_fs x) (e_fs e') \<and>
    e_closed e' \<and> (\<forall>lt \<in> set (e_tables e'). tbl_released (e_heap e' ! lt_table lt))"
proof -
  obtain e1 where f: "final_flush env (Close_begin e) = (None, e1)" and g: "grown env (Close_begin e) (mem_versions e) e1"
    using final_flush_run [OF assms(1,3,4)] by blast
  have eq1: "e1 = (Close_begin e)\<lparr>e_heap := e_heap e1, e_tables := e_tables e1, e_genCounter := e_genCounter e1, e_fs := e_fs e1\<rparr>"
    using g unfolding grown_def by (elim conjE)
  have S: "tables_inv env e1" "no_faults (e_fs e1)" "\<forall>p i. \<not> unreadable (e_fs e1) p i" using g by (simp_all add: grown_def settled_def)
  have f1: "e_dir e1 = e_dir e" "e_wal e1 = e_wal e" "e_walPath e1 = e_walPath e" "e_closed e1" by (subst eq1, simp)+
  have own1: "own_tables e1" using g assms(2) by (simp add: grown_def disk_inv_def own_tables_def)
  obtain d2 where c: "WAL_Close (e_wal e) (e_fs e1) = (None, d2)" "no_faults d2" "same_files (e_fs e1) d2"
    using WAL_Close_no_faults [OF S(2), of "e_wal e"] assms(1) by (auto simp: calm_def wal_ready_def)
  obtain r d3 where w: "WAL_Remove (e_walPath e) d2 = (r, d3)" "r = None \<or> r = Some ENotExist" "no_faults d3" "unreadable d3 = unreadable d2"
    and d3: "\<forall>q. fs_get d3 q = (if q = e_walPath e then None else fs_get d2 q)" by (rule WAL_Remove_run [OF c(2)])
  let ?x = "e1\<lparr>e_fs := d3\<rparr>"
  obtain h where wal: "e_walPath e = walFileName (e_dir e) h" using assms(1) by (auto simp: calm_def queue_wals_def gen_wal_def)
  have tab: "fs_get d3 p = fs_get (e_fs e1) p" if p: "p \<in> table_paths e1" for p
  proof -
    obtain l k where "p = sstFileName (e_dir e1) l k" by (rule table_path_entry [OF S(1) p])
    then have "p \<noteq> e_walPath e" unfolding wal f1(1) by (simp only: sst_ne_wal not_False_eq_True)
    then show ?thesis using d3 c(3) by (simp add: same_files_def)
  qed
  have "keeps_tables e1 d3" using tab w(4) c(3) by (simp add: keeps_tables_def table_paths_def same_files_def)
  then have X: "settled env ?x" using tables_inv_fs [OF S(1)] w(3,4) c(3) S(3) by (simp add: settled_def same_files_def)
  have own: "p \<in> table_paths e1" if p: "relevant (e_dir e) p" "fs_get d3 p \<noteq> None" for p
    by (rule flushed_owned [OF assms(2,3) g p(1)]) (use p(2) d3 c(3) in \<open>auto simp: same_files_def split: if_splits\<close>)
  have dir: "directory env ?x [] (e_fs ?x)"
    unfolding directory_def
  proof (intro conjI ballI allI impI)
    show "tables_inv env ?x" using X by (simp add: settled_def)
    show "generations ?x []" by (simp add: generations_def)
    show "fs_get (e_fs ?x) p \<noteq> None" if "p \<in> set [] \<union> table_paths ?x" for p using that tab table_paths_present [OF S(1)] by simp
    show "p \<in> set [] \<union> table_paths ?x" if "relevant (e_dir ?x) p \<and> fs_get (e_fs ?x) p \<noteq> None" for p using that own f1(1) by simp
  qed
  have tv: "table_versions env (Close_begin e) = table_versions env e" by (simp add: table_versions_def allTablesLocked_def)
  have "set (table_versions env ?x) = set (versions env e)" using g assms(3) by (auto simp: grown_def versions_def imm_versions_def tv)
  moreover have "unat (e_genCounter e1) \<le> unat (e_genCounter e) + 1" using g unat_incr [of "e_genCounter e"] by (auto simp: grown_def)
  then have "e_genCounter e1 < unboundedSeq" using assms(4) by (simp add: room_for_def word_less_nat_alt unbounded_unat)
  ultimately have L: "left_by env e ?x" using X dir f1(1) by (simp add: left_by_def)
  obtain hp d4 where z: "release_tables (e_tables e1) None ?x = (None, ?x\<lparr>e_heap := hp, e_fs := d4\<rparr>)" "same_files d3 d4" "\<forall>p \<in> lt_table ` set (e_tables e1). tbl_released (hp ! p)"
    using release_tables_run [of "e_tables e1" ?x] S(1) w(3) tables_held [OF S(1) own1] by (auto simp: tables_inv_def allTablesLocked_def)
  have "Close_end env (Close_begin e) = (None, ?x\<lparr>e_heap := hp, e_fs := d4\<rparr>)"
    using f c(1) w(1,2) z(1) f1 by (auto simp: Close_end_def on_fs_def)
  with L z f1(4) show ?thesis by (intro exI [of _ "?x\<lparr>e_heap := hp, e_fs := d4\<rparr>"] exI [of _ ?x]) simp
qed

section \<open>Opening the directory of a closed store\<close>

text \<open>
  The engine that opens the directory of a closed store: the tables hold the versions of \<open>w\<close>, the
  MemTable is new, the log is open and empty, and the sequence numbers start at 0.
\<close>

definition clean_start :: "env \<Rightarrow> EngineOption list \<Rightarrow> Engine \<Rightarrow> Engine \<Rightarrow> bool" where
  "clean_start env opts w e \<longleftrightarrow> serving env e \<and> store env e = store env w \<and> settled env e \<and> ready opts (e_dir w) e \<and>
     set (table_versions env e) = set (versions env w) \<and> e_seq e = 0 \<and> wal_ready e \<and> wal_path (e_wal e) = e_walPath e"

lemma reopen_closed:
  assumes "left_by env e x" and "einv env e" and "no_faults d" and "\<forall>p i. \<not> unreadable d p i"
    and "\<forall>p. fs_get d p = None \<longleftrightarrow> fs_get (e_fs x) p = None" and "\<forall>p \<in> table_paths x. fs_get d p = fs_get (e_fs x) p"
  shows "\<exists>e' d'. Engine_Open env (e_dir e) opts rnd durs d = (Inr e', d') \<and> clean_start env opts e e'"
proof -
  have X: "settled env x" "directory env x [] (e_fs x)" "e_dir x = e_dir e" "set (table_versions env x) = set (versions env e)" "e_genCounter x < unboundedSeq"
    using assms(1) by (simp_all add: left_by_def)
  have dir: "directory env x [] d" using X(2) assms(5) by (simp add: directory_def)
  have car: "carries d x" using assms(3,4,6) by (simp add: carries_def)
  obtain s b e1 where o: "Engine_Open env (e_dir x) opts rnd durs d = Open_start env s b" "ds_wals s = []"
    "open_tables (ds_ssts s) (b\<lparr>e_genCounter := ds_maxGen s\<rparr>) = (None, e1)" and t: "tables_open env opts x d e1" by (rule open_directory [OF dir car])
  have S1: "settled env e1" "set (table_versions env e1) = set (versions env e)" using t X(4) by (simp_all add: tables_open_def)
  have g: "e_genCounter e1 < unboundedSeq" using t X(5) by (auto simp: tables_open_def intro: le_less_trans)
  have rec: "recoverFromWALs env (ds_wals s) e1 = (None, e1)" using o(2) by (simp add: recoverFromWALs_def)
  obtain e' where e': "Open_start env s b = (Inr e', e_fs e')" "settled env e'" "ready opts (e_dir x) e'" "table_versions env e' = table_versions env e1" "e_seq e' = e_seq e1"
    using Open_start_ready [OF t o(3) rec S1(1) g] by auto
  let ?p = "walFileName (e_dir e1) (e_genCounter e1 + 1)"
  have T: "same_files d (e_fs e1)" "e_dir e1 = e_dir x" "e_seq e1 = 0" using t by (simp_all add: tables_open_def)
  have "fs_get (e_fs e1) ?p = None"
  proof (rule ccontr)
    assume "fs_get (e_fs e1) ?p \<noteq> None"
    then have "?p \<in> table_paths x" using dir T(1,2) wal_relevant unfolding directory_def same_files_def by auto
    then show False using table_path_entry [of env x] X(1) sst_ne_wal T(2) unfolding settled_def by metis
  qed
  then obtain e4 r where e4: "Open_start env s b = (Inr e4, e_fs e4)" "synced ?p [] (e_fs e4)"
    and eq4: "e4 = e1\<lparr>e_genCounter := e_genCounter e1 + 1, e_fs := e_fs e4, e_mems := e_mems e1 @ [MemTable_New r],
      e_wal := \<lparr>wal_w = bufio_NewWriter, wal_path = ?p\<rparr>, e_walPath := ?p, e_mem := length (e_mems e1)\<rparr>"
    using Open_start_run [OF o(3) rec S1(1) g refl] by auto
  have "e4 = e'" using e4(1) e'(1) by simp
  moreover have "e_wal e4 = \<lparr>wal_w = bufio_NewWriter, wal_path = ?p\<rparr>" "e_walPath e4 = ?p" by (subst eq4, simp)+
  ultimately have log: "wal_ready e'" "wal_path (e_wal e') = e_walPath e'"
    using e4(2) by (auto simp: wal_ready_def synced_def bufio_NewWriter_def)
  have coh: "coherent (set (versions env e))" using assms(2) by (simp add: einv_def seqs_inv_def)
  then have s: "serving env e'" using ready_serving [OF e'(2,3)] e'(4) S1(2) by simp
  have "set (versions env e') = set (versions env e)" using ready_versions [OF e'(3), of env] e'(4) S1(2) by simp
  then have "reads (versions env e') key q = reads (versions env e) key q" for key q using coh by (intro reads_cong) simp_all
  then have "store env e' = store env e" by (simp add: store_def [abs_def])
  then have "clean_start env opts e e'" using s e'(2-5) log T(3) S1(2) X(3) by (auto simp: clean_start_def)
  with e'(1) o(1) X(3) show ?thesis by auto
qed

lemma reopen_after_close:
  assumes "left_by env e x" and "einv env e" and "same_files (e_fs x) d" and "d' = d \<or> d' = reboot back (\<lambda>_. Done) d"
  shows "\<exists>e' d2. Engine_Open env (e_dir e) opts rnd durs d' = (Inr e', d2) \<and> clean_start env opts e e'"
proof (rule reopen_closed [OF assms(1,2)])
  have X: "tables_inv env x" "no_faults (e_fs x)" "\<forall>p i. \<not> unreadable (e_fs x) p i" using assms(1) by (simp_all add: left_by_def settled_def)
  have d: "no_faults d" "unreadable d = unreadable (e_fs x)" "\<And>p. fs_get d p = fs_get (e_fs x) p" using assms(3) X(2) by (simp_all add: same_files_def)
  show "no_faults d'" "\<forall>p i. \<not> unreadable d' p i" using assms(4) d X(3) by (auto simp: reboot_def no_faults_def)
  show "\<forall>p. fs_get d' p = None \<longleftrightarrow> fs_get (e_fs x) p = None" using assms(4) d(3) by (auto simp: fs_get_reboot)
  have "fs_get (reboot back (\<lambda>_. Done) d) p = fs_get (e_fs x) p" if p: "p \<in> table_paths x" for p
  proof -
    obtain b where "synced p b (e_fs x)" using p X(1) by (auto simp: table_paths_def tables_inv_def table_held_def table_file_def table_at_def)
    then have "synced p b d" using d(3) by (simp add: synced_def)
    from synced_reboot [OF this] this show ?thesis using d(3) by (simp add: synced_def)
  qed
  then show "\<forall>p \<in> table_paths x. fs_get d' p = fs_get (e_fs x) p" using assms(4) d(3) by auto
qed

text \<open>Closing a store and opening its directory again, at once or after a power cut\<close>

lemma close_reopens:
  assumes "calm env e" and "disk_inv e" and "room_for env (replicate (length (e_flushCh e)) DoFlush @ replicate passes DoCompact @ [DoFlush, DoFlush]) e"
  shows "\<exists>e1. Engine_Close env passes e = (None, e1) \<and> e_closed e1 \<and> (\<forall>g. fs_get (e_fs e1) (walFileName (e_dir e) g) = None) \<and>
    (\<forall>lt \<in> set (e_tables e1). tbl_released (e_heap e1 ! lt_table lt)) \<and> (\<forall>p i. \<not> unreadable (e_fs e1) p i) \<and>
    (\<forall>d1 bk opts' rnd' durs'. d1 \<in> {e_fs e1, reboot bk (\<lambda>_. Done) (e_fs e1)} \<longrightarrow> (\<exists>e2 d2. Engine_Open env (e_dir e) opts' rnd' durs' d1 = (Inr e2, d2) \<and>
       clean_start env opts' (compactionLoop_turns env passes (flushWorker_drain env (e_flushCh e) e)) e2 \<and> store env e2 = store env e))"
proof -
  define w where "w = compactionLoop_turns env passes (flushWorker_drain env (e_flushCh e) e)"
  have W: "calm env w" "disk_inv w" "e_imm w = []" "store env w = store env e" "e_dir w = e_dir e" "room_for env [DoFlush, DoFlush] w"
    using workers_end [OF assms w_def] by auto
  have E: "einv env w" and up: "\<not> e_closed e" using W(1) assms(1) by (simp_all add: calm_def einv_def)
  obtain e1 x where x: "Close_end env (Close_begin w) = (None, e1)" "left_by env w x" "same_files (e_fs x) (e_fs e1)" "e_closed e1"
    "\<forall>lt \<in> set (e_tables e1). tbl_released (e_heap e1 ! lt_table lt)" using Close_end_run [OF W(1-3,6)] by blast
  have close: "Engine_Close env passes e = (None, e1)" using x(1) up by (simp add: Engine_Close_def drain_closing passes_closing w_def)
  have "fs_get (e_fs e1) (walFileName (e_dir e) g) = None" for g
  proof (rule ccontr)
    assume "fs_get (e_fs e1) (walFileName (e_dir e) g) \<noteq> None"
    then have "walFileName (e_dir e) g \<in> table_paths x"
      using x(2,3) wal_relevant W(5) unfolding left_by_def directory_def same_files_def by auto
    then show False using table_path_entry [of env x] x(2) sst_ne_wal W(5) unfolding left_by_def settled_def by metis
  qed
  moreover have "\<exists>e2 d2. Engine_Open env (e_dir e) opts' rnd' durs' d1 = (Inr e2, d2) \<and> clean_start env opts' w e2 \<and> store env e2 = store env e"
    if d1: "d1 \<in> {e_fs e1, reboot bk (\<lambda>_. Done) (e_fs e1)}" for d1 bk opts' rnd' durs'
    using reopen_after_close [OF x(2) E x(3), of d1 bk opts' rnd' durs'] d1 W(4,5) by (auto simp: clean_start_def)
  moreover have "\<forall>p i. \<not> unreadable (e_fs e1) p i" using x(2,3) by (simp add: left_by_def settled_def same_files_def)
  ultimately show ?thesis using close x(4,5) unfolding w_def by blast
qed

lemma clean_start_Get: "clean_start env opts w e \<Longrightarrow> key \<noteq> [] \<Longrightarrow> fst (Get env key e) = answer (store env e key)"
  using Get_serving by (simp add: clean_start_def)

lemma close_run:
  assumes "calm env e" and "disk_inv e" and "room_for env (replicate (length (e_flushCh e)) DoFlush @ replicate passes DoCompact @ [DoFlush, DoFlush]) e"
  shows "\<exists>e1. Engine_Close env passes e = (None, e1) \<and> e_closed e1 \<and> (\<forall>g. fs_get (e_fs e1) (walFileName (e_dir e) g) = None) \<and>
    (\<forall>lt \<in> set (e_tables e1). tbl_released (e_heap e1 ! lt_table lt)) \<and>
    (\<forall>d1 bk opts' rnd' durs'. d1 \<in> {e_fs e1, reboot bk (\<lambda>_. Done) (e_fs e1)} \<longrightarrow> (\<exists>e2 d2. Engine_Open env (e_dir e) opts' rnd' durs' d1 = (Inr e2, d2) \<and>
       (\<forall>key. key \<noteq> [] \<longrightarrow> fst (Get env key e2) = answer (store env e key))))"
  using close_reopens [OF assms] clean_start_Get by (elim exE conjE) (metis (no_types, lifting))

text \<open>The first put of a reopened store gets the number 1 and goes to the new MemTable.\<close>

lemma first_put:
  assumes "clean_start env opts w e" and "key \<noteq> []" and "int (length key + length v + 48) < sint (e_flushThreshold e)" and "Put key v e = (r, e')"
  obtains rnd wl d e1 where "r = None" and "e1 = e\<lparr>e_seq := 1, e_wal := wl, e_fs := d, e_mems := [MemTable_Put (MemTable_New rnd) key v 1]\<rparr>"
    and "e' = Inc (em_putTotal (e_m e1)) (Observe (em_writeLatency (e_m e1)) e1)"
proof -
  have C: "settled env e" "ready opts (e_dir w) e" "e_seq e = 0" "wal_ready e" "wal_path (e_wal e) = e_walPath e"
    using assms(1) by (simp_all add: clean_start_def)
  then obtain rnd where M: "e_mems e = [MemTable_New rnd]" "e_mem e = 0" "\<not> e_closed e" by (auto simp: ready_def)
  let ?rec = "\<lparr>wr_type = RecordPut, wr_key = key, wr_value = v, wr_seq = 1\<rparr>" and ?m = "MemTable_Put (MemTable_New rnd) key v 1"
  obtain f where f: "fs_get (e_fs e) (wal_path (e_wal e)) = Some f" using C(4,5) by (auto simp: wal_ready_def)
  obtain wl d where a: "WAL_Append (e_wal e) ?rec (e_fs e) = (None, wl, d)"
    using WAL_Append_no_faults [of "e_fs e" "e_wal e" f ?rec] C(1,4) f by (auto simp: wal_ready_def settled_def)
  let ?n = "length key + length v + 48"
  have "int ?n < 2 ^ 63" using assms(3) sint_lt [of "e_flushThreshold e"] by simp
  then have n: "?n < 2 ^ 63" by (metis of_nat_less_iff of_nat_numeral of_nat_power)
  have "MemTable_Size ?m = of_nat ?n" by (simp add: MemTable_Size_def MemTable_Put_def MemTable_New_def entryOverhead_def)
  then have "sint (MemTable_Size ?m) < sint (e_flushThreshold e)" using sint_of_nat_u64 [OF n] assms(3) by simp
  then have "engine_write key v RecordPut e = (None, e\<lparr>e_seq := 1, e_wal := wl, e_fs := d, e_mems := [?m]\<rparr>)"
    using M a C(3) by (simp add: engine_write_def)
  with that [OF _ refl] assms(2,4) show thesis by (auto simp: Put_def)
qed

text \<open>A version with a number below those of all others of its key changes no read.\<close>

lemma lower_version_hidden:
  assumes "set vs' = insert n (set vs)" and "coherent (set vs')" and "x \<in> set vs" and "visible key q x"
    and "\<forall>y \<in> set vs. rec_key y = key \<longrightarrow> rec_seq n < rec_seq y"
  shows "reads vs' key q = reads vs key q"
proof -
  obtain b where b: "best_in (set vs) key q b" "reads vs key q = value_of b" using best_in_reads by blast
  obtain z r' where z: "b = Some r'" "newest_of (set vs) key q z" "same_version z r'"
    using b(1) assms(3,4) by (cases b) (auto simp: best_in_def)
  have "rec_seq n < rec_seq z" using z(2) assms(5) by (auto simp: newest_of_def visible_def)
  then have "newest_of (set vs') key q z" using z(2) unfolding assms(1) newest_of_def by auto
  then have "best_in (set vs') key q b" using z by (auto simp: best_in_def)
  from reads_best [OF assms(2) this] b(2) show ?thesis by simp
qed

lemma put_below_tables:
  assumes "clean_start env opts w e" and "key \<noteq> []" and "x \<in> set (table_versions env e)" and "rec_key x = key"
    and "\<forall>y \<in> set (table_versions env e). rec_key y = key \<longrightarrow> 1 < rec_seq y"
    and "int (length key + length v + 48) < sint (e_flushThreshold e)" and "Put key v e = (r, e')"
  shows "r = None \<and> fst (Get env key e') = fst (Get env key e)"
proof -
  obtain rnd wl d e1 where e': "r = None" "e' = Inc (em_putTotal (e_m e1)) (Observe (em_writeLatency (e_m e1)) e1)"
    and e1: "e1 = e\<lparr>e_seq := 1, e_wal := wl, e_fs := d, e_mems := [MemTable_Put (MemTable_New rnd) key v 1]\<rparr>"
    by (rule first_put [OF assms(1,2,6,7)])
  have C: "serving env e" "ready opts (e_dir w) e" using assms(1) by (simp_all add: clean_start_def)
  then have M: "e_mem e = 0" "e_imm e = []" by (auto simp: ready_def)
  let ?m = "MemTable_Put (MemTable_New rnd) key v 1" and ?new = "new_version RecordPut key v 1"
  note fields = e'(2) e1 Inc_def Observe_def allTablesLocked_def
  have "set (buildRecords (MemTable_New rnd)) = {}" using in_buildRecords [OF mt_inv_New, of _ rnd] by (auto simp: MemTable_Get_New)
  then have "set (buildRecords ?m) = {?new}" using write_mem_records [OF mt_inv_New, of RecordPut rnd key v 1] by (simp add: write_mem_def)
  then have V: "set (versions env e') = insert ?new (set (versions env e))" "versions env e = table_versions env e"
    using M ready_versions [OF C(2), of env] by (auto simp: fields versions_def mem_versions_def imm_versions_def table_versions_def)
  have new: "rec_key ?new = key" "rec_seq ?new = 1" by (simp_all add: new_version_def)
  have coh: "coherent (set (versions env e'))"
    using C(1) assms(5) new unfolding V(1) serving_def coherent_def V(2) by (metis insert_iff less_irrefl)
  have "serving env e'"
    using C(1) coh M unfolding serving_def mems_ok_def tables_ok_def refs_ok_def
    by (simp add: fields write_mem_inv [of _ RecordPut, unfolded write_mem_def, simplified])
  moreover have "visible key unboundedSeq x" using assms(4) unbounded_max by (simp add: visible_def)
  then have "store env e' key = store env e key"
    unfolding store_def using lower_version_hidden [OF V(1) coh] assms(3,5) new(2) V(2) by simp
  ultimately show ?thesis using Get_serving [OF _ assms(2)] C(1) e'(1) by simp
qed

text \<open>What a program that ended may find on the disk later: the files as they are, or what a power cut leaves of them.\<close>

definition later_disk :: "fs \<Rightarrow> fs \<Rightarrow> bool" where
  "later_disk d d1 \<longleftrightarrow> d1 = d \<or> (\<exists>lost stale keep. names_kept lost stale d \<and> d1 = power_cut lost stale keep (\<lambda>_. Done) d)"

lemma later_disk_cases: "later_disk d d1 \<Longrightarrow> \<exists>bk. d1 \<in> {d, reboot bk (\<lambda>_. Done) d}"
  using power_cut_names_kept by (auto simp: later_disk_def)

text \<open>The state a history on an empty directory leaves, ready to be closed.\<close>

lemma history_closes:
  assumes "env_ok env" and "no_faults d" and "\<forall>p i. \<not> unreadable d p i" and "dir_names dir d = []"
    and "2 \<le> e_maxLevels (configured opts)" and "e_maxLevels (configured opts) < 2 ^ 63" and "1 \<le> e_l0CompactionTrigger (configured opts)"
    and "Engine_Open env dir opts rnd durs d = (Inr e0, d')" and "history env (\<lambda>_. small_op) e0 ops e"
    and "2 * length ops + passes < 2 ^ 27" and "sum_list (map rec_weight (concat (map (op_records 0) ops))) < 2 ^ 47"
  shows "calm env e" and "store env e = foldl map_step Map.empty ops" and "disk_inv e" and "e_dir e = dir"
    and "room_for env (replicate (length (e_flushCh e)) DoFlush @ replicate passes DoCompact @ [DoFlush, DoFlush]) e"
proof -
  have c: "calm env e0" and v: "versions env e0 = []" and n: "e_seq e0 = 0" "e_genCounter e0 = 1"
    using Engine_Open_empty [OF assms(2,3,1,4-7)] assms(8) by (metis Inr_inject Pair_inject)+
  note D0 = Engine_Open_empty_disk [OF assms(2,3,1,4,8)]
  let ?ending = "replicate (length (e_flushCh e)) DoFlush @ replicate passes DoCompact @ [DoFlush, DoFlush]"
  have none: "concat (map (op_records 0) ?ending) = []" by simp
  have q: "length (e_flushCh e) \<le> length ops" using history_queue [OF assms(9)] no_versions_queue [OF c v] by simp
  have room: "room_for env (ops @ ?ending) e0" "room_for env ops e0" using assms(10,11) none q by (simp_all add: room_for_def v n)
  have "store env e0 = Map.empty" by (simp add: store_def [abs_def] v reads_def value_of_def)
  with history_refines [OF assms(9) c room(2)] show "calm env e" "store env e = foldl map_step Map.empty ops" by simp_all
  show "disk_inv e" "e_dir e = dir" "room_for env ?ending e" using history_disk [OF assms(9) c room(1) D0(1)] D0(2) by auto
qed


section \<open>Properties\<close>

text \<open>
  C3: A clean shutdown. Open an empty directory, run any sequence of puts, deletes, reads,
  snapshots, flushes and compaction passes with keys and values of at most 512 MiB, and close the
  store, whatever is queued and however many passes the compaction worker still makes. Close reports
  no error, leaves no log, and every table has given up its file. Opening the directory again
  succeeds, at once or after a power cut on a file system that keeps the names of the directory
  (the program does not sync it), and every read returns what a plain map with the same writes would.
\<close>

theorem close_then_open:
  assumes "env_ok env" and "no_faults d" and "\<forall>p i. \<not> unreadable d p i" and "dir_names dir d = []"
    and "2 \<le> e_maxLevels (configured opts)" and "e_maxLevels (configured opts) < 2 ^ 63" and "1 \<le> e_l0CompactionTrigger (configured opts)"
    and "Engine_Open env dir opts rnd durs d = (Inr e0, d')" and "history env (\<lambda>_. small_op) e0 ops e"
    and "2 * length ops + passes < 2 ^ 27" and "sum_list (map rec_weight (concat (map (op_records 0) ops))) < 2 ^ 47"
  shows "\<exists>e1. Engine_Close env passes e = (None, e1) \<and> e_closed e1 \<and> (\<forall>g. fs_get (e_fs e1) (walFileName dir g) = None) \<and>
    (\<forall>lt \<in> set (e_tables e1). tbl_released (e_heap e1 ! lt_table lt)) \<and>
    (\<forall>d1. later_disk (e_fs e1) d1 \<longrightarrow> (\<exists>e2 d2. Engine_Open env dir opts' rnd' durs' d1 = (Inr e2, d2) \<and>
       (\<forall>key. key \<noteq> [] \<longrightarrow> fst (Get env key e2) = answer (foldl map_step Map.empty ops key))))"
proof -
  note D = history_closes [OF assms]
  obtain e1 where c1: "Engine_Close env passes e = (None, e1)" "e_closed e1" "\<forall>g. fs_get (e_fs e1) (walFileName dir g) = None"
    "\<forall>lt \<in> set (e_tables e1). tbl_released (e_heap e1 ! lt_table lt)"
    and again: "\<And>d1 bk opts' rnd' durs'. d1 \<in> {e_fs e1, reboot bk (\<lambda>_. Done) (e_fs e1)} \<Longrightarrow> \<exists>e2 d2. Engine_Open env dir opts' rnd' durs' d1 = (Inr e2, d2) \<and>
       (\<forall>key. key \<noteq> [] \<longrightarrow> fst (Get env key e2) = answer (foldl map_step Map.empty ops key))"
    using close_run [OF D(1,3,5)] unfolding D(2,4) by (elim exE conjE) blast
  have "\<forall>d1. later_disk (e_fs e1) d1 \<longrightarrow> (\<exists>e2 d2. Engine_Open env dir opts' rnd' durs' d1 = (Inr e2, d2) \<and>
       (\<forall>key. key \<noteq> [] \<longrightarrow> fst (Get env key e2) = answer (foldl map_step Map.empty ops key)))"
    using again by (blast dest: later_disk_cases)
  with c1 show ?thesis by (intro exI [of _ e1] conjI)
qed

theorem close_then_open_witness:
  "\<exists>e0 d' e e1 e2 d2. Engine_Open demo_env ''db'' demo_opts (\<lambda>_ _. 0) (\<lambda>_. 0) demo_fs = (Inr e0, d') \<and>
     history demo_env (\<lambda>_. small_op) e0 [DoPut [1] [7], DoFlush, DoPut [2] [8], DoDelete [2]] e \<and>
     Engine_Close demo_env 1 e = (None, e1) \<and> (\<forall>g. fs_get (e_fs e1) (walFileName ''db'' g) = None) \<and>
     Engine_Open demo_env ''db'' demo_opts (\<lambda>_ _. 1) (\<lambda>_. 5) (power_cut (\<lambda>_. False) [] (\<lambda>_. 0) (\<lambda>_. Done) (e_fs e1)) = (Inr e2, d2) \<and>
     fst (Get demo_env [1] e2) = Inr [7] \<and> fst (Get demo_env [2] e2) = Inl ErrNotFound"
proof -
  obtain e0 d' e where o: "Engine_Open demo_env ''db'' demo_opts (\<lambda>_ _. 0) (\<lambda>_. 0) demo_fs = (Inr e0, d')"
    and h: "history demo_env (\<lambda>_. small_op) e0 [DoPut [1] [7], DoFlush, DoPut [2] [8], DoDelete [2]] e" by (rule demo_history)
  let ?ops = "[DoPut [1] [7], DoFlush, DoPut [2] [8], DoDelete [2]]"
  have "\<exists>e1. Engine_Close demo_env 1 e = (None, e1) \<and> e_closed e1 \<and> (\<forall>g. fs_get (e_fs e1) (walFileName ''db'' g) = None) \<and>
    (\<forall>lt \<in> set (e_tables e1). tbl_released (e_heap e1 ! lt_table lt)) \<and>
    (\<forall>d1. later_disk (e_fs e1) d1 \<longrightarrow> (\<exists>e2 d2. Engine_Open demo_env ''db'' demo_opts (\<lambda>_ _. 1) (\<lambda>_. 5) d1 = (Inr e2, d2) \<and>
       (\<forall>key. key \<noteq> [] \<longrightarrow> fst (Get demo_env key e2) = answer (foldl map_step Map.empty ?ops key))))"
    by (rule close_then_open [OF demo_env_ok demo_fs_no_faults demo_setup o h]) (simp_all add: rec_weight_def new_version_def)
  then obtain e1 where c: "Engine_Close demo_env 1 e = (None, e1)" "\<forall>g. fs_get (e_fs e1) (walFileName ''db'' g) = None"
    and again: "\<And>d1. later_disk (e_fs e1) d1 \<Longrightarrow> \<exists>e2 d2. Engine_Open demo_env ''db'' demo_opts (\<lambda>_ _. 1) (\<lambda>_. 5) d1 = (Inr e2, d2) \<and>
       (\<forall>key. key \<noteq> [] \<longrightarrow> fst (Get demo_env key e2) = answer (foldl map_step Map.empty ?ops key))" by blast
  have "later_disk (e_fs e1) (power_cut (\<lambda>_. False) [] (\<lambda>_. 0) (\<lambda>_. Done) (e_fs e1))"
    by (auto simp: later_disk_def names_kept_def)
  from again [OF this] obtain e2 d2 where
    r: "Engine_Open demo_env ''db'' demo_opts (\<lambda>_ _. 1) (\<lambda>_. 5) (power_cut (\<lambda>_. False) [] (\<lambda>_. 0) (\<lambda>_. Done) (e_fs e1)) = (Inr e2, d2)"
    and g: "\<And>key. key \<noteq> [] \<Longrightarrow> fst (Get demo_env key e2) = answer (foldl map_step Map.empty ?ops key)" by blast
  have "fst (Get demo_env [1] e2) = Inr [7]" "fst (Get demo_env [2] e2) = Inl ErrNotFound" using g [of "[1]"] g [of "[2]"] by (simp_all add: answer_def)
  with o h c r show ?thesis by (intro exI conjI) assumption+
qed



text \<open>A put that leaves the MemTable below its threshold\<close>

lemma put_stays:
  assumes "calm env e" and "counters_ok e" and "key_val_ok key v" and "Put key v e = (r, e')"
    and "sint (MemTable_Size (write_mem RecordPut (e_mems e ! e_mem e) key v (e_seq e + 1))) < sint (e_flushThreshold e)"
  shows "calm env e'" and "e_flushCh e' = e_flushCh e" and "e_seq e' = e_seq e + 1" and "e_flushThreshold e' = e_flushThreshold e" and "e_genCounter e' = e_genCounter e"
    and "MemTable_Size (e_mems e' ! e_mem e') = MemTable_Size (write_mem RecordPut (e_mems e ! e_mem e) key v (e_seq e + 1))"
    and "imm_versions e' = imm_versions e" and "table_versions env e' = table_versions env e"
    and "set (mem_versions e') = insert (new_version RecordPut key v (e_seq e + 1)) {x \<in> set (mem_versions e). rec_key x \<noteq> key}"
proof -
  let ?m = "write_mem RecordPut (e_mems e ! e_mem e) key v (e_seq e + 1)"
  have M: "e_mem e < length (e_mems e)" "mt_inv (e_mems e ! e_mem e)" "e_mem e \<notin> im_mt ` set (e_imm e)"
    using assms(1) by (auto simp: calm_def einv_def mems_inv_def)
  then have other: "(e_mems e)[e_mem e := x] ! im_mt i = e_mems e ! im_mt i" if "i \<in> set (e_imm e)" for i x using that by (metis image_eqI nth_list_update_neq)
  obtain r1 e1 where w: "engine_write key v RecordPut e = (r1, e1)" by fastforce
  then obtain wl d where e1: "e1 = put_mem (e\<lparr>e_seq := e_seq e + 1, e_wal := wl, e_fs := d\<rparr>) ?m"
    by - (rule engine_write_run [OF assms(1) w], use assms(5) in simp)
  have e': "e' = Inc (em_putTotal (e_m e1)) (Observe (em_writeLatency (e_m e1)) e1)" using assms(3,4) w by (simp add: Put_def key_val_ok_def)
  show "calm env e'" using engine_write_calm(2) [OF assms(1-3) w] by (simp add: e')
  show "e_flushCh e' = e_flushCh e" "e_seq e' = e_seq e + 1" "e_flushThreshold e' = e_flushThreshold e" "e_genCounter e' = e_genCounter e"
    "MemTable_Size (e_mems e' ! e_mem e') = MemTable_Size ?m" "table_versions env e' = table_versions env e"
    using M(1) by (simp_all add: e' e1 put_mem_def Inc_def Observe_def table_versions_def allTablesLocked_def)
  show "imm_versions e' = imm_versions e" by (auto simp: e' e1 put_mem_def Inc_def Observe_def imm_versions_def other intro!: arg_cong [of _ _ concat])
  show "set (mem_versions e') = insert (new_version RecordPut key v (e_seq e + 1)) {x \<in> set (mem_versions e). rec_key x \<noteq> key}"
    using write_mem_records [OF M(2), of RecordPut key v "e_seq e + 1"] M(1) by (simp add: e' e1 put_mem_def Inc_def Observe_def mem_versions_def)
qed

text \<open>
  C36: A reopened store may ignore a put. Close the store of any history and open its directory again:
  the sequence numbers start at 0, whatever numbers the records of the tables have. A put of a key
  whose versions in the tables all have higher numbers than 1 is acknowledged (the MemTable staying
  below its threshold), and a read of the key still returns what it returned before the put.
\<close>

theorem reopened_store_ignores_put:
  assumes "env_ok env" and "no_faults d" and "\<forall>p i. \<not> unreadable d p i" and "dir_names dir d = []"
    and "2 \<le> e_maxLevels (configured opts)" and "e_maxLevels (configured opts) < 2 ^ 63" and "1 \<le> e_l0CompactionTrigger (configured opts)"
    and "Engine_Open env dir opts rnd durs d = (Inr e0, d')" and "history env (\<lambda>_. small_op) e0 ops e"
    and "2 * length ops + passes < 2 ^ 27" and "sum_list (map rec_weight (concat (map (op_records 0) ops))) < 2 ^ 47"
    and "Engine_Close env passes e = (err, e1)" and "Engine_Open env dir opts' rnd' durs' (e_fs e1) = (Inr e2, d2)"
    and "key \<noteq> []" and "x \<in> set (table_versions env e2)" and "rec_key x = key"
    and "\<forall>y \<in> set (table_versions env e2). rec_key y = key \<longrightarrow> 1 < rec_seq y"
    and "int (length key + length v + 48) < sint (e_flushThreshold (configured opts'))" and "Put key v e2 = (r, e3)"
  shows "e_seq e2 = 0 \<and> r = None \<and> fst (Get env key e3) = answer (foldl map_step Map.empty ops key)"
proof -
  note D = history_closes [OF assms(1-11)]
  obtain e2' d2' where "Engine_Open env dir opts' rnd' durs' (e_fs e1) = (Inr e2', d2')" "\<exists>w. clean_start env opts' w e2'" "store env e2' = store env e"
    using close_reopens [OF D(1,3,5)] assms(12) unfolding D(4) by (elim exE conjE) (simp, blast)
  with assms(13) obtain w where w: "clean_start env opts' w e2" "store env e2 = store env e" by auto
  have "e_seq e2 = 0" using w(1) by (simp add: clean_start_def)
  moreover have "int (length key + length v + 48) < sint (e_flushThreshold e2)"
    using w(1) assms(18) by (simp add: clean_start_def ready_def levels_config_def)
  note put_below_tables [OF w(1) assms(14-17) this assms(19)]
  moreover have "fst (Get env key e2) = answer (foldl map_step Map.empty ops key)"
    using clean_start_Get [OF w(1) assms(14)] w(2) D(2) by simp
  ultimately show ?thesis by simp
qed

text \<open>Two puts with the default options stay in the first MemTable.\<close>

lemma demo_two_puts:
  obtains e0 d' e where "Engine_Open demo_env ''db'' [] (\<lambda>_ _. 0) (\<lambda>_. 0) demo_fs = (Inr e0, d')"
    and "history demo_env (\<lambda>_. small_op) e0 [DoPut [1] [7], DoPut [2] [8]] e" and "e_flushCh e = []"
    and "set (versions demo_env e) = {new_version RecordPut [2] [8] 2, new_version RecordPut [1] [7] 1}"
proof -
  obtain e0 d' where o: "Engine_Open demo_env ''db'' [] (\<lambda>_ _. 0) (\<lambda>_. 0) demo_fs = (Inr e0, d')"
    and e0: "calm demo_env e0" "versions demo_env e0 = []" "e_seq e0 = 0" "e_genCounter e0 = 1" "MemTable_Size (e_mems e0 ! e_mem e0) = 0" "e_flushThreshold e0 = 4194304"
    by (rule Engine_Open_empty [OF demo_fs_no_faults demo_setup(1) demo_env_ok demo_setup(2) default_config(1-3)]) (use default_config(4) in auto)
  have k: "key_val_ok [1] [7]" "key_val_ok [2] [8]" by (simp_all add: key_val_ok_def)
  have small: "small_op (DoPut [1] [7])" "small_op (DoPut [2] [8])" by (simp_all add: small_op_def maxReasonableLen_def)
  obtain r1 e1 where p1: "Put [1] [7] e0 = (r1, e1)" by fastforce
  obtain r2 e2 where p2: "Put [2] [8] e1 = (r2, e2)" by fastforce
  have c0: "counters_ok e0" using e0 small_counters by (simp add: counters_ok_def)
  have s1: "MemTable_Size (write_mem RecordPut (e_mems e0 ! e_mem e0) [1] [7] (e_seq e0 + 1)) = 50"
    using e0(5) by (simp add: write_mem_def MemTable_Put_def MemTable_Size_def entryOverhead_def)
  have F1: "calm demo_env e1" "e_flushCh e1 = e_flushCh e0" "e_seq e1 = 1" "e_flushThreshold e1 = 4194304" "e_genCounter e1 = 1" "MemTable_Size (e_mems e1 ! e_mem e1) = 50"
    "imm_versions e1 = imm_versions e0" "table_versions demo_env e1 = table_versions demo_env e0" "set (mem_versions e1) = {new_version RecordPut [1] [7] 1}"
    using put_stays [OF e0(1) c0 k(1) p1] s1 e0(2-4,6) by (simp_all add: versions_def)
  have c1: "counters_ok e1" using F1 small_counters by (simp add: counters_ok_def)
  have s2: "MemTable_Size (write_mem RecordPut (e_mems e1 ! e_mem e1) [2] [8] (e_seq e1 + 1)) = 100"
    using F1(6) by (simp add: write_mem_def MemTable_Put_def MemTable_Size_def entryOverhead_def)
  have F2: "e_flushCh e2 = e_flushCh e1" "imm_versions e2 = imm_versions e1" "table_versions demo_env e2 = table_versions demo_env e1"
    "set (mem_versions e2) = insert (new_version RecordPut [2] [8] 2) {x \<in> set (mem_versions e1). rec_key x \<noteq> [2]}"
    using put_stays [OF F1(1) c1 k(2) p2] s2 F1(3,4) by simp_all
  have "history demo_env (\<lambda>_. small_op) e0 [DoPut [1] [7], DoPut [2] [8]] e2"
    by (rule history.more [where G = "\<lambda>_. small_op", OF small(1) engine_step.put [OF k(1) p1]])
      (rule history.more [where G = "\<lambda>_. small_op", OF small(2) engine_step.put [OF k(2) p2] history.start])
  moreover have "e_flushCh e2 = []" using F1(2) F2(1) no_versions_queue [OF e0(1,2)] by simp
  moreover have "set (versions demo_env e2) = {new_version RecordPut [2] [8] 2, new_version RecordPut [1] [7] 1}"
  proof -
    have "imm_versions e2 = []" "table_versions demo_env e2 = []" using F1(7,8) F2(2,3) e0(2) by (simp_all add: versions_def)
    moreover have "set (mem_versions e2) = {new_version RecordPut [2] [8] 2, new_version RecordPut [1] [7] 1}"
    proof -
      have "rec_key (new_version RecordPut [1] [7] 1) \<noteq> [2]" by (simp add: new_version_def)
      then show ?thesis unfolding F2(4) F1(9) by blast
    qed
    ultimately show ?thesis by (simp add: versions_def)
  qed
  ultimately show thesis using that o by blast
qed

theorem reopened_store_ignores_put_witness:
  "\<exists>e0 d' e e1 e2 d2 e3. Engine_Open demo_env ''db'' [] (\<lambda>_ _. 0) (\<lambda>_. 0) demo_fs = (Inr e0, d') \<and>
     history demo_env (\<lambda>_. small_op) e0 [DoPut [1] [7], DoPut [2] [8]] e \<and> Engine_Close demo_env 0 e = (None, e1) \<and>
     Engine_Open demo_env ''db'' [] (\<lambda>_ _. 1) (\<lambda>_. 5) (e_fs e1) = (Inr e2, d2) \<and> new_version RecordPut [2] [8] 2 \<in> set (table_versions demo_env e2) \<and>
     Put [2] [9] e2 = (None, e3) \<and> fst (Get demo_env [2] e3) = Inr [8]"
proof -
  obtain e0 d' e where o: "Engine_Open demo_env ''db'' [] (\<lambda>_ _. 0) (\<lambda>_. 0) demo_fs = (Inr e0, d')"
    and h: "history demo_env (\<lambda>_. small_op) e0 [DoPut [1] [7], DoPut [2] [8]] e" and q: "e_flushCh e = []"
    and v: "set (versions demo_env e) = {new_version RecordPut [2] [8] 2, new_version RecordPut [1] [7] 1}" by (rule demo_two_puts)
  have small: "2 * length [DoPut [1] [7], DoPut [2] [8]] + 0 < (2 :: nat) ^ 27" "sum_list (map rec_weight (concat (map (op_records 0) [DoPut [1] [7], DoPut [2] [8]]))) < 2 ^ 47"
    by (simp_all add: rec_weight_def new_version_def)
  note base = demo_env_ok demo_fs_no_faults demo_setup(1,2) default_config(1-3) o h small
  note D = history_closes [OF base]
  obtain e1 e2 d2 where c: "Engine_Close demo_env 0 e = (None, e1)" "Engine_Open demo_env ''db'' [] (\<lambda>_ _. 1) (\<lambda>_. 5) (e_fs e1) = (Inr e2, d2)" "clean_start demo_env [] e e2"
    using close_reopens [OF D(1,3,5)] unfolding D(4) q by (elim exE conjE) (simp, blast)
  have tv: "set (table_versions demo_env e2) = {new_version RecordPut [2] [8] 2, new_version RecordPut [1] [7] 1}" using c(3) v by (simp add: clean_start_def)
  have key: "[2] \<noteq> ([] :: bytes)" "new_version RecordPut [2] [8] 2 \<in> set (table_versions demo_env e2)" "rec_key (new_version RecordPut [2] [8] 2) = [2]"
    "\<forall>y \<in> set (table_versions demo_env e2). rec_key y = [2] \<longrightarrow> 1 < rec_seq y" unfolding tv by (auto simp: new_version_def)
  have fit: "int (length ([2] :: bytes) + length ([9] :: bytes) + 48) < sint (e_flushThreshold (configured []))" by (simp add: default_config(4))
  obtain r e3 where p: "Put [2] [9] e2 = (r, e3)" by fastforce
  have "r = None \<and> fst (Get demo_env [2] e3) = Inr [8]"
    using reopened_store_ignores_put [OF base c(1,2) key fit p] by (simp add: answer_def)
  then show ?thesis using o h c(1,2) key(2) p by blast
qed

end
