(* ===== verification/Program.thy ===== *)
theory Program
  imports Repl Shutdown
begin

text \<open>
  The program of \<^verbatim>\<open>src/main.go\<close> around the prompt: \<^verbatim>\<open>main\<close> with its flags, options, modes and
  deferred calls, the debug server, \<^verbatim>\<open>runServer\<close> and \<^verbatim>\<open>runBenchmark\<close>. What surrounds a run is a
  \<open>world\<close>: the input that is typed, the requests and signals that arrive, the random draws and the
  order in which goroutines take their turns. A request and an iteration of a benchmark worker are
  steps; between two of them the workers of the engine may take turns. What is printed is kept as
  the values that are formatted. The record \<open>flags\<close> holds what \<^verbatim>\<open>flag.Parse\<close> has left.
\<close>

section \<open>Definitions\<close>

subsection \<open>Flags\<close>

record flags =
  fl_dir :: string
  fl_bench :: bool
  fl_benchWorkers :: int
  fl_benchOps :: int
  fl_serve :: bool
  fl_addr :: string
  fl_debugAddr :: string
  fl_flushThreshold :: i64
  fl_l0Trigger :: int
  fl_baseLevelSize :: i64
  fl_levelMultiplier :: i64
  fl_compress :: bool
  fl_logJSON :: bool

definition default_flags :: flags where
  "default_flags =
     \<lparr>fl_dir = ''./kvstore-data'', fl_bench = False, fl_benchWorkers = 8, fl_benchOps = 50000, fl_serve = False, fl_addr = '':8080'',
      fl_debugAddr = '':6060'', fl_flushThreshold = 4 * 1024 * 1024, fl_l0Trigger = 4, fl_baseLevelSize = 2 * 1024 * 1024,
      fl_levelMultiplier = 10, fl_compress = False, fl_logJSON = False\<rparr>"

text \<open>The options of \<^verbatim>\<open>engine.Open\<close>; the logger is not part of the model.\<close>

definition main_options :: "flags \<Rightarrow> EngineOption list" where
  "main_options fl =
     [WithFlushThreshold (fl_flushThreshold fl), WithL0CompactionTrigger (fl_l0Trigger fl), WithBaseLevelSizeBytes (fl_baseLevelSize fl),
      WithLevelSizeMultiplier (fl_levelMultiplier fl), WithCompression (fl_compress fl)]"

datatype message =
    Typed printed | DebugListening string | OpenFailed string error | CloseFailed error | DebugShutdownFailed error
  | ServerListening string | ShuttingDown | ShutdownFailed error | ServerError error
  | BenchStart int int i64 | BenchTotals i64 i64 i64 | Throughput i64 | BenchFinal Stats

text \<open>
  The throughput is kept as the number that is divided by the measured time.
  How a mode ends: it returns, it panics in the goroutine of \<^verbatim>\<open>main\<close>, or another goroutine panics.
\<close>

datatype ending = Returns | Unwinds | Dies

subsection \<open>The debug server\<close>

text \<open>The handlers of \<^verbatim>\<open>net/http/pprof\<close> are a parameter, by the name of their route.\<close>

definition pprof_routes :: "string list" where
  "pprof_routes = [''cmdline'', ''profile'', ''symbol'', ''trace'']"

text \<open>\<^verbatim>\<open>ServeMux\<close> sends a client that asks for the subtree without its last slash there.\<close>

definition redirect_slash :: "Request \<Rightarrow> statusRecorder \<Rightarrow> statusRecorder" where
  "redirect_slash r w =
     (let w1 = sr_Set ''Location'' ''/debug/pprof/'' w;
          w2 = (if match_method ''GET'' (rq_Method r) then sr_Set ''Content-Type'' ''text/html; charset=utf-8'' w1 else w1);
          w3 = statusRecorder_WriteHeader 301 w2
      in if rq_Method r = ''GET'' then sr_Write (Text (''<a href=\"/debug/pprof/\">Moved Permanently</a>.'' @ [CHR 0x0A, CHR 0x0A])) w3 else w3)"

definition handle_metrics :: "(rat \<Rightarrow> string) \<Rightarrow> Registry \<Rightarrow> statusRecorder \<Rightarrow> statusRecorder" where
  "handle_metrics ff reg w = sr_Write (Text (Registry_Render ff reg)) (sr_Set ''Content-Type'' ''text/plain; version=0.0.4'' w)"

definition startDebugServer ::
  "(rat \<Rightarrow> string) \<Rightarrow> (string \<Rightarrow> Request \<Rightarrow> statusRecorder \<Rightarrow> statusRecorder) \<Rightarrow> Registry \<Rightarrow> Request \<Rightarrow> statusRecorder \<Rightarrow> statusRecorder" where
  "startDebugServer ff pprof reg r w =
     (case rq_Path r of
        [p] \<Rightarrow> if p = asc ''metrics''
               then if match_method ''GET'' (rq_Method r) then handle_metrics ff reg w
                    else http_Error (Text ''Method Not Allowed'') StatusMethodNotAllowed w
               else http_Error (Text ''404 page not found'') StatusNotFound w
      | [p, q] \<Rightarrow> if p = asc ''debug'' \<and> q = asc ''pprof'' then redirect_slash r w
                  else http_Error (Text ''404 page not found'') StatusNotFound w
      | p # q # s # ps \<Rightarrow>
          if p = asc ''debug'' \<and> q = asc ''pprof''
          then case find (\<lambda>n. s # ps = [asc n]) pprof_routes of Some n \<Rightarrow> pprof n r w | None \<Rightarrow> pprof '''' r w
          else http_Error (Text ''404 page not found'') StatusNotFound w
      | _ \<Rightarrow> http_Error (Text ''404 page not found'') StatusNotFound w)"

subsection \<open>The server\<close>

text \<open>
  What happens to the server: a request arrives, a worker takes a turn, a signal arrives (with what
  \<^verbatim>\<open>Shutdown\<close> returns then), or listening fails. A handler that panics is stopped by \<^verbatim>\<open>net/http\<close>, its
  response is \<open>None\<close>.
\<close>

datatype server_event = Arrives Request | ServerTurn bool | Interrupted "error option" | ListenFailed error

fun serve_loop :: "env \<Rightarrow> server_event list \<Rightarrow> Server \<Rightarrow> (message list \<times> ResponseWriter option list \<times> Server) option" where
  "serve_loop env [] s = None"
| "serve_loop env (Arrives r # evs) s =
     (let (w, s1) = ServeHTTP env r s in map_option (\<lambda>(out, ws, s2). (out, w # ws, s2)) (serve_loop env evs s1))"
| "serve_loop env (ServerTurn t # evs) s = serve_loop env evs (s\<lparr>sv_e := worker_turn env (sv_e s) t\<rparr>)"
| "serve_loop env (Interrupted r # evs) s = Some (ShuttingDown # (case r of None \<Rightarrow> [] | Some x \<Rightarrow> [ShutdownFailed x]), [], s)"
| "serve_loop env (ListenFailed x # evs) s = Some ([ServerError x], [], s)"

definition runServer :: "env \<Rightarrow> string \<Rightarrow> server_event list \<Rightarrow> Engine \<Rightarrow> (message list \<times> ResponseWriter option list \<times> Engine) option" where
  "runServer env addr evs e =
     map_option (\<lambda>(out, ws, s). (ServerListening addr # out, ws, sv_e s)) (serve_loop env evs (Server_New e))"

subsection \<open>The benchmark\<close>

record bench =
  bn_e :: Engine
  bn_puts :: i64
  bn_gets :: i64
  bn_errors :: i64
  bn_done :: "nat \<Rightarrow> nat"

text \<open>The draws of one iteration: the number of the key, the coin, and the bytes of the value.\<close>

type_synonym draw = "nat \<times> nat \<times> bytes"

definition bench_key :: "nat \<Rightarrow> nat \<Rightarrow> bytes" where
  "bench_key w n = asc (''bench-worker-'' @ Itoa (int w) @ ''-key-'' @ Itoa (int n))"

text \<open>The flag says whether the goroutine goes on or has panicked.\<close>

definition bench_op :: "env \<Rightarrow> nat \<Rightarrow> draw \<Rightarrow> bench \<Rightarrow> bool \<times> bench" where
  "bench_op env w dr st =
     (let (n, coin, val) = dr; key = bench_key w n
      in if coin < 7
         then case Put key val (bn_e st) of
                (Some err, e1) \<Rightarrow> if errors_Is err EPanic then (False, st\<lparr>bn_e := e1\<rparr>)
                                  else (True, st\<lparr>bn_e := e1, bn_errors := bn_errors st + 1\<rparr>)
              | (None, e1) \<Rightarrow> (True, st\<lparr>bn_e := e1, bn_puts := bn_puts st + 1\<rparr>)
         else case Get env key (bn_e st) of
                (Inl err, e1) \<Rightarrow> if errors_Is err EPanic then (False, st\<lparr>bn_e := e1\<rparr>)
                                 else if err \<noteq> ErrNotFound then (True, st\<lparr>bn_e := e1, bn_errors := bn_errors st + 1\<rparr>)
                                 else (True, st\<lparr>bn_e := e1, bn_gets := bn_gets st + 1\<rparr>)
              | (Inr v, e1) \<Rightarrow> (True, st\<lparr>bn_e := e1, bn_gets := bn_gets st + 1\<rparr>))"

text \<open>Whose turn it is: a worker of the benchmark or one of the engine.\<close>

datatype bench_turn = Iterate nat | EngineTurn bool

fun bench_loop :: "env \<Rightarrow> int \<Rightarrow> int \<Rightarrow> (nat \<Rightarrow> nat \<Rightarrow> draw) \<Rightarrow> bench_turn list \<Rightarrow> bench \<Rightarrow> bool \<times> bench" where
  "bench_loop env workers opsPerWorker draws [] st = (True, st)"
| "bench_loop env workers opsPerWorker draws (EngineTurn t # ts) st =
     bench_loop env workers opsPerWorker draws ts (st\<lparr>bn_e := worker_turn env (bn_e st) t\<rparr>)"
| "bench_loop env workers opsPerWorker draws (Iterate w # ts) st =
     (let i = bn_done st w
      in if int w < workers \<and> int i < opsPerWorker
         then case bench_op env w (draws w i) st of
                (False, st1) \<Rightarrow> (False, st1)
              | (True, st1) \<Rightarrow> bench_loop env workers opsPerWorker draws ts (st1\<lparr>bn_done := (bn_done st1)(w := i + 1)\<rparr>)
         else bench_loop env workers opsPerWorker draws ts st)"

text \<open>\<open>None\<close>: the turns are used up and \<^verbatim>\<open>wg.Wait\<close> still waits.\<close>

definition runBenchmark ::
  "env \<Rightarrow> int \<Rightarrow> int \<Rightarrow> (nat \<Rightarrow> nat \<Rightarrow> draw) \<Rightarrow> bench_turn list \<Rightarrow> Engine \<Rightarrow> (ending \<times> message list \<times> Engine) option" where
  "runBenchmark env workers opsPerWorker draws ts e =
     (let start = BenchStart workers opsPerWorker (of_int (workers * opsPerWorker))
      in if workers < 0 then Some (Unwinds, [start], e)
         else case bench_loop env workers opsPerWorker draws ts \<lparr>bn_e = e, bn_puts = 0, bn_gets = 0, bn_errors = 0, bn_done = (\<lambda>_. 0)\<rparr> of
                (False, st) \<Rightarrow> Some (Dies, [start], bn_e st)
              | (True, st) \<Rightarrow>
                  if list_all (\<lambda>w. opsPerWorker \<le> int (bn_done st w)) [0..<nat workers]
                  then let report = [start, BenchTotals (bn_puts st) (bn_gets st) (bn_errors st), Throughput (bn_puts st + bn_gets st)]
                       in case Engine_Stats (bn_e st) of
                            (Inl err, e1) \<Rightarrow> Some (Unwinds, report, e1)
                          | (Inr s, e1) \<Rightarrow> Some (Returns, report @ [BenchFinal s], e1)
                  else None)"

subsection \<open>The program\<close>

record world =
  in_rnd :: "nat \<Rightarrow> nat \<Rightarrow> int"
  in_durs :: "nat \<Rightarrow> i64"
  in_stdin :: bytes
  in_work :: "nat \<Rightarrow> bool list"
  in_events :: "server_event list"
  in_draws :: "nat \<Rightarrow> nat \<Rightarrow> draw"
  in_turns :: "bench_turn list"
  in_debugShutdown :: "error option"
  in_passes :: nat

record outcome =
  oc_out :: "message list"
  oc_responses :: "ResponseWriter option list"
  oc_code :: int
  oc_fs :: fs

definition run_mode :: "env \<Rightarrow> flags \<Rightarrow> world \<Rightarrow> Engine \<Rightarrow> (ending \<times> message list \<times> ResponseWriter option list \<times> Engine) option" where
  "run_mode env fl w e =
     (if fl_bench fl
      then map_option (\<lambda>(ending, out, e1). (ending, out, [], e1)) (runBenchmark env (fl_benchWorkers fl) (fl_benchOps fl) (in_draws w) (in_turns w) e)
      else if fl_serve fl
      then map_option (\<lambda>(out, ws, e1). (Returns, out, ws, e1)) (runServer env (fl_addr fl) (in_events w) e)
      else let (fl1, st) = runREPL env (in_work w) (fl_dir fl) (in_stdin w) e
           in Some (if fl1 = Panic then Unwinds else Returns, map Typed (rp_out st), [], rp_e st))"

text \<open>
  The deferred calls run in the reverse order: the debug server, then the store. They also run when the
  goroutine of \<^verbatim>\<open>main\<close> panics, and not when another one does.
\<close>

definition deferred :: "env \<Rightarrow> flags \<Rightarrow> world \<Rightarrow> ending \<Rightarrow> Engine \<Rightarrow> message list \<times> int \<times> fs" where
  "deferred env fl w ending e =
     (if ending = Dies then ([], 2, e_fs e)
      else let debug = (if fl_debugAddr fl = '''' then [] else case in_debugShutdown w of None \<Rightarrow> [] | Some x \<Rightarrow> [DebugShutdownFailed x]);
               code = (if ending = Unwinds then 2 else 0)
           in case Engine_Close env (in_passes w) e of
                (None, e1) \<Rightarrow> (debug, code, e_fs e1)
              | (Some err, e1) \<Rightarrow> if errors_Is err EPanic then (debug, 2, e_fs e1) else (debug @ [CloseFailed err], code, e_fs e1))"

definition main :: "env \<Rightarrow> flags \<Rightarrow> world \<Rightarrow> fs \<Rightarrow> outcome option" where
  "main env fl w d =
     (case Engine_Open env (fl_dir fl) (main_options fl) (in_rnd w) (in_durs w) d of
        (Inl err, d1) \<Rightarrow>
          Some \<lparr>oc_out = if errors_Is err EPanic then [] else [OpenFailed (fl_dir fl) err], oc_responses = [],
                oc_code = if errors_Is err EPanic then 2 else 1, oc_fs = d1\<rparr>
      | (Inr e, d1) \<Rightarrow>
          (case run_mode env fl w e of
             None \<Rightarrow> None
           | Some (ending, out, ws, e1) \<Rightarrow>
               let (msgs, code, d2) = deferred env fl w ending e1
               in Some \<lparr>oc_out = (if fl_debugAddr fl = '''' then [] else [DebugListening (fl_debugAddr fl)]) @ out @ msgs,
                        oc_responses = ws, oc_code = code, oc_fs = d2\<rparr>))"

section \<open>The debug server\<close>

text \<open>Outside the profiles a request gets the rendered registry, a redirect, or an error.\<close>

lemma debug_server_answers:
  assumes "drop 2 (rq_Path r) = []" and "w = startDebugServer ff pprof reg r fresh_recorder"
  shows "sr_status w = (if rq_Path r = [asc ''metrics''] then if match_method ''GET'' (rq_Method r) then StatusOK else StatusMethodNotAllowed
      else if rq_Path r = [asc ''debug'', asc ''pprof''] then 301 else StatusNotFound)"
    and "sr_status w = StatusOK \<Longrightarrow> rw_body (sr_w w) = [Text (Registry_Render ff reg)]"
proof -
  consider "rq_Path r = []" | p where "rq_Path r = [p]" | p q where "rq_Path r = [p, q]"
    using assms(1) by (cases "rq_Path r" rule: list.exhaust; cases "tl (rq_Path r)" rule: list.exhaust) auto
  note cs = this
  note defs = assms(2) startDebugServer_def handle_metrics_def redirect_slash_def http_Error_def statusRecorder_WriteHeader_def sr_Write_def sr_Set_def
    status_defs rw_Write_def rw_WriteHeader_def Header_Set_def rw_new_def
  from cs show "sr_status w = (if rq_Path r = [asc ''metrics''] then if match_method ''GET'' (rq_Method r) then StatusOK else StatusMethodNotAllowed
      else if rq_Path r = [asc ''debug'', asc ''pprof''] then 301 else StatusNotFound)" by cases (simp_all add: defs Let_def)
  from cs show "rw_body (sr_w w) = [Text (Registry_Render ff reg)]" if "sr_status w = StatusOK" using that by cases (auto simp: defs Let_def split: if_splits)
qed

section \<open>The end of a run\<close>

interpretation kept: steady env "\<lambda>e. disk_inv e \<and> e_dir e = dir" for env dir
proof unfold_locales
  show "disk_inv e' \<and> e_dir e' = dir"
    if "calm env e" "roomy env e" "disk_inv e \<and> e_dir e = dir" "small_op oper" "engine_step env e oper e'" for e oper e'
    using step_disk [OF that(1,2) _ that(4,5)] step_dir [OF that(5)] that(3) by simp
qed simp

text \<open>Every queued MemTable holds a version.\<close>

lemma queue_short:
  assumes "calm env e"
  shows "length (e_flushCh e) \<le> length (versions env e)"
proof -
  have Q: "map fj_mt (e_flushCh e) = map im_mt (e_imm e)" "\<forall>i \<in> set (e_imm e). buildRecords (e_mems e ! im_mt i) \<noteq> []"
    using assms by (auto simp: calm_def age_inv_def queue_inv_def irecs_def)
  have "length is \<le> length (concat (map f is))" if "\<forall>i \<in> set is. f i \<noteq> []" for "is" :: "immEntry list" and f :: "immEntry \<Rightarrow> Record list"
    using that
  proof (induction "is")
    case (Cons i "is")
    then show ?case by (cases "f i") simp_all
  qed simp
  from this [of "e_imm e" "\<lambda>i. buildRecords (e_mems e ! im_mt i)"] Q(2) have "length (e_imm e) \<le> length (imm_versions e)" by (simp add: imm_versions_def)
  moreover have "length (e_flushCh e) = length (e_imm e)" using map_eq_imp_length_eq [OF Q(1)] .
  ultimately show ?thesis by (simp add: versions_def)
qed

text \<open>A run that has kept room for \<open>K\<close> more steps can close the store.\<close>

lemma closing_room:
  assumes "calm env e" and "room_for env (replicate K DoFlush) e" and "2 ^ 28 \<le> K + S" and "2 * S + passes + 2 \<le> 2 ^ 28"
  shows "room_for env (replicate (length (e_flushCh e)) DoFlush @ replicate passes DoCompact @ [DoFlush, DoFlush]) e"
proof -
  let ?ending = "replicate (length (e_flushCh e)) DoFlush @ replicate passes DoCompact @ [DoFlush, DoFlush]"
  have none: "concat (map (op_records 0) ?ending) = []" "concat (map (op_records 0) (replicate K DoFlush)) = []" by simp_all
  have v: "length (versions env e) \<le> S" using assms(2,3) by (simp add: room_for_def)
  then have "length ?ending \<le> K" using queue_short [OF assms(1)] assms(3,4) by simp
  then show ?thesis using assms(2) none by (simp add: room_for_def)
qed

text \<open>
  Later starts of the program on the directory, at once or after a power cut that keeps the names
  of the directory, find the map \<open>m\<close>.
\<close>

definition left_on_disk :: "env \<Rightarrow> string \<Rightarrow> fs \<Rightarrow> (bytes \<Rightarrow> bytes option) \<Rightarrow> bool" where
  "left_on_disk env dir d m \<longleftrightarrow> (\<forall>g. fs_get d (walFileName dir g) = None) \<and>
     (\<forall>d1 opts rnd durs. later_disk d d1 \<longrightarrow> (\<exists>e d2. Engine_Open env dir opts rnd durs d1 = (Inr e, d2) \<and>
        (\<forall>key. key \<noteq> [] \<longrightarrow> fst (Get env key e) = answer (m key))))"

definition debug_messages :: "flags \<Rightarrow> world \<Rightarrow> message list" where
  "debug_messages fl w = (if fl_debugAddr fl = '''' then [] else case in_debugShutdown w of None \<Rightarrow> [] | Some x \<Rightarrow> [DebugShutdownFailed x])"

lemma deferred_run:
  assumes "calm env e" and "disk_inv e" and "room_for env (replicate K DoFlush) e" and "2 ^ 28 \<le> K + S" and "2 * S + in_passes w + 2 \<le> 2 ^ 28"
  shows "\<exists>d. deferred env fl w Returns e = (debug_messages fl w, 0, d) \<and> left_on_disk env (e_dir e) d (store env e)"
proof -
  obtain e1 where e1: "Engine_Close env (in_passes w) e = (None, e1)" "\<forall>g. fs_get (e_fs e1) (walFileName (e_dir e) g) = None"
    and again: "\<And>d1 bk opts rnd durs. d1 \<in> {e_fs e1, reboot bk (\<lambda>_. Done) (e_fs e1)} \<Longrightarrow> \<exists>e2 d2. Engine_Open env (e_dir e) opts rnd durs d1 = (Inr e2, d2) \<and>
       (\<forall>key. key \<noteq> [] \<longrightarrow> fst (Get env key e2) = answer (store env e key))"
    using close_run [OF assms(1,2) closing_room [OF assms(1,3-5)]] by (elim exE conjE) blast
  have "left_on_disk env (e_dir e) (e_fs e1) (store env e)"
    unfolding left_on_disk_def
  proof (intro conjI allI impI)
    show "fs_get (e_fs e1) (walFileName (e_dir e) g) = None" for g using e1(2) by simp
    show "\<exists>e' d2. Engine_Open env (e_dir e) opts rnd durs d1 = (Inr e', d2) \<and> (\<forall>key. key \<noteq> [] \<longrightarrow> fst (Get env key e') = answer (store env e key))"
      if "later_disk (e_fs e1) d1" for d1 opts rnd durs
      using later_disk_cases [OF that] again by blast
  qed
  then show ?thesis using e1(1) by (intro exI [of _ "e_fs e1"]) (simp add: deferred_def debug_messages_def Let_def)
qed

definition start_messages :: "flags \<Rightarrow> message list" where
  "start_messages fl = (if fl_debugAddr fl = '''' then [] else [DebugListening (fl_debugAddr fl)])"

text \<open>A state in which a mode starts on a new directory, and one in which it leaves the store.\<close>

definition starts :: "env \<Rightarrow> string \<Rightarrow> Engine \<Rightarrow> bool" where
  "starts env dir e \<longleftrightarrow> calm env e \<and> disk_inv e \<and> e_dir e = dir \<and> versions env e = [] \<and> e_seq e = 0 \<and> e_genCounter e = 1 \<and> e_maxLevels e = 7"

definition leaves :: "env \<Rightarrow> string \<Rightarrow> nat \<Rightarrow> (bytes \<Rightarrow> bytes option) \<Rightarrow> Engine \<Rightarrow> bool" where
  "leaves env dir K m e \<longleftrightarrow> calm env e \<and> disk_inv e \<and> e_dir e = dir \<and> room_for env (replicate K DoFlush) e \<and> store env e = m"

lemma main_opens:
  assumes "env_ok env" and "no_faults d" and "\<forall>p i. \<not> unreadable d p i" and "dir_names (fl_dir fl) d = []" and "1 \<le> fl_l0Trigger fl"
  shows "\<exists>e d1. Engine_Open env (fl_dir fl) (main_options fl) rnd durs d = (Inr e, d1) \<and> starts env (fl_dir fl) e"
proof -
  have cfg: "2 \<le> e_maxLevels (configured (main_options fl))" "e_maxLevels (configured (main_options fl)) < 2 ^ 63"
    "1 \<le> e_l0CompactionTrigger (configured (main_options fl))" "e_maxLevels (configured (main_options fl)) = 7"
    using assms(5) by (simp_all add: configured_def main_options_def blank_engine_def defaultMaxLevels_def)
  obtain e d1 where o: "Engine_Open env (fl_dir fl) (main_options fl) rnd durs d = (Inr e, d1)" and e: "calm env e" "versions env e = []" "e_seq e = 0" "e_genCounter e = 1"
    "e_maxLevels e = e_maxLevels (configured (main_options fl))" by (rule Engine_Open_empty [OF assms(2,3,1,4) cfg(1-3)]) blast
  with Engine_Open_empty_disk [OF assms(2,3,1,4) o] cfg(4) show ?thesis by (auto simp: starts_def)
qed

lemma starts_stands:
  assumes "starts env dir e" and "length steps + K \<le> 2 ^ 28" and "sum_list (map rec_weight (concat (map (op_records 0) steps))) < 2 ^ 47"
  shows "stands env (\<lambda>e. disk_inv e \<and> e_dir e = dir) (steps @ replicate K DoFlush) e Map.empty"
proof -
  have s: "calm env e" "disk_inv e" "e_dir e = dir" "versions env e = []" "e_seq e = 0" "e_genCounter e = 1" using assms(1) by (simp_all add: starts_def)
  have "store env e = Map.empty" by (simp add: store_def [abs_def] s(4) reads_def value_of_def)
  moreover have "room_for env (steps @ replicate K DoFlush) e" using assms(2,3) by (simp add: room_for_def s(4-6))
  ultimately show ?thesis using s(1-3) by (simp add: stands_def)
qed

text \<open>If the mode returns and leaves the map \<open>m\<close>, the program exits with code 0 and leaves it on the disk.\<close>

lemma main_run:
  assumes "Engine_Open env (fl_dir fl) (main_options fl) (in_rnd w) (in_durs w) d = (Inr e, d0)" and "run_mode env fl w e = Some (Returns, out, ws, e1)"
    and "leaves env (fl_dir fl) K m e1" and "2 ^ 28 \<le> K + S" and "2 * S + in_passes w + 2 \<le> 2 ^ 28"
  shows "\<exists>d1. main env fl w d = Some \<lparr>oc_out = start_messages fl @ out @ debug_messages fl w, oc_responses = ws, oc_code = 0, oc_fs = d1\<rparr> \<and>
    left_on_disk env (fl_dir fl) d1 m"
proof -
  have L: "calm env e1" "disk_inv e1" "room_for env (replicate K DoFlush) e1" "e_dir e1 = fl_dir fl" "store env e1 = m" using assms(3) by (simp_all add: leaves_def)
  from deferred_run [OF L(1-3) assms(4,5), of fl] obtain d1 where "deferred env fl w Returns e1 = (debug_messages fl w, 0, d1)" "left_on_disk env (fl_dir fl) d1 m"
    unfolding L(4,5) by blast
  then show ?thesis using assms(1,2) by (intro exI [of _ d1]) (simp add: main_def start_messages_def)
qed

section \<open>Sessions of the program\<close>

lemma session_leaves:
  assumes "starts env dir e" and "\<forall>l \<in> set (input_lines input). plain l" and "session (input_lines input) Map.empty = (os, m)"
    and "K + length (session_ops work 0 (input_lines input)) = 2 ^ 28" and "sum_list (map rec_weight (concat (map (op_records 0) (session_ops work 0 (input_lines input))))) < 2 ^ 47"
  shows "\<exists>st. runREPL env work dir input e = (Return, st) \<and> rp_out st = Ready dir # repl_usage @ os \<and> leaves env dir K m (rp_e st)"
proof -
  let ?st = "\<lparr>rp_snap = None, rp_e = e, rp_out = Ready dir # repl_usage\<rparr>" and ?ops = "session_ops work 0 (input_lines input)"
  let ?J = "\<lambda>e. disk_inv e \<and> e_dir e = dir"
  have "stands env ?J (?ops @ replicate K DoFlush) e Map.empty" by (rule starts_stands [OF assms(1)]) (use assms(4,5) in simp_all)
  then have "tracks env ?J (?ops @ replicate K DoFlush) ?st Map.empty" by (simp add: tracks_def)
  from kept.loop_tracks [OF this assms(2,3)] obtain st where "repl_loop env work 0 input ?st = (Return, st)" "tracks env ?J (replicate K DoFlush) st m"
    "rp_out st = rp_out ?st @ os" by blast
  then show ?thesis by (intro exI [of _ st]) (simp add: runREPL_def tracks_def stands_def leaves_def)
qed

section \<open>Benchmark runs\<close>

text \<open>The steps of the engine a benchmark makes, from the iterations its workers have already done.\<close>

definition draw_op :: "nat \<Rightarrow> draw \<Rightarrow> engine_op" where
  "draw_op w dr = (let (n, coin, val) = dr in if coin < 7 then DoPut (bench_key w n) val else DoGet (bench_key w n))"

fun bench_ops :: "int \<Rightarrow> int \<Rightarrow> (nat \<Rightarrow> nat \<Rightarrow> draw) \<Rightarrow> bench_turn list \<Rightarrow> (nat \<Rightarrow> nat) \<Rightarrow> engine_op list" where
  "bench_ops workers ops draws [] c = []"
| "bench_ops workers ops draws (EngineTurn t # ts) c = (if t then DoFlush else DoCompact) # bench_ops workers ops draws ts c"
| "bench_ops workers ops draws (Iterate w # ts) c =
     (if int w < workers \<and> int (c w) < ops then draw_op w (draws w (c w)) # bench_ops workers ops draws ts (c(w := c w + 1))
      else bench_ops workers ops draws ts c)"

fun is_put :: "engine_op \<Rightarrow> bool" where
  "is_put (DoPut key val) = True"
| "is_put oper = False"

text \<open>What \<^verbatim>\<open>rnd.Intn(1000)\<close> and the 64 bytes of a value allow.\<close>

definition draws_ok :: "(nat \<Rightarrow> nat \<Rightarrow> draw) \<Rightarrow> bool" where
  "draws_ok draws \<longleftrightarrow> (\<forall>w i. fst (draws w i) < 1000 \<and> length (snd (snd (draws w i))) = 64)"

lemma bench_key_ok:
  assumes "int w < 2 ^ 63" and "n < 1000"
  shows "bench_key w n \<noteq> []" and "length (bench_key w n) \<le> 60"
proof -
  have "length (dec w) \<le> 20" using assms(1) by (intro length_dec) simp_all
  moreover have "length (dec n) \<le> 3" using assms(2) by (intro length_dec) simp_all
  ultimately show "bench_key w n \<noteq> []" "length (bench_key w n) \<le> 60" by (simp_all add: bench_key_def asc_def Itoa_def)
qed

text \<open>The counters account for every iteration, whatever the store answers.\<close>

definition accounted :: "int \<Rightarrow> int \<Rightarrow> bench \<Rightarrow> bool" where
  "accounted workers ops st \<longleftrightarrow> bn_puts st + bn_gets st + bn_errors st = of_nat (\<Sum>w < nat workers. bn_done st w) \<and> (\<forall>w. bn_done st w \<le> nat ops)"

lemma bench_op_counts:
  "bench_op env w dr st = (True, st') \<Longrightarrow>
   bn_puts st' + bn_gets st' + bn_errors st' = bn_puts st + bn_gets st + bn_errors st + 1 \<and> bn_done st' = bn_done st"
  by (auto simp: bench_op_def Let_def split: prod.splits if_splits option.splits sum.splits)

lemma accounted_step:
  assumes "accounted workers ops st" and "bench_op env w dr st = (True, st')" and "int w < workers" and "int (bn_done st w) < ops"
  shows "accounted workers ops (st'\<lparr>bn_done := (bn_done st')(w := bn_done st w + 1)\<rparr>)"
proof -
  have w: "w \<in> {..<nat workers}" using assms(3) by simp
  have "(\<Sum>v < nat workers. ((bn_done st)(w := bn_done st w + 1)) v) = (\<Sum>v < nat workers. bn_done st v) + 1"
    using sum.remove [OF finite_lessThan w, of "bn_done st"] sum.remove [OF finite_lessThan w, of "(bn_done st)(w := bn_done st w + 1)"] by simp
  then show ?thesis using assms(1,4) bench_op_counts [OF assms(2)] by (simp add: accounted_def)
qed

lemma bench_accounts: "bench_loop env workers ops draws ts st = (True, st') \<Longrightarrow> accounted workers ops st \<Longrightarrow> accounted workers ops st'"
proof (induction env workers ops draws ts st rule: bench_loop.induct)
  case (2 env workers ops draws t ts st)
  then show ?case by (simp add: accounted_def)
next
  case (3 env workers ops draws w ts st)
  show ?case
  proof (cases "int w < workers \<and> int (bn_done st w) < ops")
    case True
    obtain b st1 where o: "bench_op env w (draws w (bn_done st w)) st = (b, st1)" by fastforce
    have b: "b" using "3.prems"(1) True o by (cases b) simp_all
    then have "accounted workers ops (st1\<lparr>bn_done := (bn_done st1)(w := bn_done st w + 1)\<rparr>)" using accounted_step [of workers ops st env w] "3.prems"(2) True o by simp
    with "3.IH"(1) [OF refl True o [symmetric]] "3.prems"(1) True o b show ?thesis by simp
  next
    case False
    with "3.IH"(2) [OF refl False] "3.prems" show ?thesis by simp
  qed
qed simp

text \<open>A worker that gets enough turns does all its iterations.\<close>

lemma bench_progress:
  "bench_loop env workers ops draws ts st = (True, st') \<Longrightarrow> int w < workers \<Longrightarrow> ops \<le> int (bn_done st w + count_list ts (Iterate w)) \<Longrightarrow> ops \<le> int (bn_done st' w)"
proof (induction env workers ops draws ts st rule: bench_loop.induct)
  case (3 env workers ops draws v ts st)
  show ?case
  proof (cases "int v < workers \<and> int (bn_done st v) < ops")
    case True
    obtain b st1 where o: "bench_op env v (draws v (bn_done st v)) st = (b, st1)" by fastforce
    have b: "b" using "3.prems"(1) True o by (cases b) simp_all
    have d: "bn_done st1 = bn_done st" using bench_op_counts [of env v _ st st1] o b by simp
    show ?thesis
      by (rule "3.IH"(1) [OF refl True o [symmetric]]) (use "3.prems" True o b d in \<open>auto split: if_splits\<close>)
  next
    case False
    show ?thesis by (rule "3.IH"(2) [OF refl False]) (use "3.prems" False in \<open>auto split: if_splits\<close>)
  qed
qed simp_all

text \<open>On a store that stands for a map no iteration fails.\<close>

context steady
begin

lemma bench_op_stands:
  assumes "stands env J (draw_op w dr # ops) (bn_e st) m" and "int w < 2 ^ 63" and "fst dr < 1000" and "length (snd (snd dr)) = 64"
  shows "\<exists>e. bench_op env w dr st = (True, st\<lparr>bn_e := e, bn_puts := bn_puts st + (if is_put (draw_op w dr) then 1 else 0),
      bn_gets := bn_gets st + (if is_put (draw_op w dr) then 0 else 1)\<rparr>) \<and> stands env J ops e (map_step m (draw_op w dr))"
proof -
  obtain n coin val where dr: "dr = (n, coin, val)" by (rule prod_cases3)
  let ?k = "bench_key w n"
  have k: "?k \<noteq> []" "length ?k \<le> 60" using bench_key_ok [of w n] assms(2,3) dr by simp_all
  show ?thesis
  proof (cases "coin < 7")
    case True
    then have op: "draw_op w dr = DoPut ?k val" by (simp add: draw_op_def dr)
    have kv: "key_val_ok ?k val" "small_op (DoPut ?k val)" using k assms(4) dr by (simp_all add: key_val_ok_def small_op_def maxReasonableLen_def)
    obtain r e where p: "Put ?k val (bn_e st) = (r, e)" by fastforce
    have T: "calm env (bn_e st)" "roomy env (bn_e st)" using assms(1) room_for_roomy by (auto simp: stands_def)
    have "r = None" using Put_calm(1) [OF T kv(1) p] .
    moreover have "stands env J ops e (map_step m (draw_op w dr))" using stands_step [OF assms(1) _ engine_step.put [OF kv(1) p, folded op]] kv(2) op by simp
    ultimately show ?thesis using p True by (intro exI [of _ e]) (simp add: bench_op_def dr draw_op_def)
  next
    case False
    then have op: "draw_op w dr = DoGet ?k" by (simp add: draw_op_def dr)
    obtain r e where g: "Get env ?k (bn_e st) = (r, e)" by fastforce
    have T: "calm env (bn_e st)" using assms(1) by (simp add: stands_def)
    have "r = Inl ErrNotFound \<or> (\<exists>v. r = Inr v)" using Get_calm(5) [OF T g] k(1) by (auto simp: answer_def split: option.splits)
    moreover have "stands env J ops e (map_step m (draw_op w dr))"
      using stands_step [OF assms(1) _ engine_step.get [OF g, folded op]] op by (simp add: small_op_def)
    ultimately show ?thesis using g False by (intro exI [of _ e]) (auto simp: bench_op_def dr draw_op_def)
  qed
qed

lemma bench_loop_stands:
  assumes "stands env J (bench_ops workers ops draws ts (bn_done st) @ later) (bn_e st) m" and "draws_ok draws" and "workers < 2 ^ 63"
  shows "\<exists>st'. bench_loop env workers ops draws ts st = (True, st') \<and> bn_errors st' = bn_errors st \<and>
    bn_puts st' = bn_puts st + of_nat (length (filter is_put (bench_ops workers ops draws ts (bn_done st)))) \<and>
    stands env J later (bn_e st') (foldl map_step m (bench_ops workers ops draws ts (bn_done st)))"
  using assms(1)
proof (induction ts arbitrary: st m)
  case (Cons t ts)
  show ?case
  proof (cases t)
    case (EngineTurn b)
    have "stands env J (bench_ops workers ops draws ts (bn_done st) @ later) (worker_turn env (bn_e st) b) m"
      by (rule stands_turn) (use Cons.prems EngineTurn in simp)
    with Cons.IH [of "st\<lparr>bn_e := worker_turn env (bn_e st) b\<rparr>" m] EngineTurn show ?thesis by (cases b) simp_all
  next
    case (Iterate w)
    show ?thesis
    proof (cases "int w < workers \<and> int (bn_done st w) < ops")
      case True
      let ?dr = "draws w (bn_done st w)" and ?c = "(bn_done st)(w := bn_done st w + 1)"
      have "stands env J (draw_op w ?dr # (bench_ops workers ops draws ts ?c @ later)) (bn_e st) m" using Cons.prems Iterate True by simp
      from bench_op_stands [OF this] True assms(2,3) obtain e where e: "bench_op env w ?dr st = (True, st\<lparr>bn_e := e, bn_puts := bn_puts st + (if is_put (draw_op w ?dr) then 1 else 0),
          bn_gets := bn_gets st + (if is_put (draw_op w ?dr) then 0 else 1)\<rparr>)" "stands env J (bench_ops workers ops draws ts ?c @ later) e (map_step m (draw_op w ?dr))"
        by (auto simp: draws_ok_def)
      let ?st = "st\<lparr>bn_e := e, bn_puts := bn_puts st + (if is_put (draw_op w ?dr) then 1 else 0),
          bn_gets := bn_gets st + (if is_put (draw_op w ?dr) then 0 else 1), bn_done := ?c\<rparr>"
      have f: "bn_done ?st = ?c" "bn_e ?st = e" "bn_errors ?st = bn_errors st" "bn_puts ?st = bn_puts st + (if is_put (draw_op w ?dr) then 1 else 0)" by simp_all
      have steps: "bench_ops workers ops draws (t # ts) (bn_done st) = draw_op w ?dr # bench_ops workers ops draws ts ?c" using Iterate True by simp
      have loop: "bench_loop env workers ops draws (t # ts) st = bench_loop env workers ops draws ts ?st" using e(1) Iterate True by simp
      obtain st' where "bench_loop env workers ops draws ts ?st = (True, st')" "bn_errors st' = bn_errors st"
        "bn_puts st' = bn_puts st + (if is_put (draw_op w ?dr) then 1 else 0) + of_nat (length (filter is_put (bench_ops workers ops draws ts ?c)))"
        "stands env J later (bn_e st') (foldl map_step (map_step m (draw_op w ?dr)) (bench_ops workers ops draws ts ?c))"
        using Cons.IH [of ?st "map_step m (draw_op w ?dr)"] e(2) unfolding f by blast
      then show ?thesis unfolding loop steps by (intro exI [of _ st']) simp
    next
      case False
      have steps: "bench_ops workers ops draws (t # ts) (bn_done st) = bench_ops workers ops draws ts (bn_done st)" using Iterate False by auto
      have loop: "bench_loop env workers ops draws (t # ts) st = bench_loop env workers ops draws ts st" using Iterate False by (auto simp: Let_def)
      from Cons.IH Cons.prems show ?thesis unfolding steps loop by blast
    qed
  qed
qed simp

end

text \<open>The whole benchmark, with what it leaves in the store\<close>

definition bench_report :: "int \<Rightarrow> int \<Rightarrow> engine_op list \<Rightarrow> message list \<Rightarrow> bool" where
  "bench_report workers ops steps out \<longleftrightarrow> (\<exists>p g s. out = [BenchStart workers ops (of_int (workers * ops)), BenchTotals p g 0, Throughput (p + g), BenchFinal s] \<and>
     p + g = of_int (workers * ops) \<and> p = of_nat (length (filter is_put steps)))"

lemma Stats_stands: "Engine_Stats e = (r, e') \<Longrightarrow> \<exists>reg. e' = e\<lparr>e_reg := reg\<rparr>"
  by (auto simp: Engine_Stats_def Let_def split: if_splits intro: exI [of _ "e_reg e"])

lemma benchmark_run:
  assumes "steady env J"
    and "stands env J (bench_ops workers ops draws ts (\<lambda>_. 0) @ later) e m" and "draws_ok draws" and "0 \<le> workers" and "workers < 2 ^ 63" and "0 \<le> ops"
    and "\<forall>w < nat workers. ops \<le> int (count_list ts (Iterate w))"
  shows "\<exists>out e'. runBenchmark env workers ops draws ts e = Some (Returns, out, e') \<and> bench_report workers ops (bench_ops workers ops draws ts (\<lambda>_. 0)) out \<and>
    stands env J later e' (foldl map_step m (bench_ops workers ops draws ts (\<lambda>_. 0)))"
proof -
  let ?st = "\<lparr>bn_e = e, bn_puts = 0, bn_gets = 0, bn_errors = 0, bn_done = (\<lambda>_. 0)\<rparr>" and ?steps = "bench_ops workers ops draws ts (\<lambda>_. 0)"
  obtain st where st: "bench_loop env workers ops draws ts ?st = (True, st)" "bn_errors st = 0" "bn_puts st = of_nat (length (filter is_put ?steps))"
    "stands env J later (bn_e st) (foldl map_step m ?steps)"
    using steady.bench_loop_stands [OF assms(1), of workers ops draws ts ?st later m] assms(2,3,5) by auto
  have "accounted workers ops ?st" using assms(6) by (simp add: accounted_def)
  note A = bench_accounts [OF st(1) this]
  have fin: "ops \<le> int (bn_done st w)" if "w < nat workers" for w
    by (rule bench_progress [OF st(1)]) (use that assms(7) in auto)
  have "bn_done st w = nat ops" if "w < nat workers" for w
  proof (rule antisym)
    show "bn_done st w \<le> nat ops" using A by (simp add: accounted_def)
    show "nat ops \<le> bn_done st w" using fin [OF that] by simp
  qed
  then have "(\<Sum>w < nat workers. bn_done st w) = nat workers * nat ops" by simp
  moreover have "of_nat (nat workers * nat ops) = (of_int (workers * ops) :: i64)" using assms(4,6) by (simp add: of_nat_nat)
  ultimately have total: "bn_puts st + bn_gets st = of_int (workers * ops)" using A st(2) by (simp add: accounted_def)
  have "0 \<le> e_maxLevels (bn_e st)" using st(4) by (simp add: stands_def calm_def age_inv_def levels_bounded_def)
  then obtain s e' where s: "Engine_Stats (bn_e st) = (Inr s, e')" by (auto simp: Engine_Stats_def Let_def)
  obtain reg where reg: "e' = (bn_e st)\<lparr>e_reg := reg\<rparr>" using Stats_stands [OF s] by blast
  have "stands env J later e' (foldl map_step m ?steps)" using st(4) steady.count_keeps(3) [OF assms(1)] by (simp add: reg stands_def store_def [abs_def] room_for_def)
  moreover have "runBenchmark env workers ops draws ts e =
      Some (Returns, [BenchStart workers ops (of_int (workers * ops)), BenchTotals (bn_puts st) (bn_gets st) 0, Throughput (bn_puts st + bn_gets st), BenchFinal s], e')"
    using st(1,2) fin assms(4) s by (simp add: runBenchmark_def list_all_iff Let_def)
  ultimately show ?thesis using total st(3) unfolding bench_report_def by blast
qed

section \<open>Server runs\<close>

text \<open>The steps of the engine a request makes\<close>

fun request_ops :: "route \<Rightarrow> Request \<Rightarrow> engine_op list" where
  "request_ops PutKV r = (if length (rq_Body r) > maxRequestBody \<or> rq_BodyErr r \<noteq> None then [] else [DoPut (PathValue_key r) (rq_Body r)])"
| "request_ops GetKV r = [DoGet (PathValue_key r)]"
| "request_ops DeleteKV r = [DoDelete (PathValue_key r)]"
| "request_ops h r = []"

definition request_steps :: "Request \<Rightarrow> engine_op list" where
  "request_steps r = (case route_of r of None \<Rightarrow> [] | Some h \<Rightarrow> request_ops h r)"

fun event_ops :: "server_event list \<Rightarrow> engine_op list" where
  "event_ops [] = []"
| "event_ops (Arrives r # evs) = request_steps r @ event_ops evs"
| "event_ops (ServerTurn t # evs) = (if t then DoFlush else DoCompact) # event_ops evs"
| "event_ops (x # evs) = []"

text \<open>
  The answers of a plain map to the requests up to the end of the server, each with its request and
  the map that answered it, and the map then.
\<close>

fun served :: "server_event list \<Rightarrow> (bytes \<Rightarrow> bytes option) \<Rightarrow> (Request \<times> int \<times> expected \<times> (bytes \<Rightarrow> bytes option)) list \<times> (bytes \<Rightarrow> bytes option)" where
  "served [] m = ([], m)"
| "served (Arrives r # evs) m =
     (let (st, ex, m1) = http_answer r m; (rs, m2) = served evs m1 in ((r, st, ex, m) # rs, m2))"
| "served (ServerTurn t # evs) m = served evs m"
| "served (x # evs) m = ([], m)"

fun stop_messages :: "server_event list \<Rightarrow> message list option" where
  "stop_messages [] = None"
| "stop_messages (Interrupted r # evs) = Some (ShuttingDown # (case r of None \<Rightarrow> [] | Some x \<Rightarrow> [ShutdownFailed x]))"
| "stop_messages (ListenFailed x # evs) = Some [ServerError x]"
| "stop_messages (x # evs) = stop_messages evs"

text \<open>A response is the expected one: its status, and its body as a well-formed engine with that map sends it.\<close>

definition responds :: "env \<Rightarrow> ResponseWriter option \<Rightarrow> Request \<times> int \<times> expected \<times> (bytes \<Rightarrow> bytes option) \<Rightarrow> bool" where
  "responds env w a \<longleftrightarrow> (case a of (r, st, ex, m) \<Rightarrow>
     \<exists>x hdr e. w = Some x \<and> rw_sent x = Some (st, hdr) \<and> calm env e \<and> store env e = m \<and> sends r ex e (rw_body x))"

context steady
begin

lemma handle_stands:
  assumes "stands env J (request_ops h r @ ops) e m" and "routed r h" and "within_header_limit r"
  shows "stands env J ops (snd (handle h env r fresh_recorder e)) (snd (snd (http_spec h r m)))"
proof (cases h)
  case PutKV
  let ?k = "PathValue_key r" and ?v = "rq_Body r"
  show ?thesis
  proof (cases "length ?v > maxRequestBody \<or> rq_BodyErr r \<noteq> None")
    case True
    then have "snd (handle h env r fresh_recorder e) = e" "snd (snd (http_spec h r m)) = m"
      using PutKV by (auto simp: handlePut_def ReadAll_limited_def split: option.splits)
    with assms(1) PutKV True show ?thesis by simp
  next
    case False
    have k: "?k \<noteq> []" "length ?k \<le> 2 ^ 20 + 4096" using assms(2) PutKV kv_path_key key_within_limit [OF _ assms(3)] by (auto simp: routed_iff)
    have kv: "key_val_ok ?k ?v" "small_op (DoPut ?k ?v)"
      using False k by (simp_all add: key_val_ok_def small_op_def maxReasonableLen_def maxRequestBody_def)
    obtain x e1 where p: "Put ?k ?v e = (x, e1)" by fastforce
    have "snd (handle h env r fresh_recorder e) = e1" using False PutKV p by (auto simp: handlePut_def ReadAll_limited_def split: option.splits)
    moreover have "snd (snd (http_spec h r m)) = map_step m (DoPut ?k ?v)" using False PutKV by simp
    ultimately show ?thesis using stands_step [OF _ kv(2) engine_step.put [OF kv(1) p], of ops m] assms(1) False PutKV by simp
  qed
next
  case GetKV
  obtain x e1 where g: "Get env (PathValue_key r) e = (x, e1)" by fastforce
  have "snd (handle h env r fresh_recorder e) = e1" using GetKV g by (simp add: handleGet_def split: sum.split)
  moreover have "snd (snd (http_spec h r m)) = m" using GetKV by (simp split: option.split)
  ultimately show ?thesis using stands_step [OF _ _ engine_step.get [OF g], of ops m] assms(1) GetKV by (simp add: small_op_def)
next
  case DeleteKV
  let ?k = "PathValue_key r"
  have k: "?k \<noteq> []" "length ?k \<le> 2 ^ 20 + 4096" using assms(2) DeleteKV kv_path_key key_within_limit [OF _ assms(3)] by (auto simp: routed_iff)
  have kv: "key_val_ok ?k []" "small_op (DoDelete ?k)" using k by (simp_all add: key_val_ok_def small_op_def maxReasonableLen_def)
  obtain x e1 where p: "Delete ?k e = (x, e1)" by fastforce
  have "snd (handle h env r fresh_recorder e) = e1" using DeleteKV p by (simp add: handleDelete_def split: option.split)
  then show ?thesis using stands_step [OF _ kv(2) engine_step.delete [OF kv(1) p], of ops m] assms(1) DeleteKV by simp
next
  case ScanR
  have c: "calm env e" and s: "store env e = m" using assms(1) by (simp_all add: stands_def)
  have m: "snd (snd (http_spec h r m)) = m" using ScanR by (simp split: sum.split)
  have "\<exists>p. snd (handle h env r fresh_recorder e) = e \<or> snd (handle h env r fresh_recorder e) = Inc p e"
  proof (cases "\<exists>limit. scan_limit r = Inr limit \<and> 0 \<le> limit")
    case True
    then obtain limit where l: "scan_limit r = Inr limit" "0 \<le> limit" by blast
    obtain res e1 where g: "Engine_Scan env (scan_bound ''start'' r) (scan_bound ''end'' r) e = (res, e1)" by fastforce
    from Engine_Scan_calm [OF c g, of limit] obtain it it1 out where "res = Inr it" "scan_loop env limit [] it = (Inr out, it1)"
      "snd (ScanIterator_Close it1 e1) = Inc (em_scanTotal (e_m e)) e" by blast
    then show ?thesis using ScanR l g by (intro exI [of _ "em_scanTotal (e_m e)"]) (simp add: handleScan_def Let_def split: prod.split)
  next
    case False
    then show ?thesis using ScanR by (auto simp: handleScan_def split: sum.split)
  qed
  then show ?thesis using assms(1) ScanR m count_keeps(1) by (auto simp: stands_def store_def [abs_def] room_for_def Inc_def)
next
  case StatsR
  obtain x e1 where x: "Engine_Stats e = (x, e1)" by fastforce
  obtain reg where reg: "e1 = e\<lparr>e_reg := reg\<rparr>" using Stats_stands [OF x] by blast
  have "snd (handle h env r fresh_recorder e) = e\<lparr>e_reg := reg\<rparr>" using StatsR x reg by (simp add: handleStats_def split: sum.split)
  then show ?thesis using assms(1) StatsR count_keeps(3) by (simp add: stands_def store_def [abs_def] room_for_def)
next
  case HealthzR
  then show ?thesis using assms(1) by (simp add: handleHealthz_def)
qed

end

context steady
begin

lemma request_stands:
  assumes "stands env J (request_steps r @ ops) (sv_e s) m" and "within_header_limit r" and "ops \<noteq> []" and "http_answer r m = (st, ex, m1)"
  shows "\<exists>w s1. ServeHTTP env r s = (w, s1) \<and> responds env w (r, st, ex, m) \<and> stands env J ops (sv_e s1) m1"
proof -
  have T: "calm env (sv_e s)" "store env (sv_e s) = m" using assms(1) by (simp_all add: stands_def)
  obtain oper rest where "request_steps r @ ops = oper # rest" using assms(3) by (cases "request_steps r @ ops") simp_all
  then have "roomy env (sv_e s)" using assms(1) room_for_roomy by (simp add: stands_def) metis
  from request_serves [OF T(1) this assms(2), unfolded T(2), OF assms(4)] obtain w s1 hdr
    where w: "ServeHTTP env r s = (Some w, s1)" "rw_sent w = Some (st, hdr)" "sends r ex (sv_e s) (rw_body w)" by auto
  have "stands env J ops (sv_e s1) m1"
  proof (cases "route_of r")
    case None
    with ServeHTTP_unrouted [of r env s m] w(1) assms(1,4) show ?thesis by (auto simp: request_steps_def)
  next
    case (Some h)
    have R: "routed r h" by (rule route_of_routed [OF Some])
    have "stands env J ops (snd (handle h env r fresh_recorder (sv_e s))) m1"
      using handle_stands [of h r ops "sv_e s" m] assms(1,2,4) R Some by (simp add: request_steps_def http_answer_def)
    moreover have "sv_e s1 = snd (handle h env r fresh_recorder (sv_e s))"
      using w(1) unfolding ServeHTTP_routed [OF R] withLogging_def by (auto split: prod.splits option.splits)
    ultimately show ?thesis by simp
  qed
  then show ?thesis using w T unfolding responds_def by (intro exI [of _ "Some w"] exI [of _ s1]) auto
qed

lemma serve_loop_stands:
  assumes "stands env J (event_ops evs @ ops) (sv_e s) m" and "\<forall>r. Arrives r \<in> set evs \<longrightarrow> within_header_limit r" and "ops \<noteq> []"
    and "served evs m = (rs, m')" and "stop_messages evs = Some out"
  shows "\<exists>ws s'. serve_loop env evs s = Some (out, ws, s') \<and> list_all2 (responds env) ws rs \<and> stands env J ops (sv_e s') m'"
  using assms
proof (induction evs arbitrary: s m rs)
  case (Cons x evs)
  show ?case
  proof (cases x)
    case (Arrives r)
    obtain st ex m1 where h: "http_answer r m = (st, ex, m1)" by (rule prod_cases3)
    obtain rs1 m2 where sv: "served evs m1 = (rs1, m2)" by (rule prod.exhaust)
    have rs: "rs = (r, st, ex, m) # rs1" "m' = m2" using Cons.prems(4) Arrives h sv by simp_all
    have "stands env J (request_steps r @ (event_ops evs @ ops)) (sv_e s) m" "within_header_limit r" using Cons.prems(1,2) Arrives by simp_all
    from request_stands [OF this _ h] Cons.prems(3) obtain w s1 where w: "ServeHTTP env r s = (w, s1)" "responds env w (r, st, ex, m)" "stands env J (event_ops evs @ ops) (sv_e s1) m1" by auto
    from Cons.IH [OF w(3) _ Cons.prems(3), of rs1] Cons.prems(2,5) Arrives sv rs(2) obtain ws s' where "serve_loop env evs s1 = Some (out, ws, s')" "list_all2 (responds env) ws rs1"
      "stands env J ops (sv_e s') m'" by auto
    then show ?thesis using Arrives w(1,2) rs(1) by (intro exI [of _ "w # ws"] exI [of _ s']) simp
  next
    case (ServerTurn t)
    have "stands env J (event_ops evs @ ops) (worker_turn env (sv_e s) t) m" by (rule stands_turn) (use Cons.prems(1) ServerTurn in simp)
    with Cons.IH [of "s\<lparr>sv_e := worker_turn env (sv_e s) t\<rparr>" m rs] Cons.prems ServerTurn show ?thesis by simp
  next
    case (Interrupted r)
    then show ?thesis using Cons.prems by (cases r) auto
  next
    case (ListenFailed y)
    then show ?thesis using Cons.prems by auto
  qed
qed simp

end

section \<open>Properties\<close>

text \<open>
  C9: A session of the program outlives it. Start it on an empty directory, type any lines that are
  not SNAPSHOT or STATS commands, whatever turns the workers take in between: it prints what the commands print on a plain map and exits with
  code 0. Its directory then holds no log, and every later start finds exactly the map that was typed,
  also when power is cut right after the exit on a file system that keeps the names of the directory,
  which the program does not sync.
\<close>

theorem program_session_persists:
  assumes "env_ok env" and "no_faults d" and "\<forall>p i. \<not> unreadable d p i" and "dir_names (fl_dir fl) d = []" and "1 \<le> fl_l0Trigger fl"
    and "\<not> fl_bench fl" and "\<not> fl_serve fl" and "lines = input_lines (in_stdin w)" and "\<forall>l \<in> set lines. plain l" and "session lines Map.empty = (os, m)"
    and "2 * length (session_ops (in_work w) 0 lines) + in_passes w < 2 ^ 27"
    and "sum_list (map rec_weight (concat (map (op_records 0) (session_ops (in_work w) 0 lines)))) < 2 ^ 47"
  shows "\<exists>d1. main env fl w d = Some \<lparr>oc_out = start_messages fl @ map Typed (Ready (fl_dir fl) # repl_usage @ os) @ debug_messages fl w,
      oc_responses = [], oc_code = 0, oc_fs = d1\<rparr> \<and> left_on_disk env (fl_dir fl) d1 m"
proof -
  let ?S = "length (session_ops (in_work w) 0 lines)"
  let ?K = "2 ^ 28 - ?S"
  have K: "?K + ?S = 2 ^ 28" "2 ^ 28 \<le> ?K + ?S" "2 * ?S + in_passes w + 2 \<le> 2 ^ 28" using assms(11) by simp_all
  obtain e d0 where e: "Engine_Open env (fl_dir fl) (main_options fl) (in_rnd w) (in_durs w) d = (Inr e, d0)" "starts env (fl_dir fl) e"
    using main_opens [OF assms(1-5)] by blast
  obtain st where st: "runREPL env (in_work w) (fl_dir fl) (in_stdin w) e = (Return, st)" "rp_out st = Ready (fl_dir fl) # repl_usage @ os"
    "leaves env (fl_dir fl) ?K m (rp_e st)" using session_leaves [OF e(2), of "in_stdin w" os m ?K "in_work w"] assms(8-10,12) K(1) by auto
  have "run_mode env fl w e = Some (Returns, map Typed (Ready (fl_dir fl) # repl_usage @ os), [], rp_e st)"
    using st(1,2) assms(6,7) by (simp add: run_mode_def)
  from main_run [OF e(1) this st(3) K(2,3)] show ?thesis by simp
qed

definition demo_flags :: flags where
  "demo_flags = default_flags\<lparr>fl_dir := ''db'', fl_flushThreshold := 1, fl_l0Trigger := 1\<rparr>"

definition demo_world :: world where
  "demo_world =
     \<lparr>in_rnd = (\<lambda>_ _. 0), in_durs = (\<lambda>_. 0), in_stdin = demo_input, in_work = (\<lambda>n. [n = 1]), in_events = [], in_draws = (\<lambda>_ _. (0, 0, [7])),
      in_turns = [], in_debugShutdown = None, in_passes = 3\<rparr>"

lemma demo_directory: "no_faults demo_fs" "\<forall>p i. \<not> unreadable demo_fs p i" "dir_names (fl_dir demo_flags) demo_fs = []" "1 \<le> fl_l0Trigger demo_flags"
  using demo_setup(1,2) demo_fs_no_faults by (simp_all add: demo_flags_def default_flags_def)

theorem program_session_persists_witness:
  "\<exists>d1 e d2. main demo_env demo_flags demo_world demo_fs =
     Some \<lparr>oc_out = DebugListening '':6060'' # map Typed (Ready ''db'' # repl_usage @ [Prompt False, OK, Prompt False, Quoted [98], Prompt False]),
       oc_responses = [], oc_code = 0, oc_fs = d1\<rparr> \<and>
     Engine_Open demo_env ''db'' [] (\<lambda>_ _. 0) (\<lambda>_. 0) d1 = (Inr e, d2) \<and> fst (Get demo_env [97] e) = Inr [98]"
proof -
  have w: "in_stdin demo_world = demo_input" "in_work demo_world = (\<lambda>n. [n = 1])" "in_passes demo_world = 3" "debug_messages demo_flags demo_world = []"
    "start_messages demo_flags = [DebugListening '':6060'']" "fl_dir demo_flags = ''db''" "\<not> fl_bench demo_flags" "\<not> fl_serve demo_flags"
    by (simp_all add: demo_world_def debug_messages_def start_messages_def demo_flags_def default_flags_def)
  have ops: "session_ops (in_work demo_world) 0 (input_lines demo_input) = [DoCompact, DoPut [97] [98], DoFlush, DoGet [97], DoCompact]"
    unfolding w(2) by (rule demo_session(3))
  have "\<exists>d1. main demo_env demo_flags demo_world demo_fs = Some \<lparr>oc_out = start_messages demo_flags @ map Typed (Ready (fl_dir demo_flags) # repl_usage @
      [Prompt False, OK, Prompt False, Quoted [98], Prompt False]) @ debug_messages demo_flags demo_world, oc_responses = [], oc_code = 0, oc_fs = d1\<rparr> \<and>
      left_on_disk demo_env (fl_dir demo_flags) d1 [[97] \<mapsto> [98]]"
    by (rule program_session_persists [OF demo_env_ok demo_directory w(7,8) refl])
      (simp_all add: w(1,3) ops demo_session(1,2) rec_weight_def new_version_def)
  then obtain d1 where d1: "main demo_env demo_flags demo_world demo_fs =
     Some \<lparr>oc_out = DebugListening '':6060'' # map Typed (Ready ''db'' # repl_usage @ [Prompt False, OK, Prompt False, Quoted [98], Prompt False]),
       oc_responses = [], oc_code = 0, oc_fs = d1\<rparr>" "left_on_disk demo_env ''db'' d1 [[97] \<mapsto> [98]]" unfolding w by auto
  obtain e d2 where "Engine_Open demo_env ''db'' [] (\<lambda>_ _. 0) (\<lambda>_. 0) d1 = (Inr e, d2)" "\<forall>key. key \<noteq> [] \<longrightarrow> fst (Get demo_env key e) = answer ([[97] \<mapsto> [98]] key)"
    using d1(2) unfolding left_on_disk_def later_disk_def by blast
  then show ?thesis using d1(1) by (intro exI [of _ d1] exI [of _ e] exI [of _ d2]) (simp add: answer_def)
qed

text \<open>
  C13: The benchmark accounts for every operation. Run it on an empty directory with any number of
  workers and operations, whatever the draws and in whatever order the goroutines take their turns: once
  every worker has had its turns it reports no error, as many puts as were drawn, and
  puts and gets that add up to workers times operations (in 64 bits); the program exits with code
  0 and leaves on the disk the map its puts built.
\<close>

theorem program_benchmark_accounts:
  assumes "env_ok env" and "no_faults d" and "\<forall>p i. \<not> unreadable d p i" and "dir_names (fl_dir fl) d = []" and "1 \<le> fl_l0Trigger fl"
    and "fl_bench fl" and "0 \<le> fl_benchWorkers fl" and "fl_benchWorkers fl < 2 ^ 63" and "0 \<le> fl_benchOps fl" and "draws_ok (in_draws w)"
    and "\<forall>i < nat (fl_benchWorkers fl). fl_benchOps fl \<le> int (count_list (in_turns w) (Iterate i))"
    and "steps = bench_ops (fl_benchWorkers fl) (fl_benchOps fl) (in_draws w) (in_turns w) (\<lambda>_. 0)"
    and "2 * length steps + in_passes w < 2 ^ 27" and "sum_list (map rec_weight (concat (map (op_records 0) steps))) < 2 ^ 47"
  shows "\<exists>out d1. main env fl w d = Some \<lparr>oc_out = start_messages fl @ out @ debug_messages fl w, oc_responses = [], oc_code = 0, oc_fs = d1\<rparr> \<and>
    bench_report (fl_benchWorkers fl) (fl_benchOps fl) steps out \<and> left_on_disk env (fl_dir fl) d1 (foldl map_step Map.empty steps)"
proof -
  let ?K = "2 ^ 28 - length steps" and ?J = "\<lambda>e. disk_inv e \<and> e_dir e = fl_dir fl"
  have K: "length steps + ?K = 2 ^ 28" "2 ^ 28 \<le> ?K + length steps" "2 * length steps + in_passes w + 2 \<le> 2 ^ 28" using assms(13) by simp_all
  obtain e d0 where e: "Engine_Open env (fl_dir fl) (main_options fl) (in_rnd w) (in_durs w) d = (Inr e, d0)" "starts env (fl_dir fl) e"
    using main_opens [OF assms(1-5)] by blast
  have S: "stands env ?J (steps @ replicate ?K DoFlush) e Map.empty" by (rule starts_stands [OF e(2)]) (use assms(14) K(1) in simp_all)
  obtain out e1 where out: "runBenchmark env (fl_benchWorkers fl) (fl_benchOps fl) (in_draws w) (in_turns w) e = Some (Returns, out, e1)"
    "bench_report (fl_benchWorkers fl) (fl_benchOps fl) steps out" "stands env ?J (replicate ?K DoFlush) e1 (foldl map_step Map.empty steps)"
    using benchmark_run [OF kept.steady_axioms S [unfolded assms(12)] assms(10,7-9,11), folded assms(12)] by auto
  have "leaves env (fl_dir fl) ?K (foldl map_step Map.empty steps) e1" using out(3) by (simp add: stands_def leaves_def)
  moreover have "run_mode env fl w e = Some (Returns, out, [], e1)" using out(1) assms(6) by (simp add: run_mode_def)
  ultimately show ?thesis using main_run [OF e(1) _ _ K(2,3)] out(2) by blast
qed

definition bench_flags :: flags where
  "bench_flags = demo_flags\<lparr>fl_bench := True, fl_benchWorkers := 2, fl_benchOps := 2, fl_debugAddr := ''''\<rparr>"

definition bench_world :: world where
  "bench_world = demo_world\<lparr>in_draws := (\<lambda>w i. (5, if i = 0 then 0 else 9, replicate 64 7)),
     in_turns := [Iterate 0, Iterate 1, EngineTurn True, Iterate 1, Iterate 1, Iterate 0]\<rparr>"

theorem program_benchmark_accounts_witness:
  "\<exists>s d1. main demo_env bench_flags bench_world demo_fs =
     Some \<lparr>oc_out = [BenchStart 2 2 4, BenchTotals 2 2 0, Throughput 4, BenchFinal s], oc_responses = [], oc_code = 0, oc_fs = d1\<rparr>"
proof -
  have f: "fl_dir bench_flags = ''db''" "fl_bench bench_flags" "fl_benchWorkers bench_flags = 2" "fl_benchOps bench_flags = 2" "1 \<le> fl_l0Trigger bench_flags"
    "start_messages bench_flags = []" "debug_messages bench_flags bench_world = []" "in_passes bench_world = 3"
    by (simp_all add: bench_flags_def demo_flags_def default_flags_def bench_world_def demo_world_def start_messages_def debug_messages_def)
  let ?steps = "bench_ops (fl_benchWorkers bench_flags) (fl_benchOps bench_flags) (in_draws bench_world) (in_turns bench_world) (\<lambda>_. 0)"
  let ?v = "replicate 64 7 :: bytes"
  have steps: "?steps = [DoPut (bench_key 0 5) ?v, DoPut (bench_key 1 5) ?v, DoFlush, DoGet (bench_key 1 5), DoGet (bench_key 0 5)]"
    by (simp add: f(3,4) bench_world_def draw_op_def)
  have k: "length (bench_key 0 5) \<le> 60" "length (bench_key 1 5) \<le> 60" by (rule bench_key_ok; simp)+
  have "\<exists>out d1. main demo_env bench_flags bench_world demo_fs =
      Some \<lparr>oc_out = start_messages bench_flags @ out @ debug_messages bench_flags bench_world, oc_responses = [], oc_code = 0, oc_fs = d1\<rparr> \<and>
      bench_report (fl_benchWorkers bench_flags) (fl_benchOps bench_flags) ?steps out \<and> left_on_disk demo_env (fl_dir bench_flags) d1 (foldl map_step Map.empty ?steps)"
  proof (rule program_benchmark_accounts [OF demo_env_ok demo_directory(1,2) _ f(5,2) _ _ _ _ _ refl])
    show "sum_list (map rec_weight (concat (map (op_records 0) ?steps))) < 2 ^ 47" using k unfolding steps by (simp add: rec_weight_def new_version_def)
    show "2 * length ?steps + in_passes bench_world < 2 ^ 27" unfolding steps by (simp add: f(8))
    show "\<forall>i < nat (fl_benchWorkers bench_flags). fl_benchOps bench_flags \<le> int (count_list (in_turns bench_world) (Iterate i))"
      unfolding f(3,4) by (auto simp: bench_world_def less_2_cases_iff)
  qed (use demo_setup(2) in \<open>simp_all add: f draws_ok_def bench_world_def\<close>)
  then obtain out d1 where out: "main demo_env bench_flags bench_world demo_fs = Some \<lparr>oc_out = out, oc_responses = [], oc_code = 0, oc_fs = d1\<rparr>" "bench_report 2 2 ?steps out"
    unfolding f(3,4,6,7) by auto
  from out(2) obtain g s where "out = [BenchStart 2 2 4, BenchTotals 2 g 0, Throughput (2 + g), BenchFinal s]" "2 + g = (4 :: i64)" unfolding bench_report_def steps by auto
  moreover from this(2) have "g = 2" by (simp add: add.commute flip: eq_diff_eq)
  ultimately show ?thesis using out(1) by auto
qed





end
